(* ===== verification/Kernel_Prelude.thy ===== *)
theory Kernel_Prelude
  imports Main "HOL-Library.Word"
begin

text \<open>
  Shared vocabulary of the development.

  \<^item> The C integer types of \<^verbatim>\<open>kernel/types.h\<close> as machine words.
  \<^item> The constants of \<^verbatim>\<open>kernel/param.h\<close>, \<^verbatim>\<open>kernel/fs.h\<close> and \<^verbatim>\<open>kernel/stat.h\<close>.
  \<^item> The kernel computation type \<open>kmon\<close>: a C function that reads and writes kernel state
    either returns a value and the new state, or stops (a call of \<^verbatim>\<open>panic\<close>, or a
    \<^verbatim>\<open>sleep\<close> on a channel that only another process can end).
  \<^item> The predicate \<open>wp\<close> used to reason about such computations, with one rewrite rule per
    combinator (collection \<open>wp_simps\<close>).
  \<^item> List lemmas shared by the components: slices of byte blocks, first match of a scan,
    counting.
\<close>

section \<open>Machine types and constants\<close>

type_synonym uchar = "8 word"
type_synonym ushort = "16 word"
type_synonym u32 = "32 word"
type_synonym u64 = "64 word"
type_synonym bytes = "uchar list"
type_synonym block = "uchar list"

definition NOFILE :: nat where "NOFILE = 16"
definition NFILE :: nat where "NFILE = 100"
definition NINODE :: nat where "NINODE = 50"
definition NDEV :: int where "NDEV = 10"
definition ROOTDEV :: u32 where "ROOTDEV = 1"
definition MAXOPBLOCKS :: nat where "MAXOPBLOCKS = 10"
definition LOGBLOCKS :: nat where "LOGBLOCKS = MAXOPBLOCKS * 3"
definition NBUF :: nat where "NBUF = MAXOPBLOCKS * 3"
definition MAXPATH :: nat where "MAXPATH = 128"
definition ROOTINO :: u32 where "ROOTINO = 1"
definition BSIZE :: nat where "BSIZE = 1024"

lemma BSIZE_pos [simp]: "0 < BSIZE"
  by (simp add: BSIZE_def)

section \<open>Kernel computations\<close>

text \<open>Wait channels: the addresses the code passes to \<^verbatim>\<open>sleep\<close> and \<^verbatim>\<open>wakeup\<close>.\<close>

datatype chan =
    ChanBuf nat
  | ChanInode nat
  | ChanLog
  | ChanPipeRead nat
  | ChanPipeWrite nat
  | ChanCons
  | ChanUart
  | ChanTicks
  | ChanDisk nat
  | ChanDesc
  | ChanProc nat
  | ChanMutex nat

text \<open>
  Why a computation does not return: a call of \<^verbatim>\<open>panic\<close>, a \<^verbatim>\<open>sleep\<close> that only another
  process can end, or a C access outside an array, whose effect the language leaves open.
\<close>

datatype stop = Panic string | Asleep chan | Fault string

type_synonym ('s, 'a) kmon = "'s \<Rightarrow> stop + ('a \<times> 's)"

definition ret :: "'a \<Rightarrow> ('s, 'a) kmon" where
  "ret x s = Inr (x, s)"

definition bindk :: "('s, 'a) kmon \<Rightarrow> ('a \<Rightarrow> ('s, 'b) kmon) \<Rightarrow> ('s, 'b) kmon" where
  "bindk f g s = (case f s of Inl e \<Rightarrow> Inl e | Inr (x, t) \<Rightarrow> g x t)"

definition thenk :: "('s, 'a) kmon \<Rightarrow> ('s, 'b) kmon \<Rightarrow> ('s, 'b) kmon" where
  "thenk f g = bindk f (\<lambda>_. g)"

definition panic :: "string \<Rightarrow> ('s, 'a) kmon" where
  "panic msg s = Inl (Panic msg)"

definition asleep :: "chan \<Rightarrow> ('s, 'a) kmon" where
  "asleep c s = Inl (Asleep c)"

definition fault :: "string \<Rightarrow> ('s, 'a) kmon" where
  "fault msg s = Inl (Fault msg)"

definition gets :: "('s \<Rightarrow> 'a) \<Rightarrow> ('s, 'a) kmon" where
  "gets f s = Inr (f s, s)"

definition modk :: "('s \<Rightarrow> 's) \<Rightarrow> ('s, unit) kmon" where
  "modk f s = Inr ((), f s)"

definition whenk :: "bool \<Rightarrow> ('s, unit) kmon \<Rightarrow> ('s, unit) kmon" where
  "whenk b f = (if b then f else ret ())"

lemma bindk_cong [fundef_cong]:
  assumes "f s = f' s" and "\<And>x t. f' s = Inr (x, t) \<Longrightarrow> g x t = g' x t" and "s = s'"
  shows "bindk f g s = bindk f' g' s'"
  using assms by (auto simp: bindk_def split: sum.splits)

lemma thenk_cong [fundef_cong]:
  assumes "f s = f' s" and "\<And>x t. f' s = Inr (x, t) \<Longrightarrow> g t = g' t" and "s = s'"
  shows "thenk f g s = thenk f' g' s'"
  using assms by (auto simp: thenk_def intro: bindk_cong)

lemma bindk_ret [simp]: "bindk (ret x) f = f x"
  by (rule ext) (simp add: bindk_def ret_def)

lemma bindk_assoc: "bindk (bindk f g) h = bindk f (\<lambda>x. bindk (g x) h)"
  by (rule ext) (simp add: bindk_def split: sum.splits)

subsection \<open>Weakest preconditions\<close>

definition wp :: "('s, 'a) kmon \<Rightarrow> 's \<Rightarrow> ('a \<Rightarrow> 's \<Rightarrow> bool) \<Rightarrow> bool" where
  "wp f s Q \<longleftrightarrow> (\<exists>x t. f s = Inr (x, t) \<and> Q x t)"

named_theorems wp_simps \<open>weakest preconditions of the combinators and operations\<close>

lemma wp_ret [wp_simps, simp]: "wp (ret x) s Q = Q x s"
  by (simp add: wp_def ret_def)

lemma wp_bindk [wp_simps, simp]: "wp (bindk f g) s Q = wp f s (\<lambda>x t. wp (g x) t Q)"
  by (auto simp: wp_def bindk_def split: sum.splits)

lemma wp_thenk [wp_simps, simp]: "wp (thenk f g) s Q = wp f s (\<lambda>_ t. wp g t Q)"
  by (simp add: thenk_def)

lemma wp_gets [wp_simps, simp]: "wp (gets f) s Q = Q (f s) s"
  by (simp add: wp_def gets_def)

lemma wp_modk [wp_simps, simp]: "wp (modk f) s Q = Q () (f s)"
  by (simp add: wp_def modk_def)

lemma wp_panic [wp_simps, simp]: "\<not> wp (panic msg) s Q"
  by (simp add: wp_def panic_def)

lemma wp_asleep [wp_simps, simp]: "\<not> wp (asleep c) s Q"
  by (simp add: wp_def asleep_def)

lemma wp_fault [wp_simps, simp]: "\<not> wp (fault msg) s Q"
  by (simp add: wp_def fault_def)

lemma wp_whenk [wp_simps, simp]: "wp (whenk b f) s Q = (if b then wp f s Q else Q () s)"
  by (simp add: whenk_def)

lemma wp_if [wp_simps, simp]:
  "wp (if b then f else g) s Q = (if b then wp f s Q else wp g s Q)"
  by simp

lemma wp_mono: "wp f s Q \<Longrightarrow> (\<And>x t. Q x t \<Longrightarrow> R x t) \<Longrightarrow> wp f s R"
  by (auto simp: wp_def)

lemma wp_conj: "wp f s Q \<Longrightarrow> wp f s R \<Longrightarrow> wp f s (\<lambda>x t. Q x t \<and> R x t)"
  by (auto simp: wp_def)

lemma wp_result: "wp f s Q \<Longrightarrow> f s = Inr (x, t) \<Longrightarrow> Q x t"
  by (simp add: wp_def)

lemma wpE:
  assumes "wp f s Q"
  obtains x t where "f s = Inr (x, t)" and "Q x t"
  using assms by (auto simp: wp_def)

lemma wpI: "f s = Inr (x, t) \<Longrightarrow> Q x t \<Longrightarrow> wp f s Q"
  by (auto simp: wp_def)

text \<open>The state a computation leaves (the state itself when it stops).\<close>

definition run :: "('s, 'a) kmon \<Rightarrow> 's \<Rightarrow> 's" where
  "run f s = (case f s of Inl _ \<Rightarrow> s | Inr (_, t) \<Rightarrow> t)"

lemma wp_run: "wp f s Q \<Longrightarrow> \<exists>x. f s = Inr (x, run f s) \<and> Q x (run f s)"
  by (auto simp: wp_def run_def)

text \<open>Invariants that hold of the result whenever a computation returns.\<close>

definition keeps :: "('s \<Rightarrow> bool) \<Rightarrow> ('s, 'a) kmon \<Rightarrow> bool" where
  "keeps I f \<longleftrightarrow> (\<forall>s x t. I s \<longrightarrow> f s = Inr (x, t) \<longrightarrow> I t)"

named_theorems keeps_intros \<open>rules that build an invariance proof along the code\<close>

lemma keepsD: "keeps I f \<Longrightarrow> I s \<Longrightarrow> f s = Inr (x, t) \<Longrightarrow> I t"
  by (auto simp: keeps_def)

lemma keeps_ret [keeps_intros]: "keeps I (ret x)"
  by (simp add: keeps_def ret_def)

lemma keepsI: "(\<And>s x t. I s \<Longrightarrow> f s = Inr (x, t) \<Longrightarrow> I t) \<Longrightarrow> keeps I f"
  by (simp add: keeps_def)

lemma bindk_InrE:
  assumes "bindk f g s = Inr (y, u)"
  obtains x t where "f s = Inr (x, t)" and "g x t = Inr (y, u)"
  using assms by (cases "f s") (auto simp: bindk_def)

lemma keeps_bindk [keeps_intros]: "keeps I f \<Longrightarrow> (\<And>x. keeps I (g x)) \<Longrightarrow> keeps I (bindk f g)"
  by (rule keepsI) (elim bindk_InrE, blast dest: keepsD)

lemma keeps_thenk [keeps_intros]: "keeps I f \<Longrightarrow> keeps I g \<Longrightarrow> keeps I (thenk f g)"
  by (simp add: thenk_def keeps_bindk)

lemma keeps_gets [keeps_intros]: "keeps I (gets f)"
  by (simp add: keeps_def gets_def)

lemma keeps_modk: "(\<And>s. I s \<Longrightarrow> I (f s)) \<Longrightarrow> keeps I (modk f)"
  by (simp add: keeps_def modk_def)

lemma keeps_panic [keeps_intros]: "keeps I (panic msg)"
  by (simp add: keeps_def panic_def)

lemma keeps_asleep [keeps_intros]: "keeps I (asleep c)"
  by (simp add: keeps_def asleep_def)

lemma keeps_fault [keeps_intros]: "keeps I (fault msg)"
  by (simp add: keeps_def fault_def)

lemma keeps_whenk [keeps_intros]: "keeps I f \<Longrightarrow> keeps I (whenk b f)"
  by (simp add: whenk_def keeps_ret)

lemma keeps_if [keeps_intros]: "keeps I f \<Longrightarrow> keeps I g \<Longrightarrow> keeps I (if b then f else g)"
  by simp

lemma keeps_prod [keeps_intros]: "(\<And>a b. keeps I (f a b)) \<Longrightarrow> keeps I (case p of (a, b) \<Rightarrow> f a b)"
  by (cases p) simp

subsection \<open>Counted loops\<close>

text \<open>\<open>for_each [0..<n] f\<close> is the loop \<^verbatim>\<open>for (i = 0; i < n; i++) f(i)\<close>.\<close>

fun for_each :: "'x list \<Rightarrow> ('x \<Rightarrow> ('s, unit) kmon) \<Rightarrow> ('s, unit) kmon" where
  "for_each [] f = ret ()"
| "for_each (x # xs) f = thenk (f x) (for_each xs f)"

lemma wp_for_each:
  assumes "I xs s" and "\<And>y ys t. I (y # ys) t \<Longrightarrow> wp (f y) t (\<lambda>_ u. I ys u)" and "\<And>t. I [] t \<Longrightarrow> Q () t"
  shows "wp (for_each xs f) s Q"
  using assms(1)
proof (induction xs arbitrary: s)
  case Nil
  then show ?case using assms(3) by simp
next
  case (Cons x xs)
  have "wp (f x) s (\<lambda>_ u. I xs u)" using Cons.prems by (rule assms(2))
  then show ?case by (auto elim: wp_mono intro: Cons.IH)
qed

lemma wp_for_range:
  assumes "I 0 s" and "\<And>k t. k < n \<Longrightarrow> I k t \<Longrightarrow> wp (f k) t (\<lambda>_ u. I (Suc k) u)" and "\<And>t. I n t \<Longrightarrow> Q () t"
  shows "wp (for_each [0..<n] f) s Q"
proof -
  have "wp (for_each [k..<n] f) t Q" if "I k t" and "k \<le> n" for k t
    using that
  proof (induction "n - k" arbitrary: k t)
    case 0
    with assms(3) show ?case by simp
  next
    case (Suc m)
    then have k: "k < n" by simp
    have "wp (f k) t (\<lambda>_ u. I (Suc k) u)" using k Suc.prems(1) by (rule assms(2))
    moreover have "wp (for_each [Suc k..<n] f) u Q" if "I (Suc k) u" for u
      using Suc.hyps(1) [of "Suc k" u] Suc.hyps(2) that k by simp
    ultimately show ?case using k by (auto simp: upt_conv_Cons elim: wp_mono)
  qed
  from this [OF assms(1)] show ?thesis by simp
qed

lemma keeps_for_each [keeps_intros]: "(\<And>x. keeps I (f x)) \<Longrightarrow> keeps I (for_each xs f)"
  by (induction xs) (simp_all add: keeps_ret keeps_thenk)

section \<open>List lemmas\<close>

text \<open>A slice of a byte block and its replacement.\<close>

definition slice :: "nat \<Rightarrow> nat \<Rightarrow> 'a list \<Rightarrow> 'a list" where
  "slice off n xs = take n (drop off xs)"

definition splice :: "nat \<Rightarrow> 'a list \<Rightarrow> 'a list \<Rightarrow> 'a list" where
  "splice off ys xs = take off xs @ ys @ drop (off + length ys) xs"

lemma length_slice [simp]: "off + n \<le> length xs \<Longrightarrow> length (slice off n xs) = n"
  by (simp add: slice_def)

lemma length_splice [simp]: "off + length ys \<le> length xs \<Longrightarrow> length (splice off ys xs) = length xs"
  by (simp add: splice_def)

lemma slice_splice_same [simp]:
  "off + length ys \<le> length xs \<Longrightarrow> n = length ys \<Longrightarrow> slice off n (splice off ys xs) = ys"
  by (simp add: slice_def splice_def)

lemma slice_splice_before:
  assumes "off + n \<le> off'" and "off' \<le> length xs"
  shows "slice off n (splice off' ys xs) = slice off n xs"
  using assms by (simp add: slice_def splice_def take_drop min_def)

lemma slice_splice_after:
  assumes "off' + length ys \<le> off" and "off' + length ys \<le> length xs"
  shows "slice off n (splice off' ys xs) = slice off n xs"
  using assms by (simp add: slice_def splice_def)

lemma splice_slice_same [simp]: "off + n \<le> length xs \<Longrightarrow> splice off (slice off n xs) xs = xs"
  by (simp add: slice_def splice_def add.commute flip: append_assoc take_add)

lemma nth_splice:
  assumes "off + length ys \<le> length xs" and "i < length xs"
  shows "splice off ys xs ! i = (if off \<le> i \<and> i < off + length ys then ys ! (i - off) else xs ! i)"
  using assms by (auto simp: splice_def nth_append min_def)

lemma nth_slice: "i < n \<Longrightarrow> off + n \<le> length xs \<Longrightarrow> slice off n xs ! i = xs ! (off + i)"
  by (simp add: slice_def)

text \<open>The first index of a table that satisfies a test: the shape of every allocation scan.\<close>

fun scan_first :: "('a \<Rightarrow> bool) \<Rightarrow> 'a list \<Rightarrow> nat option" where
  "scan_first P [] = None"
| "scan_first P (x # xs) = (if P x then Some 0 else map_option Suc (scan_first P xs))"

lemma scan_first_None [simp]: "scan_first P xs = None \<longleftrightarrow> (\<forall>x \<in> set xs. \<not> P x)"
  by (induction xs) auto

lemma scan_first_Some:
  "scan_first P xs = Some i \<longleftrightarrow> i < length xs \<and> P (xs ! i) \<and> (\<forall>j < i. \<not> P (xs ! j))"
proof (induction xs arbitrary: i)
  case Nil
  then show ?case by simp
next
  case (Cons x xs)
  show ?case
  proof (cases i)
    case 0
    then show ?thesis by simp
  next
    case (Suc k)
    then show ?thesis by (simp add: Cons.IH All_less_Suc2 conj_ac)
  qed
qed

lemma scan_first_SomeD:
  assumes "scan_first P xs = Some i"
  shows "i < length xs" and "P (xs ! i)" and "\<And>j. j < i \<Longrightarrow> \<not> P (xs ! j)"
  using assms by (auto simp: scan_first_Some)

lemma scan_first_exists: "x \<in> set xs \<Longrightarrow> P x \<Longrightarrow> \<exists>i. scan_first P xs = Some i"
  by (metis not_None_eq scan_first_None)

lemma find_SomeD: "find P xs = Some x \<Longrightarrow> x \<in> set xs \<and> P x"
  by (induction xs) (auto split: if_splits)

lemma find_unique:
  assumes "P x" and "x \<in> set xs" and "\<And>y. y \<in> set xs \<Longrightarrow> P y \<Longrightarrow> y = x"
  shows "find P xs = Some x"
proof (cases "find P xs")
  case None
  with assms(1,2) show ?thesis by (simp add: find_None_iff)
next
  case (Some y)
  then have "P y" and "y \<in> set xs" by (auto dest: find_SomeD)
  then have "y = x" by (intro assms(3))
  with Some show ?thesis by simp
qed

end
