(* ===== verification/Codec.thy ===== *)
theory Codec
  imports Kernel_Prelude
begin

text \<open>
  The in-memory layout of C data on the little-endian RISC-V target. The kernel reads structs
  out of disk blocks by casting \<^verbatim>\<open>bp->data\<close> (\<^verbatim>\<open>struct dinode\<close>, \<^verbatim>\<open>struct dirent\<close>,
  \<^verbatim>\<open>struct superblock\<close>, \<^verbatim>\<open>struct logheader\<close>, arrays of \<^verbatim>\<open>uint\<close>); here such a cast is a
  decoder of the byte slice. The locale \<open>codec\<close> is the interface every such layout offers:
  fixed width, and decoding what was encoded gives the value back. The lemmas on arrays of
  records in a block (\<open>get_rec\<close>, \<open>put_rec\<close>) are proved in it once.
\<close>

unbundle bit_operations_syntax

section \<open>Little-endian words\<close>

fun enc_le :: "nat \<Rightarrow> 'a::len word \<Rightarrow> bytes" where
  "enc_le 0 w = []"
| "enc_le (Suc n) w = ucast w # enc_le n (drop_bit 8 w)"

fun dec_le :: "bytes \<Rightarrow> 'a::len word" where
  "dec_le [] = 0"
| "dec_le (b # bs) = ucast b OR push_bit 8 (dec_le bs)"

lemma length_enc_le [simp]: "length (enc_le n w) = n"
  by (induction n arbitrary: w) auto

lemma dec_le_zero [simp]: "dec_le (replicate n 0) = 0"
  by (induction n) simp_all

lemma bit_dec_le_enc_le:
  fixes w :: "'a::len word"
  shows "bit (dec_le (enc_le n w) :: 'a word) i \<longleftrightarrow> i < 8 * n \<and> bit w i"
proof (induction n arbitrary: w i)
  case 0
  then show ?case by simp
next
  case (Suc n)
  show ?case
  proof (cases "i < 8")
    case True
    then show ?thesis
      by (auto simp: bit_simps dest: bit_imp_le_length)
  next
    case False
    then show ?thesis
      by (auto simp: bit_simps Suc.IH dest: bit_imp_le_length)
  qed
qed

lemma dec_enc_le:
  fixes w :: "'a::len word"
  assumes "LENGTH('a) \<le> 8 * n"
  shows "dec_le (enc_le n w) = w"
proof (rule bit_eqI)
  fix i
  assume "possible_bit TYPE('a word) i"
  with assms show "bit (dec_le (enc_le n w) :: 'a word) i = bit w i"
    by (auto simp: bit_dec_le_enc_le)
qed

lemma ucast_dec_le_Cons:
  fixes b :: uchar
  assumes "8 \<le> LENGTH('a)"
  shows "(ucast (ucast b OR push_bit 8 x :: 'a::len word) :: uchar) = b"
  using assms by (intro bit_eqI) (auto simp: bit_simps dest: bit_imp_le_length)

lemma drop_bit_dec_le_Cons:
  fixes b :: uchar and x :: "'a::len word"
  assumes "\<And>i. LENGTH('a) - 8 \<le> i \<Longrightarrow> \<not> bit x i"
  shows "drop_bit 8 (ucast b OR push_bit 8 x) = x"
proof (rule bit_eqI)
  fix i
  assume "possible_bit TYPE('a word) i"
  consider (low) "8 + i < LENGTH('a)" | (high) "LENGTH('a) - 8 \<le> i" by linarith
  then show "bit (drop_bit 8 (ucast b OR push_bit 8 x)) i = bit x i"
  proof cases
    case low
    then show ?thesis by (auto simp: bit_simps dest: bit_imp_le_length)
  next
    case high
    then have "\<not> bit x i" by (rule assms)
    then show ?thesis by (auto simp: bit_simps dest: bit_imp_le_length)
  qed
qed

lemma bit_dec_le_high: "bit (dec_le bs :: 'a::len word) i \<Longrightarrow> i < 8 * length bs"
proof (induction bs arbitrary: i)
  case Nil
  then show ?case by simp
next
  case (Cons b bs)
  then show ?case
    by (cases "i < 8") (auto simp: bit_simps dest: bit_imp_le_length dest!: Cons.IH)
qed

lemma enc_dec_le:
  assumes "8 * length bs \<le> LENGTH('a)"
  shows "enc_le (length bs) (dec_le bs :: 'a::len word) = bs"
  using assms
proof (induction bs)
  case Nil
  then show ?case by simp
next
  case (Cons b bs)
  have "\<not> bit (dec_le bs :: 'a word) i" if "LENGTH('a) - 8 \<le> i" for i
    using Cons.prems that bit_dec_le_high [of bs i, where 'a = 'a] by auto
  then have "drop_bit 8 (ucast b OR push_bit 8 (dec_le bs :: 'a word)) = dec_le bs"
    by (rule drop_bit_dec_le_Cons)
  moreover have "(ucast (ucast b OR push_bit 8 (dec_le bs) :: 'a word) :: uchar) = b"
    using Cons.prems by (intro ucast_dec_le_Cons) simp
  ultimately show ?case
    using Cons by simp
qed

definition enc16 :: "ushort \<Rightarrow> bytes" where "enc16 w = enc_le 2 w"
definition dec16 :: "bytes \<Rightarrow> ushort" where "dec16 bs = dec_le bs"
definition enc32 :: "u32 \<Rightarrow> bytes" where "enc32 w = enc_le 4 w"
definition dec32 :: "bytes \<Rightarrow> u32" where "dec32 bs = dec_le bs"
definition enc64 :: "u64 \<Rightarrow> bytes" where "enc64 w = enc_le 8 w"
definition dec64 :: "bytes \<Rightarrow> u64" where "dec64 bs = dec_le bs"

lemma length_enc16 [simp]: "length (enc16 w) = 2" by (simp add: enc16_def)
lemma length_enc32 [simp]: "length (enc32 w) = 4" by (simp add: enc32_def)
lemma length_enc64 [simp]: "length (enc64 w) = 8" by (simp add: enc64_def)

lemma dec_enc16 [simp]: "dec16 (enc16 w) = w" by (simp add: enc16_def dec16_def dec_enc_le)
lemma dec_enc32 [simp]: "dec32 (enc32 w) = w" by (simp add: enc32_def dec32_def dec_enc_le)
lemma dec_enc64 [simp]: "dec64 (enc64 w) = w" by (simp add: enc64_def dec64_def dec_enc_le)

lemma enc_dec32: "length bs = 4 \<Longrightarrow> enc32 (dec32 bs) = bs"
  using enc_dec_le [of bs, where 'a = 32] by (simp add: enc32_def dec32_def)

section \<open>Fixed-width records in a block\<close>

definition get_rec :: "(bytes \<Rightarrow> 'a) \<Rightarrow> nat \<Rightarrow> nat \<Rightarrow> bytes \<Rightarrow> 'a" where
  "get_rec dec len i bs = dec (slice (i * len) len bs)"

definition put_rec :: "('a \<Rightarrow> bytes) \<Rightarrow> nat \<Rightarrow> nat \<Rightarrow> 'a \<Rightarrow> bytes \<Rightarrow> bytes" where
  "put_rec enc len i x bs = splice (i * len) (enc x) bs"

locale codec =
  fixes enc :: "'a \<Rightarrow> bytes" and dec :: "bytes \<Rightarrow> 'a" and len :: nat and ok :: "'a \<Rightarrow> bool"
  assumes length_enc: "ok x \<Longrightarrow> length (enc x) = len"
    and dec_enc: "ok x \<Longrightarrow> dec (enc x) = x"
begin

lemma length_put: "ok x \<Longrightarrow> Suc i * len \<le> length bs \<Longrightarrow> length (put_rec enc len i x bs) = length bs"
  by (simp add: put_rec_def length_enc add.commute)

lemma get_put_same: "ok x \<Longrightarrow> Suc i * len \<le> length bs \<Longrightarrow> get_rec dec len i (put_rec enc len i x bs) = x"
  by (simp add: get_rec_def put_rec_def length_enc dec_enc add.commute)

lemma slot_order: "i < j \<Longrightarrow> i * len + len \<le> j * len"
  using mult_le_mono1 [of "Suc i" j len] by simp

lemma get_put_other:
  assumes "ok x" and "i \<noteq> j" and "Suc i * len \<le> length bs" and "Suc j * len \<le> length bs"
  shows "get_rec dec len j (put_rec enc len i x bs) = get_rec dec len j bs"
proof (cases "j < i")
  case True
  then have "j * len + len \<le> i * len" by (rule slot_order)
  moreover have "i * len \<le> length bs" using assms(3) by simp
  ultimately show ?thesis
    by (simp add: get_rec_def put_rec_def slice_splice_before)
next
  case False
  with assms(2) have "i * len + len \<le> j * len" by (intro slot_order) simp
  with assms(1,3) show ?thesis
    by (simp add: get_rec_def put_rec_def slice_splice_after length_enc add.commute)
qed

lemma get_put:
  assumes "ok x" and "Suc i * len \<le> length bs" and "Suc j * len \<le> length bs"
  shows "get_rec dec len j (put_rec enc len i x bs) = (if j = i then x else get_rec dec len j bs)"
  using assms get_put_same [of x i bs] get_put_other [of x i j bs] by simp

end

lemma list_all_True [simp]: "list_all (\<lambda>_. True) xs"
  by (simp add: list_all_iff)

interpretation c32: codec enc32 dec32 4 "\<lambda>_. True"
  by unfold_locales simp_all

section \<open>Arrays of records, encoded one after another\<close>

definition enc_arr :: "('a \<Rightarrow> bytes) \<Rightarrow> 'a list \<Rightarrow> bytes" where
  "enc_arr enc xs = concat (map enc xs)"

definition dec_arr :: "(bytes \<Rightarrow> 'a) \<Rightarrow> nat \<Rightarrow> nat \<Rightarrow> bytes \<Rightarrow> 'a list" where
  "dec_arr dec len n bs = map (\<lambda>i. get_rec dec len i bs) [0..<n]"

lemma length_dec_arr [simp]: "length (dec_arr dec len n bs) = n"
  by (simp add: dec_arr_def)

lemma nth_dec_arr: "i < n \<Longrightarrow> dec_arr dec len n bs ! i = get_rec dec len i bs"
  by (simp add: dec_arr_def)

context codec
begin

lemma length_enc_arr: "list_all ok xs \<Longrightarrow> length (enc_arr enc xs) = length xs * len"
  by (induction xs) (simp_all add: enc_arr_def length_enc)

lemma get_enc_arr:
  assumes "list_all ok xs" and "i < length xs"
  shows "get_rec dec len i (enc_arr enc xs @ zs) = xs ! i"
  using assms
proof (induction xs arbitrary: i)
  case Nil
  then show ?case by simp
next
  case (Cons x xs)
  show ?case
  proof (cases i)
    case 0
    with Cons.prems show ?thesis
      by (simp add: get_rec_def slice_def enc_arr_def length_enc dec_enc)
  next
    case (Suc k)
    with Cons.prems have "get_rec dec len k (enc_arr enc xs @ zs) = xs ! k"
      by (intro Cons.IH) simp_all
    with Suc Cons.prems show ?thesis
      by (simp add: get_rec_def slice_def enc_arr_def length_enc)
  qed
qed

lemma dec_enc_arr:
  assumes "list_all ok xs" and "length xs = n"
  shows "dec_arr dec len n (enc_arr enc xs @ zs) = xs"
  using assms by (intro nth_equalityI) (simp_all add: nth_dec_arr get_enc_arr)

end

end
