(* ===== verification/Cstring.thy ===== *)
theory Cstring
  imports Kernel_Prelude
begin

text \<open>
  The byte and string routines of \<^verbatim>\<open>kernel/string.c\<close>.

  A routine that only reads takes its pointers as functions from offset to byte. A routine that
  writes takes the memory (address to byte) and returns it updated, so that overlapping source and
  destination are covered. A count of C type \<^verbatim>\<open>int\<close> that may be negative is an \<open>int\<close>. The loop of
  \<^verbatim>\<open>strlen\<close> does not end on a string without a NUL: it is a partial function.
\<close>

type_synonym mem = "nat \<Rightarrow> uchar"

section \<open>The routines\<close>

primrec memset :: "nat \<Rightarrow> uchar \<Rightarrow> nat \<Rightarrow> mem \<Rightarrow> mem" where
  "memset dst c 0 m = m"
| "memset dst c (Suc n) m = (memset dst c n m)(dst + n := c)"

primrec memcmp :: "nat \<Rightarrow> mem \<Rightarrow> mem \<Rightarrow> int" where
  "memcmp 0 s1 s2 = 0"
| "memcmp (Suc n) s1 s2 =
     (if s1 0 \<noteq> s2 0 then uint (s1 0) - uint (s2 0)
      else memcmp n (\<lambda>i. s1 (Suc i)) (\<lambda>i. s2 (Suc i)))"

text \<open>The two loops of \<^verbatim>\<open>memmove\<close>: from the high end down, and from the low end up.\<close>

primrec copy_down :: "nat \<Rightarrow> nat \<Rightarrow> nat \<Rightarrow> mem \<Rightarrow> mem" where
  "copy_down d s 0 m = m"
| "copy_down d s (Suc n) m = copy_down d s n (m(d + n := m (s + n)))"

primrec copy_up :: "nat \<Rightarrow> nat \<Rightarrow> nat \<Rightarrow> mem \<Rightarrow> mem" where
  "copy_up d s 0 m = m"
| "copy_up d s (Suc n) m = copy_up (Suc d) (Suc s) n (m(d := m s))"

definition memmove :: "nat \<Rightarrow> nat \<Rightarrow> nat \<Rightarrow> mem \<Rightarrow> mem" where
  "memmove dst src n m =
     (if n = 0 then m
      else if src < dst \<and> src + n > dst then copy_down dst src n m
      else copy_up dst src n m)"

definition memcpy :: "nat \<Rightarrow> nat \<Rightarrow> nat \<Rightarrow> mem \<Rightarrow> mem" where
  "memcpy dst src n m = memmove dst src n m"

primrec strncmp :: "nat \<Rightarrow> mem \<Rightarrow> mem \<Rightarrow> int" where
  "strncmp 0 p q = 0"
| "strncmp (Suc n) p q =
     (if p 0 \<noteq> 0 \<and> p 0 = q 0 then strncmp n (\<lambda>i. p (Suc i)) (\<lambda>i. q (Suc i))
      else uint (p 0) - uint (q 0))"

primrec strncpy_loop :: "nat \<Rightarrow> nat \<Rightarrow> nat \<Rightarrow> mem \<Rightarrow> mem" where
  "strncpy_loop s t 0 m = m"
| "strncpy_loop s t (Suc n) m =
     (if m t \<noteq> 0 then strncpy_loop (Suc s) (Suc t) n (m(s := m t))
      else memset (Suc s) 0 n (m(s := m t)))"

definition strncpy :: "nat \<Rightarrow> nat \<Rightarrow> int \<Rightarrow> mem \<Rightarrow> mem" where
  "strncpy s t n m = strncpy_loop s t (nat n) m"

primrec safestrcpy_loop :: "nat \<Rightarrow> nat \<Rightarrow> nat \<Rightarrow> mem \<Rightarrow> mem" where
  "safestrcpy_loop s t 0 m = m(s := 0)"
| "safestrcpy_loop s t (Suc n) m =
     (if m t \<noteq> 0 then safestrcpy_loop (Suc s) (Suc t) n (m(s := m t))
      else m(s := m t, Suc s := 0))"

definition safestrcpy :: "nat \<Rightarrow> nat \<Rightarrow> int \<Rightarrow> mem \<Rightarrow> mem" where
  "safestrcpy s t n m = (if n \<le> 0 then m else safestrcpy_loop s t (nat n - 1) m)"

partial_function (option) strlen_from :: "mem \<Rightarrow> nat \<Rightarrow> nat option" where
  [code]: "strlen_from s n = (if s n = 0 then Some n else strlen_from s (Suc n))"

definition strlen :: "mem \<Rightarrow> nat option" where
  "strlen s = strlen_from s 0"

section \<open>What they compute\<close>

lemma memset_apply: "memset dst c n m a = (if dst \<le> a \<and> a < dst + n then c else m a)"
  by (induction n) auto

lemma copy_down_apply:
  assumes "s \<le> d"
  shows "copy_down d s n m a = (if d \<le> a \<and> a < d + n then m (s + (a - d)) else m a)"
  using assms
proof (induction n arbitrary: m)
  case (Suc n)
  then show ?case by (auto simp: less_Suc_eq)
qed auto

lemma copy_up_apply:
  assumes "d \<le> s \<or> s + n \<le> d"
  shows "copy_up d s n m a = (if d \<le> a \<and> a < d + n then m (s + (a - d)) else m a)"
  using assms
proof (induction n arbitrary: d s m)
  case (Suc n)
  have IH: "copy_up (Suc d) (Suc s) n (m(d := m s)) a
      = (if Suc d \<le> a \<and> a < Suc d + n then (m(d := m s)) (Suc s + (a - Suc d)) else (m(d := m s)) a)"
    using Suc.prems by (intro Suc.IH) auto
  show ?case
    unfolding copy_up.simps IH using Suc.prems by (cases "a = d") (auto simp: Suc_diff_Suc)
qed auto

text \<open>
  C30. \<^verbatim>\<open>memmove\<close> copies correctly whether or not the regions overlap: every byte of the
  destination gets the byte the source held before the call, and nothing else changes.
\<close>

theorem memmove_correct:
  "memmove dst src n m a = (if dst \<le> a \<and> a < dst + n then m (src + (a - dst)) else m a)"
  by (cases "src < dst \<and> src + n > dst") (auto simp: memmove_def copy_down_apply copy_up_apply)

lemma memcmp_zero: "memcmp n s1 s2 = 0 \<longleftrightarrow> (\<forall>i < n. s1 i = s2 i)"
proof (induction n arbitrary: s1 s2)
  case (Suc n)
  then show ?case by (auto simp: All_less_Suc2 word_uint_eq_iff)
qed simp

text \<open>Equality of two C strings on at most \<open>n\<close> bytes.\<close>

definition streq :: "nat \<Rightarrow> mem \<Rightarrow> mem \<Rightarrow> bool" where
  "streq n p q \<longleftrightarrow> (\<forall>i < n. (\<forall>j < i. p j \<noteq> 0) \<longrightarrow> p i = q i)"

lemma strncmp_zero: "strncmp n p q = 0 \<longleftrightarrow> streq n p q"
proof (induction n arbitrary: p q)
  case (Suc n)
  have "streq (Suc n) p q \<longleftrightarrow> p 0 = q 0 \<and> (p 0 \<noteq> 0 \<longrightarrow> streq n (\<lambda>i. p (Suc i)) (\<lambda>i. q (Suc i)))"
    by (auto simp: streq_def All_less_Suc2)
  with Suc show ?case by (auto simp: word_uint_eq_iff)
qed (simp add: streq_def)

lemma strlen_from_Some:
  assumes "n \<le> k" and "s k = 0" and "\<And>j. n \<le> j \<Longrightarrow> j < k \<Longrightarrow> s j \<noteq> 0"
  shows "strlen_from s n = Some k"
  using assms
proof (induction "k - n" arbitrary: n)
  case 0
  then show ?case by (simp add: strlen_from.simps)
next
  case (Suc x)
  then have "n \<noteq> k" by simp
  then have "s n \<noteq> 0" "strlen_from s (Suc n) = Some k" using Suc by auto
  then show ?case by (simp add: strlen_from.simps [of s n])
qed

lemma strlen_from_NUL:
  assumes "strlen_from s n = Some k"
  shows "s k = 0 \<and> n \<le> k"
  by (rule strlen_from.raw_induct [OF _ assms, where P = "\<lambda>s n k. s k = 0 \<and> n \<le> k"])
    (fastforce split: if_splits dest: Suc_leD)

text \<open>
  \<^verbatim>\<open>strlen\<close> returns exactly on strings that have a NUL, and then the index of the first one.
\<close>

theorem strlen_correct: "strlen s = Some k \<longleftrightarrow> s k = 0 \<and> (\<forall>j < k. s j \<noteq> 0)"
proof
  assume r: "strlen s = Some k"
  then obtain j where "s j = 0" using strlen_from_NUL [of s 0 k] by (auto simp: strlen_def)
  define l where "l = (LEAST j. s j = 0)"
  have l: "s l = 0" unfolding l_def using \<open>s j = 0\<close> by (rule LeastI)
  have m: "s i \<noteq> 0" if "i < l" for i using that not_less_Least unfolding l_def by blast
  have "strlen s = Some l" unfolding strlen_def by (rule strlen_from_Some) (use l m in auto)
  with r have "k = l" by simp
  with l m show "s k = 0 \<and> (\<forall>j < k. s j \<noteq> 0)" by blast
next
  assume "s k = 0 \<and> (\<forall>j < k. s j \<noteq> 0)"
  then show "strlen s = Some k" unfolding strlen_def by (intro strlen_from_Some) auto
qed

theorem strlen_correct_witness: "strlen (\<lambda>i. if i < 2 then 97 else 0) = Some 2"
proof -
  have "\<forall>j<2. (if j < (2::nat) then 97 else 0 :: uchar) \<noteq> 0" by simp
  then show ?thesis using strlen_correct [of "\<lambda>i. if i < 2 then 97 else 0" 2] by simp
qed

lemma strncpy_loop_frame: "a < s \<or> s + n \<le> a \<Longrightarrow> strncpy_loop s t n m a = m a"
  by (induction n arbitrary: s t m) (auto simp: memset_apply)

lemma safestrcpy_loop_frame: "a < s \<or> s + n < a \<Longrightarrow> safestrcpy_loop s t n m a = m a"
  by (induction n arbitrary: s t m) auto

text \<open>
  A copy that does not run into its source: the destination string ends at the source's NUL or
  at the last of the \<open>n\<close> bytes.
\<close>

lemma safestrcpy_loop_spec:
  assumes "s + Suc n \<le> t \<or> t + n \<le> s"
  shows "\<exists>k \<le> n. safestrcpy_loop s t n m (s + k) = 0
    \<and> (\<forall>i < k. safestrcpy_loop s t n m (s + i) = m (t + i) \<and> m (t + i) \<noteq> 0) \<and> (k < n \<longrightarrow> m (t + k) = 0)"
  using assms
proof (induction n arbitrary: s t m)
  case 0
  show ?case by simp
next
  case (Suc n)
  show ?case
  proof (cases "m t = 0")
    case True
    then show ?thesis by (intro exI [of _ 0]) simp
  next
    case False
    let ?m = "m(s := m t)"
    have d: "Suc s + Suc n \<le> Suc t \<or> Suc t + n \<le> Suc s" using Suc.prems by auto
    obtain k where k: "k \<le> n" "safestrcpy_loop (Suc s) (Suc t) n ?m (Suc s + k) = 0"
      "\<forall>i < k. safestrcpy_loop (Suc s) (Suc t) n ?m (Suc s + i) = ?m (Suc t + i) \<and> ?m (Suc t + i) \<noteq> 0"
      "k < n \<longrightarrow> ?m (Suc t + k) = 0"
      using Suc.IH [OF d, of ?m] by blast
    have same: "?m (Suc t + i) = m (Suc t + i)" if "i < n" for i using Suc.prems that by auto
    have "safestrcpy_loop (Suc s) (Suc t) n ?m s = m t" by (simp add: safestrcpy_loop_frame)
    then show ?thesis
      using k same False by (intro exI [of _ "Suc k"]) (auto simp: All_less_Suc2)
  qed
qed

text \<open>
  \<^verbatim>\<open>safestrcpy\<close> always leaves a NUL-terminated copy of a prefix of its source inside the
  \<open>n\<close> bytes of the destination, the whole string when it fits, and writes nothing outside them.
\<close>

theorem safestrcpy_correct:
  assumes "0 < n" and "s + nat n \<le> t \<or> t + nat n \<le> s"
  shows "(\<exists>k < nat n. safestrcpy s t n m (s + k) = 0
      \<and> (\<forall>i < k. safestrcpy s t n m (s + i) = m (t + i) \<and> m (t + i) \<noteq> 0)
      \<and> (Suc k < nat n \<longrightarrow> m (t + k) = 0))
    \<and> (\<forall>a. a < s \<or> s + nat n \<le> a \<longrightarrow> safestrcpy s t n m a = m a)"
proof -
  obtain p where p: "nat n = Suc p" using assms(1) by (cases "nat n") auto
  have "s + Suc p \<le> t \<or> t + p \<le> s" using assms(2) p by auto
  from safestrcpy_loop_spec [OF this, of m] p assms(1) show ?thesis
    by (auto simp: safestrcpy_def less_Suc_eq_le safestrcpy_loop_frame)
qed

theorem safestrcpy_correct_witness:
  "\<exists>k < 2. safestrcpy 0 100 2 (\<lambda>a. if a = 100 then 65 else 66) k = 0"
proof -
  have "\<exists>k < nat 2. safestrcpy 0 100 2 (\<lambda>a. if a = 100 then 65 else 66) (0 + k) = 0"
    using safestrcpy_correct [of 2 0 100 "\<lambda>a. if a = 100 then 65 else 66"] by auto
  then show ?thesis by simp
qed

end
