(* ===== verification/Sleeplock.thy ===== *)
theory Sleeplock
  imports Kernel_Prelude
begin

text \<open>
  Long-term locks (\<^verbatim>\<open>kernel/sleeplock.c\<close>) and the part of the calling thread's state they use.

  The state \<open>thread\<close> holds \<^verbatim>\<open>myproc()->pid\<close> and the list of channels on which the running
  code has called \<^verbatim>\<open>wakeup\<close>, in order; theory \<open>Sched\<close> gives the effect of those calls on the
  process table. A spin lock only makes the section between its acquire and its release atomic,
  so the inner lock \<^verbatim>\<open>lk->lk\<close> and the debugging field \<^verbatim>\<open>lk->name\<close> have no field here.
  The loop \<^verbatim>\<open>while (lk->locked) sleep(lk, &lk->lk)\<close> cannot end before another process
  releases the lock: a computation that reaches it stops with \<open>Asleep\<close>.

  A sleep lock sits inside a buffer or an inode: the operations take the selector and the
  updater of that place.
\<close>

record thread =
  cur_pid :: int
  woken :: "chan list"

record sleeplock =
  sl_locked :: bool
  sl_pid :: int

definition initsleeplock :: sleeplock where
  "initsleeplock = \<lparr>sl_locked = False, sl_pid = 0\<rparr>"

definition wakeup_chan :: "chan \<Rightarrow> ('a thread_scheme, unit) kmon" where
  "wakeup_chan c = modk (\<lambda>s. s\<lparr>woken := woken s @ [c]\<rparr>)"

definition acquiresleep ::
  "chan \<Rightarrow> ('a thread_scheme \<Rightarrow> sleeplock)
    \<Rightarrow> ((sleeplock \<Rightarrow> sleeplock) \<Rightarrow> 'a thread_scheme \<Rightarrow> 'a thread_scheme)
    \<Rightarrow> ('a thread_scheme, unit) kmon" where
  "acquiresleep c sel upd =
     bindk (gets (\<lambda>s. sl_locked (sel s))) (\<lambda>l.
     if l then asleep c
     else modk (\<lambda>s. upd (\<lambda>lk. lk\<lparr>sl_locked := True, sl_pid := cur_pid s\<rparr>) s))"

definition releasesleep ::
  "chan \<Rightarrow> ((sleeplock \<Rightarrow> sleeplock) \<Rightarrow> 'a thread_scheme \<Rightarrow> 'a thread_scheme)
    \<Rightarrow> ('a thread_scheme, unit) kmon" where
  "releasesleep c upd =
     thenk (modk (upd (\<lambda>lk. lk\<lparr>sl_locked := False, sl_pid := 0\<rparr>)))
     (wakeup_chan c)"

definition holdingsleep :: "('a thread_scheme \<Rightarrow> sleeplock) \<Rightarrow> ('a thread_scheme, bool) kmon" where
  "holdingsleep sel = gets (\<lambda>s. sl_locked (sel s) \<and> sl_pid (sel s) = cur_pid s)"

lemma wp_wakeup_chan [wp_simps, simp]:
  "wp (wakeup_chan c) s Q = Q () (s\<lparr>woken := woken s @ [c]\<rparr>)"
  by (simp add: wakeup_chan_def)

lemma wp_acquiresleep [wp_simps, simp]:
  "wp (acquiresleep c sel upd) s Q
    \<longleftrightarrow> \<not> sl_locked (sel s) \<and> Q () (upd (\<lambda>lk. lk\<lparr>sl_locked := True, sl_pid := cur_pid s\<rparr>) s)"
  by (simp add: acquiresleep_def)

lemma wp_releasesleep [wp_simps, simp]:
  "wp (releasesleep c upd) s Q
    = Q () ((upd (\<lambda>lk. lk\<lparr>sl_locked := False, sl_pid := 0\<rparr>) s)
        \<lparr>woken := woken (upd (\<lambda>lk. lk\<lparr>sl_locked := False, sl_pid := 0\<rparr>) s) @ [c]\<rparr>)"
  by (simp add: releasesleep_def)

lemma wp_holdingsleep [wp_simps, simp]:
  "wp (holdingsleep sel) s Q = Q (sl_locked (sel s) \<and> sl_pid (sel s) = cur_pid s) s"
  by (simp add: holdingsleep_def)

end
