(* ===== verification/Kalloc.thy ===== *)
theory Kalloc
  imports Sleeplock Codec Cstring
begin

text \<open>
  The physical page allocator (\<^verbatim>\<open>kernel/kalloc.c\<close>) with its reference counts, and the page
  macros of \<^verbatim>\<open>kernel/riscv.h\<close> and \<^verbatim>\<open>kernel/memlayout.h\<close> it uses.

  Physical memory is \<open>pmem\<close>, a byte per address; the free list is threaded through the free pages
  themselves, as in the code: \<^verbatim>\<open>r->next\<close> is the 8-byte little-endian word at address \<open>r\<close>.
  The address of the first byte after the kernel (\<^verbatim>\<open>end\<close>, from the linker script) is the argument
  \<open>kend\<close>. \<open>run_chain\<close> reads the free list off the memory; \<open>kmem_inv\<close> is the allocator's invariant.
\<close>

section \<open>Pages\<close>

definition PGSIZE :: nat where "PGSIZE = 4096"
definition KERNBASE :: u64 where "KERNBASE = 0x80000000"
definition PHYSTOP :: u64 where "PHYSTOP = KERNBASE + 128 * 1024 * 1024"

definition PGROUNDUP :: "u64 \<Rightarrow> u64" where
  "PGROUNDUP sz = and (sz + of_nat PGSIZE - 1) (not (of_nat PGSIZE - 1))"

definition PGROUNDDOWN :: "u64 \<Rightarrow> u64" where
  "PGROUNDDOWN a = and a (not (of_nat PGSIZE - 1))"

definition load64 :: "mem \<Rightarrow> nat \<Rightarrow> u64" where
  "load64 m a = dec64 (map (\<lambda>i. m (a + i)) [0..<8])"

definition store64 :: "nat \<Rightarrow> u64 \<Rightarrow> mem \<Rightarrow> mem" where
  "store64 a v m = (\<lambda>x. if a \<le> x \<and> x < a + 8 then enc64 v ! (x - a) else m x)"

section \<open>The allocator\<close>

record kmem_state = thread +
  pmem :: mem
  page_refcount :: "int list"
  freelist :: u64

definition NPHYS_PAGES :: nat where
  "NPHYS_PAGES = unat ((PHYSTOP - KERNBASE) div of_nat PGSIZE)"

definition phys2ind :: "u64 \<Rightarrow> nat" where
  "phys2ind pa = unat ((pa - KERNBASE) div of_nat PGSIZE)"

definition upd_ref :: "u64 \<Rightarrow> (int \<Rightarrow> int) \<Rightarrow> ('a kmem_state_scheme, unit) kmon" where
  "upd_ref pa f =
     (if phys2ind pa < NPHYS_PAGES
      then modk (\<lambda>s. s\<lparr>page_refcount := (page_refcount s)[phys2ind pa := f (page_refcount s ! phys2ind pa)]\<rparr>)
      else fault ''page_refcount'')"

definition incref :: "u64 \<Rightarrow> ('a kmem_state_scheme, unit) kmon" where
  "incref pa = upd_ref pa (\<lambda>r. r + 1)"

definition decref :: "u64 \<Rightarrow> ('a kmem_state_scheme, unit) kmon" where
  "decref pa = upd_ref pa (\<lambda>r. r - 1)"

definition getref :: "u64 \<Rightarrow> ('a kmem_state_scheme, int) kmon" where
  "getref pa =
     (if phys2ind pa < NPHYS_PAGES then gets (\<lambda>s. page_refcount s ! phys2ind pa)
      else fault ''page_refcount'')"

definition kfree :: "u64 \<Rightarrow> u64 \<Rightarrow> ('a kmem_state_scheme, unit) kmon" where
  "kfree kend pa =
     (if pa mod of_nat PGSIZE \<noteq> 0 \<or> pa < kend \<or> pa \<ge> PHYSTOP then panic ''kfree''
      else thenk (upd_ref pa (\<lambda>r. r - 1))
       (bindk (gets (\<lambda>s. page_refcount s ! phys2ind pa)) (\<lambda>r.
        if r \<noteq> 0 then ret ()
        else thenk (modk (\<lambda>s. s\<lparr>pmem := memset (unat pa) 1 PGSIZE (pmem s)\<rparr>))
          (thenk (modk (\<lambda>s. s\<lparr>pmem := store64 (unat pa) (freelist s) (pmem s)\<rparr>))
          (modk (\<lambda>s. s\<lparr>freelist := pa\<rparr>))))))"

definition kalloc :: "('a kmem_state_scheme, u64) kmon" where
  "kalloc =
     bindk (gets freelist) (\<lambda>r.
     if r = 0 then ret 0
     else thenk (modk (\<lambda>s. s\<lparr>freelist := load64 (pmem s) (unat r)\<rparr>))
       (thenk (modk (\<lambda>s. s\<lparr>pmem := memset (unat r) 5 PGSIZE (pmem s)\<rparr>))
       (thenk (upd_ref r (\<lambda>_. 1)) (ret r))))"

text \<open>\<^verbatim>\<open>freerange\<close> over the \<open>n\<close> pages from \<open>p\<close>; \<open>range_pages\<close> is the number of turns of its loop.\<close>

primrec free_pages :: "u64 \<Rightarrow> nat \<Rightarrow> u64 \<Rightarrow> ('a kmem_state_scheme, unit) kmon" where
  "free_pages kend 0 p = ret ()"
| "free_pages kend (Suc n) p =
     thenk (upd_ref p (\<lambda>_. 1)) (thenk (kfree kend p) (free_pages kend n (p + of_nat PGSIZE)))"

definition range_pages :: "u64 \<Rightarrow> u64 \<Rightarrow> nat" where
  "range_pages p e = (unat e - unat p) div PGSIZE"

definition freerange :: "u64 \<Rightarrow> u64 \<Rightarrow> u64 \<Rightarrow> ('a kmem_state_scheme, unit) kmon" where
  "freerange kend pa_start pa_end =
     (let p = PGROUNDUP pa_start in free_pages kend (range_pages p pa_end) p)"

definition kinit :: "u64 \<Rightarrow> ('a kmem_state_scheme, unit) kmon" where
  "kinit kend =
     thenk (modk (\<lambda>s. s\<lparr>page_refcount := replicate NPHYS_PAGES 0\<rparr>)) (freerange kend kend PHYSTOP)"

partial_function (option) count_run :: "mem \<Rightarrow> u64 \<Rightarrow> int \<Rightarrow> int option" where
  "count_run m r count = (if r = 0 then Some count else count_run m (load64 m (unat r)) (count + 1))"

definition getNumFreePages :: "('a kmem_state_scheme, int) kmon" where
  "getNumFreePages =
     bindk (gets (\<lambda>s. count_run (pmem s) (freelist s) 0)) (\<lambda>r.
     case r of Some n \<Rightarrow> ret n | None \<Rightarrow> fault ''free list without an end'')"

section \<open>Words in memory\<close>

lemma nth_enc64_bytes: "map (\<lambda>i. store64 a v m (a + i)) [0..<8] = enc64 v"
  by (rule nth_equalityI) (simp_all add: store64_def enc64_def)

lemma load_store64_same [simp]: "load64 (store64 a v m) a = v"
  by (simp add: load64_def nth_enc64_bytes)

lemma load64_cong: "(\<And>i. i < 8 \<Longrightarrow> m (a + i) = m' (a + i)) \<Longrightarrow> load64 m a = load64 m' a"
  unfolding load64_def by (rule arg_cong [where f = dec64]) simp

lemma store64_other [simp]: "x < a \<or> a + 8 \<le> x \<Longrightarrow> store64 a v m x = m x"
  by (auto simp: store64_def)

lemma load_store64_other: "b + 8 \<le> a \<or> a + 8 \<le> b \<Longrightarrow> load64 (store64 a v m) b = load64 m b"
  by (rule load64_cong) auto

section \<open>The free list\<close>

fun run_chain :: "mem \<Rightarrow> u64 \<Rightarrow> u64 list \<Rightarrow> bool" where
  "run_chain m p [] \<longleftrightarrow> p = 0"
| "run_chain m p (x # xs) \<longleftrightarrow> p = x \<and> x \<noteq> 0 \<and> run_chain m (load64 m (unat x)) xs"

definition page_ok :: "u64 \<Rightarrow> u64 \<Rightarrow> bool" where
  "page_ok kend p \<longleftrightarrow> p mod of_nat PGSIZE = 0 \<and> kend \<le> p \<and> p < PHYSTOP"

definition in_page :: "u64 \<Rightarrow> nat \<Rightarrow> bool" where
  "in_page p a \<longleftrightarrow> unat p \<le> a \<and> a < unat p + PGSIZE"

definition ref_of :: "'a kmem_state_scheme \<Rightarrow> u64 \<Rightarrow> int" where
  "ref_of s p = page_refcount s ! phys2ind p"

definition kmem_inv :: "u64 \<Rightarrow> u64 list \<Rightarrow> 'a kmem_state_scheme \<Rightarrow> bool" where
  "kmem_inv kend xs s \<longleftrightarrow> KERNBASE \<le> kend \<and> run_chain (pmem s) (freelist s) xs \<and> distinct xs
     \<and> (\<forall>p\<in>set xs. page_ok kend p \<and> ref_of s p = 0) \<and> length (page_refcount s) = NPHYS_PAGES"

lemmas page_consts = PGSIZE_def KERNBASE_def PHYSTOP_def

lemma page_ok_aligned:
  assumes "page_ok kend p"
  shows "unat p mod 4096 = 0"
proof -
  have "unat (p mod of_nat PGSIZE) = unat p mod 4096" by (simp add: unat_mod PGSIZE_def)
  then show ?thesis using assms by (simp add: page_ok_def)
qed

lemma page_ok_number:
  assumes "page_ok kend p"
  obtains k where "unat p = 4096 * k"
  using page_ok_aligned [OF assms] by (metis mod_0_imp_dvd dvdE)

lemma page_ok_bounds:
  assumes "page_ok kend p" and "KERNBASE \<le> kend"
  shows "0x80000000 \<le> unat p" and "unat p < 0x88000000"
  using assms by (simp_all add: page_ok_def page_consts word_le_nat_alt word_less_nat_alt)

lemma phys2ind_page:
  assumes "page_ok kend p" and "KERNBASE \<le> kend"
  shows "phys2ind p = (unat p - 0x80000000) div 4096"
proof -
  have "unat (p - KERNBASE) = unat p - 0x80000000"
    using page_ok_bounds [OF assms] by (subst unat_sub) (simp_all add: page_consts word_le_nat_alt)
  then show ?thesis by (simp add: phys2ind_def unat_div PGSIZE_def)
qed

lemma NPHYS_PAGES_eq: "NPHYS_PAGES = 32768"
  by (simp add: NPHYS_PAGES_def page_consts unat_div)

lemma phys2ind_less:
  assumes "page_ok kend p" and "KERNBASE \<le> kend"
  shows "phys2ind p < NPHYS_PAGES"
  using page_ok_bounds [OF assms] by (simp add: phys2ind_page [OF assms] NPHYS_PAGES_eq)

lemma page_ok_nonzero: "page_ok kend p \<Longrightarrow> KERNBASE \<le> kend \<Longrightarrow> p \<noteq> 0"
  using page_ok_bounds [of kend p] by auto

lemma phys2ind_number:
  assumes "page_ok kend p" and "KERNBASE \<le> kend" and "unat p = 4096 * k"
  shows "phys2ind p = k - 524288" and "524288 \<le> k"
proof -
  show "524288 \<le> k" using page_ok_bounds(1) [OF assms(1,2)] assms(3) by simp
  have "4096 * k - 0x80000000 = 4096 * (k - 524288)" by (simp add: diff_mult_distrib2)
  then show "phys2ind p = k - 524288"
    by (simp add: phys2ind_page [OF assms(1,2)] assms(3))
qed

lemma phys2ind_inj:
  assumes "page_ok kend p" and "page_ok kend q" and "KERNBASE \<le> kend" and "phys2ind p = phys2ind q"
  shows "p = q"
proof -
  obtain j where j: "unat p = 4096 * j" using assms(1) by (rule page_ok_number)
  obtain k where k: "unat q = 4096 * k" using assms(2) by (rule page_ok_number)
  have "j = k"
    using phys2ind_number [OF assms(1,3) j] phys2ind_number [OF assms(2,3) k] assms(4) by linarith
  then show ?thesis using j k by (simp add: word_unat_eq_iff)
qed

lemma pages_disjoint:
  assumes "page_ok kend p" and "page_ok kend q" and "p \<noteq> q"
  shows "unat p + PGSIZE \<le> unat q \<or> unat q + PGSIZE \<le> unat p"
proof -
  obtain j where j: "unat p = 4096 * j" using assms(1) by (rule page_ok_number)
  obtain k where k: "unat q = 4096 * k" using assms(2) by (rule page_ok_number)
  have "j \<noteq> k" using assms(3) j k by (auto simp: word_unat_eq_iff)
  then show ?thesis using j k by (auto simp: PGSIZE_def)
qed

lemma run_chain_cong:
  assumes "\<And>p. p \<in> set xs \<Longrightarrow> load64 m' (unat p) = load64 m (unat p)"
  shows "run_chain m' r xs = run_chain m r xs"
  using assms by (induction xs arbitrary: r) auto

lemma run_chain_frame:
  assumes "page_ok kend r" and "r \<notin> set xs" and "\<forall>p\<in>set xs. page_ok kend p"
    and "\<And>a. \<not> in_page r a \<Longrightarrow> m' a = m a"
  shows "run_chain m' q xs = run_chain m q xs"
proof (rule run_chain_cong, rule load64_cong)
  fix p i
  assume p: "p \<in> set xs" and i: "i < (8::nat)"
  have "unat p + PGSIZE \<le> unat r \<or> unat r + PGSIZE \<le> unat p"
    using assms(1-3) p by (intro pages_disjoint) auto
  then have "\<not> in_page r (unat p + i)" using i by (auto simp: in_page_def PGSIZE_def)
  then show "m' (unat p + i) = m (unat p + i)" by (rule assms(4))
qed

lemma count_run_chain: "run_chain m r xs \<Longrightarrow> count_run m r n = Some (n + int (length xs))"
proof (induction xs arbitrary: r n)
  case Nil
  then show ?case by (simp add: count_run.simps)
next
  case (Cons x xs)
  then show ?case by (subst count_run.simps) auto
qed

section \<open>Behaviour of the allocator\<close>

lemma wp_upd_ref:
  "wp (upd_ref pa f) s Q \<longleftrightarrow> phys2ind pa < NPHYS_PAGES \<and>
     Q () (s\<lparr>page_refcount := (page_refcount s)[phys2ind pa := f (page_refcount s ! phys2ind pa)]\<rparr>)"
  by (simp add: upd_ref_def)

lemma kalloc_run:
  assumes "kmem_inv kend (x # xs) s"
  shows "kalloc s = Inr (x, s\<lparr>freelist := load64 (pmem s) (unat x),
    pmem := memset (unat x) 5 PGSIZE (pmem s), page_refcount := (page_refcount s)[phys2ind x := 1]\<rparr>)"
proof -
  have "phys2ind x < NPHYS_PAGES" using assms by (auto simp: kmem_inv_def intro!: phys2ind_less [of kend])
  then show ?thesis
    using assms by (simp add: kalloc_def kmem_inv_def bindk_def thenk_def gets_def modk_def upd_ref_def ret_def)
qed

lemma memset_in_page [simp]: "in_page p a \<Longrightarrow> memset (unat p) c PGSIZE m a = c"
  by (simp add: memset_apply in_page_def)

lemma memset_out_page [simp]: "\<not> in_page p a \<Longrightarrow> memset (unat p) c PGSIZE m a = m a"
  by (auto simp: memset_apply in_page_def)

lemma refs_other:
  assumes "kmem_inv kend ys s" and "page_ok kend p" and "page_ok kend q" and "q \<noteq> p"
  shows "(page_refcount s)[phys2ind p := v] ! phys2ind q = ref_of s q"
proof -
  have "phys2ind p \<noteq> phys2ind q"
    using assms phys2ind_inj [of kend p q] by (auto simp: kmem_inv_def)
  then show ?thesis by (simp add: ref_of_def)
qed

lemma kalloc_spec:
  assumes "kmem_inv kend (x # xs) s"
  shows "wp kalloc s (\<lambda>r t. r = x \<and> kmem_inv kend xs t \<and> ref_of t x = 1
    \<and> (\<forall>a. pmem t a = (if in_page x a then 5 else pmem s a))
    \<and> (\<forall>q. page_ok kend q \<longrightarrow> q \<noteq> x \<longrightarrow> ref_of t q = ref_of s q))"
    (is "wp _ _ ?Q")
proof -
  have ok: "page_ok kend x" "KERNBASE \<le> kend" "length (page_refcount s) = NPHYS_PAGES" "x \<notin> set xs"
    and all: "\<forall>p\<in>set xs. page_ok kend p"
    using assms by (auto simp: kmem_inv_def)
  define t where "t = s\<lparr>freelist := load64 (pmem s) (unat x), pmem := memset (unat x) 5 PGSIZE (pmem s),
    page_refcount := (page_refcount s)[phys2ind x := 1]\<rparr>"
  have other: "ref_of t q = ref_of s q" if "page_ok kend q" "q \<noteq> x" for q
    using refs_other [OF assms ok(1) that] by (simp add: t_def ref_of_def)
  have self: "ref_of t x = 1"
    using phys2ind_less [OF ok(1,2)] ok(3) by (simp add: t_def ref_of_def)
  have "run_chain (memset (unat x) 5 PGSIZE (pmem s)) (load64 (pmem s) (unat x)) xs"
    using assms run_chain_frame [OF ok(1,4) all, of "memset (unat x) 5 PGSIZE (pmem s)" "pmem s"]
    by (simp add: kmem_inv_def)
  moreover have "\<forall>p\<in>set xs. page_ok kend p \<and> ref_of t p = 0"
  proof
    fix p
    assume p: "p \<in> set xs"
    then have "page_ok kend p \<and> ref_of s p = 0" using assms by (simp add: kmem_inv_def)
    moreover have "p \<noteq> x" using p ok(4) by auto
    ultimately show "page_ok kend p \<and> ref_of t p = 0" using other [of p] by simp
  qed
  ultimately have "kmem_inv kend xs t"
    using ok assms unfolding kmem_inv_def by (simp add: t_def)
  moreover have "pmem t a = (if in_page x a then 5 else pmem s a)" for a by (simp add: t_def)
  ultimately have "?Q x t" using self other by blast
  with kalloc_run [OF assms, folded t_def] show ?thesis by (rule wpI)
qed

lemma kalloc_empty: "kmem_inv kend [] s \<Longrightarrow> kalloc s = Inr (0, s)"
  by (simp add: kalloc_def kmem_inv_def bindk_def gets_def ret_def)

lemma kfree_guard:
  "page_ok kend p \<Longrightarrow> \<not> (p mod of_nat PGSIZE \<noteq> 0 \<or> p < kend \<or> p \<ge> PHYSTOP)"
  by (auto simp: page_ok_def)

definition set_ref :: "u64 \<Rightarrow> int \<Rightarrow> 'a kmem_state_scheme \<Rightarrow> 'a kmem_state_scheme" where
  "set_ref p v s = s\<lparr>page_refcount := (page_refcount s)[phys2ind p := v]\<rparr>"

lemma set_ref_simps [simp]:
  "pmem (set_ref p v s) = pmem s" "freelist (set_ref p v s) = freelist s"
  "length (page_refcount (set_ref p v s)) = length (page_refcount s)"
  by (simp_all add: set_ref_def)

lemma ref_of_set_ref:
  assumes "page_ok kend p" and "page_ok kend q" and "KERNBASE \<le> kend"
    and "length (page_refcount s) = NPHYS_PAGES"
  shows "ref_of (set_ref p v s) q = (if q = p then v else ref_of s q)"
  using phys2ind_inj [OF assms(1,2,3)] phys2ind_less [OF assms(1,3)] assms(4)
  by (auto simp: set_ref_def ref_of_def nth_list_update)

lemma kfree_run:
  assumes "page_ok kend p" and "KERNBASE \<le> kend" and "length (page_refcount s) = NPHYS_PAGES"
  shows "kfree kend p s = (let t = set_ref p (ref_of s p - 1) s in
    if ref_of s p = 1 then Inr ((), t\<lparr>pmem := store64 (unat p) (freelist s) (memset (unat p) 1 PGSIZE (pmem s)),
      freelist := p\<rparr>)
    else Inr ((), t))"
  using kfree_guard [OF assms(1)] phys2ind_less [OF assms(1,2)] assms(3)
  by (simp add: kfree_def thenk_def bindk_def upd_ref_def modk_def gets_def ret_def set_ref_def
      ref_of_def Let_def)

lemma kmem_inv_set_ref:
  assumes "kmem_inv kend xs s" and "page_ok kend p" and "p \<notin> set xs"
  shows "kmem_inv kend xs (set_ref p v s)"
proof -
  have "ref_of (set_ref p v s) q = 0" if "q \<in> set xs" for q
  proof -
    have "page_ok kend q" "ref_of s q = 0" "q \<noteq> p" using assms that by (auto simp: kmem_inv_def)
    then show ?thesis using ref_of_set_ref [OF assms(2), of q s v] assms(1) by (simp add: kmem_inv_def)
  qed
  then show ?thesis using assms(1) by (simp add: kmem_inv_def)
qed

lemma kmem_inv_push:
  assumes "kmem_inv kend xs s" and "page_ok kend p" and "ref_of s p = 0" and "p \<notin> set xs"
  shows "kmem_inv kend (p # xs)
    (s\<lparr>pmem := store64 (unat p) (freelist s) (memset (unat p) 1 PGSIZE (pmem s)), freelist := p\<rparr>)"
proof -
  let ?m = "store64 (unat p) (freelist s) (memset (unat p) 1 PGSIZE (pmem s))"
  have "?m a = pmem s a" if "\<not> in_page p a" for a
  proof -
    have "a < unat p \<or> unat p + 8 \<le> a" using that by (auto simp: in_page_def PGSIZE_def)
    then show ?thesis using that by simp
  qed
  then have "run_chain ?m (freelist s) xs"
    using assms run_chain_frame [OF assms(2,4), of ?m "pmem s"] by (simp add: kmem_inv_def)
  then show ?thesis
    using assms page_ok_nonzero [OF assms(2)] by (auto simp: kmem_inv_def ref_of_def)
qed

lemma kfree_last:
  assumes "kmem_inv kend xs s" and "page_ok kend p" and "ref_of s p = 1"
  shows "wp (kfree kend p) s (\<lambda>_ t. kmem_inv kend (p # xs) t
    \<and> (\<forall>q. page_ok kend q \<longrightarrow> q \<noteq> p \<longrightarrow> ref_of t q = ref_of s q)
    \<and> (\<forall>a. \<not> in_page p a \<longrightarrow> pmem t a = pmem s a))" (is "wp _ _ ?Q")
proof -
  have k: "KERNBASE \<le> kend" "length (page_refcount s) = NPHYS_PAGES" and n: "p \<notin> set xs"
    using assms by (auto simp: kmem_inv_def)
  define u where "u = set_ref p 0 s"
  define t where "t = u\<lparr>pmem := store64 (unat p) (freelist s) (memset (unat p) 1 PGSIZE (pmem s)), freelist := p\<rparr>"
  have "kmem_inv kend xs u" unfolding u_def using assms(1,2) n by (rule kmem_inv_set_ref)
  moreover have "ref_of u p = 0" using ref_of_set_ref [OF assms(2,2) k] by (simp add: u_def)
  ultimately have "kmem_inv kend (p # xs) t"
    using kmem_inv_push [OF _ assms(2) _ n, of u] by (simp add: t_def u_def)
  moreover have "ref_of t q = ref_of s q" if "page_ok kend q" "q \<noteq> p" for q
    using ref_of_set_ref [OF assms(2) that(1) k, of 0] that(2) by (simp add: t_def u_def ref_of_def)
  moreover have "pmem t a = pmem s a" if "\<not> in_page p a" for a
  proof -
    have "a < unat p \<or> unat p + 8 \<le> a" using that by (auto simp: in_page_def PGSIZE_def)
    then show ?thesis using that by (simp add: t_def)
  qed
  ultimately have "?Q () t" by blast
  moreover have "kfree kend p s = Inr ((), t)" using kfree_run [OF assms(2) k] assms(3) by (simp add: t_def u_def)
  ultimately show ?thesis by (auto intro: wpI)
qed

lemma kfree_shared:
  assumes "kmem_inv kend xs s" and "page_ok kend p" and "1 < ref_of s p"
  shows "kfree kend p s = Inr ((), set_ref p (ref_of s p - 1) s)
    \<and> kmem_inv kend xs (set_ref p (ref_of s p - 1) s)"
proof -
  have k: "KERNBASE \<le> kend" "length (page_refcount s) = NPHYS_PAGES" and n: "p \<notin> set xs"
    using assms by (auto simp: kmem_inv_def)
  show ?thesis
    using kfree_run [OF assms(2) k] assms(3) kmem_inv_set_ref [OF assms(1,2) n] by simp
qed

lemma getNumFreePages_run:
  "kmem_inv kend xs s \<Longrightarrow> getNumFreePages s = Inr (int (length xs), s)"
  using count_run_chain [of "pmem s" "freelist s" xs 0]
  by (simp add: getNumFreePages_def kmem_inv_def bindk_def gets_def ret_def)

section \<open>Initialisation\<close>

lemma and_not_mask_push_drop: "and x (not (mask n)) = push_bit n (drop_bit n (x :: 'a::len word))"
  by (rule bit_eqI) (auto simp: bit_and_iff bit_not_iff bit_mask_iff bit_push_bit_iff bit_drop_bit_eq)

lemma page_mask: "(of_nat PGSIZE - 1 :: u64) = mask 12"
  by (simp add: PGSIZE_def mask_eq_exp_minus_1)

lemma unat_PGROUNDDOWN: "unat (PGROUNDDOWN a) = 4096 * (unat a div 4096)"
proof -
  have b: "unat a < 2 ^ 64" using unsigned_less [of a, where 'a = nat] by simp
  then have tb: "take_bit 64 (unat a) = unat a" by (simp add: take_bit_nat_eq_self_iff)
  have "unat (PGROUNDDOWN a) = take_bit 64 (push_bit 12 (drop_bit 12 (unat a)))"
    by (simp add: PGROUNDDOWN_def page_mask and_not_mask_push_drop unsigned_push_bit_eq unsigned_drop_bit_eq tb)
  also have "\<dots> = 4096 * (unat a div 4096) mod 2 ^ 64"
    by (simp add: take_bit_eq_mod push_bit_eq_mult drop_bit_eq_div mult.commute)
  also have "\<dots> = 4096 * (unat a div 4096)"
    using b by (intro mod_less) (meson le_less_trans times_div_less_eq_dividend)
  finally show ?thesis .
qed

lemma PGROUNDUP_DOWN: "PGROUNDUP a = PGROUNDDOWN (a + 4095)"
  by (simp add: PGROUNDUP_def PGROUNDDOWN_def PGSIZE_def add.commute)

lemma unat_PGROUNDUP:
  assumes "unat a + 4095 < 2 ^ 64"
  shows "unat (PGROUNDUP a) = 4096 * ((unat a + 4095) div 4096)"
proof -
  have "unat (a + 4095) = unat a + 4095" using assms by (simp add: unat_word_ariths)
  then show ?thesis by (simp add: PGROUNDUP_DOWN unat_PGROUNDDOWN)
qed

text \<open>The page with number \<open>k\<close>.\<close>

definition pg :: "nat \<Rightarrow> u64" where
  "pg k = of_nat (4096 * k)"

lemma unat_pg: "k < 0x88000 \<Longrightarrow> unat (pg k) = 4096 * k"
  unfolding pg_def by (subst unat_of_nat) simp

lemma pg_Suc: "pg k + of_nat PGSIZE = pg (Suc k)"
  by (simp add: pg_def PGSIZE_def)

lemma page_ok_pg:
  assumes "unat kend \<le> 4096 * k" and "k < 0x88000"
  shows "page_ok kend (pg k)"
  unfolding page_ok_def
proof (intro conjI)
  have "unat (pg k mod of_nat PGSIZE) = 0" using assms(2) by (simp add: unat_mod unat_pg PGSIZE_def)
  then show "pg k mod of_nat PGSIZE = 0" by (simp add: unat_eq_0)
  show "kend \<le> pg k" "pg k < PHYSTOP"
    using assms by (simp_all add: word_le_nat_alt word_less_nat_alt unat_pg page_consts)
qed

lemma pg_inj:
  assumes "j < 0x88000" and "k < 0x88000" and "pg j = pg k"
  shows "j = k"
proof -
  have "unat (pg j) = unat (pg k)" by (simp only: assms(3))
  then have "4096 * j = 4096 * k" by (simp only: unat_pg [OF assms(1)] unat_pg [OF assms(2)])
  then show ?thesis by simp
qed

lemma free_one:
  assumes "kmem_inv kend xs s" and "page_ok kend p" and "p \<notin> set xs"
  shows "wp (thenk (upd_ref p (\<lambda>_. 1)) (kfree kend p)) s (\<lambda>_ t. kmem_inv kend (p # xs) t)"
proof -
  have k: "KERNBASE \<le> kend" "length (page_refcount s) = NPHYS_PAGES" using assms by (auto simp: kmem_inv_def)
  have "upd_ref p (\<lambda>_. 1) s = Inr ((), set_ref p 1 s)"
    using phys2ind_less [OF assms(2) k(1)] by (simp add: upd_ref_def modk_def set_ref_def)
  moreover have "wp (kfree kend p) (set_ref p 1 s) (\<lambda>_ t. kmem_inv kend (p # xs) t)"
    using kfree_last [OF kmem_inv_set_ref [OF assms, of 1] assms(2)] ref_of_set_ref [OF assms(2,2) k, of 1]
    by (auto elim: wp_mono)
  ultimately show ?thesis by (simp add: wp_thenk) (simp add: wp_def)
qed

lemma free_pages_spec:
  fixes s :: "'a kmem_state_scheme"
  assumes "kmem_inv kend xs s" and "unat kend \<le> 4096 * k" and "k + n \<le> 0x88000"
    and "\<forall>j. k \<le> j \<longrightarrow> j < k + n \<longrightarrow> pg j \<notin> set xs"
  shows "wp (free_pages kend n (pg k)) s (\<lambda>_ t. kmem_inv kend (rev (map pg [k..<k + n]) @ xs) t)"
  using assms
proof (induction n arbitrary: k xs s)
  case 0
  then show ?case by simp
next
  case (Suc n)
  have ok: "page_ok kend (pg k)" using Suc.prems by (intro page_ok_pg) auto
  have new: "pg j \<notin> set (pg k # xs)" if "Suc k \<le> j" "j < Suc k + n" for j
    using Suc.prems(3,4) that pg_inj [of j k] by auto
  have "wp (thenk (upd_ref (pg k) (\<lambda>_. 1)) (kfree kend (pg k))) s (\<lambda>_ t. kmem_inv kend (pg k # xs) t)"
    using Suc.prems ok by (intro free_one) auto
  then have first: "wp (upd_ref (pg k) (\<lambda>_. 1)) s
      (\<lambda>_ t. wp (kfree kend (pg k)) t (\<lambda>_ u. kmem_inv kend (pg k # xs) u))" by simp
  have rest: "wp (free_pages kend n (pg (Suc k))) u
      (\<lambda>_ t. kmem_inv kend (rev (map pg [k..<k + Suc n]) @ xs) t)" if "kmem_inv kend (pg k # xs) u"
    for u :: "'a kmem_state_scheme"
  proof -
    have "rev (map pg [k..<k + Suc n]) @ xs = rev (map pg [Suc k..<Suc k + n]) @ pg k # xs"
      by (simp add: upt_conv_Cons del: upt_Suc)
    then show ?thesis using Suc.IH [OF that, of "Suc k"] Suc.prems(2,3) new by simp
  qed
  show ?case
    by (simp only: free_pages.simps wp_thenk pg_Suc) (use first rest in \<open>auto elim!: wp_mono\<close>)
qed

section \<open>Properties\<close>

text \<open>
  C28. The allocator never runs out of step with its free list: when the free list is empty
  \<^verbatim>\<open>kalloc\<close> returns 0 and changes nothing; otherwise it returns the first free page, which is no
  longer free, has exactly one owner, is filled with 5, and no byte or count of another page changes.
\<close>

theorem kalloc_correct:
  assumes "kmem_inv kend xs s"
  shows "case xs of
      [] \<Rightarrow> kalloc s = Inr (0, s)
    | x # ys \<Rightarrow> wp kalloc s (\<lambda>r t. r = x \<and> kmem_inv kend ys t \<and> ref_of t x = 1
        \<and> (\<forall>a. pmem t a = (if in_page x a then 5 else pmem s a))
        \<and> (\<forall>q. page_ok kend q \<longrightarrow> q \<noteq> x \<longrightarrow> ref_of t q = ref_of s q))"
proof (cases xs)
  case Nil
  then show ?thesis using assms kalloc_empty by simp
next
  case (Cons x ys)
  then show ?thesis using kalloc_spec [of kend x ys s] assms by simp
qed

text \<open>
  C6. \<^verbatim>\<open>kfree\<close> honours the reference counts: a page with several owners only loses one of them; the
  last owner's call puts the page at the head of the free list and touches no other page.
\<close>

theorem kfree_correct:
  assumes "kmem_inv kend xs s" and "page_ok kend p" and "0 < ref_of s p"
  shows "wp (kfree kend p) s (\<lambda>_ t.
      kmem_inv kend (if ref_of s p = 1 then p # xs else xs) t
    \<and> ref_of t p = ref_of s p - 1
    \<and> (\<forall>q. page_ok kend q \<longrightarrow> q \<noteq> p \<longrightarrow> ref_of t q = ref_of s q)
    \<and> (\<forall>a. ref_of s p = 1 \<and> in_page p a \<or> pmem t a = pmem s a))"
proof (cases "ref_of s p = 1")
  case True
  then show ?thesis
    using kfree_last [OF assms(1,2) True] by (auto simp: kmem_inv_def elim!: wp_mono)
next
  case False
  have k: "KERNBASE \<le> kend" "length (page_refcount s) = NPHYS_PAGES"
    using assms by (auto simp: kmem_inv_def)
  have r: "kfree kend p s = Inr ((), set_ref p (ref_of s p - 1) s)"
    "kmem_inv kend xs (set_ref p (ref_of s p - 1) s)"
    using kfree_shared [OF assms(1,2)] assms(3) False by auto
  show ?thesis
    by (rule wpI, rule r(1)) (use r(2) False ref_of_set_ref [OF assms(2) _ k] assms(2) in auto)
qed

text \<open>
  A page that is allocated and freed again is back at the head of the same free list, so
  \<^verbatim>\<open>getNumFreePages\<close> reports the count it had before.
\<close>

theorem kalloc_kfree_roundtrip:
  fixes s :: "'a kmem_state_scheme"
  assumes "kmem_inv kend (x # xs) s"
  shows "wp (bindk kalloc (\<lambda>r. thenk (kfree kend r) getNumFreePages)) s
    (\<lambda>n t. kmem_inv kend (x # xs) t \<and> getNumFreePages s = Inr (n, s))"
proof -
  have ok: "page_ok kend x" using assms by (simp add: kmem_inv_def)
  have "wp (thenk (kfree kend x) getNumFreePages) t
      (\<lambda>n t. kmem_inv kend (x # xs) t \<and> getNumFreePages s = Inr (n, s))"
    if "kmem_inv kend xs t" "ref_of t x = 1" for t :: "'a kmem_state_scheme"
    using kfree_last [OF that(1) ok that(2)]
    by (auto elim!: wp_mono intro!: wpI getNumFreePages_run [of kend "x # xs"]
        simp: getNumFreePages_run [OF assms])
  then show ?thesis using kalloc_spec [OF assms] by (auto elim!: wp_mono)
qed

text \<open>
  \<^verbatim>\<open>getNumFreePages\<close> returns, and its result is the length of the free list.
\<close>

theorem getNumFreePages_correct:
  assumes "kmem_inv kend xs s"
  shows "getNumFreePages s = Inr (int (length xs), s)"
  using assms by (rule getNumFreePages_run)

text \<open>
  C26. \<^verbatim>\<open>kinit\<close> builds the allocator: it returns, and afterwards the free list holds exactly the whole
  pages between \<^verbatim>\<open>end\<close> and \<^verbatim>\<open>PHYSTOP\<close>, highest first, each with reference count zero.
\<close>

theorem kinit_correct:
  assumes "KERNBASE \<le> kend" and "kend \<le> PHYSTOP" and "freelist s = 0"
  shows "wp (kinit kend) s (\<lambda>_ t. kmem_inv kend (rev (map pg [(unat kend + 4095) div 4096..<0x88000])) t)"
proof -
  define k where "k = (unat kend + 4095) div 4096"
  define s0 where "s0 = s\<lparr>page_refcount := replicate NPHYS_PAGES 0\<rparr>"
  have top: "unat kend \<le> 0x88000000" using assms(2) by (simp add: word_le_nat_alt page_consts)
  then have k: "k \<le> 0x88000" "unat kend \<le> 4096 * k" by (simp_all add: k_def)
  have "unat (PGROUNDUP kend) = 4096 * k" using top by (simp add: unat_PGROUNDUP k_def)
  then have "pg k = of_nat (unat (PGROUNDUP kend))" by (simp add: pg_def)
  then have up: "PGROUNDUP kend = pg k" by simp
  have "range_pages (pg k) PHYSTOP = 0x88000 - k"
    using \<open>unat (PGROUNDUP kend) = 4096 * k\<close> up k(1)
    by (simp add: range_pages_def page_consts diff_mult_distrib2 [symmetric] flip: nat_mult_div_cancel_disj)
  moreover have "kmem_inv kend [] s0" using assms(1,3) by (simp add: kmem_inv_def s0_def)
  then have "wp (free_pages kend (0x88000 - k) (pg k)) s0
      (\<lambda>_ t. kmem_inv kend (rev (map pg [k..<k + (0x88000 - k)]) @ []) t)"
    using k by (intro free_pages_spec) auto
  ultimately show ?thesis
    using k(1) up by (simp add: kinit_def freerange_def k_def s0_def)
qed

section \<open>Witnesses\<close>

text \<open>A machine whose last page is free, and one whose pages all have two owners.\<close>

definition demo_kend :: u64 where "demo_kend = 0x87FFF000"

definition demo_kmem :: "int \<Rightarrow> u64 \<Rightarrow> kmem_state" where
  "demo_kmem r f = \<lparr>cur_pid = 1, woken = [], pmem = (\<lambda>_. 0), page_refcount = replicate NPHYS_PAGES r,
     freelist = f\<rparr>"

lemma demo_page: "page_ok demo_kend demo_kend"
  by (simp add: page_ok_def demo_kend_def page_consts)

lemma demo_ref: "ref_of (demo_kmem r f) demo_kend = r"
  using phys2ind_less [OF demo_page] by (simp add: ref_of_def demo_kmem_def demo_kend_def page_consts)

lemma load64_zero: "load64 (\<lambda>_. 0) a = 0"
  using dec_le_zero [of 8, where 'a = 64] by (simp add: load64_def dec64_def map_replicate_const)

lemma demo_free: "kmem_inv demo_kend [demo_kend] (demo_kmem 0 demo_kend)"
  using demo_page demo_ref [of 0 demo_kend]
  by (simp add: kmem_inv_def load64_zero) (simp add: demo_kmem_def load64_zero demo_kend_def page_consts)

lemma demo_shared: "kmem_inv demo_kend [] (demo_kmem 2 0)"
  by (simp add: kmem_inv_def demo_kmem_def demo_kend_def page_consts)

theorem kalloc_correct_witness:
  "wp kalloc (demo_kmem 0 demo_kend) (\<lambda>r t. r = demo_kend \<and> kmem_inv demo_kend [] t)"
  using kalloc_correct [OF demo_free] by (auto elim: wp_mono)

theorem kfree_correct_witness:
  "wp (kfree demo_kend demo_kend) (demo_kmem 2 0) (\<lambda>_ t. kmem_inv demo_kend [] t \<and> ref_of t demo_kend = 1)"
  using kfree_correct [OF demo_shared demo_page] demo_ref [of 2 0] by (auto elim: wp_mono)

theorem kalloc_kfree_roundtrip_witness:
  "wp (bindk kalloc (\<lambda>r. thenk (kfree demo_kend r) getNumFreePages)) (demo_kmem 0 demo_kend)
    (\<lambda>n t. kmem_inv demo_kend [demo_kend] t)"
  by (rule wp_mono, rule kalloc_kfree_roundtrip [OF demo_free]) simp

theorem getNumFreePages_correct_witness:
  "getNumFreePages (demo_kmem 0 demo_kend) = Inr (1, demo_kmem 0 demo_kend)"
  using getNumFreePages_correct [OF demo_free] by simp

theorem kinit_correct_witness:
  "wp (kinit demo_kend) (demo_kmem 0 0) (\<lambda>_ t. kmem_inv demo_kend [pg 0x87FFF] t)"
proof -
  have "rev (map pg [(unat demo_kend + 4095) div 4096..<0x88000]) = [pg 0x87FFF]"
    by (simp add: demo_kend_def upt_conv_Cons)
  then show ?thesis
    using kinit_correct [of demo_kend "demo_kmem 0 0"] by (simp add: demo_kend_def page_consts demo_kmem_def)
qed

end
