(* ===== verification/Sched.thy ===== *)
theory Sched
  imports Kalloc
begin

text \<open>
  The process table and the scheduler (\<^verbatim>\<open>kernel/proc.h\<close>, \<^verbatim>\<open>kernel/proc.c\<close>): states of
  processes, the ready queue ordered by (deadline, priority), \<^verbatim>\<open>scheduler\<close>, \<^verbatim>\<open>yield\<close>,
  \<^verbatim>\<open>sleep\<close>, \<^verbatim>\<open>wakeup\<close>, \<^verbatim>\<open>kkill\<close> and the mutex system calls.

  Pointers to \<^verbatim>\<open>struct proc\<close> are indices in \<open>procs\<close>; the null pointer is \<open>None\<close>. The hart that
  runs the code is the argument \<open>h\<close>, the value \<^verbatim>\<open>r_tp()\<close> gives to \<^verbatim>\<open>cpuid\<close>. A section between
  \<^verbatim>\<open>acquire\<close> and \<^verbatim>\<open>release\<close> of one lock is atomic; where the code releases a lock and takes it
  again (\<^verbatim>\<open>yield\<close>, \<^verbatim>\<open>sleep\<close>) the operation is cut there into two definitions.
\<close>

section \<open>Data\<close>

definition NPROC :: nat where "NPROC = 64"
definition NCPU :: nat where "NCPU = 8"
definition NMUTEX :: nat where "NMUTEX = 64"

datatype procstate = UNUSED | USED | SLEEPING | RUNNABLE | RUNNING | ZOMBIE

record proc =
  p_state :: procstate
  p_chan :: "chan option"
  p_killed :: int
  p_xstate :: int
  p_pid :: int
  p_deadline :: int
  p_priority :: int
  p_start_time :: int
  p_in_rq :: bool
  p_parent :: "nat option"
  p_kstack :: u64
  p_sz :: u64
  p_pagetable :: u64
  p_trapframe :: u64
  p_context :: "u64 list"
  p_ofile :: "nat option list"
  p_cwd :: "nat option"
  p_name :: bytes
  p_trace_mask :: u64

record sched_attr =
  sa_deadline :: int
  sa_priority :: int
  sa_start_time :: int

record mutex =
  m_locked :: bool
  m_used :: bool
  m_owner :: "nat option"

record cpu =
  c_proc :: "nat option"

record ready_queue =
  rq_procs :: "nat list"
  rq_count :: nat

record sched_state = kmem_state +
  procs :: "proc list"
  cpus :: "cpu list"
  rq :: ready_queue
  mutexes :: "mutex list"
  nextpid :: int
  initproc :: "nat option"
  ticks :: u32

definition mycpu :: "nat \<Rightarrow> 'a sched_state_scheme \<Rightarrow> cpu" where
  "mycpu h s = cpus s ! h"

definition myproc :: "nat \<Rightarrow> 'a sched_state_scheme \<Rightarrow> nat option" where
  "myproc h s = c_proc (mycpu h s)"

definition upd_proc :: "nat \<Rightarrow> (proc \<Rightarrow> proc) \<Rightarrow> ('a sched_state_scheme, unit) kmon" where
  "upd_proc i f = modk (\<lambda>s. s\<lparr>procs := (procs s)[i := f (procs s ! i)]\<rparr>)"

definition upd_mutex :: "nat \<Rightarrow> (mutex \<Rightarrow> mutex) \<Rightarrow> ('a sched_state_scheme, unit) kmon" where
  "upd_mutex i f = modk (\<lambda>s. s\<lparr>mutexes := (mutexes s)[i := f (mutexes s ! i)]\<rparr>)"

text \<open>\<^verbatim>\<open>int now = ticks\<close>: the unsigned tick count read as a signed int.\<close>

definition now_ticks :: "'a sched_state_scheme \<Rightarrow> int" where
  "now_ticks s = sint (ticks s)"

definition KSTACK :: "nat \<Rightarrow> u64" where
  "KSTACK p = (2 ^ 38 - 4096) - of_nat ((p + 1) * 2 * 4096)"

definition procinit :: "('a sched_state_scheme, unit) kmon" where
  "procinit =
     thenk (for_each [0..<NPROC] (\<lambda>i. upd_proc i (\<lambda>p. p\<lparr>p_state := UNUSED, p_kstack := KSTACK i\<rparr>)))
     (thenk (for_each [0..<NMUTEX] (\<lambda>i. upd_mutex i (\<lambda>m. m\<lparr>m_locked := False, m_used := False, m_owner := None\<rparr>)))
     (modk (\<lambda>s. s\<lparr>rq := (rq s)\<lparr>rq_count := 0\<rparr>\<rparr>)))"

definition allocpid :: "('a sched_state_scheme, int) kmon" where
  "allocpid = bindk (gets nextpid) (\<lambda>pid. thenk (modk (\<lambda>s. s\<lparr>nextpid := nextpid s + 1\<rparr>)) (ret pid))"

section \<open>Ready queue\<close>

text \<open>The loop condition of \<^verbatim>\<open>rq_insert\<close>: the queued process \<open>r\<close> is due after \<open>p\<close>.\<close>

definition due_after :: "proc list \<Rightarrow> nat \<Rightarrow> nat \<Rightarrow> bool" where
  "due_after ps r p \<longleftrightarrow> p_deadline (ps ! r) > p_deadline (ps ! p)
     \<or> (p_deadline (ps ! r) = p_deadline (ps ! p) \<and> p_priority (ps ! r) > p_priority (ps ! p))"

fun rq_shift_up :: "(nat \<Rightarrow> bool) \<Rightarrow> nat \<Rightarrow> nat list \<Rightarrow> nat \<times> nat list" where
  "rq_shift_up later 0 q = (0, q)"
| "rq_shift_up later (Suc i) q =
     (if later (q ! i) then rq_shift_up later i (q[Suc i := q ! i]) else (Suc i, q))"

definition rq_shift_down :: "nat \<Rightarrow> nat \<Rightarrow> nat list \<Rightarrow> nat list" where
  "rq_shift_down i n q = foldl (\<lambda>q j. q[j := q ! Suc j]) q [i..<n - 1]"

definition rq_insert :: "nat \<Rightarrow> ('a sched_state_scheme, unit) kmon" where
  "rq_insert p =
     bindk (gets (\<lambda>s. (procs s, rq s, now_ticks s))) (\<lambda>(ps, r, now).
     if p_in_rq (ps ! p) then ret ()
     else if p_start_time (ps ! p) > now then ret ()
     else if rq_count r \<ge> NPROC then panic ''ready queue overflow''
     else (case rq_shift_up (\<lambda>x. due_after ps x p) (rq_count r) (rq_procs r) of (i, q) \<Rightarrow>
       thenk (modk (\<lambda>s. s\<lparr>rq := (rq s)\<lparr>rq_procs := q[i := p]\<rparr>\<rparr>))
       (thenk (upd_proc p (\<lambda>x. x\<lparr>p_in_rq := True\<rparr>))
       (modk (\<lambda>s. s\<lparr>rq := (rq s)\<lparr>rq_count := rq_count (rq s) + 1\<rparr>\<rparr>)))))"

fun rq_find :: "nat \<Rightarrow> nat \<Rightarrow> nat \<Rightarrow> nat list \<Rightarrow> nat option" where
  "rq_find p i 0 q = None"
| "rq_find p i (Suc n) q = (if q ! i = p then Some i else rq_find p (Suc i) n q)"

definition rq_remove :: "nat \<Rightarrow> ('a sched_state_scheme, unit) kmon" where
  "rq_remove p =
     bindk (gets rq) (\<lambda>r.
     case rq_find p 0 (rq_count r) (rq_procs r) of
       None \<Rightarrow> ret ()
     | Some i \<Rightarrow>
         thenk (modk (\<lambda>s. s\<lparr>rq := \<lparr>rq_procs = rq_shift_down i (rq_count r) (rq_procs r), rq_count = rq_count r - 1\<rparr>\<rparr>))
         (upd_proc p (\<lambda>x. x\<lparr>p_in_rq := False\<rparr>)))"

definition rq_dequeue :: "('a sched_state_scheme, nat option) kmon" where
  "rq_dequeue =
     bindk (gets rq) (\<lambda>r.
     if rq_count r = 0 then ret None
     else thenk (upd_proc (rq_procs r ! 0) (\<lambda>x. x\<lparr>p_in_rq := False\<rparr>))
       (thenk (modk (\<lambda>s. s\<lparr>rq := \<lparr>rq_procs = rq_shift_down 0 (rq_count r) (rq_procs r), rq_count = rq_count r - 1\<rparr>\<rparr>))
       (ret (Some (rq_procs r ! 0)))))"

section \<open>Sleeping, waking, killing\<close>

definition wakeup1 :: "nat \<Rightarrow> chan \<Rightarrow> nat \<Rightarrow> ('a sched_state_scheme, unit) kmon" where
  "wakeup1 h c i =
     bindk (gets (\<lambda>s. (myproc h s, procs s ! i))) (\<lambda>(me, p).
     whenk (Some i \<noteq> me \<and> p_state p = SLEEPING \<and> p_chan p = Some c)
       (thenk (upd_proc i (\<lambda>p. p\<lparr>p_state := RUNNABLE\<rparr>)) (rq_insert i)))"

definition wakeup :: "nat \<Rightarrow> chan \<Rightarrow> ('a sched_state_scheme, unit) kmon" where
  "wakeup h c = for_each [0..<NPROC] (wakeup1 h c)"

definition reparent :: "nat \<Rightarrow> nat \<Rightarrow> ('a sched_state_scheme, unit) kmon" where
  "reparent h p =
     for_each [0..<NPROC] (\<lambda>i.
       bindk (gets (\<lambda>s. (p_parent (procs s ! i), initproc s))) (\<lambda>(pp, ini).
       whenk (pp = Some p)
         (thenk (upd_proc i (\<lambda>x. x\<lparr>p_parent := ini\<rparr>))
         (case ini of None \<Rightarrow> ret () | Some k \<Rightarrow> wakeup h (ChanProc k)))))"

text \<open>\<^verbatim>\<open>kkill\<close>: the first entry of the table with that pid.\<close>

fun find_pid :: "int \<Rightarrow> proc list \<Rightarrow> nat option" where
  "find_pid pid [] = None"
| "find_pid pid (p # ps) = (if p_pid p = pid then Some 0 else map_option Suc (find_pid pid ps))"

definition kkill :: "int \<Rightarrow> ('a sched_state_scheme, int) kmon" where
  "kkill pid =
     bindk (gets (\<lambda>s. find_pid pid (procs s))) (\<lambda>r.
     case r of
       None \<Rightarrow> ret (- 1)
     | Some i \<Rightarrow>
         thenk (upd_proc i (\<lambda>p. p\<lparr>p_killed := 1\<rparr>))
         (bindk (gets (\<lambda>s. p_state (procs s ! i))) (\<lambda>st.
         thenk (whenk (st = SLEEPING)
           (thenk (upd_proc i (\<lambda>p. p\<lparr>p_state := RUNNABLE\<rparr>)) (rq_insert i)))
         (ret 0))))"

definition setkilled :: "nat \<Rightarrow> ('a sched_state_scheme, unit) kmon" where
  "setkilled p = upd_proc p (\<lambda>x. x\<lparr>p_killed := 1\<rparr>)"

definition killed :: "nat \<Rightarrow> ('a sched_state_scheme, int) kmon" where
  "killed p = gets (\<lambda>s. p_killed (procs s ! p))"

section \<open>Switching\<close>

text \<open>
  The check of \<^verbatim>\<open>sched\<close> that depends on the process table. Its three others (\<^verbatim>\<open>p->lock\<close> held,
  one lock held, interrupts off) concern the lock of the atomic section the caller is in.
\<close>

definition sched :: "nat \<Rightarrow> ('a sched_state_scheme, unit) kmon" where
  "sched p = bindk (gets (\<lambda>s. p_state (procs s ! p))) (\<lambda>st.
     if st = RUNNING then panic ''sched RUNNING'' else ret ())"

text \<open>
  \<^verbatim>\<open>yield\<close> holds \<^verbatim>\<open>p->lock\<close> twice: once to mark the process, then, after \<^verbatim>\<open>rq_insert\<close>,
  to switch away. \<open>yield_mark\<close>, \<open>rq_insert\<close> and \<open>yield_switch\<close> are its atomic steps.
\<close>

definition yield_mark :: "nat \<Rightarrow> ('a sched_state_scheme, unit) kmon" where
  "yield_mark p = upd_proc p (\<lambda>x. x\<lparr>p_state := RUNNABLE\<rparr>)"

text \<open>The hart leaves the process: \<^verbatim>\<open>scheduler\<close> continues after \<^verbatim>\<open>swtch\<close> with \<^verbatim>\<open>c->proc = 0\<close>.\<close>

definition leave_cpu :: "nat \<Rightarrow> ('a sched_state_scheme, unit) kmon" where
  "leave_cpu h = modk (\<lambda>s. s\<lparr>cpus := (cpus s)[h := (cpus s ! h)\<lparr>c_proc := None\<rparr>]\<rparr>)"

definition yield_switch :: "nat \<Rightarrow> nat \<Rightarrow> ('a sched_state_scheme, unit) kmon" where
  "yield_switch h p = thenk (sched p) (leave_cpu h)"

definition yield :: "nat \<Rightarrow> nat \<Rightarrow> ('a sched_state_scheme, unit) kmon" where
  "yield h p = thenk (yield_mark p) (thenk (rq_insert p) (yield_switch h p))"

text \<open>\<^verbatim>\<open>sleep\<close> up to the switch, and what the process does when it runs again.\<close>

definition sleep_enter :: "nat \<Rightarrow> nat \<Rightarrow> chan \<Rightarrow> ('a sched_state_scheme, unit) kmon" where
  "sleep_enter h p c =
     bindk (gets (\<lambda>s. p_state (procs s ! p))) (\<lambda>st.
     thenk (whenk (st = RUNNABLE) (rq_remove p))
     (thenk (upd_proc p (\<lambda>x. x\<lparr>p_chan := Some c, p_state := SLEEPING\<rparr>))
     (thenk (sched p) (leave_cpu h))))"

definition sleep_resume :: "nat \<Rightarrow> ('a sched_state_scheme, unit) kmon" where
  "sleep_resume p = upd_proc p (\<lambda>x. x\<lparr>p_chan := None\<rparr>)"

definition activate :: "int \<Rightarrow> nat \<Rightarrow> ('a sched_state_scheme, unit) kmon" where
  "activate now i =
     bindk (gets (\<lambda>s. procs s ! i)) (\<lambda>p.
     whenk (p_state p = RUNNABLE \<and> \<not> p_in_rq p \<and> p_start_time p \<le> now) (rq_insert i))"

text \<open>
  One turn of the loop of \<^verbatim>\<open>scheduler\<close> up to the switch: the result is the process the hart
  switches to, and \<open>None\<close> when the hart waits for an interrupt or looks at the queue again.
\<close>

definition scheduler :: "nat \<Rightarrow> ('a sched_state_scheme, nat option) kmon" where
  "scheduler h =
     bindk (gets now_ticks) (\<lambda>now.
     thenk (for_each [0..<NPROC] (activate now))
     (bindk rq_dequeue (\<lambda>r.
     case r of
       None \<Rightarrow> ret None
     | Some p \<Rightarrow>
         bindk (gets (\<lambda>s. p_state (procs s ! p))) (\<lambda>st.
         if st = RUNNABLE then
           thenk (upd_proc p (\<lambda>x. x\<lparr>p_state := RUNNING\<rparr>))
           (thenk (modk (\<lambda>s. s\<lparr>cpus := (cpus s)[h := (cpus s ! h)\<lparr>c_proc := Some p\<rparr>]\<rparr>))
           (ret (Some p)))
         else ret None))))"

section \<open>Scheduling attributes and mutexes\<close>

text \<open>
  The sections of the system calls that hold the locks: the attributes of a process, and the mutex
  calls from the point where their argument is known. Theory \<open>Sysproc\<close> has the whole calls.
\<close>

definition setSchedAttr :: "nat \<Rightarrow> sched_attr \<Rightarrow> ('a sched_state_scheme, unit) kmon" where
  "setSchedAttr p a = upd_proc p (\<lambda>x. x\<lparr>p_deadline := sa_deadline a, p_priority := sa_priority a,
     p_start_time := sa_start_time a\<rparr>)"

definition getSchedAttr :: "nat \<Rightarrow> ('a sched_state_scheme, sched_attr) kmon" where
  "getSchedAttr p = gets (\<lambda>s. let x = procs s ! p in
     \<lparr>sa_deadline = p_deadline x, sa_priority = p_priority x, sa_start_time = p_start_time x\<rparr>)"

fun find_unused :: "mutex list \<Rightarrow> nat option" where
  "find_unused [] = None"
| "find_unused (m # ms) = (if \<not> m_used m then Some 0 else map_option Suc (find_unused ms))"

definition mtx_create :: "nat \<Rightarrow> int \<Rightarrow> ('a sched_state_scheme, int) kmon" where
  "mtx_create h lk =
     bindk (gets (\<lambda>s. (find_unused (take NMUTEX (mutexes s)), myproc h s))) (\<lambda>(r, me).
     case r of
       None \<Rightarrow> ret (- 1)
     | Some i \<Rightarrow>
         thenk (upd_mutex i (\<lambda>_. \<lparr>m_locked = (lk \<noteq> 0), m_used = True, m_owner = (if lk \<noteq> 0 then me else None)\<rparr>))
         (ret (int i)))"

definition mtx_lock :: "nat \<Rightarrow> int \<Rightarrow> ('a sched_state_scheme, int) kmon" where
  "mtx_lock h i =
     (if i < 0 \<or> i \<ge> int NMUTEX then ret (- 1)
      else bindk (gets (\<lambda>s. (mutexes s ! nat i, myproc h s))) (\<lambda>(m, me).
        if \<not> m_used m then ret (- 1)
        else if m_locked m then asleep (ChanMutex (nat i))
        else thenk (upd_mutex (nat i) (\<lambda>m. m\<lparr>m_locked := True, m_owner := me\<rparr>)) (ret 0)))"

definition mtx_unlock :: "nat \<Rightarrow> int \<Rightarrow> ('a sched_state_scheme, int) kmon" where
  "mtx_unlock h i =
     (if i < 0 \<or> i \<ge> int NMUTEX then ret (- 1)
      else bindk (gets (\<lambda>s. mutexes s ! nat i)) (\<lambda>m.
        if \<not> m_used m \<or> \<not> m_locked m then ret (- 1)
        else thenk (upd_mutex (nat i) (\<lambda>m. m\<lparr>m_locked := False, m_owner := None\<rparr>))
          (thenk (wakeup h (ChanMutex (nat i))) (ret 0))))"

definition clockintr_tick :: "nat \<Rightarrow> ('a sched_state_scheme, unit) kmon" where
  "clockintr_tick h = whenk (h = 0)
     (thenk (modk (\<lambda>s. s\<lparr>ticks := ticks s + 1\<rparr>)) (wakeup h ChanTicks))"

end
