(* ===== verification/Dll.thy ===== *)
theory Dll
  imports Kernel_Prelude
begin

text \<open>
  Circular doubly linked lists through a head node, over the \<^verbatim>\<open>next\<close> and \<^verbatim>\<open>prev\<close> fields
  read as functions on node numbers. \<open>chain f x as y\<close>: following \<open>f\<close> from \<open>x\<close> visits the
  nodes \<open>as\<close> in order and then reaches \<open>y\<close>. \<open>dll n p h xs\<close>: the list with head \<open>h\<close>
  holds the nodes \<open>xs\<close>, forwards along \<open>n\<close> and backwards along \<open>p\<close>.
\<close>

fun chain :: "(nat \<Rightarrow> nat) \<Rightarrow> nat \<Rightarrow> nat list \<Rightarrow> nat \<Rightarrow> bool" where
  "chain f x [] y \<longleftrightarrow> f x = y"
| "chain f x (a # as) y \<longleftrightarrow> f x = a \<and> chain f a as y"

definition dll :: "(nat \<Rightarrow> nat) \<Rightarrow> (nat \<Rightarrow> nat) \<Rightarrow> nat \<Rightarrow> nat list \<Rightarrow> bool" where
  "dll n p h xs \<longleftrightarrow> chain n h xs h \<and> chain p h (rev xs) h \<and> distinct (h # xs)"

lemma chain_append: "chain f x (as @ b # bs) y \<longleftrightarrow> chain f x as b \<and> chain f b bs y"
  by (induction as arbitrary: x) auto

lemma chain_snoc: "chain f x (as @ [b]) y \<longleftrightarrow> chain f x as b \<and> f b = y"
  by (simp add: chain_append)

lemma chain_upd [simp]: "u \<noteq> x \<Longrightarrow> u \<notin> set as \<Longrightarrow> chain (f(u := v)) x as y = chain f x as y"
  by (induction as arbitrary: x) auto

lemma chain_last: "chain f x as y \<Longrightarrow> f (last (x # as)) = y"
  by (induction as arbitrary: x) auto

lemma chain_upd_last:
  assumes "chain f x as y" and "distinct (x # as)"
  shows "chain (f(last (x # as) := z)) x as z"
  using assms
proof (induction as arbitrary: x)
  case Nil
  then show ?case by simp
next
  case (Cons a as)
  then have "x \<noteq> last (a # as)" by (metis distinct.simps(2) last_in_set list.discI)
  with Cons show ?case by auto
qed

lemma dll_prev_of:
  assumes "dll n p h (us @ b # vs)"
  shows "p b = last (h # us)" and "n b = hd (vs @ [h])"
proof -
  have "chain p h (rev vs @ b # rev us) h" using assms by (simp add: dll_def)
  then have "chain p b (rev us) h" by (simp add: chain_append)
  then show "p b = last (h # us)" by (cases us rule: rev_cases) auto
  have "chain n b vs h" using assms by (simp add: dll_def chain_append)
  then show "n b = hd (vs @ [h])" by (cases vs) auto
qed

lemma chain_replace:
  assumes "chain f x (as @ b # cs) y" and "distinct (x # as @ b # cs)"
  shows "chain (f(last (x # as) := f b)) x (as @ cs) y"
proof -
  have ab: "chain f x as b" and bc: "chain f b cs y"
    using assms(1) by (simp_all add: chain_append)
  have pre: "chain (f(last (x # as) := f b)) x as (f b)"
    using ab assms(2) by (intro chain_upd_last) auto
  show ?thesis
  proof (cases cs)
    case Nil
    with bc pre show ?thesis by simp
  next
    case (Cons c cs')
    have "last (x # as) \<in> set (x # as)" by (rule last_in_set) simp
    then have notin: "last (x # as) \<noteq> c" "last (x # as) \<notin> set cs'"
      using assms(2) Cons by auto
    have fb: "f b = c" and cc: "chain f c cs' y" using bc Cons by simp_all
    from pre cc notin show ?thesis
      by (simp only: Cons chain_append fb chain_upd simp_thms not_False_eq_True)
  qed
qed

lemma dll_unlink:
  assumes "dll n p h (us @ b # vs)"
  shows "dll (n(p b := n b)) (p(n b := p b)) h (us @ vs)"
proof -
  have d: "distinct (h # us @ b # vs)" using assms by (simp add: dll_def)
  have "chain n h (us @ b # vs) h" using assms by (simp add: dll_def)
  then have fwd: "chain (n(last (h # us) := n b)) h (us @ vs) h"
    using d by (rule chain_replace)
  have "chain p h (rev vs @ b # rev us) h" using assms by (simp add: dll_def)
  moreover have "distinct (h # rev vs @ b # rev us)" using d by auto
  ultimately have bwd: "chain (p(last (h # rev vs) := p b)) h (rev vs @ rev us) h"
    by (rule chain_replace)
  have "last (h # rev vs) = hd (vs @ [h])" by (cases vs) auto
  with fwd bwd d dll_prev_of [OF assms] show ?thesis
    by (auto simp: dll_def)
qed

lemma dll_push_front:
  assumes "dll n p h xs" and "b \<noteq> h" and "b \<notin> set xs"
  shows "dll (n(b := n h, h := b)) (p(b := h, n h := b)) h (b # xs)"
proof -
  have d: "distinct (h # xs)" and fwd: "chain n h xs h" and bwd: "chain p h (rev xs) h"
    using assms(1) by (simp_all add: dll_def)
  have "chain (n(b := n h)) b xs h"
    using fwd assms(2,3) by (cases xs) auto
  then have fwd': "chain (n(b := n h, h := b)) h (b # xs) h"
    using d assms(2) by simp
  obtain l where l: "l = last (h # rev xs)" by simp
  have nh: "n h = l" using fwd unfolding l by (cases xs) auto
  have "chain (p(l := b)) h (rev xs) b"
    using bwd d unfolding l by (intro chain_upd_last) auto
  moreover have "l \<noteq> b"
    using assms(2,3) unfolding l by (metis last_in_set list.discI set_ConsD set_rev)
  ultimately have "chain (p(b := h, n h := b)) h (rev xs @ [b]) h"
    using assms(2,3) by (simp add: chain_snoc nh fun_upd_twist [of b l])
  with fwd' d assms(2,3) show ?thesis
    by (simp add: dll_def)
qed

text \<open>The move of a node to the front, in the order of the assignments of the C code.\<close>

corollary dll_move_front:
  assumes "dll n p h (us @ b # vs)"
  defines "p1 \<equiv> p(n b := p b)" and "n1 \<equiv> n(p b := n b)"
  shows "dll (n1(b := n1 h, h := b)) (p1(b := h, n1 h := b)) h (b # us @ vs)"
proof (rule dll_push_front)
  show "dll n1 p1 h (us @ vs)"
    unfolding n1_def p1_def using assms(1) by (rule dll_unlink)
  show "b \<noteq> h" "b \<notin> set (us @ vs)"
    using assms(1) by (auto simp: dll_def)
qed

subsection \<open>Walks along a chain\<close>

text \<open>
  The loop \<^verbatim>\<open>for(b = head.f; b != &head; b = b->f) if(P(b)) return b;\<close>. The first argument
  bounds the number of iterations.
\<close>

fun walk_list :: "nat \<Rightarrow> (nat \<Rightarrow> nat) \<Rightarrow> nat \<Rightarrow> (nat \<Rightarrow> bool) \<Rightarrow> nat \<Rightarrow> nat option" where
  "walk_list 0 f h P b = None"
| "walk_list (Suc k) f h P b =
     (if b = h then None else if P b then Some b else walk_list k f h P (f b))"

lemma walk_list_chain:
  assumes "chain f x xs h" and "h \<notin> set xs" and "length xs < k"
  shows "walk_list k f h P (f x) = find P xs"
  using assms
proof (induction xs arbitrary: x k)
  case Nil
  then show ?case by (cases k) auto
next
  case (Cons a xs)
  then obtain k' where "k = Suc k'" by (cases k) auto
  with Cons show ?case by auto
qed

lemma walk_list_forward:
  "dll n p h xs \<Longrightarrow> length xs < k \<Longrightarrow> walk_list k n h P (n h) = find P xs"
  by (rule walk_list_chain) (auto simp: dll_def)

lemma walk_list_backward:
  "dll n p h xs \<Longrightarrow> length xs < k \<Longrightarrow> walk_list k p h P (p h) = find P (rev xs)"
  by (rule walk_list_chain) (auto simp: dll_def)

end
