(* ===== verification/Bio.thy ===== *)
theory Bio
  imports Sched Dll
begin

text \<open>
  The buffer cache (\<^verbatim>\<open>kernel/bio.c\<close>).

  \<^item> \<open>buf\<close> is \<^verbatim>\<open>struct buf\<close>; the fields \<^verbatim>\<open>prev\<close> and \<^verbatim>\<open>next\<close> are node numbers. The table
    \<open>bufs\<close> holds \<^verbatim>\<open>bcache.buf[0..NBUF-1]\<close> followed by \<^verbatim>\<open>bcache.head\<close> at index \<open>NBUF\<close>.
  \<^item> The disk behind the cache is the state \<open>disk_state\<close>: the contents of each block and the
    history of completed block writes, in order. \<open>virtio_disk_rw\<close> is the transfer the driver
    completes before it returns; the device number plays no role in it.
  \<^item> \<open>bio_inv d\<close> is the invariant of the cache when it serves device \<open>d\<close>: the LRU list is a
    well-formed ring of all buffers, no block is cached twice, and a buffer nobody references
    holds what the disk holds. \<open>view d s\<close> gives, for each block, what a reader of the cache
    sees. The contracts of \<open>bread\<close>, \<open>brelse\<close> and \<open>bwrite\<close> are stated over these two.
\<close>

section \<open>State\<close>

record disk_state = sched_state +
  disk :: "u32 \<Rightarrow> block"
  dtrace :: "(u32 \<times> block) list"

record buf =
  b_valid :: bool
  b_disk :: bool
  b_dev :: u32
  b_blockno :: u32
  b_lock :: sleeplock
  b_refcnt :: u32
  b_prev :: nat
  b_next :: nat
  b_data :: block

record bio_state = disk_state +
  bufs :: "buf list"

definition HEAD :: nat where "HEAD = NBUF"

definition upd_buf :: "nat \<Rightarrow> (buf \<Rightarrow> buf) \<Rightarrow> 'a bio_state_scheme \<Rightarrow> 'a bio_state_scheme" where
  "upd_buf i f s = s\<lparr>bufs := (bufs s)[i := f (bufs s ! i)]\<rparr>"

section \<open>Operations\<close>

text \<open>One pass of the loop of \<^verbatim>\<open>binit\<close>: insert buffer \<open>b\<close> after the head.\<close>

definition binit_insert :: "nat \<Rightarrow> 'a bio_state_scheme \<Rightarrow> 'a bio_state_scheme" where
  "binit_insert b s =
     (let s = upd_buf b (\<lambda>x. x\<lparr>b_next := b_next (bufs s ! HEAD)\<rparr>) s;
          s = upd_buf b (\<lambda>x. x\<lparr>b_prev := HEAD\<rparr>) s;
          s = upd_buf b (\<lambda>x. x\<lparr>b_lock := initsleeplock\<rparr>) s;
          s = upd_buf (b_next (bufs s ! HEAD)) (\<lambda>x. x\<lparr>b_prev := b\<rparr>) s;
          s = upd_buf HEAD (\<lambda>x. x\<lparr>b_next := b\<rparr>) s
      in s)"

definition binit :: "'a bio_state_scheme \<Rightarrow> 'a bio_state_scheme" where
  "binit s =
     (let s = upd_buf HEAD (\<lambda>x. x\<lparr>b_prev := HEAD\<rparr>) s;
          s = upd_buf HEAD (\<lambda>x. x\<lparr>b_next := HEAD\<rparr>) s
      in fold binit_insert [0..<NBUF] s)"

text \<open>The transfer done by \<^verbatim>\<open>virtio_disk_rw\<close>: it uses \<^verbatim>\<open>b->blockno\<close> and \<^verbatim>\<open>b->data\<close> only.\<close>

definition virtio_disk_rw :: "nat \<Rightarrow> bool \<Rightarrow> ('a bio_state_scheme, unit) kmon" where
  "virtio_disk_rw b write =
     modk (\<lambda>s. if write
        then s\<lparr>disk := (disk s)(b_blockno (bufs s ! b) := b_data (bufs s ! b)),
               dtrace := dtrace s @ [(b_blockno (bufs s ! b), b_data (bufs s ! b))]\<rparr>
        else upd_buf b (\<lambda>x. x\<lparr>b_data := disk s (b_blockno x)\<rparr>) s)"

abbreviation lock_of :: "nat \<Rightarrow> 'a bio_state_scheme \<Rightarrow> sleeplock" where
  "lock_of b \<equiv> \<lambda>s. b_lock (bufs s ! b)"

abbreviation upd_lock :: "nat \<Rightarrow> (sleeplock \<Rightarrow> sleeplock) \<Rightarrow> 'a bio_state_scheme \<Rightarrow> 'a bio_state_scheme" where
  "upd_lock b f \<equiv> upd_buf b (b_lock_update f)"

definition bget_cached :: "buf list \<Rightarrow> u32 \<Rightarrow> u32 \<Rightarrow> nat option" where
  "bget_cached bs dev blockno =
     walk_list (Suc NBUF) (\<lambda>b. b_next (bs ! b)) HEAD
       (\<lambda>b. b_dev (bs ! b) = dev \<and> b_blockno (bs ! b) = blockno) (b_next (bs ! HEAD))"

definition bget_lru :: "buf list \<Rightarrow> nat option" where
  "bget_lru bs =
     walk_list (Suc NBUF) (\<lambda>b. b_prev (bs ! b)) HEAD (\<lambda>b. b_refcnt (bs ! b) = 0) (b_prev (bs ! HEAD))"

definition bget :: "u32 \<Rightarrow> u32 \<Rightarrow> ('a bio_state_scheme, nat) kmon" where
  "bget dev blockno =
     bindk (gets (\<lambda>s. bget_cached (bufs s) dev blockno)) (\<lambda>c.
     case c of
       Some b \<Rightarrow>
         thenk (modk (upd_buf b (\<lambda>x. x\<lparr>b_refcnt := b_refcnt x + 1\<rparr>)))
        (thenk (acquiresleep (ChanBuf b) (lock_of b) (upd_lock b))
        (ret b))
     | None \<Rightarrow>
         bindk (gets (\<lambda>s. bget_lru (bufs s))) (\<lambda>r.
         case r of
           Some b \<Rightarrow>
             thenk (modk (upd_buf b (\<lambda>x. x\<lparr>b_dev := dev, b_blockno := blockno,
                                          b_valid := False, b_refcnt := 1\<rparr>)))
            (thenk (acquiresleep (ChanBuf b) (lock_of b) (upd_lock b))
            (ret b))
         | None \<Rightarrow> panic ''bget: no buffers''))"

definition bread :: "u32 \<Rightarrow> u32 \<Rightarrow> ('a bio_state_scheme, nat) kmon" where
  "bread dev blockno =
     bindk (bget dev blockno) (\<lambda>b.
     bindk (gets (\<lambda>s. b_valid (bufs s ! b))) (\<lambda>v.
     thenk (whenk (\<not> v)
              (thenk (virtio_disk_rw b False) (modk (upd_buf b (\<lambda>x. x\<lparr>b_valid := True\<rparr>)))))
    (ret b)))"

definition bwrite :: "nat \<Rightarrow> ('a bio_state_scheme, unit) kmon" where
  "bwrite b =
     bindk (holdingsleep (lock_of b)) (\<lambda>h.
     if \<not> h then panic ''bwrite'' else virtio_disk_rw b True)"

text \<open>The six assignments of \<^verbatim>\<open>brelse\<close> that move \<open>b\<close> behind the head, in their order.\<close>

definition move_to_head :: "nat \<Rightarrow> 'a bio_state_scheme \<Rightarrow> 'a bio_state_scheme" where
  "move_to_head b s =
     (let s = upd_buf (b_next (bufs s ! b)) (\<lambda>x. x\<lparr>b_prev := b_prev (bufs s ! b)\<rparr>) s;
          s = upd_buf (b_prev (bufs s ! b)) (\<lambda>x. x\<lparr>b_next := b_next (bufs s ! b)\<rparr>) s;
          s = upd_buf b (\<lambda>x. x\<lparr>b_next := b_next (bufs s ! HEAD)\<rparr>) s;
          s = upd_buf b (\<lambda>x. x\<lparr>b_prev := HEAD\<rparr>) s;
          s = upd_buf (b_next (bufs s ! HEAD)) (\<lambda>x. x\<lparr>b_prev := b\<rparr>) s;
          s = upd_buf HEAD (\<lambda>x. x\<lparr>b_next := b\<rparr>) s
      in s)"

definition brelse :: "nat \<Rightarrow> ('a bio_state_scheme, unit) kmon" where
  "brelse b =
     bindk (holdingsleep (lock_of b)) (\<lambda>h.
     if \<not> h then panic ''brelse''
     else
       thenk (releasesleep (ChanBuf b) (upd_lock b))
      (thenk (modk (upd_buf b (\<lambda>x. x\<lparr>b_refcnt := b_refcnt x - 1\<rparr>)))
      (bindk (gets (\<lambda>s. b_refcnt (bufs s ! b))) (\<lambda>r.
       whenk (r = 0) (modk (move_to_head b))))))"

definition bpin :: "nat \<Rightarrow> ('a bio_state_scheme, unit) kmon" where
  "bpin b = modk (upd_buf b (\<lambda>x. x\<lparr>b_refcnt := b_refcnt x + 1\<rparr>))"

definition bunpin :: "nat \<Rightarrow> ('a bio_state_scheme, unit) kmon" where
  "bunpin b = modk (upd_buf b (\<lambda>x. x\<lparr>b_refcnt := b_refcnt x - 1\<rparr>))"

section \<open>Invariant and view\<close>

definition ring :: "buf list \<Rightarrow> nat list \<Rightarrow> bool" where
  "ring bs xs \<longleftrightarrow> length bs = Suc NBUF \<and> set xs = {..<NBUF}
     \<and> dll (\<lambda>i. b_next (bs ! i)) (\<lambda>i. b_prev (bs ! i)) HEAD xs"

definition buf_ok :: "u32 \<Rightarrow> (u32 \<Rightarrow> block) \<Rightarrow> buf \<Rightarrow> bool" where
  "buf_ok d dk b \<longleftrightarrow>
     (b_dev b = d \<or> b_dev b = 0 \<and> \<not> b_valid b)
   \<and> (if sl_locked (b_lock b) then b_refcnt b = 1 \<or> b_refcnt b = 2
      else b_refcnt b = 0 \<or> b_refcnt b = 1)
   \<and> (b_valid b \<longrightarrow> length (b_data b) = BSIZE)
   \<and> (b_refcnt b \<noteq> 0 \<longrightarrow> b_valid b)
   \<and> (b_valid b \<and> b_refcnt b = 0 \<longrightarrow> b_data b = dk (b_blockno b))"

definition caches :: "u32 \<Rightarrow> u32 \<Rightarrow> buf \<Rightarrow> bool" where
  "caches d bn b \<longleftrightarrow> b_dev b = d \<and> b_blockno b = bn"

definition uniq_bufs :: "u32 \<Rightarrow> buf list \<Rightarrow> bool" where
  "uniq_bufs d bs \<longleftrightarrow>
     (\<forall>i < NBUF. \<forall>j < NBUF. b_dev (bs ! i) = d \<longrightarrow> b_dev (bs ! j) = d
        \<longrightarrow> b_blockno (bs ! i) = b_blockno (bs ! j) \<longrightarrow> i = j)"

definition bio_inv :: "u32 \<Rightarrow> 'a bio_state_scheme \<Rightarrow> bool" where
  "bio_inv d s \<longleftrightarrow> d \<noteq> 0 \<and> (\<exists>xs. ring (bufs s) xs) \<and> uniq_bufs d (bufs s)
     \<and> (\<forall>i < NBUF. buf_ok d (disk s) (bufs s ! i)) \<and> (\<forall>bn. length (disk s bn) = BSIZE)"

text \<open>The buffer that caches a block, and the contents of a block as a reader sees it.\<close>

definition slot :: "u32 \<Rightarrow> buf list \<Rightarrow> u32 \<Rightarrow> nat option" where
  "slot d bs bn = scan_first (caches d bn) (take NBUF bs)"

definition view :: "u32 \<Rightarrow> 'a bio_state_scheme \<Rightarrow> u32 \<Rightarrow> block" where
  "view d s bn =
     (case slot d (bufs s) bn of
        None \<Rightarrow> disk s bn
      | Some i \<Rightarrow> if b_valid (bufs s ! i) then b_data (bufs s ! i) else disk s bn)"

definition held :: "'a bio_state_scheme \<Rightarrow> nat \<Rightarrow> bool" where
  "held s i \<longleftrightarrow> i < NBUF \<and> sl_locked (b_lock (bufs s ! i)) \<and> sl_pid (b_lock (bufs s ! i)) = cur_pid s"

text \<open>A buffer without its place in the LRU list.\<close>

definition core :: "buf \<Rightarrow> buf" where
  "core b = b\<lparr>b_prev := 0, b_next := 0\<rparr>"

lemma core_sel [simp]:
  "b_valid (core b) = b_valid b" "b_dev (core b) = b_dev b" "b_blockno (core b) = b_blockno b"
  "b_lock (core b) = b_lock b" "b_refcnt (core b) = b_refcnt b" "b_data (core b) = b_data b"
  by (simp_all add: core_def)

lemma buf_ok_core [simp]: "buf_ok d dk (core b) = buf_ok d dk b"
  by (simp add: buf_ok_def)

lemma caches_core [simp]: "caches d bn (core b) = caches d bn b"
  by (simp add: caches_def)

lemma core_eq_iff:
  "core a = core b \<longleftrightarrow> b_valid a = b_valid b \<and> b_disk a = b_disk b \<and> b_dev a = b_dev b
     \<and> b_blockno a = b_blockno b \<and> b_lock a = b_lock b \<and> b_refcnt a = b_refcnt b \<and> b_data a = b_data b"
  by (cases a; cases b) (auto simp: core_def)

subsection \<open>The ring\<close>

lemma ring_length: "ring bs xs \<Longrightarrow> length xs = NBUF"
  by (metis card_lessThan distinct.simps(2) distinct_card dll_def ring_def)

lemma ring_dll: "ring bs xs \<Longrightarrow> dll (\<lambda>i. b_next (bs ! i)) (\<lambda>i. b_prev (bs ! i)) HEAD xs"
  by (simp add: ring_def)

lemma ring_distinct: "ring bs xs \<Longrightarrow> distinct xs"
  by (simp add: ring_def dll_def)

lemma ring_core_upd:
  assumes "ring bs xs" and "b_next x = b_next (bs ! i)" and "b_prev x = b_prev (bs ! i)" and "i < length bs"
  shows "ring (bs[i := x]) xs"
proof -
  have "(\<lambda>j. b_next (bs[i := x] ! j)) = (\<lambda>j. b_next (bs ! j))"
    and "(\<lambda>j. b_prev (bs[i := x] ! j)) = (\<lambda>j. b_prev (bs ! j))"
    using assms(2-4) by (auto simp: nth_list_update)
  with assms(1) show ?thesis by (simp add: ring_def)
qed

lemma bget_cached_find:
  "ring bs xs \<Longrightarrow> bget_cached bs dev bn = find (\<lambda>b. caches dev bn (bs ! b)) xs"
  unfolding bget_cached_def caches_def
  by (rule walk_list_forward [OF ring_dll]) (simp_all add: ring_length)

lemma bget_lru_find: "ring bs xs \<Longrightarrow> bget_lru bs = find (\<lambda>b. b_refcnt (bs ! b) = 0) (rev xs)"
  unfolding bget_lru_def
  by (rule walk_list_backward [OF ring_dll]) (simp_all add: ring_length)

lemma slot_Some: "length bs = Suc NBUF \<Longrightarrow> slot d bs bn = Some i \<Longrightarrow> i < NBUF \<and> caches d bn (bs ! i)"
  by (auto simp: slot_def scan_first_Some)

lemma slot_None: "length bs = Suc NBUF \<Longrightarrow> slot d bs bn = None \<longleftrightarrow> (\<forall>i < NBUF. \<not> caches d bn (bs ! i))"
  by (simp add: slot_def all_set_conv_all_nth)

lemma slot_unique:
  assumes "length bs = Suc NBUF" and "uniq_bufs d bs" and "i < NBUF" and "caches d bn (bs ! i)"
  shows "slot d bs bn = Some i"
proof (cases "slot d bs bn")
  case None
  with assms show ?thesis by (auto simp: slot_None)
next
  case (Some j)
  with assms(1) have "j < NBUF" "caches d bn (bs ! j)" by (auto dest: slot_Some)
  with assms Some show ?thesis by (auto simp: uniq_bufs_def caches_def)
qed

lemma bget_cached_slot:
  assumes "ring bs xs" and "uniq_bufs d bs"
  shows "bget_cached bs d bn = slot d bs bn"
proof (cases "slot d bs bn")
  case None
  with assms(1) show ?thesis
    by (simp add: bget_cached_find find_None_iff) (auto simp: ring_def slot_None)
next
  case (Some i)
  from assms(1) have len: "length bs = Suc NBUF" and xs: "set xs = {..<NBUF}"
    by (simp_all add: ring_def)
  from Some len have i: "i < NBUF" "caches d bn (bs ! i)" by (auto dest: slot_Some)
  have "find (\<lambda>b. caches d bn (bs ! b)) xs = Some i"
  proof (rule find_unique)
    fix y
    assume "y \<in> set xs" and "caches d bn (bs ! y)"
    then have "slot d bs bn = Some y" using slot_unique [OF len assms(2)] xs by simp
    with Some show "y = i" by simp
  qed (use i xs in auto)
  with assms(1) Some show ?thesis by (simp add: bget_cached_find)
qed

lemma bget_lru_Some:
  assumes "ring bs xs" and "bget_lru bs = Some i"
  shows "i < NBUF \<and> b_refcnt (bs ! i) = 0"
proof -
  have "find (\<lambda>b. b_refcnt (bs ! b) = 0) (rev xs) = Some i"
    using assms by (simp add: bget_lru_find)
  then have "i \<in> set (rev xs)" and "b_refcnt (bs ! i) = 0"
    by (auto dest: find_SomeD)
  with assms(1) show ?thesis by (simp add: ring_def)
qed

lemma bget_lru_None: "ring bs xs \<Longrightarrow> bget_lru bs = None \<longleftrightarrow> (\<forall>i < NBUF. b_refcnt (bs ! i) \<noteq> 0)"
  by (simp add: bget_lru_find find_None_iff) (auto simp: ring_def)

subsection \<open>How the view depends on the buffers\<close>

lemma bio_invD:
  assumes "bio_inv d s"
  shows "length (bufs s) = Suc NBUF" "uniq_bufs d (bufs s)" "d \<noteq> 0"
    "\<And>i. i < NBUF \<Longrightarrow> buf_ok d (disk s) (bufs s ! i)" "\<And>bn. length (disk s bn) = BSIZE"
  using assms by (auto simp: bio_inv_def ring_def)

lemma view_uncached:
  assumes "length (bufs s) = Suc NBUF" and "\<And>i. i < NBUF \<Longrightarrow> \<not> caches d bn (bufs s ! i)"
  shows "view d s bn = disk s bn"
proof -
  have "slot d (bufs s) bn = None" using assms by (simp add: slot_None)
  then show ?thesis by (simp add: view_def)
qed

lemma view_cached:
  assumes "length (bufs s) = Suc NBUF" and "uniq_bufs d (bufs s)" and "i < NBUF" and "caches d bn (bufs s ! i)"
  shows "view d s bn = (if b_valid (bufs s ! i) then b_data (bufs s ! i) else disk s bn)"
  using slot_unique [OF assms] by (simp add: view_def)

lemma view_cong:
  assumes "length (bufs s) = Suc NBUF" and "length (bufs t) = Suc NBUF" and "disk t = disk s"
    and "\<And>i. i < NBUF \<Longrightarrow> caches d bn (bufs t ! i) = caches d bn (bufs s ! i)"
    and "\<And>i. i < NBUF \<Longrightarrow> caches d bn (bufs s ! i) \<Longrightarrow>
          b_valid (bufs t ! i) = b_valid (bufs s ! i) \<and> b_data (bufs t ! i) = b_data (bufs s ! i)"
  shows "view d t bn = view d s bn"
proof -
  have "map (caches d bn) (take NBUF (bufs t)) = map (caches d bn) (take NBUF (bufs s))"
    using assms(1,2,4) by (intro nth_equalityI) simp_all
  moreover have "scan_first P xs = scan_first id (map P xs)" for P and xs :: "buf list"
    by (induction xs) simp_all
  ultimately have "slot d (bufs t) bn = slot d (bufs s) bn" by (simp add: slot_def)
  moreover have "slot d (bufs s) bn = Some i \<Longrightarrow> i < NBUF \<and> caches d bn (bufs s ! i)" for i
    using assms(1) by (rule slot_Some)
  ultimately show ?thesis
    using assms(3,5) by (simp add: view_def split: option.splits)
qed

lemma view_core:
  assumes "length (bufs s) = Suc NBUF" and "length (bufs t) = Suc NBUF" and "disk t = disk s"
    and "\<And>i. i < NBUF \<Longrightarrow> caches d bn (bufs t ! i) = caches d bn (bufs s ! i)
          \<and> b_valid (bufs t ! i) = b_valid (bufs s ! i) \<and> b_data (bufs t ! i) = b_data (bufs s ! i)"
  shows "view d t bn = view d s bn"
  using assms by (intro view_cong) simp_all

lemma bio_inv_upd:
  assumes "bio_inv d s" and "i < NBUF" and "buf_ok d (disk s) x"
    and "b_next x = b_next (bufs s ! i)" and "b_prev x = b_prev (bufs s ! i)"
    and "\<And>j. j < NBUF \<Longrightarrow> j \<noteq> i \<Longrightarrow> b_dev x = d \<Longrightarrow> \<not> caches d (b_blockno x) (bufs s ! j)"
  shows "bio_inv d (s\<lparr>bufs := (bufs s)[i := x]\<rparr>)"
proof -
  from assms(1) obtain xs where xs: "ring (bufs s) xs" by (auto simp: bio_inv_def)
  have len: "length (bufs s) = Suc NBUF" using assms(1) by (rule bio_invD)
  have "ring ((bufs s)[i := x]) xs"
    using xs assms(2,4,5) len by (intro ring_core_upd) simp_all
  moreover have "uniq_bufs d ((bufs s)[i := x])"
    using bio_invD(2) [OF assms(1)] assms(2,6) len
    unfolding uniq_bufs_def caches_def by (simp add: nth_list_update) metis
  moreover have "buf_ok d (disk s) ((bufs s)[i := x] ! j)" if "j < NBUF" for j
    using bio_invD(4) [OF assms(1) that] assms(2,3) len by (simp add: nth_list_update)
  ultimately show ?thesis
    using assms(1) by (auto simp: bio_inv_def)
qed

section \<open>Contracts of the operations\<close>

text \<open>What \<open>bread\<close> leaves in the chosen buffer.\<close>

definition read_into :: "u32 \<Rightarrow> u32 \<Rightarrow> 'a bio_state_scheme \<Rightarrow> nat \<Rightarrow> buf \<Rightarrow> bool" where
  "read_into d bn s i x \<longleftrightarrow>
     i < NBUF \<and> caches d bn x \<and> b_valid x \<and> b_data x = view d s bn
   \<and> b_lock x = \<lparr>sl_locked = True, sl_pid = cur_pid s\<rparr>
   \<and> b_next x = b_next (bufs s ! i) \<and> b_prev x = b_prev (bufs s ! i)
   \<and> (case slot d (bufs s) bn of
        Some j \<Rightarrow> i = j \<and> b_refcnt x = b_refcnt (bufs s ! i) + 1
      | None \<Rightarrow> b_refcnt (bufs s ! i) = 0 \<and> b_refcnt x = 1)"

definition can_read :: "u32 \<Rightarrow> u32 \<Rightarrow> 'a bio_state_scheme \<Rightarrow> bool" where
  "can_read d bn s \<longleftrightarrow>
     (case slot d (bufs s) bn of
        Some i \<Rightarrow> \<not> sl_locked (b_lock (bufs s ! i))
      | None \<Rightarrow> \<exists>i < NBUF. b_refcnt (bufs s ! i) = 0)"

lemma buf_ok_unlocked: "buf_ok d dk b \<Longrightarrow> \<not> sl_locked (b_lock b) \<Longrightarrow> b_refcnt b = 0 \<or> b_refcnt b = 1"
  by (simp add: buf_ok_def)

lemma buf_ok_free: "buf_ok d dk b \<Longrightarrow> b_refcnt b = 0 \<Longrightarrow> \<not> sl_locked (b_lock b)"
  by (auto simp: buf_ok_def split: if_splits)

lemma sleeplock_eqI: "sl_locked a = l \<Longrightarrow> sl_pid a = p \<Longrightarrow> a = \<lparr>sl_locked = l, sl_pid = p\<rparr>"
  by (cases a) simp

lemma bread_run:
  assumes inv: "bio_inv d s" and can: "can_read d bn s"
  shows "wp (bread d bn) s (\<lambda>i t. \<exists>x. t = s\<lparr>bufs := (bufs s)[i := x]\<rparr> \<and> read_into d bn s i x)"
proof -
  from inv obtain xs where xs: "ring (bufs s) xs" by (auto simp: bio_inv_def)
  note len = bio_invD(1) [OF inv] and uniq = bio_invD(2) [OF inv]
  have cached: "bget_cached (bufs s) d bn = slot d (bufs s) bn"
    using xs uniq by (rule bget_cached_slot)
  show ?thesis
  proof (cases "slot d (bufs s) bn")
    case (Some i)
    then have i: "i < NBUF" "caches d bn (bufs s ! i)" using len by (auto dest: slot_Some)
    have v: "view d s bn = (if b_valid (bufs s ! i) then b_data (bufs s ! i) else disk s bn)"
      using len uniq i by (rule view_cached)
    have "\<not> sl_locked (b_lock (bufs s ! i))" using can Some by (simp add: can_read_def)
    with i v len Some show ?thesis
      by (simp add: bread_def bget_def cached upd_buf_def virtio_disk_rw_def read_into_def caches_def)
         (auto intro: sleeplock_eqI)
  next
    case None
    then have "\<exists>i < NBUF. b_refcnt (bufs s ! i) = 0" using can by (simp add: can_read_def)
    with xs obtain i where lru: "bget_lru (bufs s) = Some i"
      by (metis bget_lru_None option.exhaust)
    then have i: "i < NBUF" "b_refcnt (bufs s ! i) = 0" using bget_lru_Some [OF xs] by auto
    have "\<not> sl_locked (b_lock (bufs s ! i))"
      using bio_invD(4) [OF inv i(1)] i(2) by (rule buf_ok_free)
    moreover have "view d s bn = disk s bn"
      using None by (simp add: view_def)
    ultimately show ?thesis using i len None lru
      by (simp add: bread_def bget_def cached upd_buf_def virtio_disk_rw_def read_into_def caches_def)
         (auto intro: sleeplock_eqI)
  qed
qed

lemma read_into_inv:
  assumes inv: "bio_inv d s" and can: "can_read d bn s" and x: "read_into d bn s i x"
  defines "t \<equiv> s\<lparr>bufs := (bufs s)[i := x]\<rparr>"
  shows "bio_inv d t" and "view d t = view d s"
proof -
  note len = bio_invD(1) [OF inv] and uniq = bio_invD(2) [OF inv] and dlen = bio_invD(5) [OF inv]
  have i: "i < NBUF" and cx: "caches d bn x" and links: "b_next x = b_next (bufs s ! i)" "b_prev x = b_prev (bufs s ! i)"
    using x by (simp_all add: read_into_def)
  have ok: "buf_ok d (disk s) (bufs s ! i)" using inv i by (rule bio_invD)
  have dx: "b_dev x = d" "b_blockno x = bn" using cx by (simp_all add: caches_def)
  have others: "\<not> caches d bn (bufs s ! j)" if "j < NBUF" "j \<noteq> i" for j
  proof (cases "slot d (bufs s) bn")
    case None
    with len that show ?thesis by (simp add: slot_None)
  next
    case (Some k)
    with x have "k = i" by (simp add: read_into_def)
    with Some that len uniq show ?thesis using slot_unique [OF len uniq that(1), of bn] by auto
  qed
  have vlen: "length (view d s bn) = BSIZE"
    using dlen ok x by (auto simp: view_def read_into_def buf_ok_def split: option.splits)
  have okx: "buf_ok d (disk s) x"
    using x ok can vlen dx
    by (auto simp: read_into_def buf_ok_def can_read_def split: option.splits)
  have inv_t: "bio_inv d t"
    unfolding t_def using inv i okx links others dx by (intro bio_inv_upd) simp_all
  then show "bio_inv d t" .
  note len_t = bio_invD(1) [OF inv_t] and uniq_t = bio_invD(2) [OF inv_t]
  have ti: "bufs t ! i = x" and tj: "\<And>j. j \<noteq> i \<Longrightarrow> bufs t ! j = bufs s ! j" and dt: "disk t = disk s"
    using i len by (simp_all add: t_def)
  show "view d t = view d s"
  proof
    fix b
    show "view d t b = view d s b"
    proof (cases "b = bn")
      case True
      have "view d t bn = b_data x"
        using view_cached [OF len_t uniq_t i, of bn] cx x ti by (simp add: read_into_def)
      with True x show ?thesis by (simp add: read_into_def)
    next
      case False
      then have nx: "\<not> caches d b x" using dx by (simp add: caches_def)
      show ?thesis
      proof (cases "caches d b (bufs s ! i)")
        case True
        then have none: "slot d (bufs s) bn = None"
        proof (cases "slot d (bufs s) bn")
          case (Some k)
          with x len have "caches d bn (bufs s ! i)" by (auto simp: read_into_def dest: slot_Some)
          with True False show ?thesis by (simp add: caches_def)
        qed simp
        have "view d t b = disk s b"
        proof -
          have "\<not> caches d b (bufs t ! j)" if "j < NBUF" for j
          proof (cases "j = i")
            case True
            with nx ti show ?thesis by simp
          next
            case False
            with tj that True uniq i show ?thesis
              by (auto simp: uniq_bufs_def caches_def)
          qed
          with len_t dt show ?thesis by (simp add: view_uncached)
        qed
        moreover have "view d s b = disk s b"
          using view_cached [OF len uniq i True] ok x none True
          by (auto simp: read_into_def buf_ok_def caches_def)
        ultimately show ?thesis by simp
      next
        case False
        then show ?thesis
          using len len_t dt ti tj nx by (intro view_cong) metis+
      qed
    qed
  qed
qed

lemma bread_spec:
  assumes "bio_inv d s" and "can_read d bn s"
  shows "wp (bread d bn) s (\<lambda>i t. \<exists>x. t = s\<lparr>bufs := (bufs s)[i := x]\<rparr> \<and> read_into d bn s i x
           \<and> bio_inv d t \<and> view d t = view d s)"
  by (rule wp_mono [OF bread_run [OF assms]])
     (auto dest: read_into_inv [OF assms])

subsection \<open>Moving a released buffer to the front\<close>

definition nexts :: "'a bio_state_scheme \<Rightarrow> nat \<Rightarrow> nat" where
  "nexts s i = b_next (bufs s ! i)"

definition prevs :: "'a bio_state_scheme \<Rightarrow> nat \<Rightarrow> nat" where
  "prevs s i = b_prev (bufs s ! i)"

lemma ring_links: "ring (bufs s) xs \<longleftrightarrow> length (bufs s) = Suc NBUF \<and> set xs = {..<NBUF} \<and> dll (nexts s) (prevs s) HEAD xs"
  unfolding ring_def nexts_def [abs_def] prevs_def [abs_def] ..

lemma bufs_upd_buf [simp]: "bufs (upd_buf i f s) = (bufs s)[i := f (bufs s ! i)]"
  by (simp add: upd_buf_def)

lemma set_next:
  assumes "k < length (bufs s)"
  shows "nexts (upd_buf k (\<lambda>x. x\<lparr>b_next := v\<rparr>) s) = (nexts s)(k := v)"
    and "prevs (upd_buf k (\<lambda>x. x\<lparr>b_next := v\<rparr>) s) = prevs s"
  using assms by (auto simp: nexts_def prevs_def nth_list_update)

lemma set_prev:
  assumes "k < length (bufs s)"
  shows "nexts (upd_buf k (\<lambda>x. x\<lparr>b_prev := v\<rparr>) s) = nexts s"
    and "prevs (upd_buf k (\<lambda>x. x\<lparr>b_prev := v\<rparr>) s) = (prevs s)(k := v)"
  using assms by (auto simp: nexts_def prevs_def nth_list_update)

lemma ring_split:
  assumes "ring bs xs" and "b < NBUF"
  obtains us vs where "xs = us @ b # vs"
  using assms by (metis lessThan_iff ring_def split_list)

lemma ring_next_bound:
  assumes "ring bs xs" and "b < NBUF"
  shows "b_next (bs ! b) < Suc NBUF" and "b_prev (bs ! b) < Suc NBUF"
proof -
  obtain us vs where xs: "xs = us @ b # vs" using assms by (rule ring_split)
  have d: "dll (\<lambda>i. b_next (bs ! i)) (\<lambda>i. b_prev (bs ! i)) HEAD (us @ b # vs)"
    using assms(1) xs by (simp add: ring_def)
  have sub: "set us \<subseteq> {..<NBUF}" "set vs \<subseteq> {..<NBUF}" using assms(1) xs by (auto simp: ring_def)
  have "b_next (bs ! b) \<in> set (vs @ [HEAD])" using dll_prev_of(2) [OF d] by (simp add: hd_append)
  then show "b_next (bs ! b) < Suc NBUF" using sub by (auto simp: HEAD_def)
  have "b_prev (bs ! b) \<in> set (HEAD # us)" using dll_prev_of(1) [OF d] by (metis last_in_set list.discI)
  then show "b_prev (bs ! b) < Suc NBUF" using sub by (auto simp: HEAD_def)
qed

lemma dll_next_head_bound:
  assumes "dll n p HEAD xs" and "set xs \<subseteq> {..<NBUF}"
  shows "n HEAD < Suc NBUF"
  using assms by (cases xs) (auto simp: dll_def HEAD_def)

lemma move_to_head_ring:
  assumes "ring (bufs s) (us @ b # vs)"
  shows "ring (bufs (move_to_head b s)) (b # us @ vs)"
proof -
  let ?n = "nexts s" and ?p = "prevs s"
  have len: "length (bufs s) = Suc NBUF" and b: "b < NBUF" and set: "set (us @ b # vs) = {..<NBUF}"
    and d: "dll ?n ?p HEAD (us @ b # vs)"
    using assms by (auto simp: ring_links)
  have nb: "?n b < Suc NBUF" "?p b < Suc NBUF"
    using ring_next_bound [OF assms b] by (simp_all add: nexts_def prevs_def)
  have bh: "b \<noteq> HEAD" "HEAD < Suc NBUF" "b < Suc NBUF" using b by (simp_all add: HEAD_def)
  have nnb: "?n b \<noteq> b" "?p b \<noteq> b"
    using dll_prev_of [OF d] d by (cases vs; cases us rule: rev_cases; auto simp: dll_def)+
  let ?n1 = "?n(?p b := ?n b)" and ?p1 = "?p(?n b := ?p b)"
  have d1: "dll ?n1 ?p1 HEAD (us @ vs)" using d by (rule dll_unlink)
  have h1: "?n1 HEAD < Suc NBUF" using set by (intro dll_next_head_bound [OF d1]) auto
  define s1 where "s1 = upd_buf (?n b) (\<lambda>x. x\<lparr>b_prev := ?p b\<rparr>) s"
  define s2 where "s2 = upd_buf (prevs s1 b) (\<lambda>x. x\<lparr>b_next := nexts s1 b\<rparr>) s1"
  define s3 where "s3 = upd_buf b (\<lambda>x. x\<lparr>b_next := nexts s2 HEAD\<rparr>) s2"
  define s4 where "s4 = upd_buf b (\<lambda>x. x\<lparr>b_prev := HEAD\<rparr>) s3"
  define s5 where "s5 = upd_buf (nexts s4 HEAD) (\<lambda>x. x\<lparr>b_prev := b\<rparr>) s4"
  define s6 where "s6 = upd_buf HEAD (\<lambda>x. x\<lparr>b_next := b\<rparr>) s5"
  have s6: "move_to_head b s = s6"
    by (simp add: move_to_head_def Let_def s1_def s2_def s3_def s4_def s5_def s6_def
        nexts_def prevs_def)
  have 1: "nexts s1 = ?n" "prevs s1 = ?p1" "length (bufs s1) = Suc NBUF"
    unfolding s1_def using nb len by (simp_all only: set_prev) simp
  have 2: "nexts s2 = ?n1" "prevs s2 = ?p1" "length (bufs s2) = Suc NBUF"
    unfolding s2_def using 1 nb nnb by (simp_all add: set_next fun_eq_iff del: bufs_upd_buf) simp
  have 3: "nexts s3 = ?n1(b := ?n1 HEAD)" "prevs s3 = ?p1" "length (bufs s3) = Suc NBUF"
    unfolding s3_def using 2 bh by (simp_all add: set_next del: bufs_upd_buf) simp
  have 4: "nexts s4 = ?n1(b := ?n1 HEAD)" "prevs s4 = ?p1(b := HEAD)" "length (bufs s4) = Suc NBUF"
    unfolding s4_def using 3 bh by (simp_all add: set_prev del: bufs_upd_buf) simp
  have 5: "nexts s5 = ?n1(b := ?n1 HEAD)" "prevs s5 = ?p1(b := HEAD, ?n1 HEAD := b)" "length (bufs s5) = Suc NBUF"
    unfolding s5_def using 4 bh h1 by (simp_all add: set_prev del: bufs_upd_buf) simp
  have 6: "nexts s6 = ?n1(b := ?n1 HEAD, HEAD := b)" "prevs s6 = ?p1(b := HEAD, ?n1 HEAD := b)"
    "length (bufs s6) = Suc NBUF"
    unfolding s6_def using 5 bh by (simp_all add: set_next del: bufs_upd_buf) simp
  have "dll (nexts s6) (prevs s6) HEAD (b # us @ vs)"
    unfolding 6 using d by (rule dll_move_front)
  then show ?thesis
    using set 6(3) by (auto simp: ring_links s6)
qed

text \<open>Two states whose buffers differ in their list links only.\<close>

definition same_core :: "'a bio_state_scheme \<Rightarrow> 'a bio_state_scheme \<Rightarrow> bool" where
  "same_core s t \<longleftrightarrow> t = s\<lparr>bufs := bufs t\<rparr> \<and> length (bufs t) = length (bufs s)
     \<and> (\<forall>j. core (bufs t ! j) = core (bufs s ! j))"

lemma same_core_refl: "same_core s s"
  by (simp add: same_core_def)

lemma same_core_state: "same_core s t \<Longrightarrow> \<exists>bs. t = s\<lparr>bufs := bs\<rparr>"
  unfolding same_core_def by blast

lemma same_core_upd:
  assumes "same_core s t" and "\<And>x. core (f x) = core x"
  shows "same_core s (upd_buf k f t)"
proof -
  have "core ((bufs t)[k := f (bufs t ! k)] ! j) = core (bufs t ! j)" for j
    using assms(2) by (cases "k < length (bufs t)"; cases "j = k") (simp_all add: not_less list_update_beyond)
  moreover obtain bs where "t = s\<lparr>bufs := bs\<rparr>"
    using assms(1) unfolding same_core_def by blast
  then have "upd_buf k f t = s\<lparr>bufs := (bufs t)[k := f (bufs t ! k)]\<rparr>"
    by (simp add: upd_buf_def)
  ultimately show ?thesis
    using assms(1) by (simp add: same_core_def)
qed

lemma move_to_head_core: "same_core s (move_to_head b s)"
  unfolding move_to_head_def Let_def
  by (intro same_core_upd same_core_refl) (simp_all add: core_def)

lemma bio_inv_core:
  assumes "bio_inv d s" and "same_core s t" and "ring (bufs t) xs"
  shows "bio_inv d t" and "view d t = view d s"
proof -
  have len: "length (bufs s) = Suc NBUF" "length (bufs t) = Suc NBUF"
    using assms by (simp_all add: bio_inv_def ring_def same_core_def)
  have eq: "core (bufs t ! j) = core (bufs s ! j)" for j using assms(2) by (simp add: same_core_def)
  have dk: "disk t = disk s" using same_core_state [OF assms(2)] by auto
  have fld: "b_dev (bufs t ! j) = b_dev (bufs s ! j)" "b_blockno (bufs t ! j) = b_blockno (bufs s ! j)"
    "b_valid (bufs t ! j) = b_valid (bufs s ! j)" "b_data (bufs t ! j) = b_data (bufs s ! j)" for j
    using eq [of j] by (simp_all add: core_eq_iff)
  have "buf_ok d (disk t) (bufs t ! j) = buf_ok d (disk s) (bufs s ! j)" for j
    using dk eq [of j] by (metis buf_ok_core)
  then show "bio_inv d t"
    using assms dk fld by (auto simp: bio_inv_def uniq_bufs_def)
  show "view d t = view d s"
    using len dk fld by (intro ext view_core) (simp_all add: caches_def)
qed

lemma bio_inv_woken [simp]: "bio_inv d (s\<lparr>woken := w\<rparr>) = bio_inv d s"
  by (simp add: bio_inv_def)

lemma view_woken [simp]: "view d (s\<lparr>woken := w\<rparr>) = view d s"
  by (simp add: view_def fun_eq_iff split: option.split)

lemma held_woken [simp]: "held (s\<lparr>woken := w\<rparr>) = held s"
  by (simp add: held_def fun_eq_iff)

lemma upd_buf_same_data:
  assumes inv: "bio_inv d s" and i: "i < NBUF" and ok: "buf_ok d (disk s) (f (bufs s ! i))"
    and same: "\<And>b. b_dev (f b) = b_dev b \<and> b_blockno (f b) = b_blockno b \<and> b_valid (f b) = b_valid b
       \<and> b_data (f b) = b_data b \<and> b_next (f b) = b_next b \<and> b_prev (f b) = b_prev b"
  shows "bio_inv d (upd_buf i f s)" and "view d (upd_buf i f s) = view d s"
proof -
  note len = bio_invD(1) [OF inv] and uniq = bio_invD(2) [OF inv]
  show "bio_inv d (upd_buf i f s)"
    unfolding upd_buf_def
    using inv i ok same uniq by (intro bio_inv_upd) (auto simp: uniq_bufs_def caches_def)
  show "view d (upd_buf i f s) = view d s"
    using len i same by (intro ext view_core) (simp_all add: upd_buf_def caches_def nth_list_update)
qed

subsection \<open>Contracts of brelse, bwrite, bpin and bunpin\<close>

definition unlocked :: "buf \<Rightarrow> buf" where
  "unlocked b = (b_lock_update (\<lambda>lk. lk\<lparr>sl_locked := False, sl_pid := 0\<rparr>) b)\<lparr>b_refcnt := b_refcnt b - 1\<rparr>"

definition released :: "'a bio_state_scheme \<Rightarrow> nat \<Rightarrow> 'a bio_state_scheme \<Rightarrow> bool" where
  "released s i t \<longleftrightarrow> t = s\<lparr>woken := woken s @ [ChanBuf i], bufs := bufs t\<rparr>
     \<and> (\<forall>j. core (bufs t ! j) = core (if j = i then unlocked (bufs s ! i) else bufs s ! j))"

lemma unlock_buf:
  assumes inv: "bio_inv d s" and h: "held s i"
    and clean: "b_refcnt (bufs s ! i) = 1 \<longrightarrow> b_data (bufs s ! i) = disk s (b_blockno (bufs s ! i))"
  shows "bio_inv d (upd_buf i unlocked s)" and "view d (upd_buf i unlocked s) = view d s"
proof -
  have i: "i < NBUF" and l: "sl_locked (b_lock (bufs s ! i))" using h by (simp_all add: held_def)
  have "buf_ok d (disk s) (bufs s ! i)" using inv i by (rule bio_invD)
  then have "buf_ok d (disk s) (unlocked (bufs s ! i))"
    using clean l by (auto simp: buf_ok_def unlocked_def)
  then show "bio_inv d (upd_buf i unlocked s)" "view d (upd_buf i unlocked s) = view d s"
    using inv i by (intro upd_buf_same_data; simp add: unlocked_def)+
qed

lemma brelse_run:
  assumes "held s i" and "i < length (bufs s)"
  shows "brelse i s =
    (let u = upd_buf i unlocked (s\<lparr>woken := woken s @ [ChanBuf i]\<rparr>)
     in Inr ((), if b_refcnt (bufs s ! i) = 1 then move_to_head i u else u))"
  using assms
  by (simp add: brelse_def bindk_def thenk_def holdingsleep_def releasesleep_def wakeup_chan_def gets_def
      modk_def ret_def whenk_def held_def Let_def upd_buf_def unlocked_def)

lemma brelse_spec:
  assumes inv: "bio_inv d s" and h: "held s i"
    and clean: "b_refcnt (bufs s ! i) = 1 \<longrightarrow> b_data (bufs s ! i) = disk s (b_blockno (bufs s ! i))"
  shows "wp (brelse i) s (\<lambda>_ t. bio_inv d t \<and> view d t = view d s \<and> released s i t)"
proof -
  note len = bio_invD(1) [OF inv]
  have i: "i < NBUF" using h by (simp add: held_def)
  define u where "u = upd_buf i unlocked (s\<lparr>woken := woken s @ [ChanBuf i]\<rparr>)"
  have u: "bio_inv d u" "view d u = view d s"
    using unlock_buf [of d "s\<lparr>woken := woken s @ [ChanBuf i]\<rparr>" i] inv h clean by (simp_all add: u_def)
  have rel_u: "released s i u"
    using i len by (auto simp: released_def u_def upd_buf_def)
  have mv: "bio_inv d (move_to_head i u)" "view d (move_to_head i u) = view d u"
  proof -
    obtain xs where xs: "ring (bufs u) xs" using u(1) by (auto simp: bio_inv_def)
    then obtain us vs where "xs = us @ i # vs" using i by (rule ring_split)
    with xs have "ring (bufs (move_to_head i u)) (i # us @ vs)" by (simp add: move_to_head_ring)
    with u(1) move_to_head_core show "bio_inv d (move_to_head i u)" "view d (move_to_head i u) = view d u"
      by (rule bio_inv_core)+
  qed
  have rel_mv: "released s i (move_to_head i u)"
  proof -
    obtain bs where mu: "move_to_head i u = u\<lparr>bufs := bs\<rparr>"
      using same_core_state [OF move_to_head_core] by blast
    then have "move_to_head i u = s\<lparr>woken := woken s @ [ChanBuf i], bufs := bs\<rparr>"
      by (simp add: u_def upd_buf_def)
    with rel_u move_to_head_core [of u i] mu show ?thesis
      by (simp add: released_def same_core_def)
  qed
  show ?thesis
    using h i len u mv rel_u rel_mv
    by (simp add: wp_def brelse_run Let_def flip: u_def)
qed

lemma brelse_lru:
  assumes "ring (bufs s) (us @ i # vs)" and "held s i" and "b_refcnt (bufs s ! i) = 1"
  shows "wp (brelse i) s (\<lambda>_ t. ring (bufs t) (i # us @ vs))"
proof -
  have len: "length (bufs s) = Suc NBUF" and i: "i < NBUF" using assms(1) by (auto simp: ring_def)
  define u where "u = upd_buf i unlocked (s\<lparr>woken := woken s @ [ChanBuf i]\<rparr>)"
  have "ring (bufs u) (us @ i # vs)"
    unfolding u_def using assms(1) i len by (auto simp: unlocked_def intro: ring_core_upd)
  then have "ring (bufs (move_to_head i u)) (i # us @ vs)" by (rule move_to_head_ring)
  with assms i len show ?thesis
    by (simp add: wp_def brelse_run Let_def flip: u_def)
qed

text \<open>The recycled buffer is the least recently released one among those nobody references.\<close>

lemma bget_lru_last:
  assumes "ring bs (us @ i # vs)" and "b_refcnt (bs ! i) = 0" and "\<And>j. j \<in> set vs \<Longrightarrow> b_refcnt (bs ! j) \<noteq> 0"
  shows "bget_lru bs = Some i"
proof -
  have "find (\<lambda>b. b_refcnt (bs ! b) = 0) (rev vs @ i # rev us) = Some i"
    using assms(2,3) by (induction vs rule: rev_induct) simp_all
  with assms(1) show ?thesis by (simp add: bget_lru_find)
qed

lemma bwrite_run:
  assumes "held s i"
  shows "bwrite i s = Inr ((), s\<lparr>disk := (disk s)(b_blockno (bufs s ! i) := b_data (bufs s ! i)),
           dtrace := dtrace s @ [(b_blockno (bufs s ! i), b_data (bufs s ! i))]\<rparr>)"
  using assms by (simp add: bwrite_def bindk_def holdingsleep_def gets_def virtio_disk_rw_def modk_def held_def)

lemma wp_bwrite [wp_simps]:
  "held s i \<Longrightarrow> wp (bwrite i) s Q = Q () (s\<lparr>disk := (disk s)(b_blockno (bufs s ! i) := b_data (bufs s ! i)),
           dtrace := dtrace s @ [(b_blockno (bufs s ! i), b_data (bufs s ! i))]\<rparr>)"
  by (simp add: wp_def bwrite_run)

lemma bwrite_spec:
  assumes inv: "bio_inv d s" and h: "held s i"
  defines "bn \<equiv> b_blockno (bufs s ! i)" and "x \<equiv> b_data (bufs s ! i)"
  defines "t \<equiv> s\<lparr>disk := (disk s)(bn := x), dtrace := dtrace s @ [(bn, x)]\<rparr>"
  shows "bio_inv d t" and "view d t = view d s"
proof -
  note len = bio_invD(1) [OF inv] and uniq = bio_invD(2) [OF inv]
  have i: "i < NBUF" "sl_locked (b_lock (bufs s ! i))" using h by (simp_all add: held_def)
  have ok: "buf_ok d (disk s) (bufs s ! i)" using inv i(1) by (rule bio_invD)
  then have v: "b_valid (bufs s ! i)" "b_dev (bufs s ! i) = d" "b_refcnt (bufs s ! i) \<noteq> 0" "length x = BSIZE"
    using i(2) by (auto simp: buf_ok_def x_def)
  have bt: "bufs t = bufs s" and dt: "disk t = (disk s)(bn := x)" by (simp_all add: t_def)
  have other: "b_blockno (bufs s ! j) = bn \<Longrightarrow> b_dev (bufs s ! j) = d \<Longrightarrow> j = i" if "j < NBUF" for j
    using uniq i that v(2) unfolding bn_def uniq_bufs_def by blast
  have "buf_ok d (disk t) (bufs t ! j)" if j: "j < NBUF" for j
    using bio_invD(4) [OF inv j] other [OF j] ok v i(2) by (auto simp: buf_ok_def bt dt)
  then show "bio_inv d t"
    using inv v(4) by (simp add: bio_inv_def bt dt)
  show "view d t = view d s"
  proof
    fix b
    have "slot d (bufs s) bn = Some i"
      using len uniq i(1) v(2) by (intro slot_unique) (simp_all add: caches_def bn_def)
    then show "view d t b = view d s b"
      using v by (simp add: view_def bt dt split: option.splits)
  qed
qed

text \<open>The caller of \<open>bread\<close> changes the data of the buffer it holds.\<close>

lemma set_data_spec:
  assumes inv: "bio_inv d s" and h: "held s i"
    and len_f: "length (f (b_data (bufs s ! i))) = BSIZE"
  defines "t \<equiv> upd_buf i (\<lambda>b. b\<lparr>b_data := f (b_data b)\<rparr>) s"
  shows "bio_inv d t" and "view d t = (view d s)(b_blockno (bufs s ! i) := f (b_data (bufs s ! i)))"
proof -
  note len = bio_invD(1) [OF inv] and uniq = bio_invD(2) [OF inv]
  have i: "i < NBUF" "sl_locked (b_lock (bufs s ! i))" using h by (simp_all add: held_def)
  have ok: "buf_ok d (disk s) (bufs s ! i)" using inv i(1) by (rule bio_invD)
  then have v: "b_valid (bufs s ! i)" "b_dev (bufs s ! i) = d" using i(2) by (auto simp: buf_ok_def)
  show inv_t: "bio_inv d t"
    unfolding t_def upd_buf_def
    using inv i ok len_f uniq by (intro bio_inv_upd) (auto simp: buf_ok_def uniq_bufs_def caches_def split: if_splits)
  note len_t = bio_invD(1) [OF inv_t] and uniq_t = bio_invD(2) [OF inv_t]
  have tj: "bufs t ! j = (if j = i then (bufs s ! i)\<lparr>b_data := f (b_data (bufs s ! i))\<rparr> else bufs s ! j)"
    and dt: "disk t = disk s" for j
    using i len by (simp_all add: t_def upd_buf_def)
  show "view d t = (view d s)(b_blockno (bufs s ! i) := f (b_data (bufs s ! i)))"
  proof
    fix b
    show "view d t b = ((view d s)(b_blockno (bufs s ! i) := f (b_data (bufs s ! i)))) b"
    proof (cases "b = b_blockno (bufs s ! i)")
      case True
      then show ?thesis
        using view_cached [OF len_t uniq_t i(1), of b] v tj by (simp add: caches_def)
    next
      case False
      then have "view d t b = view d s b"
        using len len_t dt by (intro view_cong) (auto simp: tj caches_def)
      with False show ?thesis by simp
    qed
  qed
qed

lemma bpin_spec:
  assumes "bio_inv d s" and "held s i" and "b_refcnt (bufs s ! i) = 1"
  defines "t \<equiv> upd_buf i (\<lambda>x. x\<lparr>b_refcnt := b_refcnt x + 1\<rparr>) s"
  shows "bpin i s = Inr ((), t)" and "bio_inv d t" and "view d t = view d s"
proof -
  have i: "i < NBUF" "sl_locked (b_lock (bufs s ! i))" using assms(2) by (simp_all add: held_def)
  have "buf_ok d (disk s) (bufs s ! i)" using assms(1) i(1) by (rule bio_invD)
  then have "buf_ok d (disk s) ((bufs s ! i)\<lparr>b_refcnt := b_refcnt (bufs s ! i) + 1\<rparr>)"
    using i(2) assms(3) by (auto simp: buf_ok_def)
  then show "bio_inv d t" "view d t = view d s"
    unfolding t_def using assms(1) i(1) by (intro upd_buf_same_data; simp)+
qed (simp add: bpin_def modk_def t_def)

lemma bunpin_spec:
  assumes "bio_inv d s" and "held s i" and "b_refcnt (bufs s ! i) = 2"
  defines "t \<equiv> upd_buf i (\<lambda>x. x\<lparr>b_refcnt := b_refcnt x - 1\<rparr>) s"
  shows "bunpin i s = Inr ((), t)" and "bio_inv d t" and "view d t = view d s"
proof -
  have i: "i < NBUF" "sl_locked (b_lock (bufs s ! i))" using assms(2) by (simp_all add: held_def)
  have "buf_ok d (disk s) (bufs s ! i)" using assms(1) i(1) by (rule bio_invD)
  then have "buf_ok d (disk s) ((bufs s ! i)\<lparr>b_refcnt := b_refcnt (bufs s ! i) - 1\<rparr>)"
    using i(2) assms(3) by (auto simp: buf_ok_def)
  then show "bio_inv d t" "view d t = view d s"
    unfolding t_def using assms(1) i(1) by (intro upd_buf_same_data; simp)+
qed (simp add: bunpin_def modk_def t_def)

subsection \<open>Initialisation\<close>

definition zero_buf :: buf where
  "zero_buf = \<lparr>b_valid = False, b_disk = False, b_dev = 0, b_blockno = 0, b_lock = initsleeplock,
     b_refcnt = 0, b_prev = 0, b_next = 0, b_data = []\<rparr>"

lemma binit_insert_ring:
  assumes len: "length (bufs s) = Suc NBUF" and d: "dll (nexts s) (prevs s) HEAD xs"
    and xs: "set xs \<subseteq> {..<NBUF}" and b: "b < NBUF" "b \<notin> set xs"
  shows "dll (nexts (binit_insert b s)) (prevs (binit_insert b s)) HEAD (b # xs)"
    and "length (bufs (binit_insert b s)) = Suc NBUF"
proof -
  have bh: "b \<noteq> HEAD" "HEAD < Suc NBUF" "b < Suc NBUF" using b by (simp_all add: HEAD_def)
  have nh: "nexts s HEAD < Suc NBUF" using d xs by (rule dll_next_head_bound)
  define s1 where "s1 = upd_buf b (\<lambda>x. x\<lparr>b_next := nexts s HEAD\<rparr>) s"
  define s2 where "s2 = upd_buf b (\<lambda>x. x\<lparr>b_prev := HEAD\<rparr>) s1"
  define s3 where "s3 = upd_buf b (\<lambda>x. x\<lparr>b_lock := initsleeplock\<rparr>) s2"
  define s4 where "s4 = upd_buf (nexts s3 HEAD) (\<lambda>x. x\<lparr>b_prev := b\<rparr>) s3"
  define s5 where "s5 = upd_buf HEAD (\<lambda>x. x\<lparr>b_next := b\<rparr>) s4"
  have s5: "binit_insert b s = s5"
    by (simp add: binit_insert_def Let_def s1_def s2_def s3_def s4_def s5_def nexts_def)
  have 1: "nexts s1 = (nexts s)(b := nexts s HEAD)" "prevs s1 = prevs s" "length (bufs s1) = Suc NBUF"
    unfolding s1_def using len bh by (simp_all add: set_next del: bufs_upd_buf) simp
  have 2: "nexts s2 = (nexts s)(b := nexts s HEAD)" "prevs s2 = (prevs s)(b := HEAD)" "length (bufs s2) = Suc NBUF"
    unfolding s2_def using 1 bh by (simp_all add: set_prev del: bufs_upd_buf) simp
  have lock: "nexts s3 = nexts s2" "prevs s3 = prevs s2" "length (bufs s3) = Suc NBUF"
    unfolding s3_def using 2(3) bh by (auto simp: nexts_def prevs_def fun_eq_iff nth_list_update)
  have 3: "nexts s3 = (nexts s)(b := nexts s HEAD)" "prevs s3 = (prevs s)(b := HEAD)" "length (bufs s3) = Suc NBUF"
    using lock 2 by simp_all
  have 4: "nexts s4 = (nexts s)(b := nexts s HEAD)" "prevs s4 = (prevs s)(b := HEAD, nexts s HEAD := b)"
    "length (bufs s4) = Suc NBUF"
    unfolding s4_def using 3 bh nh by (simp_all add: set_prev del: bufs_upd_buf) simp
  have 5: "nexts s5 = (nexts s)(b := nexts s HEAD, HEAD := b)"
    "prevs s5 = (prevs s)(b := HEAD, nexts s HEAD := b)" "length (bufs s5) = Suc NBUF"
    unfolding s5_def using 4 bh by (simp_all add: set_next del: bufs_upd_buf) simp
  show "length (bufs (binit_insert b s)) = Suc NBUF" using 5 s5 by simp
  show "dll (nexts (binit_insert b s)) (prevs (binit_insert b s)) HEAD (b # xs)"
    unfolding s5 5(1,2) using d bh(1) b(2) by (rule dll_push_front)
qed

lemma binit_fold_ring:
  assumes "length (bufs s) = Suc NBUF" and "dll (nexts s) (prevs s) HEAD []" and "k \<le> NBUF"
  shows "length (bufs (fold binit_insert [0..<k] s)) = Suc NBUF
    \<and> dll (nexts (fold binit_insert [0..<k] s)) (prevs (fold binit_insert [0..<k] s)) HEAD (rev [0..<k])"
  using assms(3)
proof (induction k)
  case 0
  with assms show ?case by simp
next
  case (Suc k)
  then have IH: "length (bufs (fold binit_insert [0..<k] s)) = Suc NBUF"
    "dll (nexts (fold binit_insert [0..<k] s)) (prevs (fold binit_insert [0..<k] s)) HEAD (rev [0..<k])"
    by simp_all
  from Suc.prems have "set (rev [0..<k]) \<subseteq> {..<NBUF}" "k < NBUF" "k \<notin> set (rev [0..<k])" by auto
  from binit_insert_ring [OF IH this] show ?case by simp
qed

lemma all_bufs_upd:
  assumes "\<forall>x \<in> set (bufs s). P x" and "\<And>x. P x \<Longrightarrow> P (f x)"
  shows "\<forall>x \<in> set (bufs (upd_buf k f s)). P x"
proof (cases "k < length (bufs s)")
  case True
  then have "P (f (bufs s ! k))" using assms by simp
  with assms(1) show ?thesis by (auto dest!: set_update_subset_insert [THEN subsetD])
next
  case False
  with assms(1) show ?thesis by (simp add: not_less list_update_beyond)
qed

definition fresh_buf :: "buf \<Rightarrow> bool" where
  "fresh_buf b \<longleftrightarrow> core b = core zero_buf"

lemma fresh_buf_steps [simp]:
  "fresh_buf b \<Longrightarrow> fresh_buf (b\<lparr>b_next := n\<rparr>)" "fresh_buf b \<Longrightarrow> fresh_buf (b\<lparr>b_prev := n\<rparr>)"
  "fresh_buf b \<Longrightarrow> fresh_buf (b\<lparr>b_lock := initsleeplock\<rparr>)"
  by (simp_all add: fresh_buf_def core_eq_iff zero_buf_def)

lemma binit_insert_fresh:
  "\<forall>x \<in> set (bufs s). fresh_buf x \<Longrightarrow> \<forall>x \<in> set (bufs (binit_insert b s)). fresh_buf x"
  unfolding binit_insert_def Let_def by (intro all_bufs_upd fresh_buf_steps) assumption+

lemma binit_fold_fresh:
  "\<forall>x \<in> set (bufs s). fresh_buf x \<Longrightarrow> \<forall>x \<in> set (bufs (fold binit_insert bs s)). fresh_buf x"
proof (induction bs arbitrary: s)
  case Nil
  then show ?case by simp
next
  case (Cons b bs)
  have "\<forall>x \<in> set (bufs (fold binit_insert bs (binit_insert b s))). fresh_buf x"
    by (rule Cons.IH [OF binit_insert_fresh [OF Cons.prems]])
  then show ?case by simp
qed

lemma upd_buf_disk [simp]: "disk (upd_buf k f s) = disk s"
  by (simp add: upd_buf_def)

lemma binit_fold_disk: "disk (fold binit_insert bs s) = disk s"
  by (induction bs arbitrary: s) (simp_all add: binit_insert_def Let_def)

lemma binit_fold_state: "\<exists>bs'. fold binit_insert bs s = s\<lparr>bufs := bs'\<rparr>"
proof (induction bs arbitrary: s)
  case Nil
  then show ?case by (intro exI [of _ "bufs s"]) simp
next
  case (Cons b bs)
  obtain b1 where b1: "binit_insert b s = s\<lparr>bufs := b1\<rparr>"
    by (simp add: binit_insert_def Let_def upd_buf_def)
  from Cons [of "s\<lparr>bufs := b1\<rparr>"] show ?case by (auto simp: b1)
qed

lemma binit_inv:
  assumes "bufs s = replicate (Suc NBUF) zero_buf" and "\<And>bn. length (disk s bn) = BSIZE" and "d \<noteq> 0"
  shows "bio_inv d (binit s)" and "view d (binit s) = disk s" and "binit s = s\<lparr>bufs := bufs (binit s)\<rparr>"
    and "i < NBUF \<Longrightarrow> b_refcnt (bufs (binit s) ! i) = 0 \<and> \<not> sl_locked (b_lock (bufs (binit s) ! i))"
proof -
  define s0 where "s0 = upd_buf HEAD (\<lambda>x. x\<lparr>b_next := HEAD\<rparr>) (upd_buf HEAD (\<lambda>x. x\<lparr>b_prev := HEAD\<rparr>) s)"
  have eq: "binit s = fold binit_insert [0..<NBUF] s0" by (simp add: binit_def Let_def s0_def)
  have l: "length (bufs s) = Suc NBUF" using assms(1) by simp
  then have len0: "length (bufs s0) = Suc NBUF" by (simp add: s0_def)
  have "dll (nexts s0) (prevs s0) HEAD []"
    using l by (simp add: s0_def dll_def nexts_def prevs_def HEAD_def nth_list_update)
  with len0 have r: "length (bufs (binit s)) = Suc NBUF"
    "dll (nexts (binit s)) (prevs (binit s)) HEAD (rev [0..<NBUF])"
    unfolding eq using binit_fold_ring [of s0 NBUF] by simp_all
  then have ring: "ring (bufs (binit s)) (rev [0..<NBUF])" by (auto simp: ring_links)
  have dk: "disk (binit s) = disk s" unfolding eq by (simp add: binit_fold_disk s0_def)
  have "\<forall>x \<in> set (bufs s). fresh_buf x" using assms(1) by (simp add: fresh_buf_def)
  then have "\<forall>x \<in> set (bufs s0). fresh_buf x"
    unfolding s0_def by (intro all_bufs_upd fresh_buf_steps) assumption+
  then have "\<forall>x \<in> set (bufs (binit s)). fresh_buf x" unfolding eq by (rule binit_fold_fresh)
  then have "fresh_buf (bufs (binit s) ! i)" if "i < NBUF" for i using that r(1) by simp
  then have fr: "b_dev (bufs (binit s) ! i) = 0" "\<not> b_valid (bufs (binit s) ! i)" "b_refcnt (bufs (binit s) ! i) = 0"
    "\<not> sl_locked (b_lock (bufs (binit s) ! i))" if "i < NBUF" for i
    using that unfolding fresh_buf_def core_eq_iff by (simp_all add: zero_buf_def initsleeplock_def)
  show "bio_inv d (binit s)"
    using ring fr assms(2,3) dk by (auto simp: bio_inv_def uniq_bufs_def buf_ok_def)
  show "view d (binit s) = disk s"
    using r(1) fr assms(3) dk by (intro ext) (simp add: view_uncached caches_def)
  show "i < NBUF \<Longrightarrow> b_refcnt (bufs (binit s) ! i) = 0 \<and> \<not> sl_locked (b_lock (bufs (binit s) ! i))" for i
    using fr by blast
  obtain bs where "binit s = s0\<lparr>bufs := bs\<rparr>" unfolding eq using binit_fold_state by blast
  then show "binit s = s\<lparr>bufs := bufs (binit s)\<rparr>" by (simp add: s0_def upd_buf_def)
qed

end
