(* ===== verification/Block_Cache.thy ===== *)
theory Block_Cache
  imports Bio
begin

text \<open>
  The interface of the buffer cache as its clients (the log and the file system) use it.

  \<open>cache_abs\<close> is the abstract state of the cache for one device: what each block holds for a
  reader, what the disk holds, the history of disk writes, the blocks pinned by the log, and the
  buffers locked by the running process. The locale \<open>block_cache\<close> states the effect of every
  operation on it and proves the rules its clients reason with; its interpretation at the end of
  the theory proves the laws for the functions of \<open>Bio\<close>.
\<close>

record cache_abs =
  a_view :: "u32 \<Rightarrow> block"
  a_disk :: "u32 \<Rightarrow> block"
  a_trace :: "(u32 \<times> block) list"
  a_pins :: "u32 set"
  a_held :: "u32 \<rightharpoonup> nat"

definition pinned :: "buf \<Rightarrow> bool" where
  "pinned b \<longleftrightarrow> b_refcnt b = (if sl_locked (b_lock b) then 2 else 1)"

definition pins_of :: "u32 \<Rightarrow> buf list \<Rightarrow> u32 set" where
  "pins_of d bs = {bn. \<exists>i < NBUF. caches d bn (bs ! i) \<and> pinned (bs ! i)}"

definition held_map :: "u32 \<Rightarrow> buf list \<Rightarrow> u32 \<rightharpoonup> nat" where
  "held_map d bs bn =
     (case slot d bs bn of
        None \<Rightarrow> None
      | Some i \<Rightarrow> if sl_locked (b_lock (bs ! i)) then Some i else None)"

definition abs_cache :: "u32 \<Rightarrow> 'a bio_state_scheme \<Rightarrow> cache_abs" where
  "abs_cache d s = \<lparr>a_view = view d s, a_disk = disk s, a_trace = dtrace s,
     a_pins = pins_of d (bufs s), a_held = held_map d (bufs s)\<rparr>"

definition cache_inv :: "u32 \<Rightarrow> 'a bio_state_scheme \<Rightarrow> bool" where
  "cache_inv d s \<longleftrightarrow> bio_inv d s
     \<and> (\<forall>i < NBUF. sl_locked (b_lock (bufs s ! i)) \<longrightarrow> sl_pid (b_lock (bufs s ! i)) = cur_pid s)"

definition rest :: "'a bio_state_scheme \<Rightarrow> int \<times> 'a" where
  "rest s = (cur_pid s, bio_state.more s)"

definition set_data :: "nat \<Rightarrow> (block \<Rightarrow> block) \<Rightarrow> 'a bio_state_scheme \<Rightarrow> 'a bio_state_scheme" where
  "set_data i f s = upd_buf i (\<lambda>b. b\<lparr>b_data := f (b_data b)\<rparr>) s"

definition get_data :: "nat \<Rightarrow> 'a bio_state_scheme \<Rightarrow> block" where
  "get_data i s = b_data (bufs s ! i)"

text \<open>How many buffers are in use: a pinned block keeps its buffer, a held one too.\<close>

definition in_use :: "cache_abs \<Rightarrow> nat" where
  "in_use a = card (a_pins a \<union> dom (a_held a))"

text \<open>A block is written through to the disk; one block is copied over another and written through.\<close>

definition written :: "u32 \<Rightarrow> block \<Rightarrow> cache_abs \<Rightarrow> cache_abs" where
  "written b x c = c\<lparr>a_view := (a_view c)(b := x), a_disk := (a_disk c)(b := x), a_trace := a_trace c @ [(b, x)]\<rparr>"

definition copied :: "u32 \<Rightarrow> u32 \<Rightarrow> cache_abs \<Rightarrow> cache_abs" where
  "copied a b c = written b (a_view c a) c"

section \<open>The interface\<close>

locale block_reader =
  fixes br :: "u32 \<Rightarrow> ('s, nat) kmon"
    and brel :: "nat \<Rightarrow> ('s, unit) kmon"
    and setd :: "nat \<Rightarrow> (block \<Rightarrow> block) \<Rightarrow> 's \<Rightarrow> 's"
    and getd :: "nat \<Rightarrow> 's \<Rightarrow> block"
    and inv :: "'s \<Rightarrow> bool"
    and abs :: "'s \<Rightarrow> cache_abs"
    and rst :: "'s \<Rightarrow> 'r"
    and ok :: "'r \<Rightarrow> u32 \<Rightarrow> bool"
  assumes held_inj: "inv s \<Longrightarrow> a_held (abs s) bn = Some i \<Longrightarrow> a_held (abs s) bn' = Some i \<Longrightarrow> bn = bn'"
    and br_law: "inv s \<Longrightarrow> a_held (abs s) bn = None \<Longrightarrow> bn \<in> a_pins (abs s) \<or> in_use (abs s) < NBUF
      \<Longrightarrow> ok (rst s) bn
      \<Longrightarrow> wp (br bn) s (\<lambda>i t. inv t \<and> rst t = rst s \<and> abs t = (abs s)\<lparr>a_held := (a_held (abs s))(bn \<mapsto> i)\<rparr>)"
    and getd_law: "inv s \<Longrightarrow> a_held (abs s) bn = Some i \<Longrightarrow> getd i s = a_view (abs s) bn"
    and setd_law: "inv s \<Longrightarrow> a_held (abs s) bn = Some i \<Longrightarrow> length (f (a_view (abs s) bn)) = BSIZE
      \<Longrightarrow> inv (setd i f s) \<and> rst (setd i f s) = rst s
        \<and> abs (setd i f s) = (abs s)\<lparr>a_view := (a_view (abs s))(bn := f (a_view (abs s) bn))\<rparr>"
    and brel_law: "inv s \<Longrightarrow> a_held (abs s) bn = Some i
      \<Longrightarrow> bn \<in> a_pins (abs s) \<or> a_view (abs s) bn = a_disk (abs s) bn
      \<Longrightarrow> wp (brel i) s (\<lambda>_ t. inv t \<and> rst t = rst s \<and> abs t = (abs s)\<lparr>a_held := (a_held (abs s))(bn := None)\<rparr>)"
    and clean_law: "inv s \<Longrightarrow> bn \<notin> a_pins (abs s) \<Longrightarrow> a_held (abs s) bn = None \<Longrightarrow> a_view (abs s) bn = a_disk (abs s) bn"
    and view_length: "inv s \<Longrightarrow> length (a_view (abs s) bn) = BSIZE"
    and finite_pins: "inv s \<Longrightarrow> finite (a_pins (abs s))"
    and finite_held: "inv s \<Longrightarrow> finite (dom (a_held (abs s)))"
begin

text \<open>The laws as rules that step through a client.\<close>

lemma br_wp:
  assumes "inv s" and "a_held (abs s) bn = None" and "bn \<in> a_pins (abs s) \<or> in_use (abs s) < NBUF" and "ok (rst s) bn"
    and "\<And>i t. inv t \<Longrightarrow> rst t = rst s \<Longrightarrow> abs t = (abs s)\<lparr>a_held := (a_held (abs s))(bn \<mapsto> i)\<rparr> \<Longrightarrow> Q i t"
  shows "wp (br bn) s Q"
  using assms(5) by (auto intro: wp_mono [OF br_law [OF assms(1-4)]])

lemma brel_wp:
  assumes "inv s" and "a_held (abs s) bn = Some i" and "bn \<in> a_pins (abs s) \<or> a_view (abs s) bn = a_disk (abs s) bn"
    and "\<And>t. inv t \<Longrightarrow> rst t = rst s \<Longrightarrow> abs t = (abs s)\<lparr>a_held := (a_held (abs s))(bn := None)\<rparr> \<Longrightarrow> Q () t"
  shows "wp (brel i) s Q"
  using assms(4) by (auto intro: wp_mono [OF brel_law [OF assms(1-3)]])

lemma setd_wp:
  assumes "inv s" and "a_held (abs s) bn = Some i" and "length (f (a_view (abs s) bn)) = BSIZE"
    and "\<And>t. inv t \<Longrightarrow> rst t = rst s
      \<Longrightarrow> abs t = (abs s)\<lparr>a_view := (a_view (abs s))(bn := f (a_view (abs s) bn))\<rparr> \<Longrightarrow> Q () t"
  shows "wp (modk (setd i f)) s Q"
  using assms(4) setd_law [OF assms(1,2), of f, OF assms(3)] by simp

lemma in_use_held: "inv s \<Longrightarrow> in_use ((abs s)\<lparr>a_held := (a_held (abs s))(bn \<mapsto> i)\<rparr>) \<le> Suc (in_use (abs s))"
  using finite_pins [of s] finite_held [of s] card_insert_le_m1 [of "Suc (in_use (abs s))"]
  by (simp add: in_use_def Un_insert_right card_insert_if)

text \<open>A block is read, and its buffer given back unchanged.\<close>

lemma peek_wp:
  assumes inv: "inv s" and h: "a_held (abs s) bn = None"
    and room: "bn \<in> a_pins (abs s) \<or> in_use (abs s) < NBUF" and ok: "ok (rst s) bn"
    and Q: "\<And>t. inv t \<Longrightarrow> rst t = rst s \<Longrightarrow> abs t = abs s \<Longrightarrow> Q (a_view (abs s) bn) t"
  shows "wp (br bn) s (\<lambda>i s. wp (gets (getd i)) s (\<lambda>x s. wp (brel i) s (\<lambda>_ s. Q x s)))"
proof -
  have clean: "bn \<in> a_pins (abs s) \<or> a_view (abs s) bn = a_disk (abs s) bn" using clean_law [OF inv _ h] by blast
  obtain i s1 where 1: "br bn s = Inr (i, s1)" "inv s1" "rst s1 = rst s"
    and a1: "abs s1 = (abs s)\<lparr>a_held := (a_held (abs s))(bn \<mapsto> i)\<rparr>"
    using br_law [OF inv h room ok] by (auto simp: wp_def)
  obtain s2 where 2: "brel i s1 = Inr ((), s2)" "inv s2" "rst s2 = rst s"
    and a2: "abs s2 = abs s"
    using brel_law [OF 1(2), of bn i] a1 1(3) clean h by (auto simp: wp_def fun_upd_idem)
  have "getd i s1 = a_view (abs s) bn" using getd_law [OF 1(2), of bn i] a1 by simp
  with Q [OF 2(2,3) a2] 1 2 show ?thesis by (simp add: wp_def gets_def)
qed

end

locale block_cache = block_reader br brel setd getd inv abs rst "\<lambda>_ _. True"
    for br :: "u32 \<Rightarrow> ('s, nat) kmon"
    and brel :: "nat \<Rightarrow> ('s, unit) kmon"
    and setd :: "nat \<Rightarrow> (block \<Rightarrow> block) \<Rightarrow> 's \<Rightarrow> 's"
    and getd :: "nat \<Rightarrow> 's \<Rightarrow> block"
    and inv :: "'s \<Rightarrow> bool"
    and abs :: "'s \<Rightarrow> cache_abs"
    and rst :: "'s \<Rightarrow> 'r" +
  fixes bwr :: "nat \<Rightarrow> ('s, unit) kmon"
    and pin :: "nat \<Rightarrow> ('s, unit) kmon"
    and unpin :: "nat \<Rightarrow> ('s, unit) kmon"
  assumes bwr_law: "inv s \<Longrightarrow> a_held (abs s) bn = Some i
      \<Longrightarrow> wp (bwr i) s (\<lambda>_ t. inv t \<and> rst t = rst s
            \<and> abs t = (abs s)\<lparr>a_disk := (a_disk (abs s))(bn := a_view (abs s) bn),
                             a_trace := a_trace (abs s) @ [(bn, a_view (abs s) bn)]\<rparr>)"
    and pin_law: "inv s \<Longrightarrow> a_held (abs s) bn = Some i \<Longrightarrow> bn \<notin> a_pins (abs s)
      \<Longrightarrow> wp (pin i) s (\<lambda>_ t. inv t \<and> rst t = rst s \<and> abs t = (abs s)\<lparr>a_pins := insert bn (a_pins (abs s))\<rparr>)"
    and unpin_law: "inv s \<Longrightarrow> a_held (abs s) bn = Some i \<Longrightarrow> bn \<in> a_pins (abs s)
      \<Longrightarrow> wp (unpin i) s (\<lambda>_ t. inv t \<and> rst t = rst s \<and> abs t = (abs s)\<lparr>a_pins := a_pins (abs s) - {bn}\<rparr>)"
begin

text \<open>Two blocks are held, one is copied over the other and written through.\<close>

lemma copy_from_wp:
  assumes inv: "inv s" and h: "a_held (abs s) a = None" "a_held (abs s) b = None" and ab: "a \<noteq> b"
    and room: "in_use (abs s) < NBUF" "b \<in> a_pins (abs s) \<or> Suc (in_use (abs s)) < NBUF"
    and u: "u \<Longrightarrow> b \<in> a_pins (abs s)"
    and Q: "\<And>t. inv t \<Longrightarrow> rst t = rst s
       \<Longrightarrow> abs t = (copied a b (abs s))\<lparr>a_pins := (if u then a_pins (abs s) - {b} else a_pins (abs s))\<rparr> \<Longrightarrow> Q () t"
  shows "wp (br a) s (\<lambda>i s. wp (br b) s (\<lambda>j s. wp (modk (\<lambda>s. setd j (\<lambda>_. getd i s) s)) s
     (\<lambda>_ s. wp (bwr j) s (\<lambda>_ s. wp (whenk u (unpin j)) s (\<lambda>_ s. wp (brel i) s (\<lambda>_ s. wp (brel j) s Q))))))"
proof -
  have clean: "a \<in> a_pins (abs s) \<or> a_view (abs s) a = a_disk (abs s) a" using clean_law [OF inv _ h(1)] by blast
  obtain i s1 where 1: "br a s = Inr (i, s1)" "inv s1" "rst s1 = rst s"
    and a1: "abs s1 = (abs s)\<lparr>a_held := (a_held (abs s))(a \<mapsto> i)\<rparr>"
    using br_law [OF inv h(1)] room(1) by (auto simp: wp_def)
  have r: "b \<in> a_pins (abs s1) \<or> in_use (abs s1) < NBUF"
    using in_use_held [OF inv, of a i] room(2) a1 by auto
  obtain j s2 where 2: "br b s1 = Inr (j, s2)" "inv s2" "rst s2 = rst s"
    and a2: "abs s2 = (abs s)\<lparr>a_held := (a_held (abs s))(a \<mapsto> i, b \<mapsto> j)\<rparr>"
    using br_law [OF 1(2) _ r] h(2) ab a1 1(3) by (auto simp: wp_def)
  define s3 where "s3 = setd j (\<lambda>_. getd i s2) s2"
  have g: "getd i s2 = a_view (abs s) a" using getd_law [OF 2(2), of a i] ab a2 by simp
  have 3: "inv s3" "rst s3 = rst s"
    and a3: "abs s3 = (abs s2)\<lparr>a_view := (a_view (abs s))(b := a_view (abs s) a)\<rparr>"
    using setd_law [OF 2(2), of b j "\<lambda>_. getd i s2"] view_length [OF inv] a2 2(3) unfolding s3_def g by simp_all
  obtain s4 where 4: "bwr j s3 = Inr ((), s4)" "inv s4" "rst s4 = rst s"
    and a4: "abs s4 = (copied a b (abs s))\<lparr>a_held := (a_held (abs s))(a \<mapsto> i, b \<mapsto> j)\<rparr>"
    using bwr_law [OF 3(1), of b j] a2 a3 3(2) by (auto simp: wp_def copied_def written_def)
  obtain s5 where 5: "whenk u (unpin j) s4 = Inr ((), s5)" "inv s5" "rst s5 = rst s"
    and a5: "abs s5 = (abs s4)\<lparr>a_pins := (if u then a_pins (abs s) - {b} else a_pins (abs s))\<rparr>"
    using unpin_law [OF 4(2), of b j] a4 4(2,3) u
    by (cases u) (auto simp: wp_def whenk_def ret_def copied_def written_def)
  have c5: "a \<in> a_pins (abs s5) \<or> a_view (abs s5) a = a_disk (abs s5) a"
    using clean ab a4 a5 by (auto simp: copied_def written_def)
  obtain s6 where 6: "brel i s5 = Inr ((), s6)" "inv s6" "rst s6 = rst s"
    and a6: "abs s6 = (abs s5)\<lparr>a_held := (a_held (abs s))(a := None, b \<mapsto> j)\<rparr>"
    using brel_law [OF 5(2) _ c5, of i] a4 a5 5(3) ab by (auto simp: wp_def copied_def written_def fun_upd_twist)
  obtain s7 where 7: "brel j s6 = Inr ((), s7)" "inv s7" "rst s7 = rst s"
    and a7: "abs s7 = (abs s6)\<lparr>a_held := (a_held (abs s))(a := None, b := None)\<rparr>"
    using brel_law [OF 6(2), of b j] a4 a5 a6 6(3) by (auto simp: wp_def copied_def written_def)
  have "Q () s7"
    using 7 a4 a5 a6 a7 h by (intro Q) (auto simp: copied_def written_def fun_upd_idem)
  with 1 2 4 5 6 7 show ?thesis by (simp add: wp_def modk_def flip: s3_def)
qed

lemma copy_to_wp:
  assumes inv: "inv s" and h: "a_held (abs s) a = None" "a_held (abs s) b = None" and ab: "a \<noteq> b"
    and room: "in_use (abs s) < NBUF" "a \<in> a_pins (abs s)"
    and Q: "\<And>t. inv t \<Longrightarrow> rst t = rst s \<Longrightarrow> abs t = copied a b (abs s) \<Longrightarrow> Q () t"
  shows "wp (br b) s (\<lambda>j s. wp (br a) s (\<lambda>i s. wp (modk (\<lambda>s. setd j (\<lambda>_. getd i s) s)) s
     (\<lambda>_ s. wp (bwr j) s (\<lambda>_ s. wp (brel i) s (\<lambda>_ s. wp (brel j) s Q)))))"
proof -
  obtain j s1 where 1: "br b s = Inr (j, s1)" "inv s1" "rst s1 = rst s"
    and a1: "abs s1 = (abs s)\<lparr>a_held := (a_held (abs s))(b \<mapsto> j)\<rparr>"
    using br_law [OF inv h(2)] room(1) by (auto simp: wp_def)
  obtain i s2 where 2: "br a s1 = Inr (i, s2)" "inv s2" "rst s2 = rst s"
    and a2: "abs s2 = (abs s)\<lparr>a_held := (a_held (abs s))(b \<mapsto> j, a \<mapsto> i)\<rparr>"
    using br_law [OF 1(2), of a] h(1) ab a1 1(3) room(2) by (auto simp: wp_def)
  define s3 where "s3 = setd j (\<lambda>_. getd i s2) s2"
  have g: "getd i s2 = a_view (abs s) a" using getd_law [OF 2(2), of a i] ab a2 by simp
  have 3: "inv s3" "rst s3 = rst s"
    and a3: "abs s3 = (abs s2)\<lparr>a_view := (a_view (abs s))(b := a_view (abs s) a)\<rparr>"
    using setd_law [OF 2(2), of b j "\<lambda>_. getd i s2"] view_length [OF inv] a2 2(3) ab unfolding s3_def g by simp_all
  obtain s4 where 4: "bwr j s3 = Inr ((), s4)" "inv s4" "rst s4 = rst s"
    and a4: "abs s4 = (copied a b (abs s))\<lparr>a_held := (a_held (abs s))(b \<mapsto> j, a \<mapsto> i)\<rparr>"
    using bwr_law [OF 3(1), of b j] a2 a3 3(2) ab by (auto simp: wp_def copied_def written_def)
  obtain s5 where 5: "brel i s4 = Inr ((), s5)" "inv s5" "rst s5 = rst s"
    and a5: "abs s5 = (abs s4)\<lparr>a_held := (a_held (abs s))(b \<mapsto> j, a := None)\<rparr>"
    using brel_law [OF 4(2), of a i] a4 4(3) room(2) by (auto simp: wp_def copied_def written_def)
  obtain s6 where 6: "brel j s5 = Inr ((), s6)" "inv s6" "rst s6 = rst s"
    and a6: "abs s6 = (abs s5)\<lparr>a_held := (a_held (abs s))(b := None, a := None)\<rparr>"
    using brel_law [OF 5(2), of b j] a4 a5 5(3) ab by (auto simp: wp_def copied_def written_def fun_upd_twist)
  have "Q () s6"
    using 6 a4 a5 a6 h ab by (intro Q) (auto simp: copied_def written_def fun_upd_idem fun_upd_twist)
  with 1 2 4 5 6 show ?thesis by (simp add: wp_def modk_def flip: s3_def)
qed

text \<open>A block is read, changed, written through and given back.\<close>

lemma rewrite_wp:
  assumes inv: "inv s" and h: "a_held (abs s) bn = None" and np: "bn \<notin> a_pins (abs s)"
    and room: "in_use (abs s) < NBUF" and len: "length (f (a_view (abs s) bn)) = BSIZE"
    and Q: "\<And>t. inv t \<Longrightarrow> rst t = rst s \<Longrightarrow> abs t = written bn (f (a_view (abs s) bn)) (abs s) \<Longrightarrow> Q () t"
  shows "wp (br bn) s (\<lambda>i s. wp (modk (setd i f)) s (\<lambda>_ s. wp (bwr i) s (\<lambda>_ s. wp (brel i) s Q)))"
proof -
  obtain i s1 where 1: "br bn s = Inr (i, s1)" "inv s1" "rst s1 = rst s"
    and a1: "abs s1 = (abs s)\<lparr>a_held := (a_held (abs s))(bn \<mapsto> i)\<rparr>"
    using br_law [OF inv h] room by (auto simp: wp_def)
  define s2 where "s2 = setd i f s1"
  have 2: "inv s2" "rst s2 = rst s"
    and a2: "abs s2 = (abs s1)\<lparr>a_view := (a_view (abs s))(bn := f (a_view (abs s) bn))\<rparr>"
    using setd_law [OF 1(2), of bn i f] len a1 1(3) unfolding s2_def by simp_all
  obtain s3 where 3: "bwr i s2 = Inr ((), s3)" "inv s3" "rst s3 = rst s"
    and a3: "abs s3 = (written bn (f (a_view (abs s) bn)) (abs s))\<lparr>a_held := (a_held (abs s))(bn \<mapsto> i)\<rparr>"
    using bwr_law [OF 2(1), of bn i] a1 a2 2(2) by (auto simp: wp_def written_def)
  obtain s4 where 4: "brel i s3 = Inr ((), s4)" "inv s4" "rst s4 = rst s"
    and a4: "abs s4 = written bn (f (a_view (abs s) bn)) (abs s)"
    using brel_law [OF 3(2), of bn i] a3 3(3) h by (auto simp: wp_def written_def fun_upd_idem)
  from Q [OF 4(2,3) a4] 1 3 4 show ?thesis by (simp add: wp_def modk_def flip: s2_def)
qed

end

section \<open>The buffer cache implements the interface\<close>

lemma pins_of_upd:
  assumes "i < NBUF" and "length bs = Suc NBUF"
    and "(b_dev x = d \<and> pinned x) = (b_dev (bs ! i) = d \<and> pinned (bs ! i))"
    and "b_dev x = d \<and> pinned x \<Longrightarrow> b_blockno x = b_blockno (bs ! i)"
  shows "pins_of d (bs[i := x]) = pins_of d bs"
proof -
  have "caches d bn (bs[i := x] ! j) \<and> pinned (bs[i := x] ! j) \<longleftrightarrow> caches d bn (bs ! j) \<and> pinned (bs ! j)"
    if "j < NBUF" for j bn
    using assms that by (auto simp: caches_def nth_list_update)
  then show ?thesis by (auto simp: pins_of_def)
qed

lemma pins_of_add:
  assumes "i < NBUF" and "length bs = Suc NBUF" and "b_dev x = d" and "pinned x" and "\<not> (b_dev (bs ! i) = d \<and> pinned (bs ! i))"
  shows "pins_of d (bs[i := x]) = insert (b_blockno x) (pins_of d bs)"
proof -
  have "caches d bn (bs[i := x] ! j) \<and> pinned (bs[i := x] ! j)
      \<longleftrightarrow> (j = i \<and> bn = b_blockno x) \<or> caches d bn (bs ! j) \<and> pinned (bs ! j)"
    if "j < NBUF" for j bn
    using assms that by (auto simp: caches_def nth_list_update)
  with assms(1) show ?thesis by (auto simp: pins_of_def)
qed

lemma pins_of_remove:
  assumes "i < NBUF" and "length bs = Suc NBUF" and "uniq_bufs d bs" and "b_dev (bs ! i) = d" and "\<not> pinned x"
  shows "pins_of d (bs[i := x]) = pins_of d bs - {b_blockno (bs ! i)}"
proof -
  have "caches d bn (bs[i := x] ! j) \<and> pinned (bs[i := x] ! j)
      \<longleftrightarrow> bn \<noteq> b_blockno (bs ! i) \<and> caches d bn (bs ! j) \<and> pinned (bs ! j)"
    if "j < NBUF" for j bn
  proof (cases "j = i")
    case True
    with assms show ?thesis by (auto simp: caches_def)
  next
    case False
    then have "b_blockno (bs ! j) \<noteq> b_blockno (bs ! i)" if "b_dev (bs ! j) = d"
      using assms(1,3,4) \<open>j < NBUF\<close> that unfolding uniq_bufs_def by metis
    with False show ?thesis by (auto simp: caches_def)
  qed
  then show ?thesis by (auto simp: pins_of_def)
qed

lemma pinned_core [simp]: "pinned (core b) = pinned b"
  by (simp add: pinned_def)

lemma pins_of_core:
  assumes "\<And>j. j < NBUF \<Longrightarrow> core (bs ! j) = core (cs ! j)"
  shows "pins_of d bs = pins_of d cs"
proof -
  have "caches d bn (bs ! j) \<and> pinned (bs ! j) \<longleftrightarrow> caches d bn (cs ! j) \<and> pinned (cs ! j)" if "j < NBUF" for j bn
    using assms [OF that] by (metis caches_core pinned_core)
  then show ?thesis by (auto simp: pins_of_def)
qed

lemma held_map_iff:
  assumes "length bs = Suc NBUF" and "uniq_bufs d bs"
  shows "held_map d bs bn = Some i \<longleftrightarrow> i < NBUF \<and> caches d bn (bs ! i) \<and> sl_locked (b_lock (bs ! i))"
proof
  assume "held_map d bs bn = Some i"
  then have "slot d bs bn = Some i" and "sl_locked (b_lock (bs ! i))"
    by (auto simp: held_map_def split: option.splits if_splits)
  with slot_Some [OF assms(1)] show "i < NBUF \<and> caches d bn (bs ! i) \<and> sl_locked (b_lock (bs ! i))" by blast
next
  assume a: "i < NBUF \<and> caches d bn (bs ! i) \<and> sl_locked (b_lock (bs ! i))"
  then have "slot d bs bn = Some i" by (intro slot_unique [OF assms]) simp_all
  with a show "held_map d bs bn = Some i" by (simp add: held_map_def)
qed

lemma option_map_eqI: "(\<And>k v. f k = Some v \<longleftrightarrow> g k = Some v) \<Longrightarrow> f = g"
  by (rule ext) (metis option.exhaust)

lemma held_map_add:
  assumes "i < NBUF" and "length bs = Suc NBUF" and "uniq_bufs d bs" and "uniq_bufs d (bs[i := x])"
    and "caches d bn x" and "sl_locked (b_lock x)" and "\<not> sl_locked (b_lock (bs ! i))"
  shows "held_map d (bs[i := x]) = (held_map d bs)(bn \<mapsto> i)"
proof
  fix k
  have x: "held_map d (bs[i := x]) bn = Some i" using assms by (simp add: held_map_iff)
  have "held_map d (bs[i := x]) k = held_map d bs k" if "k \<noteq> bn"
  proof -
    have "held_map d (bs[i := x]) k = Some j \<longleftrightarrow> held_map d bs k = Some j" for j
      using assms that by (cases "j = i") (auto simp: held_map_iff caches_def nth_list_update)
    then show ?thesis by (metis option.exhaust)
  qed
  with x show "held_map d (bs[i := x]) k = ((held_map d bs)(bn \<mapsto> i)) k" by simp
qed

lemma held_map_same:
  assumes "length bs = Suc NBUF" and "uniq_bufs d bs" and "length cs = Suc NBUF" and "uniq_bufs d cs"
    and "\<And>j. j < NBUF \<Longrightarrow> b_dev (cs ! j) = b_dev (bs ! j) \<and> b_blockno (cs ! j) = b_blockno (bs ! j)
           \<and> sl_locked (b_lock (cs ! j)) = sl_locked (b_lock (bs ! j))"
  shows "held_map d cs = held_map d bs"
  using assms by (intro option_map_eqI) (auto simp: held_map_iff caches_def)

lemma held_map_remove:
  assumes "length bs = Suc NBUF" and "uniq_bufs d bs" and "length cs = Suc NBUF" and "uniq_bufs d cs"
    and "held_map d bs bn = Some i"
    and "\<And>j. j < NBUF \<Longrightarrow> b_dev (cs ! j) = b_dev (bs ! j) \<and> b_blockno (cs ! j) = b_blockno (bs ! j)
           \<and> sl_locked (b_lock (cs ! j)) = (j \<noteq> i \<and> sl_locked (b_lock (bs ! j)))"
  shows "held_map d cs = (held_map d bs)(bn := None)"
proof (rule option_map_eqI)
  fix k j
  have i: "i < NBUF" "caches d bn (bs ! i)" using assms(1,2,5) by (simp_all add: held_map_iff)
  have "held_map d cs k = Some j \<longleftrightarrow> j \<noteq> i \<and> held_map d bs k = Some j"
    using assms by (auto simp: held_map_iff caches_def)
  moreover have "held_map d bs k = Some j \<Longrightarrow> j \<noteq> i \<longleftrightarrow> k \<noteq> bn"
  proof (cases "k = bn")
    case False
    assume "held_map d bs k = Some j"
    with False i(2) show ?thesis using assms(1,2) by (auto simp: held_map_iff caches_def)
  qed (use assms(5) in simp)
  ultimately show "held_map d cs k = Some j \<longleftrightarrow> ((held_map d bs)(bn := None)) k = Some j" by auto
qed

lemma cache_bio: "cache_inv d s \<Longrightarrow> bio_inv d s"
  by (simp add: cache_inv_def)

lemmas cache_len = bio_invD(1) [OF cache_bio]
  and cache_uniq = bio_invD(2) [OF cache_bio]
  and cache_ok = bio_invD(4) [OF cache_bio]

lemma held_facts:
  assumes inv: "cache_inv d s" and h: "a_held (abs_cache d s) bn = Some i"
  shows "i < NBUF" and "b_dev (bufs s ! i) = d" and "b_blockno (bufs s ! i) = bn" and "held s i"
    and "b_valid (bufs s ! i)" and "b_data (bufs s ! i) = view d s bn"
    and "b_refcnt (bufs s ! i) = (if bn \<in> a_pins (abs_cache d s) then 2 else 1)"
proof -
  note len = cache_len [OF inv] and uniq = cache_uniq [OF inv]
  have m: "i < NBUF" "caches d bn (bufs s ! i)" "sl_locked (b_lock (bufs s ! i))"
    using h len uniq by (simp_all add: abs_cache_def held_map_iff)
  then show "i < NBUF" "b_dev (bufs s ! i) = d" "b_blockno (bufs s ! i) = bn" by (simp_all add: caches_def)
  show "held s i" using m inv by (simp add: held_def cache_inv_def)
  have ok: "buf_ok d (disk s) (bufs s ! i)" using cache_ok [OF inv m(1)] .
  then show v: "b_valid (bufs s ! i)" using m(3) by (auto simp: buf_ok_def)
  show "b_data (bufs s ! i) = view d s bn"
    using view_cached [OF len uniq m(1), of bn] m(2) v by simp
  have u: "j = i" if "j < NBUF" "caches d bn (bufs s ! j)" for j
    using uniq m that unfolding uniq_bufs_def caches_def by blast
  have "bn \<in> a_pins (abs_cache d s) \<longleftrightarrow> pinned (bufs s ! i)"
    unfolding abs_cache_def pins_of_def cache_abs.simps mem_Collect_eq using m(1,2) u by blast
  then show "b_refcnt (bufs s ! i) = (if bn \<in> a_pins (abs_cache d s) then 2 else 1)"
    using ok m(3) by (auto simp: buf_ok_def pinned_def)
qed

lemma finite_pins_of: "finite (pins_of d bs)"
proof (rule finite_subset)
  show "pins_of d bs \<subseteq> (\<lambda>i. b_blockno (bs ! i)) ` {..<NBUF}" by (auto simp: pins_of_def caches_def)
qed simp

lemma finite_held_map: "cache_inv d s \<Longrightarrow> finite (dom (held_map d (bufs s)))"
proof (rule finite_subset)
  show "cache_inv d s \<Longrightarrow> dom (held_map d (bufs s)) \<subseteq> (\<lambda>i. b_blockno (bufs s ! i)) ` {..<NBUF}"
    by (auto simp: dom_def held_map_iff caches_def cache_len cache_uniq)
qed simp

lemma free_buffer:
  assumes inv: "cache_inv d s" and room: "in_use (abs_cache d s) < NBUF"
  shows "\<exists>i < NBUF. b_refcnt (bufs s ! i) = 0"
proof (rule ccontr)
  assume none: "\<not> ?thesis"
  let ?f = "\<lambda>i. b_blockno (bufs s ! i)"
  have used: "b_dev (bufs s ! i) = d \<and> (pinned (bufs s ! i) \<or> sl_locked (b_lock (bufs s ! i)))" if "i < NBUF" for i
    using cache_ok [OF inv that] none that
    by (auto simp: buf_ok_def pinned_def split: if_splits)
  have "inj_on ?f {..<NBUF}"
    using used cache_uniq [OF inv] by (auto simp: inj_on_def uniq_bufs_def)
  then have "card (?f ` {..<NBUF}) = NBUF" by (simp add: card_image)
  moreover have "?f i \<in> pins_of d (bufs s) \<union> dom (held_map d (bufs s))" if i: "i < NBUF" for i
  proof (cases "pinned (bufs s ! i)")
    case True
    with used [OF i] i show ?thesis by (auto simp: pins_of_def caches_def)
  next
    case False
    with used [OF i] i have "held_map d (bufs s) (?f i) = Some i"
      using cache_len [OF inv] cache_uniq [OF inv] by (simp add: held_map_iff caches_def)
    then show ?thesis by auto
  qed
  then have "?f ` {..<NBUF} \<subseteq> a_pins (abs_cache d s) \<union> dom (a_held (abs_cache d s))"
    by (auto simp: abs_cache_def)
  moreover have "finite (a_pins (abs_cache d s) \<union> dom (a_held (abs_cache d s)))"
    using finite_held_map [OF inv] finite_pins_of by (simp add: abs_cache_def)
  ultimately show False using room unfolding in_use_def by (metis card_mono not_less)
qed

lemma can_read_abs:
  assumes inv: "cache_inv d s" and h: "a_held (abs_cache d s) bn = None"
    and room: "bn \<in> a_pins (abs_cache d s) \<or> in_use (abs_cache d s) < NBUF"
  shows "can_read d bn s"
proof (cases "slot d (bufs s) bn")
  case None
  then have "bn \<notin> a_pins (abs_cache d s)"
    using cache_len [OF inv] by (auto simp: abs_cache_def pins_of_def slot_None)
  with assms None show ?thesis by (simp add: can_read_def free_buffer)
next
  case (Some i)
  with h show ?thesis by (simp add: can_read_def abs_cache_def held_map_def split: if_splits)
qed

lemma bread_law:
  assumes inv: "cache_inv d s" and nh: "a_held (abs_cache d s) bn = None"
    and room: "bn \<in> a_pins (abs_cache d s) \<or> in_use (abs_cache d s) < NBUF"
  shows "wp (bread d bn) s (\<lambda>i t. cache_inv d t \<and> rest t = rest s
       \<and> abs_cache d t = (abs_cache d s)\<lparr>a_held := (a_held (abs_cache d s))(bn \<mapsto> i)\<rparr>)"
proof -
  note len = cache_len [OF inv]
  have can: "can_read d bn s" using assms by (rule can_read_abs)
  show ?thesis
  proof (rule wp_mono [OF bread_spec [OF cache_bio [OF inv] can]])
    fix i t
    assume "\<exists>x. t = s\<lparr>bufs := (bufs s)[i := x]\<rparr> \<and> read_into d bn s i x \<and> bio_inv d t \<and> view d t = view d s"
    then obtain x where t: "t = s\<lparr>bufs := (bufs s)[i := x]\<rparr>" and x: "read_into d bn s i x"
      and inv_t: "bio_inv d t" and v: "view d t = view d s" by blast
    have i: "i < NBUF" and cx: "caches d bn x" and lx: "sl_locked (b_lock x)" "sl_pid (b_lock x) = cur_pid s"
      using x by (simp_all add: read_into_def)
    have ok: "buf_ok d (disk s) (bufs s ! i)" using cache_ok [OF inv i] .
    have old: "\<not> sl_locked (b_lock (bufs s ! i))" "pinned x = pinned (bufs s ! i)"
      "pinned x \<Longrightarrow> b_dev (bufs s ! i) = d \<and> b_blockno (bufs s ! i) = bn"
      using x can lx ok slot_Some [OF len, of d bn i]
      by (auto simp: read_into_def can_read_def pinned_def caches_def buf_ok_def split: option.splits)
    have c: "cache_inv d t"
      using inv inv_t i lx len by (simp add: cache_inv_def t nth_list_update)
    have "pins_of d ((bufs s)[i := x]) = pins_of d (bufs s)"
      using i len cx old by (intro pins_of_upd) (auto simp: caches_def)
    moreover have "held_map d ((bufs s)[i := x]) = (held_map d (bufs s))(bn \<mapsto> i)"
      using bio_invD(2) [OF inv_t] i len cx lx old(1) cache_uniq [OF inv] by (intro held_map_add) (simp_all add: t)
    ultimately show "cache_inv d t \<and> rest t = rest s
        \<and> abs_cache d t = (abs_cache d s)\<lparr>a_held := (a_held (abs_cache d s))(bn \<mapsto> i)\<rparr>"
      using c v by (simp add: abs_cache_def t rest_def)
  qed
qed

lemma cache_inv_upd:
  assumes "cache_inv d s" and "bio_inv d (upd_buf i f s)" and "i < NBUF" and "\<And>b. b_lock (f b) = b_lock b"
  shows "cache_inv d (upd_buf i f s)"
  using assms cache_len [OF assms(1)]
  by (auto simp: cache_inv_def upd_buf_def nth_list_update)

lemma upd_buf_sel [simp]:
  "dtrace (upd_buf i f s) = dtrace s" "cur_pid (upd_buf i f s) = cur_pid s" "rest (upd_buf i f s) = rest s"
  by (simp_all add: upd_buf_def rest_def)

lemma rest_upd [simp]: "rest (s\<lparr>disk := x\<rparr>) = rest s" "rest (s\<lparr>dtrace := y\<rparr>) = rest s" "rest (s\<lparr>woken := w\<rparr>) = rest s"
  by (simp_all add: rest_def)

lemma held_map_upd:
  assumes inv: "cache_inv d s" and "bio_inv d (upd_buf i f s)" and "i < NBUF"
    and "\<And>b. b_dev (f b) = b_dev b \<and> b_blockno (f b) = b_blockno b \<and> b_lock (f b) = b_lock b"
  shows "held_map d (bufs (upd_buf i f s)) = held_map d (bufs s)"
  using assms(3,4) cache_len [OF inv]
  by (intro held_map_same cache_len [OF inv] cache_uniq [OF inv] bio_invD(1,2) [OF assms(2)])
    (simp add: nth_list_update)

lemma set_data_law:
  assumes inv: "cache_inv d s" and h: "a_held (abs_cache d s) bn = Some i"
    and len: "length (f (a_view (abs_cache d s) bn)) = BSIZE"
  shows "cache_inv d (set_data i f s) \<and> rest (set_data i f s) = rest s
    \<and> abs_cache d (set_data i f s)
        = (abs_cache d s)\<lparr>a_view := (a_view (abs_cache d s))(bn := f (a_view (abs_cache d s) bn))\<rparr>"
proof -
  note b = held_facts [OF inv h]
  have v: "a_view (abs_cache d s) bn = b_data (bufs s ! i)" using b(6) by (simp add: abs_cache_def)
  note sp = set_data_spec [OF cache_bio [OF inv] b(4), of f, OF len [unfolded v], folded set_data_def]
  have c: "cache_inv d (set_data i f s)"
    using sp(1) inv b(1) unfolding set_data_def by (intro cache_inv_upd) simp_all
  have "pins_of d (bufs (set_data i f s)) = pins_of d (bufs s)"
    unfolding set_data_def bufs_upd_buf using b(1) cache_len [OF inv] by (intro pins_of_upd) (simp_all add: pinned_def)
  moreover have "held_map d (bufs (set_data i f s)) = held_map d (bufs s)"
    using inv sp(1) b(1) unfolding set_data_def by (intro held_map_upd) simp_all
  ultimately show ?thesis
    using sp(2) c b(3,6) by (simp add: abs_cache_def) (simp add: set_data_def)
qed

lemma bwrite_law:
  assumes inv: "cache_inv d s" and h: "a_held (abs_cache d s) bn = Some i"
  shows "wp (bwrite i) s (\<lambda>_ t. cache_inv d t \<and> rest t = rest s
    \<and> abs_cache d t = (abs_cache d s)\<lparr>a_disk := (a_disk (abs_cache d s))(bn := a_view (abs_cache d s) bn),
                             a_trace := a_trace (abs_cache d s) @ [(bn, a_view (abs_cache d s) bn)]\<rparr>)"
proof -
  note b = held_facts [OF inv h]
  define t where "t = s\<lparr>disk := (disk s)(bn := view d s bn), dtrace := dtrace s @ [(bn, view d s bn)]\<rparr>"
  have sp: "bio_inv d t" "view d t = view d s"
    using bwrite_spec [OF cache_bio [OF inv] b(4)] b(3,6) by (simp_all add: t_def)
  have c: "cache_inv d t" using sp(1) inv by (simp add: cache_inv_def t_def)
  with sp(2) show ?thesis
    using b(3,4,6) by (simp add: wp_bwrite abs_cache_def flip: t_def) (simp add: t_def rest_def)
qed

lemma bpin_law:
  assumes inv: "cache_inv d s" and h: "a_held (abs_cache d s) bn = Some i" and np: "bn \<notin> a_pins (abs_cache d s)"
  shows "wp (bpin i) s (\<lambda>_ t. cache_inv d t \<and> rest t = rest s
    \<and> abs_cache d t = (abs_cache d s)\<lparr>a_pins := insert bn (a_pins (abs_cache d s))\<rparr>)"
proof -
  note b = held_facts [OF inv h]
  have r: "b_refcnt (bufs s ! i) = 1" and l: "sl_locked (b_lock (bufs s ! i))" using b(4,7) np by (simp_all add: held_def)
  define t where "t = upd_buf i (\<lambda>x. x\<lparr>b_refcnt := b_refcnt x + 1\<rparr>) s"
  note sp = bpin_spec [OF cache_bio [OF inv] b(4) r, folded t_def]
  have c: "cache_inv d t" using sp(2) inv b(1) unfolding t_def by (intro cache_inv_upd) simp_all
  have "pins_of d (bufs t) = insert bn (pins_of d (bufs s))"
    unfolding t_def bufs_upd_buf using b(1,2,3) cache_len [OF inv] r l by (subst pins_of_add) (simp_all add: pinned_def)
  moreover have "held_map d (bufs t) = held_map d (bufs s)"
    using inv sp(2) b(1) unfolding t_def by (intro held_map_upd) simp_all
  moreover have "disk t = disk s" "dtrace t = dtrace s" "rest t = rest s" by (simp_all add: t_def)
  ultimately show ?thesis using sp c by (simp add: wp_def abs_cache_def)
qed

lemma bunpin_law:
  assumes inv: "cache_inv d s" and h: "a_held (abs_cache d s) bn = Some i" and p: "bn \<in> a_pins (abs_cache d s)"
  shows "wp (bunpin i) s (\<lambda>_ t. cache_inv d t \<and> rest t = rest s
    \<and> abs_cache d t = (abs_cache d s)\<lparr>a_pins := a_pins (abs_cache d s) - {bn}\<rparr>)"
proof -
  note b = held_facts [OF inv h]
  have r: "b_refcnt (bufs s ! i) = 2" and l: "sl_locked (b_lock (bufs s ! i))" using b(4,7) p by (simp_all add: held_def)
  define t where "t = upd_buf i (\<lambda>x. x\<lparr>b_refcnt := b_refcnt x - 1\<rparr>) s"
  note sp = bunpin_spec [OF cache_bio [OF inv] b(4) r, folded t_def]
  have c: "cache_inv d t" using sp(2) inv b(1) unfolding t_def by (intro cache_inv_upd) simp_all
  have "pins_of d (bufs t) = pins_of d (bufs s) - {bn}"
    unfolding t_def bufs_upd_buf using b(1,2,3) cache_len [OF inv] cache_uniq [OF inv] r l
    by (subst pins_of_remove) (simp_all add: pinned_def)
  moreover have "held_map d (bufs t) = held_map d (bufs s)"
    using inv sp(2) b(1) unfolding t_def by (intro held_map_upd) simp_all
  moreover have "disk t = disk s" "dtrace t = dtrace s" "rest t = rest s" by (simp_all add: t_def)
  ultimately show ?thesis using sp c by (simp add: wp_def abs_cache_def)
qed

lemma brelse_law:
  assumes inv: "cache_inv d s" and h: "a_held (abs_cache d s) bn = Some i"
    and clean: "bn \<in> a_pins (abs_cache d s) \<or> a_view (abs_cache d s) bn = a_disk (abs_cache d s) bn"
  shows "wp (brelse i) s (\<lambda>_ t. cache_inv d t \<and> rest t = rest s
    \<and> abs_cache d t = (abs_cache d s)\<lparr>a_held := (a_held (abs_cache d s))(bn := None)\<rparr>)"
proof -
  note b = held_facts [OF inv h] and len = cache_len [OF inv]
  have "b_refcnt (bufs s ! i) = 1 \<longrightarrow> b_data (bufs s ! i) = disk s (b_blockno (bufs s ! i))"
    using b(3,6,7) clean by (auto simp: abs_cache_def split: if_splits)
  note sp = brelse_spec [OF cache_bio [OF inv] b(4) this]
  have l: "sl_locked (b_lock (bufs s ! i))" using b(4) by (simp add: held_def)
  show ?thesis
  proof (rule wp_mono [OF sp])
    fix u t
    assume "bio_inv d t \<and> view d t = view d s \<and> released s i t"
    then have it: "bio_inv d t" and v: "view d t = view d s"
      and co: "\<And>j. core (bufs t ! j) = core (if j = i then unlocked (bufs s ! i) else bufs s ! j)"
      and st: "t = s\<lparr>woken := woken s @ [ChanBuf i], bufs := bufs t\<rparr>"
      by (simp_all add: released_def)
    have co': "core (bufs t ! j) = core ((bufs s)[i := unlocked (bufs s ! i)] ! j)" if "j < NBUF" for j
      using co [of j] that b(1) len by simp
    have sel: "disk t = disk s" "dtrace t = dtrace s" "rest t = rest s" "cur_pid t = cur_pid s"
      by (subst st, simp add: rest_def)+
    have fld: "b_dev (bufs t ! j) = b_dev (bufs s ! j)" "b_blockno (bufs t ! j) = b_blockno (bufs s ! j)"
      "b_lock (bufs t ! j) = b_lock (if j = i then unlocked (bufs s ! i) else bufs s ! j)" for j
      using co [of j] by (auto simp: core_eq_iff unlocked_def split: if_splits)
    have c: "cache_inv d t"
      using it inv fld(3) sel(4) by (auto simp: cache_inv_def unlocked_def)
    have "pins_of d (bufs t) = pins_of d ((bufs s)[i := unlocked (bufs s ! i)])"
      using co' by (rule pins_of_core) simp_all
    also have "\<dots> = pins_of d (bufs s)"
      using b(1) len l by (intro pins_of_upd) (simp_all add: pinned_def unlocked_def)
    finally have p: "pins_of d (bufs t) = pins_of d (bufs s)" .
    have "held_map d (bufs t) = (held_map d (bufs s))(bn := None)"
      using h fld by (intro held_map_remove [where i = i] cache_len [OF inv] cache_uniq [OF inv] bio_invD(1,2) [OF it])
        (simp_all add: abs_cache_def unlocked_def)
    with p v sel c show "cache_inv d t \<and> rest t = rest s
        \<and> abs_cache d t = (abs_cache d s)\<lparr>a_held := (a_held (abs_cache d s))(bn := None)\<rparr>"
      by (simp add: abs_cache_def)
  qed
qed

lemma cache_clean:
  assumes inv: "cache_inv d s" and "bn \<notin> a_pins (abs_cache d s)" and "a_held (abs_cache d s) bn = None"
  shows "a_view (abs_cache d s) bn = a_disk (abs_cache d s) bn"
proof (cases "slot d (bufs s) bn")
  case None
  then show ?thesis by (simp add: abs_cache_def view_def)
next
  case (Some i)
  note a = slot_Some [OF cache_len [OF inv] Some]
  then have "buf_ok d (disk s) (bufs s ! i)" using cache_ok [OF inv] by blast
  moreover have "\<not> pinned (bufs s ! i)" "\<not> sl_locked (b_lock (bufs s ! i))"
    using assms(2,3) a Some by (auto simp: abs_cache_def pins_of_def held_map_def split: if_splits)
  ultimately show ?thesis
    using Some a by (auto simp: abs_cache_def view_def buf_ok_def pinned_def caches_def)
qed

lemma view_size:
  assumes inv: "cache_inv d s"
  shows "length (a_view (abs_cache d s) bn) = BSIZE"
proof -
  have "buf_ok d (disk s) (bufs s ! i)" if "slot d (bufs s) bn = Some i" for i
    using slot_Some [OF cache_len [OF inv] that] cache_ok [OF inv] by blast
  moreover have "length (disk s bn) = BSIZE" using cache_bio [OF inv] by (simp add: bio_inv_def)
  ultimately show ?thesis by (auto simp: abs_cache_def view_def buf_ok_def split: option.split)
qed

interpretation bc: block_cache "bread d" brelse set_data get_data "cache_inv d" "abs_cache d" rest bwrite bpin bunpin
proof unfold_locales
  show "cache_inv d s \<Longrightarrow> a_held (abs_cache d s) bn = Some i \<Longrightarrow> a_held (abs_cache d s) bn' = Some i \<Longrightarrow> bn = bn'"
    for s :: "'a bio_state_scheme" and bn bn' i using held_facts(3) by blast
  show "cache_inv d s \<Longrightarrow> a_held (abs_cache d s) bn = Some i \<Longrightarrow> get_data i s = a_view (abs_cache d s) bn"
    for s :: "'a bio_state_scheme" and bn i using held_facts(6) by (simp add: get_data_def abs_cache_def)
  show "cache_inv d s \<Longrightarrow> finite (a_pins (abs_cache d s))"
    "cache_inv d s \<Longrightarrow> finite (dom (a_held (abs_cache d s)))"
    for s :: "'a bio_state_scheme" by (simp_all add: abs_cache_def finite_pins_of finite_held_map)
qed (intro bread_law set_data_law bwrite_law bpin_law bunpin_law brelse_law cache_clean view_size; assumption)+

lemma binit_abs:
  assumes "bufs s = replicate (Suc NBUF) zero_buf" and "\<And>bn. length (disk s bn) = BSIZE" and "d \<noteq> 0"
  shows "cache_inv d (binit s)" and "rest (binit s) = rest s"
    and "abs_cache d (binit s) = \<lparr>a_view = disk s, a_disk = disk s, a_trace = dtrace s, a_pins = {}, a_held = Map.empty\<rparr>"
proof -
  note b = binit_inv [OF assms(1,2,3)]
  show "cache_inv d (binit s)" using b(1,4) by (simp add: cache_inv_def)
  obtain bs where bs: "binit s = s\<lparr>bufs := bs\<rparr>" using b(3) by blast
  then show "rest (binit s) = rest s" by (simp add: rest_def)
  have "pins_of d (bufs (binit s)) = {}" using b(4) by (auto simp: pins_of_def pinned_def)
  moreover have "held_map d (bufs (binit s)) = Map.empty"
  proof
    fix bn
    show "held_map d (bufs (binit s)) bn = None"
      using slot_Some [OF bio_invD(1) [OF b(1)], of d bn] b(4) by (auto simp: held_map_def split: option.split)
  qed
  ultimately show "abs_cache d (binit s)
      = \<lparr>a_view = disk s, a_disk = disk s, a_trace = dtrace s, a_pins = {}, a_held = Map.empty\<rparr>"
    using b(2) by (simp add: abs_cache_def) (simp add: bs)
qed

end
