(* ===== verification/Fs_Layout.thy ===== *)
theory Fs_Layout
  imports Codec
begin

text \<open>
  The on-disk format of \<^verbatim>\<open>kernel/fs.h\<close>: the super block, the disk inode and the directory
  entry as records with their byte layout (interpretations of \<open>codec\<close>), and the macros that
  locate an inode or a bit of the free map.
\<close>

section \<open>Constants and macros\<close>

definition FSMAGIC :: u32 where "FSMAGIC = 0x10203040"
definition NDIRECT :: nat where "NDIRECT = 12"
definition NINDIRECT :: nat where "NINDIRECT = BSIZE div 4"
definition MAXFILE :: nat where "MAXFILE = NDIRECT + NINDIRECT"
definition DIRSIZ :: nat where "DIRSIZ = 14"
definition BPB :: nat where "BPB = BSIZE * 8"

definition T_DIR :: ushort where "T_DIR = 1"
definition T_FILE :: ushort where "T_FILE = 2"
definition T_DEVICE :: ushort where "T_DEVICE = 3"
definition T_SYMLINK :: ushort where "T_SYMLINK = 4"

section \<open>The super block\<close>

record superblock =
  sb_magic :: u32
  sb_size :: u32
  sb_nblocks :: u32
  sb_ninodes :: u32
  sb_nlog :: u32
  sb_logstart :: u32
  sb_inodestart :: u32
  sb_bmapstart :: u32

definition enc_superblock :: "superblock \<Rightarrow> bytes" where
  "enc_superblock sb =
     enc_arr enc32 [sb_magic sb, sb_size sb, sb_nblocks sb, sb_ninodes sb, sb_nlog sb,
       sb_logstart sb, sb_inodestart sb, sb_bmapstart sb]"

definition dec_superblock :: "bytes \<Rightarrow> superblock" where
  "dec_superblock bs =
     (let f = (\<lambda>i. get_rec dec32 4 i bs)
      in \<lparr>sb_magic = f 0, sb_size = f 1, sb_nblocks = f 2, sb_ninodes = f 3, sb_nlog = f 4,
          sb_logstart = f 5, sb_inodestart = f 6, sb_bmapstart = f 7\<rparr>)"

interpretation csb: codec enc_superblock dec_superblock 32 "\<lambda>_. True"
proof
  fix sb :: superblock
  show "length (enc_superblock sb) = 32"
    by (simp add: enc_superblock_def c32.length_enc_arr)
  have "get_rec dec32 4 i (enc_superblock sb) =
      [sb_magic sb, sb_size sb, sb_nblocks sb, sb_ninodes sb, sb_nlog sb,
       sb_logstart sb, sb_inodestart sb, sb_bmapstart sb] ! i" if "i < 8" for i
    using c32.get_enc_arr [of _ i "[]"] that unfolding enc_superblock_def by simp
  then show "dec_superblock (enc_superblock sb) = sb"
    by (simp add: dec_superblock_def)
qed

section \<open>The disk inode\<close>

record dinode =
  di_type :: ushort
  di_major :: ushort
  di_minor :: ushort
  di_nlink :: ushort
  di_size :: u32
  di_addrs :: "u32 list"

definition dinode_ok :: "dinode \<Rightarrow> bool" where
  "dinode_ok di \<longleftrightarrow> length (di_addrs di) = NDIRECT + 1"

definition enc_dinode :: "dinode \<Rightarrow> bytes" where
  "enc_dinode di =
     enc16 (di_type di) @ enc16 (di_major di) @ enc16 (di_minor di) @ enc16 (di_nlink di)
     @ enc32 (di_size di) @ enc_arr enc32 (di_addrs di)"

definition dec_dinode :: "bytes \<Rightarrow> dinode" where
  "dec_dinode bs =
     \<lparr>di_type = dec16 (slice 0 2 bs), di_major = dec16 (slice 2 2 bs),
      di_minor = dec16 (slice 4 2 bs), di_nlink = dec16 (slice 6 2 bs),
      di_size = dec32 (slice 8 4 bs),
      di_addrs = dec_arr dec32 4 (NDIRECT + 1) (drop 12 bs)\<rparr>"

interpretation cdi: codec enc_dinode dec_dinode 64 dinode_ok
proof
  fix di :: dinode
  assume ok: "dinode_ok di"
  show "length (enc_dinode di) = 64"
    using ok by (simp add: enc_dinode_def dinode_ok_def c32.length_enc_arr NDIRECT_def)
  have "dec_arr dec32 4 (NDIRECT + 1) (enc_arr enc32 (di_addrs di)) = di_addrs di"
    using c32.dec_enc_arr [of "di_addrs di" "NDIRECT + 1" "[]"] ok by (simp add: dinode_ok_def)
  then show "dec_dinode (enc_dinode di) = di"
    by (simp add: dec_dinode_def enc_dinode_def slice_def)
qed

lemma dinode_ok_dec [simp]: "dinode_ok (dec_dinode bs)"
  by (simp add: dinode_ok_def dec_dinode_def)

definition IPB :: nat where "IPB = BSIZE div 64"

definition IBLOCK :: "u32 \<Rightarrow> superblock \<Rightarrow> u32" where
  "IBLOCK i sb = i div of_nat IPB + sb_inodestart sb"

definition BBLOCK :: "u32 \<Rightarrow> superblock \<Rightarrow> u32" where
  "BBLOCK b sb = b div of_nat BPB + sb_bmapstart sb"

section \<open>Directory entries\<close>

record dirent =
  de_inum :: ushort
  de_name :: bytes

definition dirent_ok :: "dirent \<Rightarrow> bool" where
  "dirent_ok de \<longleftrightarrow> length (de_name de) = DIRSIZ"

definition enc_dirent :: "dirent \<Rightarrow> bytes" where
  "enc_dirent de = enc16 (de_inum de) @ de_name de"

definition dec_dirent :: "bytes \<Rightarrow> dirent" where
  "dec_dirent bs = \<lparr>de_inum = dec16 (slice 0 2 bs), de_name = slice 2 DIRSIZ bs\<rparr>"

interpretation cde: codec enc_dirent dec_dirent 16 dirent_ok
  by unfold_locales
    (simp_all add: enc_dirent_def dec_dirent_def dirent_ok_def slice_def DIRSIZ_def)

end
