(* ===== verification/Log.thy ===== *)
theory Log
  imports Block_Cache Fs_Layout
begin

text \<open>
  The write-ahead log of \<^verbatim>\<open>kernel/log.c\<close>.

  The state \<open>log_state\<close> extends the buffer cache with \<^verbatim>\<open>struct log\<close>. The operations are the
  functions of the file; a \<^verbatim>\<open>sleep(&log, ..)\<close> in \<^verbatim>\<open>begin_op\<close> stops with \<open>Asleep ChanLog\<close>.
  An index outside \<^verbatim>\<open>log.lh.block\<close> (possible when the header on disk is damaged) is a \<open>Fault\<close>.
  The message \<^verbatim>\<open>printf\<close> writes during recovery is not part of the state.
\<close>

section \<open>State and operations\<close>

record logheader =
  lh_n :: int
  lh_block :: "u32 list"

record log_state = bio_state +
  log_start :: u32
  log_outstanding :: int
  log_committing :: bool
  log_dev :: u32
  log_lh :: logheader

definition upd_lh :: "(logheader \<Rightarrow> logheader) \<Rightarrow> 'a log_state_scheme \<Rightarrow> 'a log_state_scheme" where
  "upd_lh f s = s\<lparr>log_lh := f (log_lh s)\<rparr>"

definition lh_get :: "nat \<Rightarrow> ('a log_state_scheme, u32) kmon" where
  "lh_get i = (if i < LOGBLOCKS then gets (\<lambda>s. lh_block (log_lh s) ! i) else fault ''log.lh.block'')"

definition lh_set :: "nat \<Rightarrow> u32 \<Rightarrow> ('a log_state_scheme, unit) kmon" where
  "lh_set i b = (if i < LOGBLOCKS then modk (upd_lh (\<lambda>h. h\<lparr>lh_block := (lh_block h)[i := b]\<rparr>))
                 else fault ''log.lh.block'')"

definition tail_blk :: "'a log_state_scheme \<Rightarrow> nat \<Rightarrow> u32" where
  "tail_blk s tail = log_start s + of_nat tail + 1"

definition install_trans :: "bool \<Rightarrow> ('a log_state_scheme, unit) kmon" where
  "install_trans recovering =
     bindk (gets (\<lambda>s. lh_n (log_lh s))) (\<lambda>n.
     for_each [0..<nat n] (\<lambda>tail.
       bindk (gets (\<lambda>s. (log_dev s, tail_blk s tail))) (\<lambda>(dev, lb).
       bindk (bread dev lb) (\<lambda>lbuf.
       bindk (lh_get tail) (\<lambda>db.
       bindk (bread dev db) (\<lambda>dbuf.
       thenk (modk (\<lambda>s. set_data dbuf (\<lambda>_. get_data lbuf s) s))
       (thenk (bwrite dbuf)
       (thenk (whenk (\<not> recovering) (bunpin dbuf))
       (thenk (brelse lbuf)
       (brelse dbuf))))))))))"

definition read_head :: "('a log_state_scheme, unit) kmon" where
  "read_head =
     bindk (gets (\<lambda>s. (log_dev s, log_start s))) (\<lambda>(dev, start).
     bindk (bread dev start) (\<lambda>buf.
     bindk (gets (get_data buf)) (\<lambda>lh.
     thenk (modk (upd_lh (\<lambda>h. h\<lparr>lh_n := sint (get_rec dec32 4 0 lh)\<rparr>)))
     (bindk (gets (\<lambda>s. lh_n (log_lh s))) (\<lambda>n.
     thenk (for_each [0..<nat n] (\<lambda>i. lh_set i (get_rec dec32 4 (Suc i) lh)))
     (brelse buf))))))"

definition write_head :: "('a log_state_scheme, unit) kmon" where
  "write_head =
     bindk (gets (\<lambda>s. (log_dev s, log_start s))) (\<lambda>(dev, start).
     bindk (bread dev start) (\<lambda>buf.
     bindk (gets (\<lambda>s. lh_n (log_lh s))) (\<lambda>n.
     thenk (modk (set_data buf (put_rec enc32 4 0 (of_int n))))
     (thenk (for_each [0..<nat n] (\<lambda>i.
        bindk (lh_get i) (\<lambda>b. modk (set_data buf (put_rec enc32 4 (Suc i) b)))))
     (thenk (bwrite buf)
     (brelse buf))))))"

definition recover_from_log :: "('a log_state_scheme, unit) kmon" where
  "recover_from_log =
     thenk read_head
     (thenk (install_trans True)
     (thenk (modk (upd_lh (\<lambda>h. h\<lparr>lh_n := 0\<rparr>)))
     write_head))"

definition initlog :: "u32 \<Rightarrow> superblock \<Rightarrow> ('a log_state_scheme, unit) kmon" where
  "initlog dev sb =
     thenk (whenk (BSIZE \<le> 4 + 4 * LOGBLOCKS) (panic ''initlog: too big logheader''))
     (thenk (modk (\<lambda>s. s\<lparr>log_start := sb_logstart sb, log_dev := dev\<rparr>))
     recover_from_log)"

definition begin_op :: "('a log_state_scheme, unit) kmon" where
  "begin_op =
     bindk (gets (\<lambda>s. (log_committing s, lh_n (log_lh s), log_outstanding s))) (\<lambda>(c, n, out).
     if c then asleep ChanLog
     else if n + (out + 1) * int MAXOPBLOCKS > int LOGBLOCKS then asleep ChanLog
     else modk (\<lambda>s. s\<lparr>log_outstanding := out + 1\<rparr>))"

definition write_log :: "('a log_state_scheme, unit) kmon" where
  "write_log =
     bindk (gets (\<lambda>s. lh_n (log_lh s))) (\<lambda>n.
     for_each [0..<nat n] (\<lambda>tail.
       bindk (gets (\<lambda>s. (log_dev s, tail_blk s tail))) (\<lambda>(dev, lb).
       bindk (bread dev lb) (\<lambda>to_buf.
       bindk (lh_get tail) (\<lambda>db.
       bindk (bread dev db) (\<lambda>from_buf.
       thenk (modk (\<lambda>s. set_data to_buf (\<lambda>_. get_data from_buf s) s))
       (thenk (bwrite to_buf)
       (thenk (brelse from_buf)
       (brelse to_buf)))))))))"

definition commit :: "('a log_state_scheme, unit) kmon" where
  "commit =
     bindk (gets (\<lambda>s. lh_n (log_lh s))) (\<lambda>n.
     whenk (0 < n)
       (thenk write_log
       (thenk write_head
       (thenk (install_trans False)
       (thenk (modk (upd_lh (\<lambda>h. h\<lparr>lh_n := 0\<rparr>)))
       write_head)))))"

definition end_op :: "('a log_state_scheme, unit) kmon" where
  "end_op =
     thenk (modk (\<lambda>s. s\<lparr>log_outstanding := log_outstanding s - 1\<rparr>))
     (bindk (gets (\<lambda>s. (log_committing s, log_outstanding s))) (\<lambda>(c, out).
     thenk (whenk c (panic ''log.committing''))
     (if out = 0 then
        thenk (modk (\<lambda>s. s\<lparr>log_committing := True\<rparr>))
        (thenk commit
        (thenk (modk (\<lambda>s. s\<lparr>log_committing := False\<rparr>))
        (wakeup_chan ChanLog)))
      else wakeup_chan ChanLog)))"

definition log_write :: "nat \<Rightarrow> ('a log_state_scheme, unit) kmon" where
  "log_write b =
     bindk (gets (\<lambda>s. (lh_n (log_lh s), log_outstanding s))) (\<lambda>(n, out).
     thenk (whenk (int LOGBLOCKS \<le> n) (panic ''too big a transaction''))
     (thenk (whenk (out < 1) (panic ''log_write outside of trans''))
     (bindk (gets (\<lambda>s. (b_blockno (bufs s ! b), take (nat n) (lh_block (log_lh s))))) (\<lambda>(bn, blks).
     bindk (ret (case scan_first (\<lambda>x. x = bn) blks of Some i \<Rightarrow> i | None \<Rightarrow> nat n)) (\<lambda>i.
     thenk (lh_set i bn)
     (whenk (int i = n)
       (thenk (bpin b)
       (modk (upd_lh (\<lambda>h. h\<lparr>lh_n := lh_n h + 1\<rparr>))))))))))"

section \<open>Sequences of disk writes\<close>

definition apply_writes :: "(u32 \<times> block) list \<Rightarrow> (u32 \<Rightarrow> block) \<Rightarrow> u32 \<Rightarrow> block" where
  "apply_writes ws m = fold (\<lambda>(b, x) m. m(b := x)) ws m"

definition writes :: "(u32 \<times> block) list \<Rightarrow> cache_abs \<Rightarrow> cache_abs" where
  "writes ws c = c\<lparr>a_view := apply_writes ws (a_view c), a_disk := apply_writes ws (a_disk c),
                   a_trace := a_trace c @ ws\<rparr>"

lemma apply_writes_Nil [simp]: "apply_writes [] m = m"
  by (simp add: apply_writes_def)

lemma apply_writes_append [simp]: "apply_writes (ws @ vs) m = apply_writes vs (apply_writes ws m)"
  by (simp add: apply_writes_def)

lemma apply_writes_Cons [simp]: "apply_writes ((b, x) # ws) m = apply_writes ws (m(b := x))"
  by (simp add: apply_writes_def)

lemma apply_writes_notin: "bn \<notin> fst ` set ws \<Longrightarrow> apply_writes ws m bn = m bn"
proof (induction ws rule: rev_induct)
  case (snoc w ws)
  then show ?case by (cases w) auto
qed simp

lemma apply_writes_in:
  assumes "distinct (map fst ws)" and "(bn, x) \<in> set ws"
  shows "apply_writes ws m bn = x"
  using assms
proof (induction ws rule: rev_induct)
  case (snoc w ws)
  then show ?case by (cases w) (force simp: apply_writes_notin)
qed simp

lemma writes_Nil [simp]: "writes [] c = c"
  by (simp add: writes_def)

lemma writes_append: "writes (ws @ vs) c = writes vs (writes ws c)"
  by (simp add: writes_def)

lemma written_writes: "written b x c = writes [(b, x)] c"
  by (simp add: written_def writes_def)

lemma copied_writes: "copied a b c = writes [(b, a_view c a)] c"
  by (simp add: copied_def written_writes)

lemma writes_sel [simp]:
  "a_view (writes ws c) = apply_writes ws (a_view c)" "a_disk (writes ws c) = apply_writes ws (a_disk c)"
  "a_trace (writes ws c) = a_trace c @ ws" "a_pins (writes ws c) = a_pins c" "a_held (writes ws c) = a_held c"
  "in_use (writes ws c) = in_use c"
  by (simp_all add: writes_def in_use_def)

section \<open>The invariant\<close>

abbreviation lab :: "'a log_state_scheme \<Rightarrow> cache_abs" where
  "lab s \<equiv> abs_cache (log_dev s) s"

definition logged :: "'a log_state_scheme \<Rightarrow> u32 list" where
  "logged s = take (nat (lh_n (log_lh s))) (lh_block (log_lh s))"

definition log_area :: "u32 \<Rightarrow> u32 set" where
  "log_area start = insert start ((\<lambda>i. start + of_nat i + 1) ` {..<LOGBLOCKS})"

definition log_wf :: "'a log_state_scheme \<Rightarrow> bool" where
  "log_wf s \<longleftrightarrow> cache_inv (log_dev s) s
     \<and> 0 \<le> lh_n (log_lh s) \<and> lh_n (log_lh s) \<le> int LOGBLOCKS \<and> length (lh_block (log_lh s)) = LOGBLOCKS
     \<and> distinct (logged s) \<and> set (logged s) \<inter> log_area (log_start s) = {}"

definition log_inv :: "'a log_state_scheme \<Rightarrow> bool" where
  "log_inv s \<longleftrightarrow> log_wf s \<and> a_pins (lab s) = set (logged s)
     \<and> get_rec dec32 4 0 (a_disk (lab s) (log_start s)) = 0
     \<and> dom (a_held (lab s)) \<inter> log_area (log_start s) = {}"

lemma log_wfD:
  assumes "log_wf s"
  shows "cache_inv (log_dev s) s" and "length (logged s) = nat (lh_n (log_lh s))"
    and "lh_n (log_lh s) = int (length (logged s))" and "length (logged s) \<le> LOGBLOCKS"
    and "distinct (logged s)" and "set (logged s) \<inter> log_area (log_start s) = {}"
    and "i < length (logged s) \<Longrightarrow> lh_block (log_lh s) ! i = logged s ! i"
  using assms by (auto simp: log_wf_def logged_def)

lemma tail_blk_in: "i < LOGBLOCKS \<Longrightarrow> tail_blk s i \<in> log_area (log_start s)"
  by (auto simp: tail_blk_def log_area_def)

lemma of_nat_log_inj:
  assumes "i \<le> LOGBLOCKS" and "j \<le> LOGBLOCKS" and "(of_nat i :: u32) = of_nat j"
  shows "i = j"
proof -
  have "unat (of_nat i :: u32) = i" "unat (of_nat j :: u32) = j"
    using assms(1,2) by (simp_all add: unat_of_nat LOGBLOCKS_def MAXOPBLOCKS_def)
  with assms(3) show ?thesis by metis
qed

lemma tail_blk_inj: "i < LOGBLOCKS \<Longrightarrow> j < LOGBLOCKS \<Longrightarrow> tail_blk s i = tail_blk s j \<Longrightarrow> i = j"
  by (rule of_nat_log_inj) (simp_all add: tail_blk_def)

lemma tail_blk_start: "i < LOGBLOCKS \<Longrightarrow> tail_blk s i \<noteq> log_start s"
proof
  assume "i < LOGBLOCKS" "tail_blk s i = log_start s"
  then have "(of_nat (Suc i) :: u32) = of_nat 0" by (simp add: tail_blk_def add.commute)
  with \<open>i < LOGBLOCKS\<close> show False using of_nat_log_inj [of "Suc i" 0] by simp
qed

lemma rest_log:
  assumes "rest t = rest s"
  shows "log_start t = log_start s" "log_dev t = log_dev s" "log_lh t = log_lh s"
    "log_outstanding t = log_outstanding s" "log_committing t = log_committing s"
    "log_state.more t = log_state.more s" "cur_pid t = cur_pid s"
  using assms by (cases s; cases t; simp add: rest_def)+

lemma log_invD:
  assumes "log_inv s"
  shows "log_wf s" and "a_pins (lab s) = set (logged s)" and "get_rec dec32 4 0 (a_disk (lab s) (log_start s)) = 0"
    and "log_start s \<notin> set (logged s)" and "length (a_view (lab s) bn) = BSIZE"
    and "bn \<notin> set (logged s) \<Longrightarrow> a_held (lab s) bn = None \<Longrightarrow> a_disk (lab s) bn = a_view (lab s) bn"
proof -
  show "log_wf s" "a_pins (lab s) = set (logged s)" "get_rec dec32 4 0 (a_disk (lab s) (log_start s)) = 0"
    using assms by (simp_all add: log_inv_def)
  then show "log_start s \<notin> set (logged s)" "length (a_view (lab s) bn) = BSIZE"
    "bn \<notin> set (logged s) \<Longrightarrow> a_held (lab s) bn = None \<Longrightarrow> a_disk (lab s) bn = a_view (lab s) bn"
    using log_wfD(1,6) [of s] bc.view_length [of "log_dev s" s] bc.clean_law [of "log_dev s" s bn]
    by (auto simp: log_area_def)
qed

section \<open>Commit\<close>

lemma wp_lh_get [simp]: "i < LOGBLOCKS \<Longrightarrow> wp (lh_get i) s Q = Q (lh_block (log_lh s) ! i) s"
  by (simp add: lh_get_def)

lemma wp_lh_set [simp]: "i < LOGBLOCKS
    \<Longrightarrow> wp (lh_set i b) s Q = Q () (upd_lh (\<lambda>h. h\<lparr>lh_block := (lh_block h)[i := b]\<rparr>) s)"
  by (simp add: lh_set_def)

text \<open>Reading a buffer does not touch the header in memory.\<close>

lemma bread_rest: "bread d bn s = Inr (i, t) \<Longrightarrow> rest t = rest s"
  by (auto simp: bread_def bget_def bindk_def thenk_def gets_def ret_def modk_def whenk_def panic_def asleep_def
      acquiresleep_def virtio_disk_rw_def Let_def split: option.splits if_splits sum.splits)

lemma bread_lh_get:
  assumes "k < LOGBLOCKS"
  shows "bindk (bread dev lb) (\<lambda>i. bindk (lh_get k) (g i)) = bindk (lh_get k) (\<lambda>db. bindk (bread dev lb) (\<lambda>i. g i db))"
proof
  fix s :: "'a log_state_scheme"
  show "bindk (bread dev lb) (\<lambda>i. bindk (lh_get k) (g i)) s = bindk (lh_get k) (\<lambda>db. bindk (bread dev lb) (\<lambda>i. g i db)) s"
  proof (cases "bread dev lb s")
    case (Inr r)
    then obtain i t where it: "bread dev lb s = Inr (i, t)" by (cases r) simp
    then have "log_lh t = log_lh s" using bread_rest rest_log(3) by blast
    with it assms show ?thesis by (simp add: bindk_def lh_get_def gets_def)
  qed (use assms in \<open>simp add: bindk_def lh_get_def gets_def\<close>)
qed

text \<open>The writes of the two copying loops.\<close>

definition log_writes :: "'a log_state_scheme \<Rightarrow> (u32 \<times> block) list" where
  "log_writes s = map (\<lambda>i. (tail_blk s i, a_view (lab s) (logged s ! i))) [0..<length (logged s)]"

definition home_writes :: "'a log_state_scheme \<Rightarrow> (u32 \<times> block) list" where
  "home_writes s = map (\<lambda>i. (logged s ! i, a_view (lab s) (tail_blk s i))) [0..<length (logged s)]"

lemma length_log_writes [simp]: "length (log_writes s) = length (logged s)"
  and length_home_writes [simp]: "length (home_writes s) = length (logged s)"
  by (simp_all add: log_writes_def home_writes_def)

lemma fst_log_writes: "log_wf s \<Longrightarrow> fst ` set (log_writes s) \<subseteq> log_area (log_start s) - {log_start s}"
  using log_wfD(4) [of s] tail_blk_in [of _ s] tail_blk_start [of _ s] by (auto simp: log_writes_def)

lemma map_fst_home_writes: "map fst (home_writes s) = logged s"
  by (intro nth_equalityI) (simp_all add: home_writes_def)

lemma fst_home_writes: "fst ` set (home_writes s) = set (logged s)"
  using map_fst_home_writes [of s] by (metis list.set_map)

lemma take_writes_fst: "bn \<notin> fst ` set ws \<Longrightarrow> apply_writes (take k ws) m bn = m bn"
  by (rule apply_writes_notin) (auto dest: in_set_takeD)

lemma write_log_spec:
  assumes wf: "log_wf s" and pins: "set (logged s) \<subseteq> a_pins (lab s)" and h: "a_held (lab s) = Map.empty"
    and room: "in_use (lab s) < NBUF"
  shows "wp write_log s (\<lambda>_ t. cache_inv (log_dev t) t \<and> rest t = rest s \<and> lab t = writes (log_writes s) (lab s))"
proof -
  let ?ws = "log_writes s"
  let ?I = "\<lambda>k t. cache_inv (log_dev t) t \<and> rest t = rest s \<and> lab t = writes (take k ?ws) (lab s)"
  note wfD = log_wfD [OF wf]
  show ?thesis
    unfolding write_log_def wp_bindk wp_gets wfD(3) nat_int
  proof (rule wp_for_range [where I = ?I])
    show "?I 0 s" using wfD(1) by simp
    show "?I (length (logged s)) t \<Longrightarrow> cache_inv (log_dev t) t \<and> rest t = rest s \<and> lab t = writes ?ws (lab s)" for t
      by simp
    fix k t
    assume k: "k < length (logged s)" and I: "?I k t"
    then have kL: "k < LOGBLOCKS" using wfD(4) by simp
    note r = rest_log [OF conjunct1 [OF conjunct2 [OF I]]]
    have at: "lab t = writes (take k ?ws) (lab s)" using I by blast
    have tb: "tail_blk t k = tail_blk s k" using r by (simp add: tail_blk_def)
    have notin: "logged s ! k \<notin> log_area (log_start s)" using wfD(6) k nth_mem by blast
    have bk: "lh_block (log_lh t) ! k = logged s ! k" using wfD(7) k r by simp
    have v: "a_view (lab t) (logged s ! k) = a_view (lab s) (logged s ! k)"
      unfolding at using notin fst_log_writes [OF wf] by (simp, intro take_writes_fst) blast
    have step: "writes (take (Suc k) ?ws) (lab s) = copied (logged s ! k) (tail_blk s k) (lab t)"
      unfolding copied_writes v using k by (simp add: take_Suc_conv_app_nth writes_append at) (simp add: log_writes_def)
    show "wp (bindk (gets (\<lambda>s. (log_dev s, tail_blk s k))) (\<lambda>(dev, lb).
       bindk (bread dev lb) (\<lambda>to_buf.
       bindk (lh_get k) (\<lambda>db.
       bindk (bread dev db) (\<lambda>from_buf.
       thenk (modk (\<lambda>s. set_data to_buf (\<lambda>_. get_data from_buf s) s))
       (thenk (bwrite to_buf)
       (thenk (brelse from_buf)
       (brelse to_buf)))))))) t (\<lambda>_ u. ?I (Suc k) u)"
      unfolding bread_lh_get [OF kL] wp_bindk wp_thenk wp_gets prod.case wp_lh_get [OF kL]
    proof (rule bc.copy_to_wp)
      show "cache_inv (log_dev t) t" using I by blast
      show "a_held (lab t) (lh_block (log_lh t) ! k) = None" "a_held (lab t) (tail_blk t k) = None"
        "in_use (lab t) < NBUF" "lh_block (log_lh t) ! k \<in> a_pins (lab t)"
        using pins k h room by (auto simp: bk at)
      show "lh_block (log_lh t) ! k \<noteq> tail_blk t k" using notin tail_blk_in [OF kL, of s] by (auto simp: bk tb)
      fix u
      assume "cache_inv (log_dev t) u" "rest u = rest t"
        "abs_cache (log_dev t) u = copied (lh_block (log_lh t) ! k) (tail_blk t k) (lab t)"
      then show "?I (Suc k) u" using I step rest_log(2) [of u t] by (simp add: bk tb)
    qed
  qed
qed

lemma in_use_mono:
  assumes "finite (a_pins d)" and "a_held c = Map.empty" and "a_held d = Map.empty" and "a_pins c \<subseteq> a_pins d"
  shows "in_use c \<le> in_use d"
  using assms by (simp add: in_use_def card_mono)

lemma pins_cong [simp]: "c\<lparr>a_pins := a_pins c\<rparr> = c"
  by simp

lemma install_trans_spec:
  fixes rec :: bool
  defines "drop_pins \<equiv> \<lambda>P B. if rec then P else P - B"
  assumes wf: "log_wf s" and pins: "\<not> rec \<Longrightarrow> set (logged s) \<subseteq> a_pins (lab s)"
    and h: "a_held (lab s) = Map.empty" and room: "in_use (lab s) < NBUF" "rec \<Longrightarrow> Suc (in_use (lab s)) < NBUF"
  shows "wp (install_trans rec) s (\<lambda>_ t. cache_inv (log_dev t) t \<and> rest t = rest s
    \<and> lab t = (writes (home_writes s) (lab s))\<lparr>a_pins := drop_pins (a_pins (lab s)) (set (logged s))\<rparr>)"
proof -
  let ?ws = "home_writes s"
  let ?I = "\<lambda>k t. cache_inv (log_dev t) t \<and> rest t = rest s
    \<and> lab t = (writes (take k ?ws) (lab s))\<lparr>a_pins := drop_pins (a_pins (lab s)) (set (take k (logged s)))\<rparr>"
  note wfD = log_wfD [OF wf]
  show ?thesis
    unfolding install_trans_def wp_bindk wp_gets wfD(3) nat_int
  proof (rule wp_for_range [where I = ?I])
    show "?I 0 s" using wfD(1) by (simp add: drop_pins_def)
    show "?I (length (logged s)) t \<Longrightarrow> cache_inv (log_dev t) t \<and> rest t = rest s
      \<and> lab t = (writes (home_writes s) (lab s))\<lparr>a_pins := drop_pins (a_pins (lab s)) (set (logged s))\<rparr>" for t
      by simp
    fix k t
    assume k: "k < length (logged s)" and I: "?I k t"
    then have kL: "k < LOGBLOCKS" using wfD(4) by simp
    note r = rest_log [OF conjunct1 [OF conjunct2 [OF I]]]
    have at: "lab t = (writes (take k ?ws) (lab s))\<lparr>a_pins := drop_pins (a_pins (lab s)) (set (take k (logged s)))\<rparr>"
      using I by blast
    have tb: "tail_blk t k = tail_blk s k" using r by (simp add: tail_blk_def)
    have notin: "logged s ! k \<notin> log_area (log_start s)" using wfD(6) k nth_mem by blast
    have bk: "lh_block (log_lh t) ! k = logged s ! k" using wfD(7) k r by simp
    have v: "a_view (lab t) (tail_blk s k) = a_view (lab s) (tail_blk s k)"
      unfolding at using tail_blk_in [OF kL, of s] wfD(6) by (simp, intro take_writes_fst) (auto simp: fst_home_writes)
    have "in_use (lab t) \<le> in_use (lab s)"
      using bc.finite_pins [OF wfD(1)] h by (intro in_use_mono) (auto simp: at drop_pins_def)
    then have room': "in_use (lab t) < NBUF" "rec \<Longrightarrow> Suc (in_use (lab t)) < NBUF" using room by auto
    have fresh: "logged s ! k \<notin> set (take k (logged s))"
      using wfD(5) k by (auto simp: in_set_conv_nth nth_eq_iff_index_eq)
    have pk: "\<not> rec \<Longrightarrow> logged s ! k \<in> a_pins (lab t)"
      using pins k fresh by (auto simp: at drop_pins_def)
    have tw: "take (Suc k) ?ws = take k ?ws @ [(logged s ! k, a_view (lab s) (tail_blk s k))]"
      using k by (simp add: take_Suc_conv_app_nth) (simp add: home_writes_def)
    have tl: "set (take (Suc k) (logged s)) = insert (logged s ! k) (set (take k (logged s)))"
      using k by (simp add: take_Suc_conv_app_nth)
    have step: "(writes (take (Suc k) ?ws) (lab s))\<lparr>a_pins := drop_pins (a_pins (lab s)) (set (take (Suc k) (logged s)))\<rparr>
        = (copied (tail_blk s k) (logged s ! k) (lab t))
           \<lparr>a_pins := (if \<not> rec then a_pins (lab t) - {logged s ! k} else a_pins (lab t))\<rparr>"
      unfolding copied_writes v tw tl unfolding at
      by (cases rec) (simp_all add: writes_def drop_pins_def Diff_insert [symmetric])
    show "wp (bindk (gets (\<lambda>s. (log_dev s, tail_blk s k))) (\<lambda>(dev, lb).
       bindk (bread dev lb) (\<lambda>lbuf.
       bindk (lh_get k) (\<lambda>db.
       bindk (bread dev db) (\<lambda>dbuf.
       thenk (modk (\<lambda>s. set_data dbuf (\<lambda>_. get_data lbuf s) s))
       (thenk (bwrite dbuf)
       (thenk (whenk (\<not> rec) (bunpin dbuf))
       (thenk (brelse lbuf)
       (brelse dbuf))))))))) t (\<lambda>_ u. ?I (Suc k) u)"
      unfolding bread_lh_get [OF kL] wp_bindk wp_thenk wp_gets prod.case wp_lh_get [OF kL] bk tb
    proof (rule bc.copy_from_wp)
      show "cache_inv (log_dev t) t" using I by blast
      show "a_held (lab t) (logged s ! k) = None" "a_held (lab t) (tail_blk s k) = None"
        "in_use (lab t) < NBUF" "logged s ! k \<in> a_pins (lab t) \<or> Suc (in_use (lab t)) < NBUF"
        using h room' pk by (auto simp: at)
      show "tail_blk s k \<noteq> logged s ! k" using notin tail_blk_in [OF kL, of s] by auto
      show "\<not> rec \<Longrightarrow> logged s ! k \<in> a_pins (lab t)" by (rule pk)
      fix u
      assume "cache_inv (log_dev t) u" "rest u = rest t"
        "abs_cache (log_dev t) u = (copied (tail_blk s k) (logged s ! k) (lab t))
           \<lparr>a_pins := (if \<not> rec then a_pins (lab t) - {logged s ! k} else a_pins (lab t))\<rparr>"
      then show "?I (Suc k) u" using I step rest_log(2) [of u t] by simp
    qed
  qed
qed

subsection \<open>The header block\<close>

definition put_head :: "int \<Rightarrow> u32 list \<Rightarrow> block \<Rightarrow> nat \<Rightarrow> block" where
  "put_head n bs d k = fold (\<lambda>i. put_rec enc32 4 (Suc i) (bs ! i)) [0..<k] (put_rec enc32 4 0 (of_int n) d)"

lemma put_head_simps:
  "put_head n bs d 0 = put_rec enc32 4 0 (of_int n) d"
  "put_head n bs d (Suc k) = put_rec enc32 4 (Suc k) (bs ! k) (put_head n bs d k)"
  by (simp_all add: put_head_def)

lemma head_slot_fits: "k \<le> LOGBLOCKS \<Longrightarrow> Suc k * 4 \<le> BSIZE"
  by (simp add: LOGBLOCKS_def MAXOPBLOCKS_def BSIZE_def)

lemma length_put_head: "length d = BSIZE \<Longrightarrow> k \<le> LOGBLOCKS \<Longrightarrow> length (put_head n bs d k) = BSIZE"
proof (induction k)
  case (Suc k)
  then show ?case using head_slot_fits [of "Suc k"] by (simp add: put_head_simps c32.length_put)
qed (simp add: put_head_simps c32.length_put BSIZE_def)

lemma get_put_head:
  assumes "length d = BSIZE" and "k \<le> LOGBLOCKS" and "i \<le> k"
  shows "get_rec dec32 4 i (put_head n bs d k) = (case i of 0 \<Rightarrow> of_int n | Suc j \<Rightarrow> bs ! j)"
  using assms(2,3)
proof (induction k)
  case 0
  then show ?case using assms(1) by (simp add: put_head_simps c32.get_put BSIZE_def)
next
  case (Suc k)
  then show ?case
    using head_slot_fits [of "Suc k"] head_slot_fits [of i] length_put_head [OF assms(1), of k n bs]
    by (auto simp: put_head_simps c32.get_put le_Suc_eq split: nat.split)
qed

definition head_blk :: "'a log_state_scheme \<Rightarrow> block \<Rightarrow> block" where
  "head_blk s d = put_head (lh_n (log_lh s)) (lh_block (log_lh s)) d (nat (lh_n (log_lh s)))"

lemma head_blk_slots:
  assumes "log_wf s" and "length d = BSIZE"
  shows "length (head_blk s d) = BSIZE"
    and "get_rec dec32 4 0 (head_blk s d) = of_nat (length (logged s))"
    and "i < length (logged s) \<Longrightarrow> get_rec dec32 4 (Suc i) (head_blk s d) = logged s ! i"
  using length_put_head [OF assms(2), of "length (logged s)"] get_put_head [OF assms(2), of "length (logged s)"]
    log_wfD(3,4,7) [OF assms(1)]
  by (simp_all add: head_blk_def)

lemma write_head_spec:
  assumes inv: "cache_inv (log_dev s) s" and n: "lh_n (log_lh s) \<le> int LOGBLOCKS"
    and h: "a_held (lab s) (log_start s) = None" and np: "log_start s \<notin> a_pins (lab s)"
    and room: "in_use (lab s) < NBUF"
  shows "wp write_head s (\<lambda>_ t. cache_inv (log_dev t) t \<and> rest t = rest s
     \<and> lab t = writes [(log_start s, head_blk s (a_view (lab s) (log_start s)))] (lab s))"
proof -
  let ?d = "log_dev s" and ?b = "log_start s"
  let ?n = "lh_n (log_lh s)" and ?bs = "lh_block (log_lh s)"
  let ?hd = "put_head ?n ?bs (a_view (lab s) ?b)"
  have len: "length (a_view (lab s) ?b) = BSIZE" using bc.view_length [OF inv] .
  have lenk: "length (?hd k) = BSIZE" if "k \<le> nat ?n" for k
    using length_put_head [OF len] that n by simp
  obtain i s1 where 1: "bread ?d ?b s = Inr (i, s1)" "cache_inv ?d s1" "rest s1 = rest s"
    and a1: "abs_cache ?d s1 = (lab s)\<lparr>a_held := (a_held (lab s))(?b \<mapsto> i)\<rparr>"
    using bc.br_law [OF inv h] room by (auto simp: wp_def)
  let ?I = "\<lambda>k t. cache_inv ?d t \<and> rest t = rest s
    \<and> abs_cache ?d t = (abs_cache ?d s1)\<lparr>a_view := (a_view (lab s))(?b := ?hd k)\<rparr>"
  have loop: "wp (for_each [0..<nat ?n] (\<lambda>j. bindk (lh_get j) (\<lambda>b. modk (set_data i (put_rec enc32 4 (Suc j) b)))))
      (set_data i (put_rec enc32 4 0 (of_int ?n)) s1) (\<lambda>_ t. ?I (nat ?n) t)"
  proof (rule wp_for_range [where I = ?I])
    show "?I 0 (set_data i (put_rec enc32 4 0 (of_int ?n)) s1)"
      using bc.setd_law [OF 1(2), of ?b i "put_rec enc32 4 0 (of_int ?n)"] lenk [of 0] 1(3)
      by (simp add: a1 put_head_simps)
  next
    fix k t
    assume k: "k < nat ?n" and I: "?I k t"
    have lt: "log_lh t = log_lh s" using I rest_log(3) [of t s] by simp
    have "?I (Suc k) (set_data i (put_rec enc32 4 (Suc k) (?bs ! k)) t)"
      using bc.setd_law [of ?d t ?b i "put_rec enc32 4 (Suc k) (?bs ! k)"] lenk [of "Suc k"] k I
      by (simp add: a1 put_head_simps)
    then show "wp (bindk (lh_get k) (\<lambda>b. modk (set_data i (put_rec enc32 4 (Suc k) b)))) t (\<lambda>_ u. ?I (Suc k) u)"
      using k n by (simp add: lt del: fun_upd_apply) (simp only: lt)
  qed
  then obtain s2 where 2: "for_each [0..<nat ?n] (\<lambda>j. bindk (lh_get j) (\<lambda>b. modk (set_data i (put_rec enc32 4 (Suc j) b))))
      (set_data i (put_rec enc32 4 0 (of_int ?n)) s1) = Inr ((), s2)" and I2: "?I (nat ?n) s2"
    by (auto simp: wp_def)
  obtain s3 where 3: "bwrite i s2 = Inr ((), s3)" "cache_inv ?d s3" "rest s3 = rest s"
    and a3: "abs_cache ?d s3 = (writes [(?b, ?hd (nat ?n))] (lab s))\<lparr>a_held := (a_held (lab s))(?b \<mapsto> i)\<rparr>"
    using bc.bwr_law [of ?d s2 ?b i] I2 a1 by (auto simp: wp_def writes_def)
  obtain s4 where 4: "brelse i s3 = Inr ((), s4)" "cache_inv ?d s4" "rest s4 = rest s"
    and a4: "abs_cache ?d s4 = writes [(?b, ?hd (nat ?n))] (lab s)"
    using bc.brel_law [OF 3(2), of ?b i] a3 3(3) h by (auto simp: wp_def writes_def fun_upd_idem)
  have "log_lh s1 = log_lh s" "log_dev s4 = ?d" using rest_log 1(3) 4(3) by blast+
  then show ?thesis
    using 1 2 3 4 a4 by (simp add: wp_def write_head_def bindk_def thenk_def gets_def modk_def head_blk_def)
qed

subsection \<open>The whole commit\<close>

lemma abs_cache_cong: "bufs t = bufs s \<Longrightarrow> disk t = disk s \<Longrightarrow> dtrace t = dtrace s \<Longrightarrow> abs_cache d t = abs_cache d s"
  by (simp add: abs_cache_def view_def fun_eq_iff split: option.split)

lemma cache_inv_cong: "bufs t = bufs s \<Longrightarrow> disk t = disk s \<Longrightarrow> cur_pid t = cur_pid s \<Longrightarrow> cache_inv d t = cache_inv d s"
  by (simp add: cache_inv_def bio_inv_def)

lemma upd_lh_abs [simp]: "abs_cache d (upd_lh f s) = abs_cache d s" "cache_inv d (upd_lh f s) = cache_inv d s"
  by (rule abs_cache_cong cache_inv_cong; simp add: upd_lh_def)+

lemma upd_lh_sel [simp]:
  "log_lh (upd_lh f s) = f (log_lh s)" "log_dev (upd_lh f s) = log_dev s" "log_start (upd_lh f s) = log_start s"
  "log_outstanding (upd_lh f s) = log_outstanding s" "log_committing (upd_lh f s) = log_committing s"
  "log_state.more (upd_lh f s) = log_state.more s" "cur_pid (upd_lh f s) = cur_pid s"
  "bufs (upd_lh f s) = bufs s"
  by (simp_all add: upd_lh_def)

lemma logged_cong: "log_lh t = log_lh s \<Longrightarrow> logged t = logged s"
  by (simp add: logged_def)

lemma tail_blk_cong: "log_start t = log_start s \<Longrightarrow> tail_blk t i = tail_blk s i"
  by (simp add: tail_blk_def)

lemma log_wf_rest:
  assumes "log_wf s" and "rest t = rest s" and "cache_inv (log_dev t) t"
  shows "log_wf t" and "logged t = logged s" and "tail_blk t i = tail_blk s i"
  using assms rest_log [OF assms(2)] logged_cong [of t s] tail_blk_cong [of t s] by (simp_all add: log_wf_def)

definition commit_writes :: "'a log_state_scheme \<Rightarrow> (u32 \<times> block) list" where
  "commit_writes s =
     (let h = head_blk s (a_view (lab s) (log_start s))
      in log_writes s @ [(log_start s, h)]
         @ map (\<lambda>b. (b, a_view (lab s) b)) (logged s) @ [(log_start s, put_rec enc32 4 0 0 h)])"

lemma writes_pins: "(writes ws c)\<lparr>a_pins := P\<rparr> = writes ws (c\<lparr>a_pins := P\<rparr>)"
  by (simp add: writes_def)

lemma head_after_log_writes:
  assumes "log_wf s"
  shows "apply_writes (log_writes s) m (log_start s) = m (log_start s)"
  using fst_log_writes [OF assms] by (intro apply_writes_notin) blast

lemma tail_after_log_writes:
  assumes "log_wf s" and "i < length (logged s)"
  shows "apply_writes (log_writes s) m (tail_blk s i) = a_view (lab s) (logged s ! i)"
proof (rule apply_writes_in)
  have "inj_on (tail_blk s) {0..<length (logged s)}"
    using log_wfD(4) [OF assms(1)] by (intro inj_onI tail_blk_inj) auto
  then show "distinct (map fst (log_writes s))" by (simp add: log_writes_def comp_def distinct_map)
  show "(tail_blk s i, a_view (lab s) (logged s ! i)) \<in> set (log_writes s)"
    using assms(2) by (auto simp: log_writes_def)
qed

lemma commit_run:
  assumes inv: "log_inv s" and h: "a_held (lab s) = Map.empty" and n: "0 < length (logged s)" "length (logged s) < NBUF"
  shows "wp commit s (\<lambda>_ t. cache_inv (log_dev t) t \<and> rest t = rest (upd_lh (\<lambda>h. h\<lparr>lh_n := 0\<rparr>) s)
     \<and> lab t = (writes (commit_writes s) (lab s))\<lparr>a_pins := {}\<rparr>)"
proof -
  have wf: "log_wf s" and pins: "a_pins (lab s) = set (logged s)" using inv by (simp_all add: log_inv_def)
  note wfD = log_wfD [OF wf]
  have use: "in_use (lab s) = length (logged s)" using pins h wfD(5) by (simp add: in_use_def distinct_card)
  have st: "log_start s \<notin> set (logged s)" using wfD(6) by (auto simp: log_area_def)
  let ?h = "head_blk s (a_view (lab s) (log_start s))"
  let ?hw = "map (\<lambda>b. (b, a_view (lab s) b)) (logged s)"
  let ?a2 = "writes (log_writes s @ [(log_start s, ?h)]) (lab s)"
  obtain s1 where 1: "write_log s = Inr ((), s1)" "cache_inv (log_dev s1) s1" "rest s1 = rest s"
    and a1: "lab s1 = writes (log_writes s) (lab s)"
    using write_log_spec [OF wf _ h] pins n(2) use by (auto simp: wp_def)
  note r1 = rest_log [OF 1(3)] and w1 = log_wf_rest [OF wf 1(3,2)]
  note b1 = a1 [unfolded r1(2)]
  have "head_blk s1 (a_view (lab s1) (log_start s1)) = ?h"
    using r1 by (simp add: head_blk_def b1 head_after_log_writes [OF wf])
  then obtain s2 where 2: "write_head s1 = Inr ((), s2)" "cache_inv (log_dev s2) s2" "rest s2 = rest s" and a2: "lab s2 = ?a2"
    using write_head_spec [OF 1(2)] h n(2) use pins st 1(3) r1 wfD(3,4) by (auto simp: wp_def b1 writes_append)
  note r2 = rest_log [OF 2(3)] and w2 = log_wf_rest [OF wf 2(3,2)]
  note b2 = a2 [unfolded r2(2)]
  have hw: "home_writes s2 = ?hw"
  proof (rule nth_equalityI)
    fix i
    assume "i < length (home_writes s2)"
    then have i: "i < length (logged s)" by (simp add: w2)
    then have "tail_blk s i \<noteq> log_start s" using wfD(4) by (intro tail_blk_start) simp
    with i show "home_writes s2 ! i = ?hw ! i"
      by (simp add: home_writes_def w2 a2 tail_after_log_writes [OF wf])
  qed (simp add: w2)
  obtain s3 where 3: "install_trans False s2 = Inr ((), s3)" "cache_inv (log_dev s3) s3" "rest s3 = rest s"
    and a3: "lab s3 = (writes ?hw ?a2)\<lparr>a_pins := {}\<rparr>"
    using install_trans_spec [OF w2(1), of False] h n(2) use pins 2(3) by (auto simp: wp_def w2(2) a2 hw)
  note r3 = rest_log [OF 3(3)]
  note b3 = a3 [unfolded r3(2)]
  define s4 where "s4 = upd_lh (\<lambda>h. h\<lparr>lh_n := 0\<rparr>) s3"
  have r4: "rest s4 = rest (upd_lh (\<lambda>h. h\<lparr>lh_n := 0\<rparr>) s)"
    using 3(3) by (cases s; cases s3) (simp add: s4_def upd_lh_def rest_def)
  have v4: "a_view (lab s4) (log_start s4) = ?h"
    using r3 st by (simp add: s4_def b3) (subst apply_writes_notin, auto simp: image_iff)
  have "head_blk s4 ?h = put_rec enc32 4 0 0 ?h" by (simp add: head_blk_def s4_def put_head_simps)
  then obtain s5 where 5: "write_head s4 = Inr ((), s5)" "cache_inv (log_dev s5) s5" "rest s5 = rest s4"
    and a5: "lab s5 = writes [(log_start s, put_rec enc32 4 0 0 ?h)] (lab s3)"
    using write_head_spec [of s4] 3(2) h r3 v4 by (auto simp: wp_def s4_def b3 in_use_def NBUF_def MAXOPBLOCKS_def)
  have "lab s5 = (writes (commit_writes s) (lab s))\<lparr>a_pins := {}\<rparr>"
    unfolding a5 a3 commit_writes_def Let_def by (simp add: writes_def)
  moreover have "commit s = Inr ((), s5)"
    using n(1) 1 2 3 5 by (simp add: commit_def bindk_def thenk_def gets_def modk_def whenk_def wfD(3) flip: s4_def)
  ultimately show ?thesis using 5 r4 by (simp add: wp_def)
qed

definition clear_lh :: "'a log_state_scheme \<Rightarrow> 'a log_state_scheme" where
  "clear_lh s = upd_lh (\<lambda>h. h\<lparr>lh_n := 0\<rparr>) s"

lemma logged_none: "lh_n (log_lh s) = 0 \<Longrightarrow> logged s = []"
  by (simp add: logged_def)

lemma commit_spec:
  assumes inv: "log_inv s" and h: "a_held (lab s) = Map.empty" and n: "length (logged s) < NBUF"
  shows "wp commit s (\<lambda>_ t. log_inv t \<and> rest t = rest (clear_lh s) \<and> logged t = []
     \<and> (logged s \<noteq> [] \<longrightarrow> lab t = (writes (commit_writes s) (lab s))\<lparr>a_pins := {}\<rparr>)
     \<and> (logged s = [] \<longrightarrow> t = s))"
proof (cases "logged s = []")
  case True
  then have 0: "lh_n (log_lh s) = 0" using log_wfD(3) [OF log_invD(1) [OF inv]] by simp
  then have "upd_lh (\<lambda>h. h\<lparr>lh_n := 0\<rparr>) s = s" by (simp add: upd_lh_def)
  with 0 inv True show ?thesis by (simp add: commit_def clear_lh_def)
next
  case False
  note D = log_invD [OF inv]
  have c: "put_rec enc32 4 0 0 (head_blk s (a_view (lab s) (log_start s)))
      = apply_writes (commit_writes s) (a_disk (lab s)) (log_start s)"
    by (simp add: commit_writes_def Let_def)
  show ?thesis
  proof (rule wp_mono [OF commit_run [OF inv h _ n]])
    show "0 < length (logged s)" using False by simp
    fix x t
    assume "cache_inv (log_dev t) t \<and> rest t = rest (upd_lh (\<lambda>h. h\<lparr>lh_n := 0\<rparr>) s)
      \<and> lab t = (writes (commit_writes s) (lab s))\<lparr>a_pins := {}\<rparr>"
    then have t: "cache_inv (log_dev t) t" "rest t = rest (clear_lh s)"
      and a: "lab t = (writes (commit_writes s) (lab s))\<lparr>a_pins := {}\<rparr>" by (simp_all add: clear_lh_def)
    note r = rest_log [OF t(2), unfolded clear_lh_def upd_lh_sel]
    have l: "logged t = []" using r by (simp add: logged_def)
    have "get_rec dec32 4 0 (a_disk (lab t) (log_start t)) = 0"
      using head_blk_slots(1) [OF D(1) D(5)] r unfolding a
      by (simp add: c [symmetric] c32.get_put BSIZE_def)
    then have "log_inv t"
      using D(1) t(1) l h a r by (simp add: log_inv_def log_wf_def)
    with t l a False show "log_inv t \<and> rest t = rest (clear_lh s) \<and> logged t = []
     \<and> (logged s \<noteq> [] \<longrightarrow> lab t = (writes (commit_writes s) (lab s))\<lparr>a_pins := {}\<rparr>)
     \<and> (logged s = [] \<longrightarrow> t = s)" by simp
  qed
qed

section \<open>Transactions\<close>

text \<open>What the code above the log keeps of the state.\<close>

record 'x log_rest =
  lr_pid :: int
  lr_start :: u32
  lr_dev :: u32
  lr_outstanding :: int
  lr_committing :: bool
  lr_more :: 'x

definition lrest :: "'a log_state_scheme \<Rightarrow> 'a log_rest" where
  "lrest s = \<lparr>lr_pid = cur_pid s, lr_start = log_start s, lr_dev = log_dev s,
     lr_outstanding = log_outstanding s, lr_committing = log_committing s, lr_more = log_state.more s\<rparr>"

lemma lrest_rest: "rest t = rest s \<Longrightarrow> lrest t = lrest s"
  using rest_log [of t s] by (simp add: lrest_def)

lemma lrest_upd_lh [simp]: "lrest (upd_lh f s) = lrest s"
  by (simp add: lrest_def)

lemma lrestD:
  assumes "lrest t = lrest s"
  shows "cur_pid t = cur_pid s" "log_start t = log_start s" "log_dev t = log_dev s"
    "log_outstanding t = log_outstanding s" "log_committing t = log_committing s" "log_state.more t = log_state.more s"
  using assms by (simp_all add: lrest_def)

lemma log_write_spec:
  assumes inv: "log_inv s" and h: "a_held (lab s) bn = Some b" and out: "1 \<le> log_outstanding s"
    and n: "length (logged s) < LOGBLOCKS" and home: "bn \<notin> log_area (log_start s)"
  shows "wp (log_write b) s (\<lambda>_ t. log_inv t \<and> lrest t = lrest s
     \<and> logged t = (if bn \<in> set (logged s) then logged s else logged s @ [bn])
     \<and> lab t = (lab s)\<lparr>a_pins := insert bn (a_pins (lab s))\<rparr>)"
proof -
  note D = log_invD [OF inv] and wfD = log_wfD [OF log_invD(1) [OF inv]]
  have bn: "b_blockno (bufs s ! b) = bn" using held_facts(3) [OF wfD(1) h] .
  let ?scan = "scan_first (\<lambda>x. x = bn) (logged s)"
  have blks: "take (length (logged s)) (lh_block (log_lh s)) = logged s"
    using wfD(2) by (metis logged_def)
  show ?thesis
  proof (cases ?scan)
    case (Some i)
    then have i: "i < length (logged s)" "logged s ! i = bn" by (auto dest: scan_first_SomeD)
    then have mem: "bn \<in> set (logged s)" using nth_mem by blast
    have "(lh_block (log_lh s))[i := bn] = lh_block (log_lh s)"
      using i wfD(7) by (metis list_update_id)
    then have "upd_lh (\<lambda>h. h\<lparr>lh_block := (lh_block h)[i := bn]\<rparr>) s = s" by (simp add: upd_lh_def)
    then have "log_write b s = Inr ((), s)"
      using n out i bn Some
      by (simp add: log_write_def bindk_def thenk_def gets_def whenk_def ret_def wfD(3) blks lh_set_def modk_def)
    with inv mem D(2) show ?thesis by (simp add: wp_def insert_absorb)
  next
    case None
    then have nm: "bn \<notin> set (logged s)" by auto
    define s1 where "s1 = upd_lh (\<lambda>h. h\<lparr>lh_block := (lh_block h)[length (logged s) := bn]\<rparr>) s"
    have s1: "cache_inv (log_dev s) s1" "abs_cache (log_dev s) s1 = lab s" "lrest s1 = lrest s"
      using wfD(1) by (simp_all add: s1_def)
    obtain s2 where 2: "bpin b s1 = Inr ((), s2)" "cache_inv (log_dev s) s2" "rest s2 = rest s1"
      and a2: "abs_cache (log_dev s) s2 = (lab s)\<lparr>a_pins := insert bn (a_pins (lab s))\<rparr>"
      using bc.pin_law [OF s1(1), of bn b] s1(2) h nm D(2) by (auto simp: wp_def)
    define t where "t = upd_lh (\<lambda>h. h\<lparr>lh_n := lh_n h + 1\<rparr>) s2"
    have lt: "lrest t = lrest s" using lrest_rest [OF 2(3)] s1(3) by (simp add: t_def)
    have ht: "log_lh t = \<lparr>lh_n = int (length (logged s)) + 1, lh_block = (lh_block (log_lh s))[length (logged s) := bn]\<rparr>"
      using rest_log(3) [OF 2(3)] by (simp add: t_def s1_def wfD(3))
    have lb: "length (lh_block (log_lh s)) = LOGBLOCKS" using D(1) by (simp add: log_wf_def)
    have lg: "logged t = logged s @ [bn]"
      using n lb blks by (simp add: logged_def [of t] ht nat_add_distrib take_Suc_conv_app_nth)
    have at: "abs_cache (log_dev s) t = (lab s)\<lparr>a_pins := insert bn (a_pins (lab s))\<rparr>" by (simp add: t_def a2)
    have "log_write b s = Inr ((), t)"
      using n out bn None 2(1) unfolding t_def s1_def
      by (simp add: log_write_def bindk_def thenk_def gets_def whenk_def ret_def wfD(3) blks lh_set_def modk_def
          del: scan_first_None)
    moreover have "log_inv t"
      using inv wfD(5,6) D(2) nm home n lb 2(2) lrestD [OF lt]
      by (auto simp: log_inv_def log_wf_def lg ht at) (simp_all add: t_def)
    ultimately show ?thesis using lt lg nm at lrestD(3) [OF lt] by (simp add: wp_def)
  qed
qed

end
