(* ===== verification/Log_Crash.thy ===== *)
theory Log_Crash
  imports Log
begin

text \<open>
  Crash recovery. \<open>recovered\<close> is the effect of \<^verbatim>\<open>recover_from_log\<close> as a function of the disk
  contents alone; the code is proved to compute it. A crash during a commit leaves the disk with
  a prefix of the writes of that commit; recovery then yields either all or none of the
  transaction, and a crash during recovery does not change its outcome.
\<close>

section \<open>Recovery as a function of the disk\<close>

definition disk_logged :: "u32 \<Rightarrow> (u32 \<Rightarrow> block) \<Rightarrow> u32 list" where
  "disk_logged start dk =
     map (\<lambda>i. get_rec dec32 4 (Suc i) (dk start)) [0..<nat (sint (get_rec dec32 4 0 (dk start)))]"

definition recover_writes :: "u32 \<Rightarrow> (u32 \<Rightarrow> block) \<Rightarrow> (u32 \<times> block) list" where
  "recover_writes start dk =
     map (\<lambda>i. (disk_logged start dk ! i, dk (start + of_nat i + 1))) [0..<length (disk_logged start dk)]
     @ [(start, put_rec enc32 4 0 0 (dk start))]"

definition recovered :: "u32 \<Rightarrow> (u32 \<Rightarrow> block) \<Rightarrow> u32 \<Rightarrow> block" where
  "recovered start dk = apply_writes (recover_writes start dk) dk"

text \<open>A header that a commit can have written: distinct home blocks outside the log.\<close>

definition disk_log_ok :: "u32 \<Rightarrow> (u32 \<Rightarrow> block) \<Rightarrow> bool" where
  "disk_log_ok start dk \<longleftrightarrow> 0 \<le> sint (get_rec dec32 4 0 (dk start)) \<and> length (disk_logged start dk) \<le> LOGBLOCKS
     \<and> distinct (disk_logged start dk) \<and> set (disk_logged start dk) \<inter> log_area start = {}"

lemma read_head_spec:
  assumes inv: "cache_inv (log_dev s) s" and h: "a_held (lab s) (log_start s) = None"
    and room: "in_use (lab s) < NBUF" and len: "length (lh_block (log_lh s)) = LOGBLOCKS"
    and ok: "disk_log_ok (log_start s) (a_view (lab s))"
  shows "wp read_head s (\<lambda>_ t. cache_inv (log_dev s) t \<and> abs_cache (log_dev s) t = lab s
    \<and> (\<exists>h. rest t = rest (upd_lh (\<lambda>_. h) s) \<and> length (lh_block h) = LOGBLOCKS
         \<and> lh_n h = int (length (disk_logged (log_start s) (a_view (lab s))))
         \<and> take (nat (lh_n h)) (lh_block h) = disk_logged (log_start s) (a_view (lab s))))"
proof -
  let ?d = "log_dev s" and ?b = "log_start s"
  let ?x = "a_view (lab s) ?b"
  let ?n = "sint (get_rec dec32 4 0 ?x)"
  have n: "nat ?n \<le> LOGBLOCKS" using ok by (simp add: disk_log_ok_def disk_logged_def)
  obtain i s1 where 1: "bread ?d ?b s = Inr (i, s1)" "cache_inv ?d s1" "rest s1 = rest s"
    and a1: "abs_cache ?d s1 = (lab s)\<lparr>a_held := (a_held (lab s))(?b \<mapsto> i)\<rparr>"
    using bc.br_law [OF inv h] room by (auto simp: wp_def)
  have g: "get_data i s1 = ?x" using bc.getd_law [OF 1(2), of ?b i] a1 by simp
  define s2 where "s2 = upd_lh (\<lambda>h. h\<lparr>lh_n := ?n\<rparr>) s1"
  let ?I = "\<lambda>k t. \<exists>h. t = upd_lh (\<lambda>_. h) s1 \<and> lh_n h = ?n \<and> length (lh_block h) = LOGBLOCKS
     \<and> (\<forall>j < k. lh_block h ! j = get_rec dec32 4 (Suc j) ?x)"
  have "wp (for_each [0..<nat ?n] (\<lambda>j. lh_set j (get_rec dec32 4 (Suc j) ?x))) s2 (\<lambda>_ t. ?I (nat ?n) t)"
  proof (rule wp_for_range [where I = ?I])
    have "s2 = upd_lh (\<lambda>_. (log_lh s1)\<lparr>lh_n := ?n\<rparr>) s1" by (simp add: s2_def upd_lh_def)
    moreover have "log_lh s1 = log_lh s" using 1(3) by (rule rest_log)
    ultimately show "?I 0 s2" using len by (intro exI [of _ "(log_lh s1)\<lparr>lh_n := ?n\<rparr>"]) simp
  next
    fix k t
    assume k: "k < nat ?n" and "?I k t"
    then obtain h where hh: "t = upd_lh (\<lambda>_. h) s1" "lh_n h = ?n" "length (lh_block h) = LOGBLOCKS"
      "\<forall>j < k. lh_block h ! j = get_rec dec32 4 (Suc j) ?x" by blast
    then show "wp (lh_set k (get_rec dec32 4 (Suc k) ?x)) t (\<lambda>_ u. ?I (Suc k) u)"
      using k n by (intro wpI exI [of _ "h\<lparr>lh_block := (lh_block h)[k := get_rec dec32 4 (Suc k) ?x]\<rparr>"])
        (auto simp: lh_set_def modk_def upd_lh_def nth_list_update less_Suc_eq)
  qed
  then obtain h' s3 where 3: "for_each [0..<nat ?n] (\<lambda>j. lh_set j (get_rec dec32 4 (Suc j) ?x)) s2 = Inr ((), s3)"
    and s3: "s3 = upd_lh (\<lambda>_. h') s1" and h': "lh_n h' = ?n" "length (lh_block h') = LOGBLOCKS"
      "\<forall>j < nat ?n. lh_block h' ! j = get_rec dec32 4 (Suc j) ?x"
    by (auto simp: wp_def)
  have clean: "?b \<in> a_pins (lab s) \<or> a_view (lab s) ?b = a_disk (lab s) ?b"
    using bc.clean_law [OF inv _ h] by blast
  obtain s4 where 4: "brelse i s3 = Inr ((), s4)" "cache_inv ?d s4" "rest s4 = rest s3" and a4: "abs_cache ?d s4 = lab s"
    using bc.brel_law [of ?d s3 ?b i] 1(2) a1 clean h s3 by (auto simp: wp_def fun_upd_idem)
  have r: "rest s4 = rest (upd_lh (\<lambda>_. h') s)"
    using 4(3) 1(3) unfolding s3 by (cases s; cases s1) (simp add: upd_lh_def rest_def)
  have tk: "take (nat ?n) (lh_block h') = disk_logged ?b (a_view (lab s))"
    using h' n by (intro nth_equalityI) (simp_all add: disk_logged_def)
  have ln: "?n = int (length (disk_logged ?b (a_view (lab s))))" using ok by (simp add: disk_logged_def disk_log_ok_def)
  have "read_head s = Inr ((), s4)"
    using 1(1) 3 4(1) by (simp add: read_head_def bindk_def thenk_def gets_def modk_def g s2_def)
  then show ?thesis
    using 4(2) a4 r tk ln h' by (auto simp: wp_def intro!: exI [of _ h'])
qed

lemma clean_view:
  assumes "cache_inv d s" and "a_pins (abs_cache d s) = {}" and "a_held (abs_cache d s) = Map.empty"
  shows "a_view (abs_cache d s) = a_disk (abs_cache d s)"
  using bc.clean_law [OF assms(1)] assms(2,3) by (intro ext) simp

lemma recover_run:
  assumes inv: "cache_inv (log_dev s) s" and p: "a_pins (lab s) = {}" and h: "a_held (lab s) = Map.empty"
    and len: "length (lh_block (log_lh s)) = LOGBLOCKS" and ok: "disk_log_ok (log_start s) (a_disk (lab s))"
  shows "wp recover_from_log s (\<lambda>_ t. cache_inv (log_dev s) t
    \<and> abs_cache (log_dev s) t = writes (recover_writes (log_start s) (a_disk (lab s))) (lab s)
    \<and> (\<exists>h. rest t = rest (upd_lh (\<lambda>_. h) s) \<and> length (lh_block h) = LOGBLOCKS \<and> lh_n h = 0))"
proof -
  let ?d = "log_dev s" and ?b = "log_start s" and ?dk = "a_disk (lab s)"
  let ?hw = "map (\<lambda>i. (disk_logged ?b ?dk ! i, ?dk (?b + of_nat i + 1))) [0..<length (disk_logged ?b ?dk)]"
  have v: "a_view (lab s) = ?dk" using inv p h by (rule clean_view)
  have use: "in_use (lab s) = 0" using p h by (simp add: in_use_def)
  have room: "Suc (in_use (lab s)) < NBUF" by (simp add: use NBUF_def MAXOPBLOCKS_def)
  obtain s1 g where 1: "read_head s = Inr ((), s1)" "cache_inv ?d s1" "abs_cache ?d s1 = lab s"
    and r1: "rest s1 = rest (upd_lh (\<lambda>_. g) s)" and g: "length (lh_block g) = LOGBLOCKS"
      "lh_n g = int (length (disk_logged ?b ?dk))" "take (nat (lh_n g)) (lh_block g) = disk_logged ?b ?dk"
    using read_head_spec [OF inv _ _ len] ok h room by (auto simp: wp_def v)
  have f1: "log_dev s1 = ?d" "log_start s1 = ?b" "log_lh s1 = g" using rest_log [OF r1] by simp_all
  have wf1: "log_wf s1" and lg: "logged s1 = disk_logged ?b ?dk"
    using ok 1(2) g by (simp_all add: log_wf_def f1 logged_def disk_log_ok_def)
  have hw: "home_writes s1 = ?hw"
    by (simp add: home_writes_def lg f1 1(3) v tail_blk_def)
  obtain s2 where 2: "install_trans True s1 = Inr ((), s2)" "cache_inv (log_dev s2) s2" "rest s2 = rest s1"
    and a2: "lab s2 = writes ?hw (lab s)"
    using install_trans_spec [OF wf1, of True] h room by (auto simp: wp_def f1 1(3) hw)
  have f2: "log_dev s2 = ?d" "log_start s2 = ?b" "log_lh s2 = g" using rest_log [OF 2(3)] f1 by simp_all
  note b2 = a2 [unfolded f2]
  define s3 where "s3 = upd_lh (\<lambda>h. h\<lparr>lh_n := 0\<rparr>) s2"
  have "?b \<notin> set (disk_logged ?b ?dk)" using ok by (auto simp: disk_log_ok_def log_area_def)
  moreover have "fst ` set ?hw \<subseteq> set (disk_logged ?b ?dk)" by auto
  ultimately have v3: "a_view (lab s3) ?b = ?dk ?b"
    by (simp add: s3_def f2 b2 v) (subst apply_writes_notin, auto)
  have hd3: "head_blk s3 (?dk ?b) = put_rec enc32 4 0 0 (?dk ?b)" by (simp add: head_blk_def s3_def put_head_simps)
  obtain s4 where 4: "write_head s3 = Inr ((), s4)" "cache_inv (log_dev s4) s4" "rest s4 = rest s3"
    and a4: "lab s4 = writes [(?b, put_rec enc32 4 0 0 (?dk ?b))] (lab s2)"
    using write_head_spec [of s3] 2(2) h p v3 hd3
    by (auto simp: wp_def s3_def f2 b2 use NBUF_def MAXOPBLOCKS_def)
  have f4: "log_dev s4 = ?d" using rest_log [OF 4(3)] f2 by (simp add: s3_def)
  have "abs_cache ?d s4 = writes (recover_writes ?b ?dk) (lab s)"
    using a4 unfolding f4 f2 b2 recover_writes_def by (simp add: writes_append)
  moreover have "rest s4 = rest (upd_lh (\<lambda>_. g\<lparr>lh_n := 0\<rparr>) s)"
    using 4(3) 2(3) r1 f2(3) unfolding s3_def by (cases s; cases s2; cases s1) (simp add: upd_lh_def rest_def)
  moreover have "recover_from_log s = Inr ((), s4)"
    using 1(1) 2(1) 4(1) by (simp add: recover_from_log_def bindk_def thenk_def modk_def flip: s3_def)
  ultimately show ?thesis using 4(2) f4 g(1) by (auto simp: wp_def intro!: exI [of _ "g\<lparr>lh_n := 0\<rparr>"])
qed

lemma apply_writes_length: "(\<And>b x. (b, x) \<in> set ws \<Longrightarrow> length x = n) \<Longrightarrow> (\<And>bn. length (m bn) = n) \<Longrightarrow> length (apply_writes ws m bn) = n"
proof (induction ws arbitrary: m)
  case (Cons w ws)
  obtain b x where w: "w = (b, x)" by (cases w)
  have "length (apply_writes ws (m(b := x)) bn) = n" by (rule Cons.IH) (use Cons.prems w in auto)
  with w show ?case by simp
qed simp

lemma recovered_head:
  assumes "length (dk start) = BSIZE"
  shows "get_rec dec32 4 0 (recovered start dk start) = 0"
  using assms by (simp add: recovered_def recover_writes_def c32.get_put BSIZE_def)

lemma initlog_spec:
  assumes inv: "cache_inv dev s" and p: "a_pins (abs_cache dev s) = {}" and h: "a_held (abs_cache dev s) = Map.empty"
    and len: "length (lh_block (log_lh s)) = LOGBLOCKS" and ok: "disk_log_ok (sb_logstart sb) (a_disk (abs_cache dev s))"
  shows "wp (initlog dev sb) s (\<lambda>_ t. log_inv t \<and> logged t = []
    \<and> lab t = writes (recover_writes (sb_logstart sb) (a_disk (abs_cache dev s))) (abs_cache dev s)
    \<and> a_view (lab t) = recovered (sb_logstart sb) (a_disk (abs_cache dev s))
    \<and> lrest t = (lrest s)\<lparr>lr_start := sb_logstart sb, lr_dev := dev\<rparr>)"
proof -
  define s1 where "s1 = s\<lparr>log_start := sb_logstart sb, log_dev := dev\<rparr>"
  have f: "log_start s1 = sb_logstart sb" "log_dev s1 = dev" "log_lh s1 = log_lh s" by (simp_all add: s1_def)
  have a: "abs_cache dev s1 = abs_cache dev s" "cache_inv dev s1 = cache_inv dev s"
    by (rule abs_cache_cong cache_inv_cong; simp add: s1_def)+
  let ?dk = "a_disk (abs_cache dev s)"
  obtain t g where t: "recover_from_log s1 = Inr ((), t)" "cache_inv dev t"
    and at: "abs_cache dev t = writes (recover_writes (sb_logstart sb) ?dk) (abs_cache dev s)"
    and g: "rest t = rest (upd_lh (\<lambda>_. g) s1)" "length (lh_block g) = LOGBLOCKS" "lh_n g = 0"
    using recover_run [of s1] inv p h len ok by (auto simp: wp_def f a)
  have ft: "log_dev t = dev" "log_start t = sb_logstart sb" "log_lh t = g" using rest_log [OF g(1)] f by simp_all
  have lt: "logged t = []" using ft g(3) by (simp add: logged_def)
  have v: "a_view (abs_cache dev s) = ?dk" using inv p h by (rule clean_view)
  have "length (?dk (sb_logstart sb)) = BSIZE" using bc.view_length [OF inv] v by metis
  then have "log_inv t"
    using t(2) g lt h p ft recovered_head [of ?dk] by (simp add: log_inv_def log_wf_def at recovered_def)
  moreover have "lrest t = (lrest s)\<lparr>lr_start := sb_logstart sb, lr_dev := dev\<rparr>"
    using lrest_rest [OF g(1)] by (simp add: s1_def) (simp add: lrest_def)
  moreover have "initlog dev sb s = Inr ((), t)"
    using t(1) by (simp add: initlog_def bindk_def thenk_def whenk_def ret_def modk_def s1_def
        BSIZE_def LOGBLOCKS_def MAXOPBLOCKS_def)
  ultimately show ?thesis using at v ft lt by (simp add: wp_def recovered_def)
qed

lemma recovered_empty:
  assumes "get_rec dec32 4 0 (dk start) = 0"
  shows "disk_log_ok start dk" and "bn \<noteq> start \<Longrightarrow> recovered start dk bn = dk bn"
  using assms by (simp_all add: disk_log_ok_def recovered_def recover_writes_def disk_logged_def)

section \<open>Crashes during recovery\<close>

lemma recovery_crash:
  assumes ok: "disk_log_ok start dk" and len: "length (dk start) = BSIZE"
    and dk': "dk' = apply_writes (take k (recover_writes start dk)) dk"
  shows "disk_log_ok start dk'" and "bn \<notin> log_area start \<Longrightarrow> recovered start dk' bn = recovered start dk bn"
proof -
  let ?l = "disk_logged start dk"
  let ?hw = "map (\<lambda>i. (?l ! i, dk (start + of_nat i + 1))) [0..<length ?l]"
  have fst: "map fst ?hw = ?l" by (intro nth_equalityI) simp_all
  have area: "b \<notin> set ?l" if "b \<in> log_area start" for b using ok that by (auto simp: disk_log_ok_def)
  have fs: "fst ` set ?hw = set ?l" using fst by (metis list.set_map)
  have keep: "apply_writes (take j ?hw) m b = m b" if "b \<notin> set ?l" for j m b
    using that fs by (intro take_writes_fst) simp
  have "disk_log_ok start dk' \<and> (bn \<notin> log_area start \<longrightarrow> recovered start dk' bn = recovered start dk bn)"
  proof (cases "k \<le> length ?l")
    case True
    then have d: "dk' = apply_writes (take k ?hw) dk" by (simp add: dk' recover_writes_def)
    have st: "dk' start = dk start" unfolding d by (rule keep) (use area in \<open>simp add: log_area_def\<close>)
    then have lg: "disk_logged start dk' = ?l" by (simp add: disk_logged_def)
    have "dk' (start + of_nat i + 1) = dk (start + of_nat i + 1)" if "i < length ?l" for i
      unfolding d using that ok by (intro keep area) (auto simp: disk_log_ok_def log_area_def)
    then have rw: "recover_writes start dk' = recover_writes start dk"
      by (simp add: recover_writes_def lg st cong: map_cong)
    have "recovered start dk' bn = recovered start dk bn"
    proof (cases "bn \<in> fst ` set (recover_writes start dk)")
      case False
      then have "bn \<notin> set ?l" unfolding recover_writes_def set_append image_Un fs by simp
      then have "dk' bn = dk bn" unfolding d by (rule keep)
      with False show ?thesis by (simp add: recovered_def rw apply_writes_notin)
    next
      case True
      have "distinct (map fst (recover_writes start dk))"
        using ok area [of start] fst by (simp add: recover_writes_def disk_log_ok_def log_area_def)
      with True show ?thesis by (auto simp: recovered_def rw apply_writes_in)
    qed
    moreover have "disk_log_ok start dk'" using ok by (simp add: disk_log_ok_def lg st)
    ultimately show ?thesis by blast
  next
    case False
    then have d: "dk' = recovered start dk" by (simp add: dk' recovered_def recover_writes_def)
    show ?thesis using recovered_empty [of dk' start] recovered_head [of dk start] len d by (auto simp: log_area_def)
  qed
  then show "disk_log_ok start dk'" "bn \<notin> log_area start \<Longrightarrow> recovered start dk' bn = recovered start dk bn" by blast+
qed

section \<open>Crashes during a commit\<close>

lemma sint_log_length: "n \<le> LOGBLOCKS \<Longrightarrow> sint (of_nat n :: u32) = int n"
  by (simp add: signed_of_nat signed_take_bit_int_eq_self LOGBLOCKS_def MAXOPBLOCKS_def)

lemma disk_logged_head:
  assumes "log_wf s" and "length d = BSIZE" and "dk start = head_blk s d"
  shows "disk_logged start dk = logged s"
  using head_blk_slots [OF assms(1,2)] sint_log_length log_wfD(4) [OF assms(1)]
  by (intro nth_equalityI) (simp_all add: disk_logged_def assms(3))

text \<open>After the header is written, recovery replays the whole transaction.\<close>

lemma recovered_full:
  assumes wf: "log_wf s" and d: "length d = BSIZE" "dk (log_start s) = head_blk s d"
    and tl: "\<And>i. i < length (logged s) \<Longrightarrow> dk (tail_blk s i) = new (logged s ! i)"
    and other: "\<And>bn. bn \<notin> log_area (log_start s) \<Longrightarrow> bn \<notin> set (logged s) \<Longrightarrow> dk bn = new bn"
  shows "disk_log_ok (log_start s) dk"
    and "bn \<notin> log_area (log_start s) \<Longrightarrow> recovered (log_start s) dk bn = new bn"
proof -
  note wfD = log_wfD [OF wf] and lg = disk_logged_head [OF wf d(1), of dk "log_start s", OF d(2)]
  show "disk_log_ok (log_start s) dk"
    using wfD(4,5,6) head_blk_slots(2) [OF wf d(1)] sint_log_length by (simp add: disk_log_ok_def lg d(2))
  let ?hw = "map (\<lambda>i. (logged s ! i, dk (log_start s + of_nat i + 1))) [0..<length (logged s)]"
  have fst: "map fst ?hw = logged s" by (intro nth_equalityI) simp_all
  assume bn: "bn \<notin> log_area (log_start s)"
  then have "recovered (log_start s) dk bn = apply_writes ?hw dk bn"
    by (simp add: recovered_def recover_writes_def lg log_area_def)
  also have "\<dots> = new bn"
  proof (cases "bn \<in> set (logged s)")
    case True
    then obtain i where i: "i < length (logged s)" "logged s ! i = bn" by (auto simp: in_set_conv_nth)
    show ?thesis
    proof (rule apply_writes_in)
      show "distinct (map fst ?hw)" unfolding fst by (rule wfD(5))
      show "(bn, new bn) \<in> set ?hw" using i tl [OF i(1)] by (auto simp: tail_blk_def image_iff intro!: bexI [of _ i])
    qed
  next
    case False
    moreover have "fst ` set ?hw = set (logged s)" using fst by (metis list.set_map)
    ultimately show ?thesis using bn other by (simp add: apply_writes_notin)
  qed
  finally show "recovered (log_start s) dk bn = new bn" .
qed

text \<open>The three parts of a commit: log blocks, header, home blocks.\<close>

definition home_new :: "'a log_state_scheme \<Rightarrow> (u32 \<times> block) list" where
  "home_new s = map (\<lambda>b. (b, a_view (lab s) b)) (logged s)"

lemma length_home_new [simp]: "length (home_new s) = length (logged s)"
  by (simp add: home_new_def)

lemma log_prefix_same:
  "log_wf s \<Longrightarrow> bn \<notin> log_area (log_start s) - {log_start s} \<Longrightarrow> apply_writes (take j (log_writes s)) m bn = m bn"
  using fst_log_writes [of s] by (intro take_writes_fst) blast

lemma home_prefix_same: "bn \<notin> set (logged s) \<Longrightarrow> apply_writes (take j (home_new s)) m bn = m bn"
  by (intro take_writes_fst) (simp add: home_new_def image_image)

lemma home_all: "log_wf s \<Longrightarrow> bn \<in> set (logged s) \<Longrightarrow> apply_writes (home_new s) m bn = a_view (lab s) bn"
  using log_wfD(5) [of s] by (intro apply_writes_in) (auto simp: home_new_def comp_def)

lemma log_all_same:
  "log_wf s \<Longrightarrow> bn \<notin> log_area (log_start s) - {log_start s} \<Longrightarrow> apply_writes (log_writes s) m bn = m bn"
  using log_prefix_same [of s bn "length (log_writes s)" m] by simp

lemma home_all_same: "bn \<notin> set (logged s) \<Longrightarrow> apply_writes (home_new s) m bn = m bn"
  using home_prefix_same [of bn s "length (home_new s)" m] by simp

lemma crash_before_header:
  assumes "log_inv s" and "dk = apply_writes (take k (log_writes s)) (a_disk (lab s))"
  shows "disk_log_ok (log_start s) dk"
    and "bn \<notin> log_area (log_start s) \<Longrightarrow> recovered (log_start s) dk bn = a_disk (lab s) bn"
proof -
  have "get_rec dec32 4 0 (dk (log_start s)) = 0"
    using log_invD(1,3) [OF assms(1)] by (simp add: assms(2) log_prefix_same)
  from recovered_empty [of dk "log_start s", OF this] show "disk_log_ok (log_start s) dk"
    "bn \<notin> log_area (log_start s) \<Longrightarrow> recovered (log_start s) dk bn = a_disk (lab s) bn"
    using log_invD(1) [OF assms(1)] by (simp_all add: assms(2) log_prefix_same log_area_def)
qed

lemma crash_after_header:
  assumes inv: "log_inv s" and h: "a_held (lab s) = Map.empty"
    and dk: "dk = apply_writes (take j (home_new s)) ((apply_writes (log_writes s) (a_disk (lab s)))
                     (log_start s := head_blk s (a_view (lab s) (log_start s))))"
  shows "disk_log_ok (log_start s) dk"
    and "bn \<notin> log_area (log_start s) \<Longrightarrow> recovered (log_start s) dk bn = a_view (lab s) bn"
proof -
  note D = log_invD [OF inv] and wfD = log_wfD [OF log_invD(1) [OF inv]]
  have b: "dk (log_start s) = head_blk s (a_view (lab s) (log_start s))"
    unfolding dk using D(4) by (simp add: home_prefix_same)
  have tl: "dk (tail_blk s i) = a_view (lab s) (logged s ! i)" if i: "i < length (logged s)" for i
  proof -
    have "i < LOGBLOCKS" using i wfD(4) by simp
    then have "tail_blk s i \<notin> set (logged s)" "tail_blk s i \<noteq> log_start s"
      using tail_blk_in [of i s] tail_blk_start [of i s] wfD(6) by auto
    then show ?thesis unfolding dk using i by (simp add: home_prefix_same tail_after_log_writes [OF D(1)])
  qed
  have other: "dk bn = a_view (lab s) bn" if "bn \<notin> log_area (log_start s)" "bn \<notin> set (logged s)" for bn
    using that D(6) h log_all_same [OF D(1), of bn] by (simp add: dk home_prefix_same log_area_def)
  show "disk_log_ok (log_start s) dk"
    "bn \<notin> log_area (log_start s) \<Longrightarrow> recovered (log_start s) dk bn = a_view (lab s) bn"
    using recovered_full [OF D(1) D(5), of dk "log_start s" "a_view (lab s)", OF b tl other] by blast+
qed

lemma crash_at_end:
  assumes inv: "log_inv s" and h: "a_held (lab s) = Map.empty"
    and dk: "dk = apply_writes (commit_writes s) (a_disk (lab s))"
  shows "disk_log_ok (log_start s) dk"
    and "bn \<notin> log_area (log_start s) \<Longrightarrow> recovered (log_start s) dk bn = a_view (lab s) bn"
proof -
  note D = log_invD [OF inv] and wfD = log_wfD [OF log_invD(1) [OF inv]]
  have dk': "dk = (apply_writes (home_new s) ((apply_writes (log_writes s) (a_disk (lab s)))
       (log_start s := head_blk s (a_view (lab s) (log_start s)))))
       (log_start s := put_rec enc32 4 0 0 (head_blk s (a_view (lab s) (log_start s))))"
    by (simp add: dk commit_writes_def home_new_def Let_def)
  then have "get_rec dec32 4 0 (dk (log_start s)) = 0"
    using head_blk_slots(1) [OF D(1) D(5)] by (simp add: c32.get_put BSIZE_def)
  note e = recovered_empty [of dk "log_start s", OF this]
  show "disk_log_ok (log_start s) dk" by (rule e)
  assume bn: "bn \<notin> log_area (log_start s)"
  then have "dk bn = a_view (lab s) bn"
    using D(6) h home_all [OF D(1), of bn] home_all_same [of bn s] log_all_same [OF D(1), of bn]
    by (cases "bn \<in> set (logged s)") (simp_all add: dk' log_area_def)
  with e(2) bn show "recovered (log_start s) dk bn = a_view (lab s) bn" by (auto simp: log_area_def)
qed

lemma commit_prefix:
  assumes inv: "log_inv s" and h: "a_held (lab s) = Map.empty"
    and dk: "dk = apply_writes (take k (commit_writes s)) (a_disk (lab s))"
  shows "disk_log_ok (log_start s) dk"
    and "bn \<notin> log_area (log_start s) \<Longrightarrow>
      recovered (log_start s) dk bn = (if k \<le> length (logged s) then a_disk (lab s) bn else a_view (lab s) bn)"
proof -
  let ?n = "length (logged s)"
  consider (before) "k \<le> ?n" | (after) "?n < k" "k \<le> Suc (?n + ?n)" | (finished) "Suc (?n + ?n) < k"
    by linarith
  then have "disk_log_ok (log_start s) dk \<and> (bn \<notin> log_area (log_start s) \<longrightarrow>
      recovered (log_start s) dk bn = (if k \<le> ?n then a_disk (lab s) bn else a_view (lab s) bn))"
  proof cases
    case before
    then have "dk = apply_writes (take k (log_writes s)) (a_disk (lab s))"
      by (simp add: dk commit_writes_def Let_def)
    with crash_before_header [OF inv] before show ?thesis by simp
  next
    case after
    define j where "j = k - Suc ?n"
    have "k = Suc (?n + j)" and "j \<le> ?n" using after by (simp_all add: j_def)
    then have "dk = apply_writes (take j (home_new s)) ((apply_writes (log_writes s) (a_disk (lab s)))
                     (log_start s := head_blk s (a_view (lab s) (log_start s))))"
      by (simp add: dk commit_writes_def home_new_def Let_def)
    with crash_after_header [OF inv h] after show ?thesis by simp
  next
    case finished
    then have "dk = apply_writes (commit_writes s) (a_disk (lab s))"
      by (simp add: dk commit_writes_def Let_def)
    with crash_at_end [OF inv h] finished show ?thesis by simp
  qed
  then show "disk_log_ok (log_start s) dk" "bn \<notin> log_area (log_start s) \<Longrightarrow>
      recovered (log_start s) dk bn = (if k \<le> ?n then a_disk (lab s) bn else a_view (lab s) bn)"
    by blast+
qed

definition commit_trace :: "'a log_state_scheme \<Rightarrow> (u32 \<times> block) list" where
  "commit_trace s = (if logged s = [] then [] else commit_writes s)"

lemma commit_trace_size:
  assumes inv: "log_inv s" and "(b, x) \<in> set (commit_trace s)"
  shows "length x = BSIZE"
proof -
  note D = log_invD [OF inv]
  have "length (put_rec enc32 4 0 0 (head_blk s (a_view (lab s) (log_start s)))) = BSIZE"
    using head_blk_slots(1) [OF D(1) D(5)] by (simp add: c32.length_put BSIZE_def)
  with assms(2) head_blk_slots(1) [OF D(1) D(5)] D(5) show ?thesis
    by (auto simp: commit_trace_def commit_writes_def log_writes_def Let_def split: if_splits)
qed

lemma crash_point:
  assumes inv: "log_inv s" and h: "a_held (lab s) = Map.empty"
    and dk: "dk = apply_writes (take k (commit_trace s)) (a_disk (lab s))"
  shows "disk_log_ok (log_start s) dk" and "length (dk bn) = BSIZE"
    and "bn \<notin> log_area (log_start s) \<Longrightarrow>
      recovered (log_start s) dk bn = (if k \<le> length (logged s) then a_disk (lab s) bn else a_view (lab s) bn)"
proof -
  note D = log_invD [OF inv]
  have dl: "length (a_disk (lab s) b) = BSIZE" for b
    using log_wfD(1) [OF D(1)] by (simp add: abs_cache_def cache_inv_def bio_inv_def)
  show "length (dk bn) = BSIZE"
    unfolding dk by (rule apply_writes_length) (use commit_trace_size [OF inv] dl in \<open>auto dest: in_set_takeD\<close>)
  have "disk_log_ok (log_start s) dk \<and> (bn \<notin> log_area (log_start s) \<longrightarrow>
      recovered (log_start s) dk bn = (if k \<le> length (logged s) then a_disk (lab s) bn else a_view (lab s) bn))"
  proof (cases "logged s = []")
    case True
    then have "dk = a_disk (lab s)" by (simp add: dk commit_trace_def)
    with True D(3,6) h recovered_empty [of dk "log_start s"] show ?thesis by (auto simp: log_area_def)
  next
    case False
    then show ?thesis using commit_prefix [OF inv h] dk by (simp add: commit_trace_def)
  qed
  then show "disk_log_ok (log_start s) dk" "bn \<notin> log_area (log_start s) \<Longrightarrow>
      recovered (log_start s) dk bn = (if k \<le> length (logged s) then a_disk (lab s) bn else a_view (lab s) bn)"
    by blast+
qed

end
