(* ===== verification/Journal.thy ===== *)
theory Journal
  imports Log_Crash
begin

text \<open>
  The log as its client, the file system, uses it. The locale \<open>journal\<close> is the contract of the
  calls a file system operation makes between \<^verbatim>\<open>begin_op\<close> and \<^verbatim>\<open>end_op\<close>: read a block, change
  it, hand it to \<^verbatim>\<open>log_write\<close>, release it. Its interpretation proves the contract for
  \<open>Log\<close>. The specifications of \<^verbatim>\<open>begin_op\<close> and \<^verbatim>\<open>end_op\<close> follow.
\<close>

section \<open>The interface\<close>

locale journal = block_reader br brel setd getd inv abs rst ok
    for br :: "u32 \<Rightarrow> ('s, nat) kmon"
    and brel :: "nat \<Rightarrow> ('s, unit) kmon"
    and setd :: "nat \<Rightarrow> (block \<Rightarrow> block) \<Rightarrow> 's \<Rightarrow> 's"
    and getd :: "nat \<Rightarrow> 's \<Rightarrow> block"
    and inv :: "'s \<Rightarrow> bool"
    and abs :: "'s \<Rightarrow> cache_abs"
    and rst :: "'s \<Rightarrow> 'r"
    and ok :: "'r \<Rightarrow> u32 \<Rightarrow> bool" +
  fixes lw :: "nat \<Rightarrow> ('s, unit) kmon"
  assumes lw_law: "inv s \<Longrightarrow> a_held (abs s) bn = Some i \<Longrightarrow> card (a_pins (abs s)) < LOGBLOCKS
      \<Longrightarrow> wp (lw i) s (\<lambda>_ t. inv t \<and> rst t = rst s \<and> abs t = (abs s)\<lparr>a_pins := insert bn (a_pins (abs s))\<rparr>)"
begin

lemma lw_wp:
  assumes "inv s" and "a_held (abs s) bn = Some i" and "card (a_pins (abs s)) < LOGBLOCKS"
    and "\<And>t. inv t \<Longrightarrow> rst t = rst s \<Longrightarrow> abs t = (abs s)\<lparr>a_pins := insert bn (a_pins (abs s))\<rparr> \<Longrightarrow> Q () t"
  shows "wp (lw i) s Q"
  using assms(4) by (auto intro: wp_mono [OF lw_law [OF assms(1-3)]])

text \<open>The idiom of the file system: read a block, change it, log it, release it.\<close>

lemma update_wp:
  assumes inv: "inv s" and h: "a_held (abs s) bn = None"
    and room: "bn \<in> a_pins (abs s) \<or> in_use (abs s) < NBUF" and ok: "ok (rst s) bn"
    and n: "card (a_pins (abs s)) < LOGBLOCKS" and len: "length (f (a_view (abs s) bn)) = BSIZE"
    and Q: "\<And>t. inv t \<Longrightarrow> rst t = rst s \<Longrightarrow>
       abs t = (abs s)\<lparr>a_view := (a_view (abs s))(bn := f (a_view (abs s) bn)), a_pins := insert bn (a_pins (abs s))\<rparr>
       \<Longrightarrow> Q () t"
  shows "wp (br bn) s (\<lambda>i s. wp (modk (setd i f)) s (\<lambda>_ s. wp (lw i) s (\<lambda>_ s. wp (brel i) s Q)))"
proof -
  obtain i s1 where 1: "br bn s = Inr (i, s1)" "inv s1" "rst s1 = rst s"
    and a1: "abs s1 = (abs s)\<lparr>a_held := (a_held (abs s))(bn \<mapsto> i)\<rparr>"
    using br_law [OF inv h room ok] by (auto simp: wp_def)
  define s2 where "s2 = setd i f s1"
  have 2: "inv s2" "rst s2 = rst s"
    and a2: "abs s2 = (abs s1)\<lparr>a_view := (a_view (abs s))(bn := f (a_view (abs s) bn))\<rparr>"
    using setd_law [OF 1(2), of bn i f] len a1 1(3) unfolding s2_def by simp_all
  obtain s3 where 3: "lw i s2 = Inr ((), s3)" "inv s3" "rst s3 = rst s"
    and a3: "abs s3 = (abs s2)\<lparr>a_pins := insert bn (a_pins (abs s))\<rparr>"
    using lw_law [OF 2(1), of bn i] a1 a2 2(2) n by (auto simp: wp_def)
  obtain s4 where 4: "brel i s3 = Inr ((), s4)" "inv s4" "rst s4 = rst s"
    and a4: "abs s4 = (abs s3)\<lparr>a_held := a_held (abs s)\<rparr>"
    using brel_law [OF 3(2), of bn i] a1 a2 a3 3(3) h by (auto simp: wp_def fun_upd_idem)
  have "Q () s4" using 4 a1 a2 a3 a4 by (intro Q) simp_all
  with 1 3 4 show ?thesis by (simp add: wp_def modk_def flip: s2_def)
qed

end

section \<open>The log implements the interface\<close>

definition txn_inv :: "'a log_state_scheme \<Rightarrow> bool" where
  "txn_inv s \<longleftrightarrow> log_inv s \<and> 1 \<le> log_outstanding s"

definition dev_is :: "u32 \<Rightarrow> 'a log_state_scheme \<Rightarrow> bool" where
  "dev_is d s \<longleftrightarrow> txn_inv s \<and> log_dev s = d"

definition home_blk :: "'a log_rest \<Rightarrow> u32 \<Rightarrow> bool" where
  "home_blk r bn \<longleftrightarrow> bn \<notin> log_area (lr_start r)"

lemma logged_rest: "rest t = rest s \<Longrightarrow> logged t = logged s"
  using rest_log(3) [of t s] by (simp add: logged_def)

lemma dev_isD:
  assumes "dev_is d s"
  shows "log_inv s" "log_dev s = d" "cache_inv d s" "1 \<le> log_outstanding s"
    "a_pins (abs_cache d s) = set (logged s)" "dom (a_held (abs_cache d s)) \<inter> log_area (log_start s) = {}"
    "card (a_pins (abs_cache d s)) = length (logged s)"
proof -
  show inv: "log_inv s" and d: "log_dev s = d" and "1 \<le> log_outstanding s"
    using assms by (simp_all add: dev_is_def txn_inv_def)
  show "cache_inv d s" "a_pins (abs_cache d s) = set (logged s)"
    "dom (a_held (abs_cache d s)) \<inter> log_area (log_start s) = {}"
    using inv d log_wfD(1) [of s] by (simp_all add: log_inv_def)
  then show "card (a_pins (abs_cache d s)) = length (logged s)"
    using log_wfD(5) [OF log_invD(1) [OF inv]] by (simp add: distinct_card)
qed

text \<open>An operation of the cache that keeps disk, pins and log, and holds home blocks only.\<close>

lemma dev_is_step:
  assumes s: "dev_is d s" and "cache_inv d t" and "rest t = rest s"
    and "a_pins (abs_cache d t) = a_pins (abs_cache d s)" and "a_disk (abs_cache d t) = a_disk (abs_cache d s)"
    and "dom (a_held (abs_cache d t)) \<inter> log_area (log_start s) = {}"
  shows "dev_is d t"
proof -
  note r = rest_log [OF assms(3)]
  have inv: "log_inv s" and d: "log_dev s = d" using dev_isD [OF s] by blast+
  have "log_wf t" using log_invD(1) [OF inv] assms(3) by (rule log_wf_rest) (use assms(2) r d in simp)
  with inv assms(4-6) r d logged_rest [OF assms(3)] have "log_inv t" by (simp add: log_inv_def)
  with s r show ?thesis by (simp add: dev_is_def txn_inv_def)
qed

interpretation jn: journal "bread d" brelse set_data get_data "dev_is d" "abs_cache d" lrest home_blk log_write
proof unfold_locales
  fix s :: "'a log_state_scheme"
  assume inv: "dev_is d s"
  note D = dev_isD [OF inv]
  have hd: "x \<in> log_area (log_start s) \<Longrightarrow> a_held (abs_cache d s) x = None" for x using D(6) by auto
  have st: "lr_start (lrest s) = log_start s" by (simp add: lrest_def)
  show "length (a_view (abs_cache d s) bn) = BSIZE" for bn using D(3) by (rule bc.view_length)
  show "finite (a_pins (abs_cache d s))" using D(3) by (rule bc.finite_pins)
  show "finite (dom (a_held (abs_cache d s)))" using D(3) by (rule bc.finite_held)
  show "bn \<notin> a_pins (abs_cache d s) \<Longrightarrow> a_held (abs_cache d s) bn = None
      \<Longrightarrow> a_view (abs_cache d s) bn = a_disk (abs_cache d s) bn" for bn using D(3) by (rule bc.clean_law)
  fix bn i
  show "a_held (abs_cache d s) bn = None \<Longrightarrow> bn \<in> a_pins (abs_cache d s) \<or> in_use (abs_cache d s) < NBUF
    \<Longrightarrow> home_blk (lrest s) bn
    \<Longrightarrow> wp (bread d bn) s (\<lambda>i t. dev_is d t \<and> lrest t = lrest s
          \<and> abs_cache d t = (abs_cache d s)\<lparr>a_held := (a_held (abs_cache d s))(bn \<mapsto> i)\<rparr>)"
    using hd by (intro bc.br_wp [OF D(3)]) (auto intro!: dev_is_step [OF inv] lrest_rest simp: home_blk_def st split: if_splits)
  assume h: "a_held (abs_cache d s) bn = Some i"
  show "get_data i s = a_view (abs_cache d s) bn" using D(3) h by (rule bc.getd_law)
  show "a_held (abs_cache d s) bn' = Some i \<Longrightarrow> bn = bn'" for bn' using D(3) h by (rule bc.held_inj)
  show "length (f (a_view (abs_cache d s) bn)) = BSIZE
    \<Longrightarrow> dev_is d (set_data i f s) \<and> lrest (set_data i f s) = lrest s
      \<and> abs_cache d (set_data i f s)
          = (abs_cache d s)\<lparr>a_view := (a_view (abs_cache d s))(bn := f (a_view (abs_cache d s) bn))\<rparr>" for f
    using bc.setd_law [OF D(3) h, of f] hd by (auto intro!: dev_is_step [OF inv] lrest_rest split: if_splits)
  show "bn \<in> a_pins (abs_cache d s) \<or> a_view (abs_cache d s) bn = a_disk (abs_cache d s) bn
    \<Longrightarrow> wp (brelse i) s (\<lambda>_ t. dev_is d t \<and> lrest t = lrest s
          \<and> abs_cache d t = (abs_cache d s)\<lparr>a_held := (a_held (abs_cache d s))(bn := None)\<rparr>)"
    using hd by (intro bc.brel_wp [OF D(3) h]) (auto intro!: dev_is_step [OF inv] lrest_rest split: if_splits)
  assume n: "card (a_pins (abs_cache d s)) < LOGBLOCKS"
  have "bn \<notin> log_area (log_start s)" using D(6) h by blast
  then have "wp (log_write i) s (\<lambda>_ t. log_inv t \<and> lrest t = lrest s
     \<and> logged t = (if bn \<in> set (logged s) then logged s else logged s @ [bn])
     \<and> lab t = (lab s)\<lparr>a_pins := insert bn (a_pins (lab s))\<rparr>)"
    using h n D(2,7) by (intro log_write_spec [OF D(1) _ D(4)]) simp_all
  then show "wp (log_write i) s (\<lambda>_ t. dev_is d t \<and> lrest t = lrest s
      \<and> abs_cache d t = (abs_cache d s)\<lparr>a_pins := insert bn (a_pins (abs_cache d s))\<rparr>)"
  proof (rule wp_mono)
    fix x t
    assume t: "log_inv t \<and> lrest t = lrest s
     \<and> logged t = (if bn \<in> set (logged s) then logged s else logged s @ [bn])
     \<and> lab t = (lab s)\<lparr>a_pins := insert bn (a_pins (lab s))\<rparr>"
    with D(2,4) lrestD [of t s] show "dev_is d t \<and> lrest t = lrest s
      \<and> abs_cache d t = (abs_cache d s)\<lparr>a_pins := insert bn (a_pins (abs_cache d s))\<rparr>"
      by (simp add: dev_is_def txn_inv_def)
  qed
qed

section \<open>Beginning and ending an operation\<close>

lemma log_inv_cong:
  assumes "bufs t = bufs s" "disk t = disk s" "dtrace t = dtrace s" "cur_pid t = cur_pid s"
    "log_start t = log_start s" "log_dev t = log_dev s" "log_lh t = log_lh s"
  shows "log_inv t = log_inv s" and "lab t = lab s" and "logged t = logged s"
  using assms abs_cache_cong [of t s "log_dev s"] cache_inv_cong [of t s "log_dev s"]
  by (simp_all add: log_inv_def log_wf_def logged_def)

lemma begin_op_spec:
  assumes "log_inv s" and "\<not> log_committing s" and "0 \<le> log_outstanding s"
    and "lh_n (log_lh s) + (log_outstanding s + 1) * int MAXOPBLOCKS \<le> int LOGBLOCKS"
  shows "wp begin_op s (\<lambda>_ t. dev_is (log_dev s) t \<and> lab t = lab s \<and> logged t = logged s
    \<and> lrest t = (lrest s)\<lparr>lr_outstanding := log_outstanding s + 1\<rparr>)"
  using assms log_inv_cong [of "s\<lparr>log_outstanding := log_outstanding s + 1\<rparr>" s]
  by (simp add: begin_op_def dev_is_def txn_inv_def lrest_def)

lemma begin_op_waits:
  "log_committing s \<or> lh_n (log_lh s) + (log_outstanding s + 1) * int MAXOPBLOCKS > int LOGBLOCKS
    \<longleftrightarrow> begin_op s = Inl (Asleep ChanLog)"
  by (auto simp: begin_op_def bindk_def gets_def asleep_def modk_def)

text \<open>After a commit every block outside the log is on disk as the transaction left it.\<close>

lemma commit_durable:
  assumes inv: "log_inv s" and h: "a_held (lab s) = Map.empty" and n: "length (logged s) < NBUF"
  shows "wp commit s (\<lambda>_ t. log_inv t \<and> lrest t = lrest s \<and> logged t = [] \<and> a_held (lab t) = Map.empty
    \<and> (\<forall>bn. bn \<notin> log_area (log_start s) \<longrightarrow>
          a_disk (lab t) bn = a_view (lab s) bn \<and> a_view (lab t) bn = a_view (lab s) bn))"
proof (rule wp_mono [OF commit_spec [OF inv h n]])
  fix x t
  assume t: "log_inv t \<and> rest t = rest (clear_lh s) \<and> logged t = []
     \<and> (logged s \<noteq> [] \<longrightarrow> lab t = (writes (commit_writes s) (lab s))\<lparr>a_pins := {}\<rparr>) \<and> (logged s = [] \<longrightarrow> t = s)"
  note D = log_invD [OF inv]
  have held: "a_held (lab t) = Map.empty" using t h by (cases "logged s = []") auto
  have "a_disk (lab t) bn = a_view (lab s) bn" if bn: "bn \<notin> log_area (log_start s)" for bn
  proof (cases "logged s = []")
    case True
    then show ?thesis using t D(6) h by simp
  next
    case False
    then have "a_disk (lab t) bn = apply_writes (commit_writes s) (a_disk (lab s)) bn" using t by simp
    also have "\<dots> = a_view (lab s) bn"
      using bn D(6) h home_all [OF D(1), of bn] home_all_same [of bn s] log_all_same [OF D(1), of bn]
      by (cases "bn \<in> set (logged s)")
        (simp_all add: commit_writes_def Let_def log_area_def flip: home_new_def)
    finally show ?thesis .
  qed
  moreover have "a_view (lab t) bn = a_disk (lab t) bn" for bn
    using log_invD(6) [of t bn] t held by simp
  moreover have "lrest t = lrest s" using t lrest_rest [of t "clear_lh s"] by (simp add: clear_lh_def)
  ultimately show "log_inv t \<and> lrest t = lrest s \<and> logged t = [] \<and> a_held (lab t) = Map.empty
    \<and> (\<forall>bn. bn \<notin> log_area (log_start s) \<longrightarrow>
          a_disk (lab t) bn = a_view (lab s) bn \<and> a_view (lab t) bn = a_view (lab s) bn)"
    using t held by auto
qed

lemma end_op_last:
  assumes inv: "log_inv s" and h: "a_held (lab s) = Map.empty" and n: "length (logged s) < NBUF"
    and out: "log_outstanding s = 1" and c: "\<not> log_committing s"
  shows "wp end_op s (\<lambda>_ t. log_inv t \<and> lrest t = (lrest s)\<lparr>lr_outstanding := 0\<rparr> \<and> logged t = []
    \<and> a_held (lab t) = Map.empty
    \<and> (\<forall>bn. bn \<notin> log_area (log_start s) \<longrightarrow>
          a_disk (lab t) bn = a_view (lab s) bn \<and> a_view (lab t) bn = a_view (lab s) bn))"
proof -
  define s1 where "s1 = s\<lparr>log_outstanding := 0, log_committing := True\<rparr>"
  have s1: "log_inv s1" "lab s1 = lab s" "logged s1 = logged s" "log_start s1 = log_start s"
    using inv log_inv_cong [of s1 s] by (simp_all add: s1_def)
  obtain t where t: "commit s1 = Inr ((), t)" "log_inv t" "lrest t = lrest s1" "logged t = []" "a_held (lab t) = Map.empty"
    and v: "\<forall>bn. bn \<notin> log_area (log_start s) \<longrightarrow>
          a_disk (lab t) bn = a_view (lab s) bn \<and> a_view (lab t) bn = a_view (lab s) bn"
    using commit_durable [OF s1(1)] s1 h n by (auto simp: wp_def)
  define u where "u = t\<lparr>log_committing := False, woken := woken t @ [ChanLog]\<rparr>"
  have u: "log_inv u" "lab u = lab t" "logged u = logged t"
    using t log_inv_cong [of u t] by (simp_all add: u_def)
  have "end_op s = Inr ((), u)"
    using out c t(1)
    by (simp add: end_op_def bindk_def thenk_def gets_def modk_def whenk_def ret_def wakeup_chan_def u_def flip: s1_def)
  moreover have "lrest u = (lrest s)\<lparr>lr_outstanding := 0\<rparr>"
    using t(3) c by (simp add: lrest_def u_def s1_def)
  ultimately show ?thesis using u t v by (simp add: wp_def)
qed

lemma end_op_other:
  assumes "log_inv s" and "1 < log_outstanding s" and "\<not> log_committing s"
  shows "end_op s = Inr ((), s\<lparr>log_outstanding := log_outstanding s - 1, woken := woken s @ [ChanLog]\<rparr>)"
  using assms
  by (simp add: end_op_def bindk_def thenk_def gets_def modk_def whenk_def ret_def wakeup_chan_def)

end
