(* ===== verification/Log_Props.thy ===== *)
theory Log_Props
  imports Journal
begin

text \<open>
  The main theorems on the buffer cache and the log, each with a concrete run that satisfies its
  hypotheses. \<open>boot_mem dk\<close> is the zero-initialised kernel memory of a machine whose disk holds
  \<open>dk\<close>; a reboot after a crash is \<^verbatim>\<open>binit\<close> and \<^verbatim>\<open>initlog\<close> on it.
\<close>

definition boot_mem :: "(u32 \<Rightarrow> block) \<Rightarrow> log_state" where
  "boot_mem dk = \<lparr>cur_pid = 1, woken = [], pmem = (\<lambda>_. 0), page_refcount = [], freelist = 0, procs = [], cpus = [],
     rq = \<lparr>rq_procs = [], rq_count = 0\<rparr>, mutexes = [], nextpid = 1, initproc = None, ticks = 0, disk = dk, dtrace = [], bufs = replicate (Suc NBUF) zero_buf,
     log_start = 0, log_outstanding = 0, log_committing = False, log_dev = 0,
     log_lh = \<lparr>lh_n = 0, lh_block = replicate LOGBLOCKS 0\<rparr>\<rparr>"

definition reboot :: "u32 \<Rightarrow> superblock \<Rightarrow> (u32 \<Rightarrow> block) \<Rightarrow> stop + (unit \<times> log_state)" where
  "reboot dev sb dk = initlog dev sb (binit (boot_mem dk))"

lemma reboot_spec:
  assumes "dev \<noteq> 0" and "\<And>bn. length (dk bn) = BSIZE" and "disk_log_ok (sb_logstart sb) dk"
  shows "\<exists>t. reboot dev sb dk = Inr ((), t) \<and> log_inv t \<and> logged t = [] \<and> a_held (lab t) = Map.empty
    \<and> a_view (lab t) = recovered (sb_logstart sb) dk
    \<and> lrest t = \<lparr>lr_pid = 1, lr_start = sb_logstart sb, lr_dev = dev, lr_outstanding = 0, lr_committing = False, lr_more = ()\<rparr>
    \<and> dtrace t = recover_writes (sb_logstart sb) dk"
proof -
  have m: "bufs (boot_mem dk) = replicate (Suc NBUF) zero_buf" "disk (boot_mem dk) = dk" "dtrace (boot_mem dk) = []"
    by (simp_all add: boot_mem_def)
  have l: "\<And>bn. length (disk (boot_mem dk) bn) = BSIZE" using assms(2) m by simp
  note b = binit_abs [OF m(1) l assms(1), unfolded m]
  note r = rest_log [OF b(2)] lrest_rest [OF b(2)]
  have "length (lh_block (log_lh (binit (boot_mem dk)))) = LOGBLOCKS" unfolding r by (simp add: boot_mem_def)
  then have "wp (initlog dev sb) (binit (boot_mem dk)) (\<lambda>_ t. log_inv t \<and> logged t = []
    \<and> lab t = writes (recover_writes (sb_logstart sb) dk) (abs_cache dev (binit (boot_mem dk)))
    \<and> a_view (lab t) = recovered (sb_logstart sb) dk
    \<and> lrest t = (lrest (binit (boot_mem dk)))\<lparr>lr_start := sb_logstart sb, lr_dev := dev\<rparr>)"
    using initlog_spec [OF b(1)] assms(3) by (simp add: b(3))
  then obtain t where t: "reboot dev sb dk = Inr ((), t)" "log_inv t" "logged t = []"
    "lab t = writes (recover_writes (sb_logstart sb) dk) (abs_cache dev (binit (boot_mem dk)))"
    "a_view (lab t) = recovered (sb_logstart sb) dk"
    "lrest t = (lrest (binit (boot_mem dk)))\<lparr>lr_start := sb_logstart sb, lr_dev := dev\<rparr>"
    unfolding reboot_def by (auto simp: wp_def)
  have "dtrace t = a_trace (lab t)" by (simp add: abs_cache_def)
  moreover have "lrest (binit (boot_mem dk)) = \<lparr>lr_pid = 1, lr_start = 0, lr_dev = 0, lr_outstanding = 0,
      lr_committing = False, lr_more = ()\<rparr>"
    unfolding r by (simp add: lrest_def boot_mem_def)
  ultimately show ?thesis using t by (simp add: b(3))
qed

section \<open>A concrete machine\<close>

text \<open>
  A disk of zero blocks whose log starts at block 2; \<open>demo_boot\<close> is the kernel after booting from
  it, \<open>demo_txn\<close> after an operation has begun and logged a new content for block 60.
\<close>

definition demo_sb :: superblock where
  "demo_sb = \<lparr>sb_magic = FSMAGIC, sb_size = 2000, sb_nblocks = 1954, sb_ninodes = 200, sb_nlog = 31,
     sb_logstart = 2, sb_inodestart = 33, sb_bmapstart = 45\<rparr>"

definition demo_boot :: log_state where
  "demo_boot = run (initlog 1 demo_sb) (binit (boot_mem (\<lambda>_. replicate BSIZE 0)))"

definition demo_txn :: log_state where
  "demo_txn =
     run (bindk (bread 1 60) (\<lambda>b.
          thenk (modk (set_data b (\<lambda>_. replicate BSIZE 7)))
          (thenk (log_write b) (brelse b)))) (run begin_op demo_boot)"

lemma slice_replicate: "off + n \<le> m \<Longrightarrow> slice off n (replicate m x) = replicate n x"
  by (simp add: slice_def min_def)

lemma zero_head: "get_rec dec32 4 0 (replicate BSIZE 0) = 0"
proof -
  have "slice (0 * 4) 4 (replicate BSIZE 0) = replicate 4 (0 :: uchar)" by (rule slice_replicate) (simp add: BSIZE_def)
  then show ?thesis unfolding get_rec_def dec32_def by (simp only: dec_le_zero)
qed

lemma demo_boot_facts:
  "log_inv demo_boot" "logged demo_boot = []" "a_held (lab demo_boot) = Map.empty"
  "lrest demo_boot = \<lparr>lr_pid = 1, lr_start = 2, lr_dev = 1, lr_outstanding = 0, lr_committing = False, lr_more = ()\<rparr>"
proof -
  note e = recovered_empty [of "\<lambda>_. replicate BSIZE 0" 2, OF zero_head]
  obtain t where "reboot 1 demo_sb (\<lambda>_. replicate BSIZE 0) = Inr ((), t)" "log_inv t" "logged t = []" "a_held (lab t) = Map.empty"
    "lrest t = \<lparr>lr_pid = 1, lr_start = 2, lr_dev = 1, lr_outstanding = 0, lr_committing = False, lr_more = ()\<rparr>"
    using reboot_spec [of 1 "\<lambda>_. replicate BSIZE 0" demo_sb] e(1) by (auto simp: demo_sb_def)
  moreover from this have "demo_boot = t" by (simp add: demo_boot_def run_def reboot_def)
  ultimately show "log_inv demo_boot" "logged demo_boot = []" "a_held (lab demo_boot) = Map.empty"
    "lrest demo_boot = \<lparr>lr_pid = 1, lr_start = 2, lr_dev = 1, lr_outstanding = 0, lr_committing = False, lr_more = ()\<rparr>"
    by simp_all
qed

lemma log_area_2: "bn \<in> log_area 2 \<longleftrightarrow> 2 \<le> unat bn \<and> unat bn < 33"
proof -
  have u: "unat (2 + of_nat i + 1 :: u32) = i + 3" if "i < LOGBLOCKS" for i
  proof -
    have "(2 + of_nat i + 1 :: u32) = of_nat (i + 3)" by simp
    then show ?thesis using that by (simp only: unat_of_nat) (simp add: LOGBLOCKS_def MAXOPBLOCKS_def)
  qed
  have "bn \<in> log_area 2 \<longleftrightarrow> bn = 2 \<or> (\<exists>i < LOGBLOCKS. bn = 2 + of_nat i + 1)"
    by (auto simp: log_area_def)
  also have "\<dots> \<longleftrightarrow> unat bn = 2 \<or> (\<exists>i < LOGBLOCKS. unat bn = i + 3)"
    unfolding word_unat_eq_iff using u by (simp cong: conj_cong)
  also have "\<dots> \<longleftrightarrow> 2 \<le> unat bn \<and> unat bn < 33"
    by (auto simp: LOGBLOCKS_def MAXOPBLOCKS_def intro: exI [of _ "unat bn - 3"])
  finally show ?thesis .
qed

lemma demo_txn_facts:
  "log_inv demo_txn" "logged demo_txn = [60]" "a_held (lab demo_txn) = Map.empty"
  "log_start demo_txn = 2" "log_dev demo_txn = 1" "log_outstanding demo_txn = 1" "\<not> log_committing demo_txn"
  "a_view (lab demo_txn) 60 = replicate BSIZE 7"
proof -
  note b = demo_boot_facts
  have f: "log_start demo_boot = 2" "log_dev demo_boot = 1" "log_outstanding demo_boot = 0" "\<not> log_committing demo_boot"
    using b(4) by (simp_all add: lrest_def)
  have n: "lh_n (log_lh demo_boot) = 0" using log_wfD(3) [OF log_invD(1) [OF b(1)]] b(2) by simp
  let ?s = "run begin_op demo_boot"
  have s: "dev_is 1 ?s" "lab ?s = lab demo_boot" "lrest ?s = (lrest demo_boot)\<lparr>lr_outstanding := 1\<rparr>"
    using wp_run [OF begin_op_spec [OF b(1)]] f n by (simp_all add: LOGBLOCKS_def MAXOPBLOCKS_def)
  have a: "abs_cache 1 ?s = lab demo_boot" using s(2) dev_isD(2) [OF s(1)] by simp
  have p: "a_pins (lab demo_boot) = {}" using log_invD(2) [OF b(1)] b(2) by simp
  have home: "home_blk (lrest ?s) 60" unfolding s(3) by (simp add: b(4) home_blk_def log_area_2)
  have "wp (bindk (bread 1 60) (\<lambda>b. thenk (modk (set_data b (\<lambda>_. replicate BSIZE 7))) (thenk (log_write b) (brelse b)))) ?s
     (\<lambda>_ t. dev_is 1 t \<and> lrest t = lrest ?s \<and> abs_cache 1 t =
       (lab demo_boot)\<lparr>a_view := (a_view (lab demo_boot))(60 := replicate BSIZE 7), a_pins := {60}\<rparr>)"
    unfolding wp_bindk wp_thenk
    by (rule jn.update_wp [OF s(1)])
      (simp_all add: a b(3) p home in_use_def NBUF_def MAXOPBLOCKS_def LOGBLOCKS_def)
  from wp_run [OF this] have t: "dev_is 1 demo_txn" "lrest demo_txn = lrest ?s"
    "abs_cache 1 demo_txn = (lab demo_boot)\<lparr>a_view := (a_view (lab demo_boot))(60 := replicate BSIZE 7), a_pins := {60}\<rparr>"
    by (simp_all add: demo_txn_def)
  note D = dev_isD [OF t(1)]
  show "log_inv demo_txn" "log_dev demo_txn = 1" by (rule D)+
  then show "a_held (lab demo_txn) = Map.empty" "a_view (lab demo_txn) 60 = replicate BSIZE 7" using t(3) b(3) by simp_all
  have "set (logged demo_txn) = {60}" "distinct (logged demo_txn)"
    using D(5) t(3) log_wfD(5) [OF log_invD(1) [OF D(1)]] by simp_all
  then show "logged demo_txn = [60]" by (cases "logged demo_txn") (auto simp: subset_singleton_iff)
  show "log_start demo_txn = 2" "log_outstanding demo_txn = 1" "\<not> log_committing demo_txn"
    using t(2) s(3) b(4) by (simp_all add: lrest_def)
qed

section \<open>Crashes\<close>

text \<open>
  C1. A crash at any point of a commit, followed by a reboot, leaves every block outside the log
  either as it was before the transaction or as the transaction wrote it, all blocks alike: for
  the disk writes \<open>ws\<close> of the commit, recovery from a disk that saw only the first \<open>k\<close> of them
  returns, and its result is the old state up to the header write and the new state after it.
\<close>

theorem crash_atomic:
  assumes "log_inv s" and "a_held (lab s) = Map.empty" and "length (logged s) < NBUF"
    and "dev \<noteq> 0" and "sb_logstart sb = log_start s"
  shows "\<exists>t ws. commit s = Inr ((), t) \<and> dtrace t = dtrace s @ ws
    \<and> (\<forall>k. \<exists>u. reboot dev sb (apply_writes (take k ws) (disk s)) = Inr ((), u) \<and> log_inv u
         \<and> (\<forall>bn. bn \<notin> log_area (log_start s) \<longrightarrow>
              view dev u bn = (if k \<le> length (logged s) then disk s bn else view (log_dev s) s bn)))"
proof -
  note inv = assms(1) and h = assms(2)
  obtain t where t: "commit s = Inr ((), t)" "dtrace t = dtrace s @ commit_trace s"
    using commit_spec [OF assms(1-3)] by (auto simp: wp_def commit_trace_def abs_cache_def writes_def)
  have D: "a_view (lab s) = view (log_dev s) s" "a_disk (lab s) = disk s" by (simp_all add: abs_cache_def)
  have "\<exists>u. reboot dev sb dk = Inr ((), u) \<and> log_inv u \<and> (\<forall>bn. bn \<notin> log_area (log_start s) \<longrightarrow>
              view dev u bn = (if k \<le> length (logged s) then disk s bn else view (log_dev s) s bn))"
    if dk: "dk = apply_writes (take k (commit_trace s)) (disk s)" for k dk
  proof -
    note c = crash_point [OF inv h dk [folded D(2)]]
    obtain u where u: "reboot dev sb dk = Inr ((), u)" "log_inv u" "a_view (lab u) = recovered (log_start s) dk"
      "lr_dev (lrest u) = dev"
      using reboot_spec [OF assms(4), of dk sb, OF c(2)] c(1) assms(5) by auto
    then have "view dev u = recovered (log_start s) dk" by (simp add: lrest_def abs_cache_def)
    with u c(3) D show ?thesis by simp
  qed
  with t show ?thesis by blast
qed

theorem crash_atomic_witness:
  "log_inv demo_txn \<and> logged demo_txn = [60]
   \<and> (\<exists>t ws. commit demo_txn = Inr ((), t) \<and> dtrace t = dtrace demo_txn @ ws
    \<and> (\<forall>k. \<exists>u. reboot 1 demo_sb (apply_writes (take k ws) (disk demo_txn)) = Inr ((), u) \<and> log_inv u
         \<and> (\<forall>bn. bn \<notin> log_area 2 \<longrightarrow>
              view 1 u bn = (if k \<le> 1 then disk demo_txn bn else view 1 demo_txn bn))))"
  using crash_atomic [OF demo_txn_facts(1,3), of 1 demo_sb] demo_txn_facts(1)
  unfolding demo_txn_facts(2,4,5) by (simp add: demo_sb_def NBUF_def MAXOPBLOCKS_def)

lemma recover_writes_size:
  assumes "\<And>bn. length (dk bn) = BSIZE" and "(b, x) \<in> set (recover_writes start dk)"
  shows "length x = BSIZE"
  using assms(2) assms(1) [of start] by (auto simp: recover_writes_def assms(1) c32.length_put BSIZE_def)

text \<open>
  C7. Recovery may itself be interrupted: rebooting from a disk that saw only the first \<open>k\<close>
  writes of an earlier recovery gives the same contents of all blocks outside the log as that
  recovery would have given.
\<close>

theorem recovery_restartable:
  assumes "dev \<noteq> 0" and "\<And>bn. length (dk bn) = BSIZE" and "disk_log_ok (sb_logstart sb) dk"
  shows "\<exists>t. reboot dev sb dk = Inr ((), t)
    \<and> (\<forall>k. \<exists>u. reboot dev sb (apply_writes (take k (dtrace t)) dk) = Inr ((), u)
         \<and> (\<forall>bn. bn \<notin> log_area (sb_logstart sb) \<longrightarrow> view dev u bn = view dev t bn))"
proof -
  obtain t where t: "reboot dev sb dk = Inr ((), t)" "a_view (lab t) = recovered (sb_logstart sb) dk"
    "lr_dev (lrest t) = dev" "dtrace t = recover_writes (sb_logstart sb) dk"
    using reboot_spec [OF assms] by auto
  have "\<exists>u. reboot dev sb dk' = Inr ((), u)
      \<and> (\<forall>bn. bn \<notin> log_area (sb_logstart sb) \<longrightarrow> view dev u bn = view dev t bn)"
    if dk': "dk' = apply_writes (take k (recover_writes (sb_logstart sb) dk)) dk" for k dk'
  proof -
    note c = recovery_crash [OF assms(3) assms(2) dk']
    have len: "length (dk' bn) = BSIZE" for bn
      unfolding dk' using recover_writes_size [OF assms(2)] assms(2)
      by (intro apply_writes_length) (auto dest: in_set_takeD)
    obtain u where u: "reboot dev sb dk' = Inr ((), u)" "a_view (lab u) = recovered (sb_logstart sb) dk'" "lr_dev (lrest u) = dev"
      using reboot_spec [OF assms(1), of dk' sb, OF len c(1)] by auto
    with t c(2) show ?thesis by (simp add: lrest_def abs_cache_def)
  qed
  with t show ?thesis by auto
qed

text \<open>The disk a crash leaves right after the header write of the commit of \<open>demo_txn\<close>.\<close>

definition demo_disk :: "u32 \<Rightarrow> block" where
  "demo_disk = apply_writes (take 2 (commit_trace demo_txn)) (disk demo_txn)"

theorem recovery_restartable_witness:
  "disk_logged 2 demo_disk = [60]
   \<and> (\<exists>t. reboot 1 demo_sb demo_disk = Inr ((), t)
       \<and> (\<forall>k. \<exists>u. reboot 1 demo_sb (apply_writes (take k (dtrace t)) demo_disk) = Inr ((), u)
            \<and> (\<forall>bn. bn \<notin> log_area 2 \<longrightarrow> view 1 u bn = view 1 t bn)))"
proof -
  note D = log_invD [OF demo_txn_facts(1)] and f = demo_txn_facts
  have dk: "demo_disk = apply_writes (take 2 (commit_trace demo_txn)) (a_disk (lab demo_txn))"
    by (simp add: demo_disk_def abs_cache_def)
  note c = crash_point [OF f(1,3) dk, unfolded f(4)]
  have "demo_disk 2 = head_blk demo_txn (a_view (lab demo_txn) 2)"
    by (simp add: dk commit_trace_def commit_writes_def Let_def f(2,4) log_writes_def)
  then have "disk_logged 2 demo_disk = [60]" using disk_logged_head [OF D(1) D(5), of demo_disk 2] f(2) by simp
  moreover have "sb_logstart demo_sb = 2" by (simp add: demo_sb_def)
  ultimately show ?thesis using recovery_restartable [of 1 demo_disk demo_sb, OF _ c(2)] c(1) by simp
qed

section \<open>Transactions\<close>



subsection \<open>The log never overflows\<close>

text \<open>
  The operations that run concurrently, each with the number of blocks it may still log:
  \<^verbatim>\<open>MAXOPBLOCKS\<close> when it begins. Operations begin, log blocks, use the buffer cache and end in
  any order.
\<close>

inductive txn_step :: "'a log_state_scheme \<times> nat list \<Rightarrow> 'a log_state_scheme \<times> nat list \<Rightarrow> bool" where
  Begin: "begin_op s = Inr ((), t) \<Longrightarrow> txn_step (s, bs) (t, bs @ [MAXOPBLOCKS])"
| Write: "log_write b s = Inr ((), t) \<Longrightarrow> i < length bs \<Longrightarrow> 0 < bs ! i \<Longrightarrow> txn_step (s, bs) (t, bs[i := bs ! i - 1])"
| Cache: "log_lh t = log_lh s \<Longrightarrow> log_outstanding t = log_outstanding s \<Longrightarrow> txn_step (s, bs) (t, bs)"
| End: "end_op s = Inr ((), t) \<Longrightarrow> i < length bs \<Longrightarrow> txn_step (s, bs) (t, take i bs @ drop (Suc i) bs)"

definition budget_ok :: "'a log_state_scheme \<times> nat list \<Rightarrow> bool" where
  "budget_ok c \<longleftrightarrow> (case c of (s, bs) \<Rightarrow>
     log_outstanding s = int (length bs) \<and> 0 \<le> lh_n (log_lh s)
     \<and> (\<forall>b \<in> set bs. b \<le> MAXOPBLOCKS) \<and> lh_n (log_lh s) + int (sum_list bs) \<le> int LOGBLOCKS)"

lemma rest_move_to_head [simp]: "rest (move_to_head i s) = rest s"
proof -
  obtain bs where "move_to_head i s = s\<lparr>bufs := bs\<rparr>" using same_core_state [OF move_to_head_core] by blast
  then show ?thesis by (simp add: rest_def)
qed

lemma keeps_rest_cache [keeps_intros]:
  "keeps (\<lambda>u. rest u = r) (bread d bn)" "keeps (\<lambda>u. rest u = r) (brelse i)" "keeps (\<lambda>u. rest u = r) (bwrite i)"
  "keeps (\<lambda>u. rest u = r) (bunpin i)" "keeps (\<lambda>u. rest u = r) (modk (set_data i f))"
  "keeps (\<lambda>u. rest u = r) (modk (\<lambda>s. set_data i (\<lambda>_. get_data j s) s))"
proof -
  show "keeps (\<lambda>u. rest u = r) (bread d bn)" by (rule keepsI) (simp add: bread_rest)
  show "keeps (\<lambda>u. rest u = r) (bwrite i)" "keeps (\<lambda>u. rest u = r) (bunpin i)"
    "keeps (\<lambda>u. rest u = r) (modk (set_data i f))"
    "keeps (\<lambda>u. rest u = r) (modk (\<lambda>s. set_data i (\<lambda>_. get_data j s) s))"
    unfolding bwrite_def bunpin_def holdingsleep_def virtio_disk_rw_def
    by (intro keeps_intros keeps_modk; simp add: set_data_def)+
  show "keeps (\<lambda>u. rest u = r) (brelse i)"
    unfolding brelse_def holdingsleep_def releasesleep_def wakeup_chan_def
    by (intro keeps_intros keeps_modk; simp)
qed

lemma keeps_rest_log [keeps_intros]:
  "keeps (\<lambda>u. rest u = r) (lh_get i)" "keeps (\<lambda>u. rest u = r) write_log" "keeps (\<lambda>u. rest u = r) write_head"
  "keeps (\<lambda>u. rest u = r) (install_trans c)"
proof -
  show g: "keeps (\<lambda>u. rest u = r) (lh_get i)" for i unfolding lh_get_def by (intro keeps_intros)
  show "keeps (\<lambda>u. rest u = r) write_log" "keeps (\<lambda>u. rest u = r) write_head" "keeps (\<lambda>u. rest u = r) (install_trans c)"
    unfolding write_log_def write_head_def install_trans_def by (intro keeps_intros g)+
qed

lemma keeps_run: "keeps (\<lambda>u. rest u = r) f \<Longrightarrow> f s = Inr (x, t) \<Longrightarrow> rest s = r \<Longrightarrow> rest t = r"
  by (auto simp: keeps_def)

lemma commit_effect:
  assumes "commit s = Inr ((), t)"
  shows "log_outstanding t = log_outstanding s" and "lh_n (log_lh t) = min 0 (lh_n (log_lh s))"
proof -
  have "log_outstanding t = log_outstanding s \<and> lh_n (log_lh t) = min 0 (lh_n (log_lh s))"
  proof (cases "0 < lh_n (log_lh s)")
    case True
    with assms obtain s1 s2 s3 where r: "write_log s = Inr ((), s1)" "write_head s1 = Inr ((), s2)"
      "install_trans False s2 = Inr ((), s3)" "write_head (clear_lh s3) = Inr ((), t)"
      by (auto simp: commit_def thenk_def gets_def modk_def whenk_def clear_lh_def elim!: bindk_InrE)
    have "rest s1 = rest s" "rest s2 = rest s1" "rest s3 = rest s2" "rest t = rest (clear_lh s3)"
      using keeps_rest_log(2-4) r by (blast intro: keeps_run)+
    then have "rest s3 = rest s" and t: "rest t = rest (clear_lh s3)" by simp_all
    with rest_log(4) [of s3 s] rest_log(3,4) [OF t] True show ?thesis by (simp add: clear_lh_def)
  next
    case False
    with assms show ?thesis by (simp add: commit_def bindk_def gets_def whenk_def ret_def)
  qed
  then show "log_outstanding t = log_outstanding s" "lh_n (log_lh t) = min 0 (lh_n (log_lh s))" by blast+
qed

lemma end_op_effect:
  assumes "end_op s = Inr ((), t)"
  shows "log_outstanding t = log_outstanding s - 1"
    and "0 \<le> lh_n (log_lh s) \<Longrightarrow> 0 \<le> lh_n (log_lh t) \<and> lh_n (log_lh t) \<le> lh_n (log_lh s)"
proof -
  define s1 where "s1 = s\<lparr>log_outstanding := log_outstanding s - 1\<rparr>"
  consider (last) u where "commit (s1\<lparr>log_committing := True\<rparr>) = Inr ((), u)"
      "t = u\<lparr>log_committing := False, woken := woken u @ [ChanLog]\<rparr>"
    | (other) "t = s1\<lparr>woken := woken s1 @ [ChanLog]\<rparr>"
    using assms unfolding s1_def
    by (auto simp: end_op_def thenk_def gets_def modk_def whenk_def ret_def wakeup_chan_def panic_def
        split: if_splits elim!: bindk_InrE)
  then have "log_outstanding t = log_outstanding s - 1 \<and>
      (0 \<le> lh_n (log_lh s) \<longrightarrow> 0 \<le> lh_n (log_lh t) \<and> lh_n (log_lh t) \<le> lh_n (log_lh s))"
  proof cases
    case last
    with commit_effect [OF last(1)] show ?thesis by (simp add: s1_def)
  qed (simp add: s1_def)
  then show "log_outstanding t = log_outstanding s - 1"
    "0 \<le> lh_n (log_lh s) \<Longrightarrow> 0 \<le> lh_n (log_lh t) \<and> lh_n (log_lh t) \<le> lh_n (log_lh s)" by blast+
qed

lemma log_write_effect:
  assumes "log_write b s = Inr ((), t)"
  shows "log_outstanding t = log_outstanding s" and "lh_n (log_lh s) \<le> lh_n (log_lh t)"
    and "lh_n (log_lh t) \<le> lh_n (log_lh s) + 1"
  using assms
  by (auto simp: log_write_def thenk_def gets_def modk_def whenk_def ret_def lh_set_def panic_def fault_def bpin_def
      upd_lh_def upd_buf_def split: if_splits elim!: bindk_InrE)

lemma sum_list_decr: "i < length bs \<Longrightarrow> 0 < bs ! i \<Longrightarrow> Suc (sum_list (bs[i := bs ! i - 1])) = sum_list bs"
  for bs :: "nat list"
  using member_le_sum_list [of "bs ! i" bs] by (simp add: sum_list_update)

lemma budget_step: "txn_step c c' \<Longrightarrow> budget_ok c \<Longrightarrow> budget_ok c'"
proof (induction rule: txn_step.induct)
  case (Begin s t bs)
  have "sum_list bs \<le> length bs * MAXOPBLOCKS" if "\<forall>b \<in> set bs. b \<le> MAXOPBLOCKS"
    using that by (induction bs) auto
  with Begin show ?case
    by (auto simp: budget_ok_def begin_op_def bindk_def gets_def asleep_def modk_def algebra_simps MAXOPBLOCKS_def
        split: if_splits)
next
  case (Write b s t i bs)
  then have "bs ! i \<le> MAXOPBLOCKS" by (simp add: budget_ok_def)
  then have "bs ! i - Suc 0 \<le> MAXOPBLOCKS" by linarith
  with Write log_write_effect [OF Write(1)] sum_list_decr [OF Write(2,3)] show ?case
    by (auto simp: budget_ok_def dest!: set_update_subset_insert [THEN subsetD])
next
  case (End s t i bs)
  have "sum_list (take i bs @ drop (Suc i) bs) \<le> sum_list bs"
    using End(2) by (metis append_take_drop_id Cons_nth_drop_Suc le_add2 nat_add_left_cancel_le sum_list.Cons sum_list_append)
  with End end_op_effect [OF End(1)] show ?case
    by (auto simp: budget_ok_def dest: in_set_takeD in_set_dropD)
qed (simp add: budget_ok_def)

text \<open>
  C4. However operations interleave, as long as each logs at most \<^verbatim>\<open>MAXOPBLOCKS\<close> blocks, the
  admission test of \<^verbatim>\<open>begin_op\<close> keeps the transaction within the log: at most \<^verbatim>\<open>LOGBLOCKS\<close>
  blocks are logged and no \<^verbatim>\<open>log_write\<close> of an operation within its budget panics with
  "too big a transaction" or "log_write outside of trans".
\<close>

theorem log_never_overflows:
  assumes "txn_step\<^sup>*\<^sup>* (s0, []) (s, bs)" and "lh_n (log_lh s0) = 0" and "log_outstanding s0 = 0"
  shows "lh_n (log_lh s) \<le> int LOGBLOCKS \<and> (\<forall>i < length bs. 0 < bs ! i \<longrightarrow>
           log_write b s \<noteq> Inl (Panic ''too big a transaction'')
           \<and> log_write b s \<noteq> Inl (Panic ''log_write outside of trans''))"
proof -
  have "budget_ok (s0, [])" using assms(2,3) by (simp add: budget_ok_def)
  with assms(1) have ok: "budget_ok (s, bs)"
    by (induction rule: rtranclp_induct) (auto intro: budget_step)
  then have n: "lh_n (log_lh s) + int (sum_list bs) \<le> int LOGBLOCKS" "log_outstanding s = int (length bs)"
    by (simp_all add: budget_ok_def)
  have "log_write b s \<noteq> Inl (Panic ''too big a transaction'') \<and> log_write b s \<noteq> Inl (Panic ''log_write outside of trans'')"
    if i: "i < length bs" "0 < bs ! i" for i
  proof -
    have "0 < sum_list bs" using i member_le_sum_list [of "bs ! i" bs] by simp
    with n i show ?thesis
      by (auto simp: log_write_def bindk_def thenk_def gets_def whenk_def ret_def lh_set_def modk_def fault_def bpin_def
          split: option.splits if_splits)
  qed
  with n show ?thesis by auto
qed

text \<open>An operation begins and logs block 60: nine blocks remain of its budget.\<close>

theorem log_never_overflows_witness:
  "\<exists>s b. txn_step\<^sup>*\<^sup>* (demo_boot, []) (s, [9]) \<and> lh_n (log_lh s) \<le> int LOGBLOCKS
     \<and> log_write b s \<noteq> Inl (Panic ''too big a transaction'')"
proof -
  note bt = demo_boot_facts
  have f: "log_dev demo_boot = 1" "log_outstanding demo_boot = 0" "\<not> log_committing demo_boot"
    using bt(4) by (simp_all add: lrest_def)
  have n: "lh_n (log_lh demo_boot) = 0" using log_wfD(3) [OF log_invD(1) [OF bt(1)]] bt(2) by simp
  obtain s1 where s1: "begin_op demo_boot = Inr ((), s1)" "dev_is 1 s1" "lab s1 = lab demo_boot"
    "lrest s1 = (lrest demo_boot)\<lparr>lr_outstanding := 1\<rparr>"
    using begin_op_spec [OF bt(1)] f n by (auto simp: wp_def LOGBLOCKS_def MAXOPBLOCKS_def)
  have a1: "abs_cache 1 s1 = lab demo_boot" using s1(3) dev_isD(2) [OF s1(2)] by simp
  have p: "a_pins (lab demo_boot) = {}" using log_invD(2) [OF bt(1)] bt(2) by simp
  have home: "home_blk (lrest s1) 60" unfolding s1(4) by (simp add: bt(4) home_blk_def log_area_2)
  obtain b s2 where s2: "bread 1 60 s1 = Inr (b, s2)" "dev_is 1 s2"
    "abs_cache 1 s2 = (lab demo_boot)\<lparr>a_held := [60 \<mapsto> b]\<rparr>"
    using jn.br_law [OF s1(2), of 60] home by (auto simp: wp_def a1 bt(3) p in_use_def NBUF_def MAXOPBLOCKS_def)
  obtain s3 where s3: "log_write b s2 = Inr ((), s3)"
    using jn.lw_law [OF s2(2), of 60 b] by (auto simp: wp_def s2(3) p LOGBLOCKS_def MAXOPBLOCKS_def)
  have "txn_step (demo_boot, []) (s1, [10])" using Begin [OF s1(1), of "[]"] by (simp add: MAXOPBLOCKS_def)
  moreover have "txn_step (s1, [10]) (s2, [10])"
    using rest_log(3,4) [OF bread_rest [OF s2(1)]] by (rule Cache)
  moreover have "txn_step (s2, [10]) (s3, [9])" using Write [OF s3, of 0 "[10]"] by simp
  ultimately have path: "txn_step\<^sup>*\<^sup>* (demo_boot, []) (s3, [9])" by (meson converse_rtranclp_into_rtranclp r_into_rtranclp)
  then show ?thesis using log_never_overflows [OF path n f(2), of b] by auto
qed

subsection \<open>A full log cannot be committed\<close>

lemma bread_no_buffers:
  assumes inv: "bio_inv d s" and full: "\<forall>i < NBUF. b_refcnt (bufs s ! i) \<noteq> 0" and "slot d (bufs s) bn = None"
  shows "bread d bn s = Inl (Panic ''bget: no buffers'')"
proof -
  obtain xs where r: "ring (bufs s) xs" using inv by (auto simp: bio_inv_def)
  have "bget_cached (bufs s) d bn = None" using bget_cached_slot [OF r bio_invD(2) [OF inv]] assms(3) by simp
  moreover have "bget_lru (bufs s) = None" using bget_lru_None [OF r] full by simp
  ultimately show ?thesis by (simp add: bread_def bget_def bindk_def gets_def panic_def)
qed

text \<open>When as many blocks are pinned as there are buffers, every buffer is pinned.\<close>

lemma all_pinned:
  assumes inv: "cache_inv d s" and "card (a_pins (abs_cache d s)) = NBUF" and "i < NBUF"
  shows "pinned (bufs s ! i)" and "b_blockno (bufs s ! i) \<in> a_pins (abs_cache d s)"
proof -
  let ?f = "\<lambda>i. b_blockno (bufs s ! i)" and ?P = "{i. i < NBUF \<and> b_dev (bufs s ! i) = d \<and> pinned (bufs s ! i)}"
  have "a_pins (abs_cache d s) = ?f ` ?P" by (auto simp: abs_cache_def pins_of_def caches_def)
  then have "NBUF \<le> card ?P" using assms(2) card_image_le [of ?P ?f] by simp
  moreover have "?P \<subseteq> {..<NBUF}" by auto
  ultimately have "?P = {..<NBUF}" by (intro card_subset_eq) (auto intro: antisym dest: card_mono [rotated])
  with assms(3) have "i \<in> ?P" by blast
  then show "pinned (bufs s ! i)" "?f i \<in> a_pins (abs_cache d s)"
    by (auto simp: abs_cache_def pins_of_def caches_def)
qed

text \<open>
  C34. The log admits \<^verbatim>\<open>LOGBLOCKS\<close> blocks, as many as the cache has buffers (\<^verbatim>\<open>NBUF\<close>). A
  transaction that fills the log pins every buffer, and its commit panics in \<^verbatim>\<open>bget\<close> when it
  reads the first log block.
\<close>

theorem full_log_commit_panics:
  assumes "log_inv s" and "a_held (lab s) = Map.empty" and "length (logged s) = LOGBLOCKS"
  shows "commit s = Inl (Panic ''bget: no buffers'')"
proof -
  let ?d = "log_dev s" and ?b = "tail_blk s 0"
  note D = log_invD [OF assms(1)] and wfD = log_wfD [OF log_invD(1) [OF assms(1)]]
  have card: "card (a_pins (lab s)) = NBUF"
    using D(2) wfD(5) assms(3) by (simp add: distinct_card LOGBLOCKS_def NBUF_def)
  have L: "0 < LOGBLOCKS" by (simp add: LOGBLOCKS_def MAXOPBLOCKS_def)
  have nb: "?b \<notin> a_pins (lab s)" using tail_blk_in [OF L, of s] wfD(6) D(2) by auto
  have bio: "bio_inv ?d s" using wfD(1) by (rule cache_bio)
  have "\<not> caches ?d ?b (bufs s ! i)" if "i < NBUF" for i
    using all_pinned(2) [OF wfD(1) card that] nb by (auto simp: caches_def)
  then have "slot ?d (bufs s) ?b = None" using slot_None [OF bio_invD(1) [OF bio]] by simp
  moreover have "\<forall>i < NBUF. b_refcnt (bufs s ! i) \<noteq> 0"
    using all_pinned(1) [OF wfD(1) card] by (auto simp: pinned_def split: if_splits)
  ultimately have "bread ?d ?b s = Inl (Panic ''bget: no buffers'')" using bio by (intro bread_no_buffers)
  moreover have "[0..<LOGBLOCKS] = 0 # [1..<LOGBLOCKS]" using L by (simp add: upt_conv_Cons)
  ultimately show ?thesis
    using L by (simp add: commit_def write_log_def bindk_def thenk_def gets_def whenk_def wfD(3) assms(3))
qed

text \<open>Three operations begin and together log the blocks 100 to 129.\<close>

definition demo_full :: log_state where
  "demo_full =
     run (for_each [0..<LOGBLOCKS] (\<lambda>k.
            bindk (bread 1 (of_nat (k + 100))) (\<lambda>b. thenk (modk (set_data b (\<lambda>x. x))) (thenk (log_write b) (brelse b)))))
       (run (thenk begin_op (thenk begin_op begin_op)) demo_boot)"

lemma demo_three_ops:
  "wp (thenk begin_op (thenk begin_op begin_op)) demo_boot
     (\<lambda>_ t. dev_is 1 t \<and> abs_cache 1 t = lab demo_boot \<and> lr_start (lrest t) = 2)"
proof -
  note bt = demo_boot_facts
  have f: "log_dev demo_boot = 1" "log_outstanding demo_boot = 0" "\<not> log_committing demo_boot"
    using bt(4) by (simp_all add: lrest_def)
  have n: "lh_n (log_lh s) = 0" if "log_inv s" "logged s = []" for s :: log_state
    using log_wfD(3) [OF log_invD(1) [OF that(1)]] that(2) by simp
  have step: "wp begin_op s (\<lambda>_ t. log_inv t \<and> log_dev t = 1 \<and> \<not> log_committing t \<and> logged t = []
      \<and> log_outstanding t = k + 1 \<and> abs_cache 1 t = lab demo_boot \<and> lr_start (lrest t) = 2)"
    if s: "log_inv s \<and> log_dev s = 1 \<and> \<not> log_committing s \<and> logged s = []
      \<and> log_outstanding s = k \<and> abs_cache 1 s = lab demo_boot \<and> lr_start (lrest s) = 2" "0 \<le> k" "k < 3" for s :: log_state and k
    using s n [of s] by (intro wp_mono [OF begin_op_spec])
      (auto simp: LOGBLOCKS_def MAXOPBLOCKS_def dev_is_def txn_inv_def lrest_def)
  show ?thesis
    unfolding wp_thenk
    by (rule wp_mono [OF step [of demo_boot 0]], use bt f in \<open>simp add: lrest_def\<close>, simp, simp,
        rule wp_mono [OF step [of _ 1]], simp, simp, simp,
        rule wp_mono [OF step [of _ 2]], simp, simp, simp, simp add: dev_is_def txn_inv_def)
qed

lemma demo_full_facts: "log_inv demo_full" "a_held (lab demo_full) = Map.empty" "length (logged demo_full) = LOGBLOCKS"
proof -
  note bt = demo_boot_facts
  have p: "a_pins (lab demo_boot) = {}" using log_invD(2) [OF bt(1)] bt(2) by simp
  let ?s = "run (thenk begin_op (thenk begin_op begin_op)) demo_boot"
  have s: "dev_is 1 ?s" "abs_cache 1 ?s = lab demo_boot" "lr_start (lrest ?s) = 2"
    using wp_run [OF demo_three_ops] by blast+
  let ?blk = "\<lambda>k. of_nat (k + 100) :: u32"
  have u: "unat (?blk k) = k + 100" if "k < LOGBLOCKS" for k
    using that by (simp only: unat_of_nat) (simp add: LOGBLOCKS_def MAXOPBLOCKS_def)
  have inj: "inj_on ?blk {..<LOGBLOCKS}" by (rule inj_onI) (metis u add_right_cancel lessThan_iff)
  have card: "card (?blk ` {..<k}) = k" if "k \<le> LOGBLOCKS" for k
    using inj_on_subset [OF inj, of "{..<k}"] that by (simp add: card_image)
  let ?I = "\<lambda>k t. dev_is 1 t \<and> lrest t = lrest ?s \<and> a_held (abs_cache 1 t) = Map.empty \<and> a_pins (abs_cache 1 t) = ?blk ` {..<k}"
  have "wp (for_each [0..<LOGBLOCKS] (\<lambda>k. bindk (bread 1 (?blk k))
      (\<lambda>b. thenk (modk (set_data b (\<lambda>x. x))) (thenk (log_write b) (brelse b))))) ?s (\<lambda>_ t. ?I LOGBLOCKS t)"
  proof (rule wp_for_range [where I = ?I])
    show "?I 0 ?s" using s p bt(3) by simp
    fix k t
    assume k: "k < LOGBLOCKS" and I: "?I k t"
    have c: "card (a_pins (abs_cache 1 t)) = k" using I card [of k] k by simp
    have home: "home_blk (lrest t) (?blk k)" using I s(3) u [OF k] by (simp add: home_blk_def log_area_2)
    show "wp (bindk (bread 1 (?blk k)) (\<lambda>b. thenk (modk (set_data b (\<lambda>x. x))) (thenk (log_write b) (brelse b)))) t
        (\<lambda>_ u. ?I (Suc k) u)"
      unfolding wp_bindk wp_thenk
      by (rule jn.update_wp [of 1 t]) (use I c k home jn.view_length [of 1 t] in
        \<open>auto simp: in_use_def lessThan_Suc NBUF_def LOGBLOCKS_def\<close>)
  qed
  from wp_run [OF this] have t: "?I LOGBLOCKS demo_full" by (simp add: demo_full_def)
  then have D: "log_inv demo_full" "log_dev demo_full = 1" "card (a_pins (abs_cache 1 demo_full)) = length (logged demo_full)"
    using dev_isD [of 1 demo_full] by blast+
  then show "log_inv demo_full" "a_held (lab demo_full) = Map.empty" "length (logged demo_full) = LOGBLOCKS"
    using t card [of LOGBLOCKS] by simp_all
qed

theorem full_log_commit_panics_witness: "commit demo_full = Inl (Panic ''bget: no buffers'')"
  using full_log_commit_panics demo_full_facts by blast

end
