(* ===== verification/Edf.thy ===== *)
theory Edf
  imports Sched
begin

text \<open>
  Earliest-deadline-first scheduling: what the ready queue of \<^verbatim>\<open>kernel/proc.c\<close> promises.

  \<open>queue\<close> reads the queue off its array; \<open>edf_insert\<close> is the reference insertion. The array loops
  of \<^verbatim>\<open>rq_insert\<close>, \<^verbatim>\<open>rq_remove\<close> and \<^verbatim>\<open>rq_dequeue\<close> are shown equal to list operations, and
  \<open>rq_inv\<close> (the queue is sorted, holds each process once, holds exactly the processes whose
  \<^verbatim>\<open>in_rq\<close> flag is set, all of them runnable) is kept by every operation.
\<close>

section \<open>The queue as a list\<close>

definition queue :: "'a sched_state_scheme \<Rightarrow> nat list" where
  "queue s = take (rq_count (rq s)) (rq_procs (rq s))"

definition edf_insert :: "proc list \<Rightarrow> nat \<Rightarrow> nat list \<Rightarrow> nat list" where
  "edf_insert ps p q = filter (\<lambda>x. \<not> due_after ps x p) q @ p # filter (\<lambda>x. due_after ps x p) q"

definition edf_sorted :: "proc list \<Rightarrow> nat list \<Rightarrow> bool" where
  "edf_sorted ps q \<longleftrightarrow> sorted_wrt (\<lambda>x y. \<not> due_after ps x y) q"

definition rq_inv :: "'a sched_state_scheme \<Rightarrow> bool" where
  "rq_inv s \<longleftrightarrow> length (procs s) = NPROC \<and> length (rq_procs (rq s)) = NPROC \<and> rq_count (rq s) \<le> NPROC
     \<and> distinct (queue s) \<and> set (queue s) = {i. i < NPROC \<and> p_in_rq (procs s ! i)}
     \<and> (\<forall>i\<in>set (queue s). p_state (procs s ! i) = RUNNABLE) \<and> edf_sorted (procs s) (queue s)"

lemma due_after_trans: "due_after ps x y \<Longrightarrow> \<not> due_after ps z y \<Longrightarrow> due_after ps x z"
  by (auto simp: due_after_def)

lemma due_after_irrefl [simp]: "\<not> due_after ps x x"
  by (simp add: due_after_def)

lemma due_after_asym: "due_after ps x y \<Longrightarrow> \<not> due_after ps y x"
  by (auto simp: due_after_def)

lemma sorted_wrt_cong_set:
  "(\<And>x y. x \<in> set xs \<Longrightarrow> y \<in> set xs \<Longrightarrow> R x y = S x y) \<Longrightarrow> sorted_wrt R xs = sorted_wrt S xs"
  by (auto simp: sorted_wrt_iff_nth_less)

lemma rq_shift_up_above:
  assumes "rq_shift_up later n q = (i, q')" and "n < j"
  shows "q' ! j = q ! j"
  using assms by (induction n arbitrary: q) (auto split: if_splits)

lemma rq_shift_up_spec:
  assumes "rq_shift_up later n q = (i, q')" and "n < length q"
  shows "i \<le> n \<and> length q' = length q \<and> (\<forall>j. i \<le> j \<longrightarrow> j < n \<longrightarrow> later (q ! j))
    \<and> (0 < i \<longrightarrow> \<not> later (q ! (i - 1))) \<and> (\<forall>j<i. q' ! j = q ! j)
    \<and> (\<forall>j. i < j \<longrightarrow> j \<le> n \<longrightarrow> q' ! j = q ! (j - 1))"
  using assms
proof (induction n arbitrary: q)
  case 0
  then show ?case by auto
next
  case (Suc n)
  show ?case
  proof (cases "later (q ! n)")
    case False
    then show ?thesis using Suc.prems by auto
  next
    case True
    let ?r = "q[Suc n := q ! n]"
    have r: "rq_shift_up later n ?r = (i, q')" "n < length ?r" using Suc.prems True by auto
    note ih = Suc.IH [OF r]
    have i: "i \<le> n" using ih by simp
    have at: "?r ! j = q ! j" if "j \<le> n" for j using that by simp
    have "later (q ! j)" if "i \<le> j" "j < Suc n" for j
      using ih True that at [of j] by (cases "j = n") auto
    moreover have "q' ! j = q ! (j - 1)" if "i < j" "j \<le> Suc n" for j
    proof (cases "j = Suc n")
      case False
      then show ?thesis using ih that at [of "j - 1"] by auto
    next
      case j: True
      show ?thesis
      proof -
        have "q' ! Suc n = ?r ! Suc n"
          using rq_shift_up_above [OF r(1)] by simp
        then show ?thesis using j Suc.prems(2) by simp
      qed
    qed
    ultimately show ?thesis using ih i at by auto
  qed
qed

lemma rq_shift_up_list:
  assumes "rq_shift_up later n q = (i, q')" and "n < length q"
  shows "take (Suc n) (q'[i := p]) = take i q @ p # drop i (take n q)"
proof (rule nth_equalityI)
  note sp = rq_shift_up_spec [OF assms]
  show len: "length (take (Suc n) (q'[i := p])) = length (take i q @ p # drop i (take n q))"
    using sp assms(2) by simp
  fix j
  assume "j < length (take (Suc n) (q'[i := p]))"
  then have j: "j \<le> n" "j < length q'" using sp by auto
  consider "j < i" | "j = i" | "i < j" by linarith
  then show "take (Suc n) (q'[i := p]) ! j = (take i q @ p # drop i (take n q)) ! j"
  proof cases
    case 3
    then obtain k where k: "j = Suc (i + k)" using less_iff_Suc_add by auto
    then show ?thesis using sp assms(2) j by (simp add: nth_append)
  qed (use sp assms(2) j in \<open>auto simp: nth_append\<close>)
qed

lemma rq_shift_down_list:
  assumes "n \<le> length q" and "i < n"
  shows "take (n - 1) (rq_shift_down i n q) = take i q @ drop (Suc i) (take n q)"
    and "length (rq_shift_down i n q) = length q"
proof -
  have main: "length (foldl (\<lambda>q j. q[j := q ! Suc j]) q [i..<k]) = length q
    \<and> (\<forall>j<length q. foldl (\<lambda>q j. q[j := q ! Suc j]) q [i..<k] ! j
        = (if i \<le> j \<and> j < k then q ! Suc j else q ! j))"
    if "k < length q" "i \<le> k" for k
    using that by (induction k) (auto simp: nth_list_update not_less le_Suc_eq less_Suc_eq)
  from main [of "n - 1"] assms
  show "length (rq_shift_down i n q) = length q" by (simp add: rq_shift_down_def)
  show "take (n - 1) (rq_shift_down i n q) = take i q @ drop (Suc i) (take n q)"
    using main [of "n - 1"] assms
    by (intro nth_equalityI) (auto simp: rq_shift_down_def nth_append)
qed

lemma rq_find_some:
  "rq_find p i n q = Some k \<Longrightarrow> i \<le> k \<and> k < i + n \<and> q ! k = p"
  by (induction p i n q rule: rq_find.induct) (auto split: if_splits)

lemma rq_find_none: "rq_find p i n q = None \<Longrightarrow> i \<le> k \<Longrightarrow> k < i + n \<Longrightarrow> q ! k \<noteq> p"
proof (induction p i n q rule: rq_find.induct)
  case (2 p i n q)
  then show ?case by (cases "k = i") (auto split: if_splits)
qed simp

section \<open>Insertion in deadline order\<close>

lemma sorted_split:
  assumes "sorted_wrt R xs" and "i \<le> length xs" and "\<And>x y. R x y \<Longrightarrow> Q x \<Longrightarrow> Q y"
    and "\<And>j. i \<le> j \<Longrightarrow> j < length xs \<Longrightarrow> Q (xs ! j)" and "0 < i \<Longrightarrow> \<not> Q (xs ! (i - 1))"
  shows "take i xs = filter (\<lambda>x. \<not> Q x) xs" and "drop i xs = filter Q xs"
proof -
  have low: "\<not> Q (xs ! j)" if "j < i" for j
  proof (cases "j = i - 1")
    case False
    then have "R (xs ! j) (xs ! (i - 1))"
      using assms(1,2) that by (auto simp: sorted_wrt_iff_nth_less)
    then show ?thesis using assms(3,5) that by auto
  qed (use assms(5) that in auto)
  have a: "\<forall>x\<in>set (take i xs). \<not> Q x" using low assms(2) by (auto simp: in_set_conv_nth)
  have b: "\<forall>x\<in>set (drop i xs). Q x" using assms(4) by (auto simp: in_set_conv_nth)
  have "filter Q (take i xs @ drop i xs) = drop i xs"
    "filter (\<lambda>x. \<not> Q x) (take i xs @ drop i xs) = take i xs"
    using a b by (simp_all only: filter_append) (simp_all add: filter_True filter_False)
  then show "take i xs = filter (\<lambda>x. \<not> Q x) xs" "drop i xs = filter Q xs" by simp_all
qed

lemma edf_insert_sorted:
  assumes "edf_sorted ps q"
  shows "edf_sorted ps (edf_insert ps p q)"
  using assms
  by (auto simp: edf_sorted_def edf_insert_def sorted_wrt_append sorted_wrt_filter
      dest: due_after_asym due_after_trans)

lemma set_edf_insert [simp]: "set (edf_insert ps p q) = insert p (set q)"
  by (auto simp: edf_insert_def)

lemma distinct_edf_insert: "distinct q \<Longrightarrow> p \<notin> set q \<Longrightarrow> distinct (edf_insert ps p q)"
  by (auto simp: edf_insert_def)

lemma rq_shift_up_insert:
  assumes "rq_shift_up (\<lambda>x. due_after ps x p) n q = (i, q')" and "n < length q"
    and "edf_sorted ps (take n q)"
  shows "take (Suc n) (q'[i := p]) = edf_insert ps p (take n q)"
proof -
  note sp = rq_shift_up_spec [OF assms(1,2)]
  have i: "i \<le> length (take n q)" using sp assms(2) by simp
  have s: "sorted_wrt (\<lambda>x y. \<not> due_after ps x y) (take n q)" using assms(3) by (simp add: edf_sorted_def)
  have tr: "\<not> due_after ps x y \<Longrightarrow> due_after ps x p \<Longrightarrow> due_after ps y p" for x y
    using due_after_trans [of ps x p y] by blast
  have hi: "i \<le> j \<Longrightarrow> j < length (take n q) \<Longrightarrow> due_after ps (take n q ! j) p" for j using sp by simp
  have lo: "0 < i \<Longrightarrow> \<not> due_after ps (take n q ! (i - 1)) p" using sp by (cases i) auto
  have "take i (take n q) = filter (\<lambda>x. \<not> due_after ps x p) (take n q)"
    "drop i (take n q) = filter (\<lambda>x. due_after ps x p) (take n q)"
    using sorted_split [where Q = "\<lambda>x. due_after ps x p", OF s i tr hi lo] by simp_all
  then show ?thesis
    using rq_shift_up_list [OF assms(1,2)] sp by (simp add: edf_insert_def min_def)
qed

section \<open>The operations on the queue\<close>

lemma rq_inv_lens:
  assumes "rq_inv s"
  shows "length (procs s) = NPROC" "length (rq_procs (rq s)) = NPROC" "length (queue s) = rq_count (rq s)"
  using assms by (auto simp: rq_inv_def queue_def)

lemma queue_not_full:
  assumes "rq_inv s" and "p < NPROC" and "\<not> p_in_rq (procs s ! p)"
  shows "rq_count (rq s) < NPROC"
proof -
  have "set (queue s) \<subseteq> {..<NPROC} - {p}" using assms by (auto simp: rq_inv_def)
  then have "card (set (queue s)) \<le> card ({..<NPROC} - {p})" by (intro card_mono) auto
  moreover have "card (set (queue s)) = rq_count (rq s)"
    using assms(1) by (subst distinct_card) (auto simp: rq_inv_def queue_def)
  moreover have "0 < NPROC" using assms(2) by simp
  ultimately show ?thesis using assms(2) by simp
qed

text \<open>The fields the queue operations leave alone.\<close>

definition same_sched :: "'a sched_state_scheme \<Rightarrow> 'a sched_state_scheme \<Rightarrow> bool" where
  "same_sched s t \<longleftrightarrow> (\<exists>ps r. t = s\<lparr>procs := ps, rq := r\<rparr>)"

lemma same_schedI: "same_sched s (s\<lparr>procs := ps, rq := r\<rparr>)"
  by (auto simp: same_sched_def)

lemma same_sched_trans:
  assumes "same_sched s t" and "same_sched t u"
  shows "same_sched s u"
proof -
  obtain ps r where t: "t = s\<lparr>procs := ps, rq := r\<rparr>" using assms(1) by (auto simp: same_sched_def)
  obtain ps' r' where "u = t\<lparr>procs := ps', rq := r'\<rparr>" using assms(2) by (auto simp: same_sched_def)
  then have "u = s\<lparr>procs := ps', rq := r'\<rparr>" by (simp add: t)
  then show ?thesis by (simp only: same_schedI)
qed

lemma same_sched_refl [simp]: "same_sched s s"
  using same_schedI [of s "rq s" "procs s"] by simp

lemma same_sched_procs [simp]: "same_sched s (s\<lparr>procs := ps\<rparr>)"
  using same_schedI [of s "rq s" ps] by simp

lemma same_schedD:
  assumes "same_sched s t"
  shows "cpus t = cpus s" "ticks t = ticks s" "mutexes t = mutexes s" "initproc t = initproc s"
    "nextpid t = nextpid s" "pmem t = pmem s" "freelist t = freelist s" "page_refcount t = page_refcount s"
  using assms by (auto simp only: same_sched_def) simp_all

lemma same_sched_now: "same_sched s t \<Longrightarrow> now_ticks t = now_ticks s"
  by (simp add: now_ticks_def same_schedD)

text \<open>An entry that is not queued may change in any way that keeps it out of the queue.\<close>

lemma rq_inv_upd_proc:
  assumes "rq_inv s" and "p < NPROC" and "\<not> p_in_rq (procs s ! p)" and "\<not> p_in_rq x"
  shows "rq_inv (s\<lparr>procs := (procs s)[p := x]\<rparr>)"
proof -
  have n: "p \<notin> set (queue s)" using assms(1,3) by (auto simp: rq_inv_def)
  have q: "queue (s\<lparr>procs := (procs s)[p := x]\<rparr>) = queue s" by (simp add: queue_def)
  have at: "(procs s)[p := x] ! i = procs s ! i" if "i \<in> set (queue s)" for i
    using n that by (cases "i = p") auto
  have "edf_sorted ((procs s)[p := x]) (queue s) = edf_sorted (procs s) (queue s)"
    unfolding edf_sorted_def
    by (rule sorted_wrt_cong_set) (simp add: due_after_def at)
  moreover have "{i. i < NPROC \<and> p_in_rq ((procs s)[p := x] ! i)} = {i. i < NPROC \<and> p_in_rq (procs s ! i)}"
    using assms(2-4) rq_inv_lens(1) [OF assms(1)] by (auto simp: nth_list_update split: if_splits)
  ultimately show ?thesis
    using assms at by (simp add: rq_inv_def q)
qed

lemma rq_insert_skip:
  "p_in_rq (procs s ! p) \<or> p_start_time (procs s ! p) > now_ticks s \<Longrightarrow> rq_insert p s = Inr ((), s)"
  by (auto simp: rq_insert_def bindk_def gets_def ret_def)

text \<open>
  The insertion: never an overflow, the queue becomes the reference insertion, and only the
  process's \<^verbatim>\<open>in_rq\<close> flag changes in the table.
\<close>

lemma rq_insert_run:
  assumes "rq_inv s" and "p < NPROC" and "\<not> p_in_rq (procs s ! p)"
    and "p_start_time (procs s ! p) \<le> now_ticks s"
  obtains r where
    "rq_insert p s = Inr ((), s\<lparr>procs := (procs s)[p := (procs s ! p)\<lparr>p_in_rq := True\<rparr>], rq := r\<rparr>)"
    and "take (rq_count r) (rq_procs r) = edf_insert (procs s) p (queue s)"
    and "length (rq_procs r) = NPROC" and "rq_count r \<le> NPROC"
proof -
  have room: "rq_count (rq s) < NPROC" using assms(1-3) by (rule queue_not_full)
  obtain i q where sh: "rq_shift_up (\<lambda>x. due_after (procs s) x p) (rq_count (rq s)) (rq_procs (rq s)) = (i, q)"
    by fastforce
  have n: "rq_count (rq s) < length (rq_procs (rq s))" using room rq_inv_lens [OF assms(1)] by simp
  define r where "r = \<lparr>rq_procs = q[i := p], rq_count = rq_count (rq s) + 1\<rparr>"
  have run: "rq_insert p s = Inr ((), s\<lparr>procs := (procs s)[p := (procs s ! p)\<lparr>p_in_rq := True\<rparr>], rq := r\<rparr>)"
    using assms(3,4) room sh
    by (simp add: rq_insert_def bindk_def thenk_def gets_def modk_def upd_proc_def ret_def r_def)
  have q: "take (rq_count r) (rq_procs r) = edf_insert (procs s) p (queue s)"
    using rq_shift_up_insert [OF sh n] assms(1) by (simp add: r_def queue_def rq_inv_def)
  have "length q = NPROC" using rq_shift_up_spec [OF sh n] rq_inv_lens [OF assms(1)] by simp
  then show thesis using run q room by (intro that [of r]) (simp_all add: r_def)
qed

lemma nth_update_field:
  assumes "f (g (ps ! p)) = f (ps ! p)"
  shows "f (ps[p := g (ps ! p)] ! x) = f (ps ! x)"
  using assms by (cases "x = p"; cases "p < length ps") (simp_all add: list_update_beyond not_less)

lemma edf_sorted_upd:
  assumes "p_deadline (g (ps ! p)) = p_deadline (ps ! p)" and "p_priority (g (ps ! p)) = p_priority (ps ! p)"
  shows "edf_sorted (ps[p := g (ps ! p)]) q = edf_sorted ps q"
  using nth_update_field [of p_deadline g ps p, OF assms(1)] nth_update_field [of p_priority g ps p, OF assms(2)]
  by (simp add: edf_sorted_def due_after_def)

lemma edf_sorted_in_rq:
  "edf_sorted (ps[p := (ps ! p)\<lparr>p_in_rq := b\<rparr>]) q = edf_sorted ps q"
  using edf_sorted_upd [of "\<lambda>x. x\<lparr>p_in_rq := b\<rparr>" ps p q] by simp

lemma rq_insert_spec:
  assumes "rq_inv s" and "p < NPROC" and "p_state (procs s ! p) = RUNNABLE"
  shows "wp (rq_insert p) s (\<lambda>_ t. rq_inv t \<and> same_sched s t
    \<and> (\<exists>b. procs t = (procs s)[p := (procs s ! p)\<lparr>p_in_rq := b\<rparr>]
        \<and> b = (p_in_rq (procs s ! p) \<or> p_start_time (procs s ! p) \<le> now_ticks s))
    \<and> queue t = (if \<not> p_in_rq (procs s ! p) \<and> p_start_time (procs s ! p) \<le> now_ticks s
        then edf_insert (procs s) p (queue s) else queue s))" (is "wp _ _ ?Q")
proof (cases "p_in_rq (procs s ! p) \<or> p_start_time (procs s ! p) > now_ticks s")
  case True
  have "(procs s)[p := (procs s ! p)\<lparr>p_in_rq := p_in_rq (procs s ! p)\<rparr>] = procs s" by simp
  moreover have "p_in_rq (procs s ! p) = (p_in_rq (procs s ! p) \<or> p_start_time (procs s ! p) \<le> now_ticks s)"
    using True by auto
  ultimately have "?Q () s" using assms(1) True by auto
  then show ?thesis using rq_insert_skip [OF True] by (auto simp: wp_def)
next
  case False
  then have f: "\<not> p_in_rq (procs s ! p)" "p_start_time (procs s ! p) \<le> now_ticks s" by auto
  obtain r where r:
    "rq_insert p s = Inr ((), s\<lparr>procs := (procs s)[p := (procs s ! p)\<lparr>p_in_rq := True\<rparr>], rq := r\<rparr>)"
    "take (rq_count r) (rq_procs r) = edf_insert (procs s) p (queue s)"
    "length (rq_procs r) = NPROC" "rq_count r \<le> NPROC"
    using rq_insert_run [OF assms(1,2) f] by blast
  define t where "t = s\<lparr>procs := (procs s)[p := (procs s ! p)\<lparr>p_in_rq := True\<rparr>], rq := r\<rparr>"
  have qt: "queue t = edf_insert (procs s) p (queue s)" using r(2) by (simp add: t_def queue_def)
  have pt: "procs t = (procs s)[p := (procs s ! p)\<lparr>p_in_rq := True\<rparr>]" by (simp add: t_def)
  have np: "p \<notin> set (queue s)" using assms(1) f(1) by (auto simp: rq_inv_def)
  have "edf_sorted (procs t) (queue t)"
    using assms(1) edf_insert_sorted [of "procs s" "queue s" p]
    by (simp add: qt pt edf_sorted_in_rq rq_inv_def)
  moreover have "distinct (queue t)" using assms(1) np by (simp add: qt distinct_edf_insert rq_inv_def)
  moreover have "set (queue t) = {i. i < NPROC \<and> p_in_rq (procs t ! i)}"
    using assms(1,2) by (auto simp: qt pt nth_list_update rq_inv_def split: if_splits)
  moreover have "\<forall>i\<in>set (queue t). p_state (procs t ! i) = RUNNABLE"
    using assms by (auto simp: qt pt nth_list_update rq_inv_def)
  ultimately have "rq_inv t" using r(3,4) assms(1) by (simp add: rq_inv_def t_def)
  moreover have "same_sched s t" by (simp add: t_def same_schedI)
  ultimately have "?Q () t" using f qt pt by auto
  then show ?thesis using r(1) [folded t_def] unfolding wp_def by blast
qed

lemma rq_inv_remove:
  assumes "rq_inv s" and "p \<in> set (queue s)" and "take (rq_count r) (rq_procs r) = remove1 p (queue s)"
    and "length (rq_procs r) = NPROC" and "rq_count r \<le> NPROC"
  shows "rq_inv (s\<lparr>procs := (procs s)[p := (procs s ! p)\<lparr>p_in_rq := False\<rparr>], rq := r\<rparr>)" (is "rq_inv ?t")
proof -
  have q: "queue ?t = remove1 p (queue s)" using assms(3) by (simp add: queue_def)
  have d: "distinct (queue s)" using assms(1) by (simp add: rq_inv_def)
  have l: "length (procs s) = NPROC" using rq_inv_lens(1) [OF assms(1)] .
  have sq: "set (remove1 p (queue s)) = set (queue s) - {p}" using d by simp
  have at: "procs ?t ! i = procs s ! i" if "i \<noteq> p" for i using that by simp
  have rf: "remove1 p (queue s) = filter (\<lambda>x. p \<noteq> x) (queue s)"
    using d by (simp add: distinct_remove1_removeAll removeAll_filter_not_eq)
  have "edf_sorted (procs s) (remove1 p (queue s))"
    using assms(1) by (simp add: rf edf_sorted_def sorted_wrt_filter rq_inv_def)
  then have "edf_sorted (procs ?t) (queue ?t)" unfolding q by (simp add: edf_sorted_in_rq)
  moreover have "set (queue ?t) = {i. i < NPROC \<and> p_in_rq (procs ?t ! i)}"
    unfolding q sq using assms(1,2) l by (auto simp: nth_list_update rq_inv_def split: if_splits)
  moreover have "\<forall>i\<in>set (queue ?t). p_state (procs ?t ! i) = RUNNABLE"
    unfolding q sq using assms(1) by (auto simp: rq_inv_def)
  moreover have "distinct (queue ?t)" unfolding q using d by simp
  ultimately show ?thesis using assms(4,5) l unfolding rq_inv_def by simp
qed

lemma rq_dequeue_spec:
  assumes "rq_inv s"
  shows "wp rq_dequeue s (\<lambda>x t. rq_inv t \<and> same_sched s t \<and> (case queue s of
      [] \<Rightarrow> x = None \<and> t = s
    | p # q \<Rightarrow> x = Some p \<and> queue t = q \<and> procs t = (procs s)[p := (procs s ! p)\<lparr>p_in_rq := False\<rparr>]))"
    (is "wp _ _ ?Q")
proof (cases "queue s")
  case Nil
  then have "rq_count (rq s) = 0" using rq_inv_lens(3) [OF assms] by simp
  then have "rq_dequeue s = Inr (None, s)" by (simp add: rq_dequeue_def bindk_def gets_def ret_def)
  then show ?thesis using assms Nil by (auto simp: wp_def)
next
  case (Cons p q)
  let ?n = "rq_count (rq s)" and ?a = "rq_procs (rq s)"
  have n: "?n \<noteq> 0" "?n \<le> length ?a" using rq_inv_lens [OF assms] Cons assms by (auto simp: rq_inv_def)
  have p: "?a ! 0 = p" using Cons n by (cases ?a) (auto simp: queue_def take_Cons split: nat.splits)
  define r where "r = \<lparr>rq_procs = rq_shift_down 0 ?n ?a, rq_count = ?n - 1\<rparr>"
  have r: "take (rq_count r) (rq_procs r) = q" "length (rq_procs r) = NPROC" "rq_count r \<le> NPROC"
    using rq_shift_down_list [of ?n ?a 0] n Cons rq_inv_lens [OF assms] assms
    by (auto simp: r_def rq_inv_def) (simp add: queue_def drop_Suc)
  define t where "t = s\<lparr>procs := (procs s)[p := (procs s ! p)\<lparr>p_in_rq := False\<rparr>], rq := r\<rparr>"
  have "rq_dequeue s = Inr (Some p, t)"
    using n p by (simp add: rq_dequeue_def bindk_def thenk_def gets_def modk_def upd_proc_def ret_def r_def t_def)
  moreover have "rq_inv t" unfolding t_def using assms Cons r by (intro rq_inv_remove) auto
  moreover have "same_sched s t" by (simp add: t_def same_schedI)
  moreover have "queue t = q" using r(1) by (simp add: t_def queue_def)
  ultimately show ?thesis using Cons by (auto simp: wp_def t_def)
qed

lemma rq_remove_spec:
  assumes "rq_inv s"
  shows "wp (rq_remove p) s (\<lambda>_ t. rq_inv t \<and> same_sched s t \<and> queue t = remove1 p (queue s)
    \<and> procs t = (procs s)[p := (procs s ! p)\<lparr>p_in_rq := False\<rparr>])" (is "wp _ _ ?Q")
proof (cases "rq_find p 0 (rq_count (rq s)) (rq_procs (rq s))")
  case None
  have n: "p \<notin> set (queue s)"
    using rq_find_none [OF None] by (auto simp: queue_def in_set_conv_nth)
  then have "(procs s)[p := (procs s ! p)\<lparr>p_in_rq := False\<rparr>] = procs s"
  proof (cases "p < NPROC")
    case True
    then have "\<not> p_in_rq (procs s ! p)" using n assms by (auto simp: rq_inv_def)
    then have "(procs s ! p)\<lparr>p_in_rq := False\<rparr> = procs s ! p" by simp
    then show ?thesis by simp
  qed (use rq_inv_lens(1) [OF assms] in \<open>simp add: list_update_beyond\<close>)
  moreover have "rq_remove p s = Inr ((), s)"
    using None by (simp add: rq_remove_def bindk_def gets_def ret_def)
  ultimately show ?thesis using assms n by (auto simp: wp_def remove1_idem)
next
  case (Some i)
  let ?n = "rq_count (rq s)" and ?a = "rq_procs (rq s)"
  have i: "i < ?n" "?a ! i = p" using rq_find_some [OF Some] by auto
  have n: "?n \<le> length ?a" using rq_inv_lens [OF assms] assms by (auto simp: rq_inv_def)
  have qs: "queue s = take i (queue s) @ p # drop (Suc i) (queue s)"
    using i n by (metis id_take_nth_drop length_take min.absorb2 nth_take queue_def)
  have "distinct (queue s)" using assms by (simp add: rq_inv_def)
  then have rm: "remove1 p (queue s) = take i (queue s) @ drop (Suc i) (queue s)"
    by (subst qs, subst (asm) qs) (simp add: remove1_append)
  define r where "r = \<lparr>rq_procs = rq_shift_down i ?n ?a, rq_count = ?n - 1\<rparr>"
  have r: "take (rq_count r) (rq_procs r) = remove1 p (queue s)" "length (rq_procs r) = NPROC" "rq_count r \<le> NPROC"
    using rq_shift_down_list [OF n i(1)] i(1) rm rq_inv_lens [OF assms] assms
    by (auto simp: r_def rq_inv_def queue_def)
  define t where "t = s\<lparr>procs := (procs s)[p := (procs s ! p)\<lparr>p_in_rq := False\<rparr>], rq := r\<rparr>"
  have "rq_remove p s = Inr ((), t)"
    using Some by (simp add: rq_remove_def bindk_def thenk_def gets_def modk_def upd_proc_def ret_def r_def t_def)
  moreover have "rq_inv t" unfolding t_def using assms r qs by (intro rq_inv_remove) (auto simp: in_set_conv_decomp)
  moreover have "same_sched s t" by (simp add: t_def same_schedI)
  moreover have "queue t = remove1 p (queue s)" using r(1) by (simp add: t_def queue_def)
  ultimately show ?thesis by (auto simp: wp_def t_def)
qed

end
