(* ===== verification/Sched_Props.thy ===== *)
theory Sched_Props
  imports Edf
begin

text \<open>
  Properties of the scheduler, of \<^verbatim>\<open>wakeup\<close>, \<^verbatim>\<open>kkill\<close>, \<^verbatim>\<open>yield\<close> and of the mutexes.
\<close>

section \<open>Deferred activation\<close>

text \<open>What the queue flag does not touch of a process.\<close>

definition core :: "proc \<Rightarrow> proc" where
  "core p = p\<lparr>p_in_rq := False\<rparr>"

definition same_cores :: "'a sched_state_scheme \<Rightarrow> 'a sched_state_scheme \<Rightarrow> bool" where
  "same_cores s t \<longleftrightarrow> map core (procs t) = map core (procs s)"

lemma core_eq: "core p = core q \<Longrightarrow> p_state p = p_state q \<and> p_deadline p = p_deadline q
    \<and> p_priority p = p_priority q \<and> p_start_time p = p_start_time q \<and> p_chan p = p_chan q
    \<and> p_killed p = p_killed q"
  by (cases p; cases q) (simp add: core_def)

lemma same_coresD:
  assumes "same_cores s t" and "i < length (procs s)"
  shows "core (procs t ! i) = core (procs s ! i)"
  using assms by (metis same_cores_def length_map nth_map)

lemma map_core_upd: "map core (ps[p := (ps ! p)\<lparr>p_in_rq := b\<rparr>]) = map core ps"
proof (rule nth_equalityI)
  fix i
  assume "i < length (map core (ps[p := (ps ! p)\<lparr>p_in_rq := b\<rparr>]))"
  then show "map core (ps[p := (ps ! p)\<lparr>p_in_rq := b\<rparr>]) ! i = map core ps ! i"
    by (cases "i = p") (simp_all add: core_def)
qed simp

definition eligible :: "int \<Rightarrow> proc \<Rightarrow> bool" where
  "eligible now p \<longleftrightarrow> p_state p = RUNNABLE \<and> p_start_time p \<le> now"

definition activated :: "'a sched_state_scheme \<Rightarrow> nat \<Rightarrow> 'a sched_state_scheme \<Rightarrow> bool" where
  "activated s k t \<longleftrightarrow> rq_inv t \<and> same_sched s t \<and> same_cores s t
    \<and> (\<forall>i<NPROC. p_in_rq (procs t ! i) = (p_in_rq (procs s ! i) \<or> i < k \<and> eligible (now_ticks s) (procs s ! i)))"

lemma activate_step:
  assumes "activated s k t" and "k < NPROC" and "rq_inv s"
  shows "wp (activate (now_ticks s) k) t (\<lambda>_ u. activated s (Suc k) u)"
proof -
  have inv: "rq_inv t" "same_sched s t" "same_cores s t" using assms(1) by (auto simp: activated_def)
  have len: "length (procs t) = NPROC" using rq_inv_lens(1) [OF inv(1)] .
  have ck: "core (procs t ! k) = core (procs s ! k)"
    using inv(3) assms(2) rq_inv_lens(1) [OF assms(3)] by (intro same_coresD) auto
  have el: "eligible (now_ticks s) (procs t ! k) = eligible (now_ticks s) (procs s ! k)"
    using core_eq [OF ck] by (simp add: eligible_def)
  have kin: "p_in_rq (procs t ! k) = p_in_rq (procs s ! k)" using assms(1,2) by (simp add: activated_def)
  show ?thesis
  proof (cases "eligible (now_ticks s) (procs t ! k) \<and> \<not> p_in_rq (procs t ! k)")
    case False
    then have "activate (now_ticks s) k t = Inr ((), t)"
      by (auto simp: activate_def eligible_def bindk_def gets_def whenk_def ret_def)
    moreover have "activated s (Suc k) t"
      using assms(1,2) False el kin by (auto simp: activated_def less_Suc_eq)
    ultimately show ?thesis by (auto simp: wp_def)
  next
    case True
    have "wp (rq_insert k) t (\<lambda>_ u. rq_inv u \<and> same_sched t u
      \<and> procs u = (procs t)[k := (procs t ! k)\<lparr>p_in_rq := True\<rparr>])"
      using rq_insert_spec [OF inv(1) assms(2)] True same_sched_now [OF inv(2)]
      by (auto simp: eligible_def elim!: wp_mono)
    then obtain u where u: "rq_insert k t = Inr ((), u)" "rq_inv u" "same_sched t u"
      "procs u = (procs t)[k := (procs t ! k)\<lparr>p_in_rq := True\<rparr>]" by (auto simp: wp_def)
    have "activate (now_ticks s) k t = Inr ((), u)"
      using True u(1) by (auto simp: activate_def eligible_def bindk_def gets_def whenk_def)
    moreover have "same_sched s u" using inv(2) u(3) by (rule same_sched_trans)
    moreover have "same_cores s u" using inv(3) by (simp add: same_cores_def u(4) map_core_upd)
    moreover have "p_in_rq (procs u ! i) = (p_in_rq (procs s ! i) \<or> i < Suc k \<and> eligible (now_ticks s) (procs s ! i))"
      if "i < NPROC" for i
      using assms(1) that True el len by (cases "i = k") (auto simp: activated_def u(4) less_Suc_eq)
    ultimately show ?thesis using u(2) by (simp add: wp_def activated_def)
  qed
qed

lemma activation_spec:
  assumes "rq_inv s"
  shows "wp (for_each [0..<NPROC] (activate (now_ticks s))) s (\<lambda>_ t. activated s NPROC t)"
proof (rule wp_for_range [where I = "activated s"])
  show "activated s 0 s" using assms by (simp add: activated_def same_cores_def)
qed (use activate_step assms in auto)

section \<open>The scheduler\<close>

definition candidate :: "'a sched_state_scheme \<Rightarrow> nat \<Rightarrow> bool" where
  "candidate s i \<longleftrightarrow> i < NPROC \<and> p_state (procs s ! i) = RUNNABLE
     \<and> (p_in_rq (procs s ! i) \<or> p_start_time (procs s ! i) \<le> now_ticks s)"

lemma activated_queue:
  assumes "activated s NPROC t" and "rq_inv s"
  shows "set (queue t) = {i. candidate s i}"
proof -
  have "p_state (procs s ! i) = RUNNABLE" if "p_in_rq (procs s ! i)" "i < NPROC" for i
    using assms(2) that by (auto simp: rq_inv_def)
  then show ?thesis using assms(1)
    by (auto simp: activated_def rq_inv_def candidate_def eligible_def)
qed

lemma due_after_cores:
  assumes "same_cores s t" and "rq_inv s" and "x < NPROC" and "y < NPROC"
  shows "due_after (procs t) x y = due_after (procs s) x y"
  using core_eq [OF same_coresD [OF assms(1)], of x] core_eq [OF same_coresD [OF assms(1)], of y]
    rq_inv_lens(1) [OF assms(2)] assms(3,4)
  by (simp add: due_after_def)

definition run_on :: "nat \<Rightarrow> nat \<Rightarrow> 'a sched_state_scheme \<Rightarrow> 'a sched_state_scheme" where
  "run_on h p s = s\<lparr>procs := (procs s)[p := (procs s ! p)\<lparr>p_state := RUNNING\<rparr>],
     cpus := (cpus s)[h := (cpus s ! h)\<lparr>c_proc := Some p\<rparr>]\<rparr>"

lemma scheduler_run:
  fixes s :: "'a sched_state_scheme"
  assumes "rq_inv s"
  obtains (idle) t where "scheduler h s = Inr (None, t)" "rq_inv t" "{i. candidate s i} = {}"
  | (pick) p u where "scheduler h s = Inr (Some p, run_on h p u)" "rq_inv u" "same_sched s u"
      "candidate s p" "\<forall>i. candidate s i \<longrightarrow> \<not> due_after (procs s) p i"
      "\<not> p_in_rq (procs u ! p)" "same_cores s u"
proof -
  obtain t where act: "for_each [0..<NPROC] (activate (now_ticks s)) s = Inr ((), t)" and t: "activated s NPROC t"
    using activation_spec [OF assms] by (auto simp: wp_def)
  have inv: "rq_inv t" "same_sched s t" "same_cores s t" using t by (auto simp: activated_def)
  note q = activated_queue [OF t assms]
  show thesis
  proof (cases "queue t")
    case Nil
    then have "rq_dequeue t = Inr (None, t)" using rq_dequeue_spec [OF inv(1)] by (auto simp: wp_def)
    then have "scheduler h s = Inr (None, t)"
      by (simp add: scheduler_def bindk_def thenk_def gets_def act ret_def)
    then show thesis using inv(1) q Nil by (intro idle) auto
  next
    case (Cons p ps)
    then obtain u where u: "rq_dequeue t = Inr (Some p, u)" "rq_inv u" "same_sched t u"
      "procs u = (procs t)[p := (procs t ! p)\<lparr>p_in_rq := False\<rparr>]"
      using rq_dequeue_spec [OF inv(1)] by (auto simp: wp_def)
    have p: "candidate s p" using q Cons by auto
    then have pn: "p < NPROC" by (simp add: candidate_def)
    have len: "length (procs t) = NPROC" using rq_inv_lens(1) [OF inv(1)] .
    have "p_state (procs u ! p) = RUNNABLE"
      using inv(1) Cons pn len by (simp add: u(4) rq_inv_def)
    then have run: "scheduler h s = Inr (Some p, run_on h p u)"
      by (simp add: scheduler_def bindk_def thenk_def gets_def act u(1) ret_def upd_proc_def modk_def run_on_def)
    have "\<not> due_after (procs s) p i" if i: "candidate s i" for i
    proof (cases "i = p")
      case False
      then have "i \<in> set ps" using q Cons i by auto
      then have "\<not> due_after (procs t) p i" using inv(1) Cons by (simp add: rq_inv_def edf_sorted_def)
      then show ?thesis using due_after_cores [OF inv(3) assms pn] i by (simp add: candidate_def)
    qed simp
    moreover have "same_cores s u" using inv(3) by (simp add: same_cores_def u(4) map_core_upd)
    moreover have "\<not> p_in_rq (procs u ! p)" using pn len by (simp add: u(4))
    ultimately show thesis
      using run u(2) same_sched_trans [OF inv(2) u(3)] p by (intro pick) auto
  qed
qed

lemma rq_inv_cong: "procs t = procs s \<Longrightarrow> rq t = rq s \<Longrightarrow> rq_inv t = rq_inv s"
  by (simp add: rq_inv_def queue_def)

lemma rq_inv_run_on:
  assumes "rq_inv u" and "p < NPROC" and "\<not> p_in_rq (procs u ! p)"
  shows "rq_inv (run_on h p u)"
proof -
  have "rq_inv (u\<lparr>procs := (procs u)[p := (procs u ! p)\<lparr>p_state := RUNNING\<rparr>]\<rparr>)"
    using assms by (intro rq_inv_upd_proc) auto
  then show ?thesis by (subst rq_inv_cong) (auto simp: run_on_def)
qed

section \<open>Waking sleepers\<close>

definition sleeper :: "nat option \<Rightarrow> chan \<Rightarrow> nat \<Rightarrow> proc \<Rightarrow> bool" where
  "sleeper me c i p \<longleftrightarrow> Some i \<noteq> me \<and> p_state p = SLEEPING \<and> p_chan p = Some c"

definition wake_proc :: "int \<Rightarrow> proc \<Rightarrow> proc" where
  "wake_proc now p = p\<lparr>p_state := RUNNABLE, p_in_rq := (p_start_time p \<le> now)\<rparr>"

lemma make_runnable:
  assumes "rq_inv s" and "i < NPROC" and "p_state (procs s ! i) = SLEEPING"
  shows "wp (thenk (upd_proc i (\<lambda>p. p\<lparr>p_state := RUNNABLE\<rparr>)) (rq_insert i)) s (\<lambda>_ t. rq_inv t \<and> same_sched s t
    \<and> procs t = (procs s)[i := wake_proc (now_ticks s) (procs s ! i)])"
proof -
  have nq: "\<not> p_in_rq (procs s ! i)" using assms by (auto simp: rq_inv_def)
  have len: "length (procs s) = NPROC" using rq_inv_lens(1) [OF assms(1)] .
  define u where "u = s\<lparr>procs := (procs s)[i := (procs s ! i)\<lparr>p_state := RUNNABLE\<rparr>]\<rparr>"
  have "rq_inv u" unfolding u_def using assms nq by (intro rq_inv_upd_proc) auto
  moreover have "p_state (procs u ! i) = RUNNABLE" using assms(2) len by (simp add: u_def)
  ultimately have "wp (rq_insert i) u (\<lambda>_ t. rq_inv t \<and> same_sched u t
    \<and> procs t = (procs u)[i := (procs u ! i)\<lparr>p_in_rq := (p_start_time (procs u ! i) \<le> now_ticks u)\<rparr>])"
    using rq_insert_spec [of u i] assms(2) nq len by (auto simp: u_def elim!: wp_mono)
  then obtain t where t: "rq_insert i u = Inr ((), t)" "rq_inv t" "same_sched u t"
    "procs t = (procs u)[i := (procs u ! i)\<lparr>p_in_rq := (p_start_time (procs u ! i) \<le> now_ticks u)\<rparr>]"
    by (auto simp: wp_def)
  have "same_sched s u" by (simp add: u_def)
  then have "same_sched s t" using t(3) by (rule same_sched_trans)
  moreover have "(procs u)[i := (procs u ! i)\<lparr>p_in_rq := (p_start_time (procs u ! i) \<le> now_ticks u)\<rparr>]
      = (procs s)[i := wake_proc (now_ticks s) (procs s ! i)]"
    using assms(2) len by (simp add: u_def wake_proc_def now_ticks_def)
  moreover have "thenk (upd_proc i (\<lambda>p. p\<lparr>p_state := RUNNABLE\<rparr>)) (rq_insert i) s = Inr ((), t)"
    using t(1) by (simp add: thenk_def bindk_def upd_proc_def modk_def u_def)
  ultimately show ?thesis using t(2,4) by (simp add: wp_def)
qed

definition woken_upto :: "nat \<Rightarrow> chan \<Rightarrow> 'a sched_state_scheme \<Rightarrow> nat \<Rightarrow> 'a sched_state_scheme \<Rightarrow> bool" where
  "woken_upto h c s k t \<longleftrightarrow> rq_inv t \<and> same_sched s t \<and> (\<forall>i<NPROC. procs t ! i =
     (if i < k \<and> sleeper (myproc h s) c i (procs s ! i) then wake_proc (now_ticks s) (procs s ! i)
      else procs s ! i))"

lemma wakeup1_step:
  assumes "woken_upto h c s k t" and "k < NPROC"
  shows "wp (wakeup1 h c k) t (\<lambda>_ u. woken_upto h c s (Suc k) u)"
proof -
  have inv: "rq_inv t" "same_sched s t" using assms(1) by (auto simp: woken_upto_def)
  have k: "procs t ! k = procs s ! k" using assms by (simp add: woken_upto_def)
  have me: "myproc h t = myproc h s" by (simp add: myproc_def mycpu_def same_schedD [OF inv(2)])
  have now: "now_ticks t = now_ticks s" using inv(2) by (rule same_sched_now)
  have len: "length (procs t) = NPROC" using rq_inv_lens(1) [OF inv(1)] .
  show ?thesis
  proof (cases "sleeper (myproc h s) c k (procs s ! k)")
    case False
    then have "wakeup1 h c k t = Inr ((), t)"
      by (auto simp: wakeup1_def sleeper_def bindk_def gets_def whenk_def ret_def me k)
    moreover have "woken_upto h c s (Suc k) t"
      using assms False by (auto simp: woken_upto_def less_Suc_eq)
    ultimately show ?thesis by (auto simp: wp_def)
  next
    case True
    then obtain u where u: "thenk (upd_proc k (\<lambda>p. p\<lparr>p_state := RUNNABLE\<rparr>)) (rq_insert k) t = Inr ((), u)"
      "rq_inv u" "same_sched t u" "procs u = (procs t)[k := wake_proc (now_ticks s) (procs s ! k)]"
      using make_runnable [OF inv(1) assms(2)] by (auto simp: wp_def sleeper_def k now)
    have "wakeup1 h c k t = Inr ((), u)"
      using True u(1) by (auto simp: wakeup1_def sleeper_def bindk_def gets_def whenk_def me k)
    moreover have "same_sched s u" using inv(2) u(3) by (rule same_sched_trans)
    moreover have "procs u ! i = (if i < Suc k \<and> sleeper (myproc h s) c i (procs s ! i)
        then wake_proc (now_ticks s) (procs s ! i) else procs s ! i)" if "i < NPROC" for i
      using assms(1) that True len by (cases "i = k") (auto simp: woken_upto_def u(4) less_Suc_eq)
    ultimately show ?thesis using u(2) by (simp add: wp_def woken_upto_def)
  qed
qed

lemma wakeup_run:
  assumes "rq_inv s"
  shows "wp (wakeup h c) s (\<lambda>_ t. woken_upto h c s NPROC t)"
  unfolding wakeup_def
proof (rule wp_for_range [where I = "woken_upto h c s"])
  show "woken_upto h c s 0 s" using assms by (simp add: woken_upto_def)
qed (use wakeup1_step in auto)

section \<open>Killing\<close>

lemma find_pid_some: "find_pid pid ps = Some i \<Longrightarrow> i < length ps \<and> p_pid (ps ! i) = pid"
  by (induction ps arbitrary: i) (auto split: if_splits)

lemma rq_inv_upd_field:
  assumes "rq_inv s" and "p_in_rq (g (procs s ! p)) = p_in_rq (procs s ! p)"
    and "p_state (g (procs s ! p)) = p_state (procs s ! p)"
    and "p_deadline (g (procs s ! p)) = p_deadline (procs s ! p)"
    and "p_priority (g (procs s ! p)) = p_priority (procs s ! p)"
  shows "rq_inv (s\<lparr>procs := (procs s)[p := g (procs s ! p)]\<rparr>)"
proof -
  have q: "queue (s\<lparr>procs := (procs s)[p := g (procs s ! p)]\<rparr>) = queue s" by (simp add: queue_def)
  have "p_in_rq ((procs s)[p := g (procs s ! p)] ! i) = p_in_rq (procs s ! i)"
    "p_state ((procs s)[p := g (procs s ! p)] ! i) = p_state (procs s ! i)" for i
    using assms(2,3) by (simp_all add: nth_update_field)
  then show ?thesis
    using assms(1) edf_sorted_upd [of g "procs s" p, OF assms(4,5)] unfolding rq_inv_def q by simp
qed

lemma kkill_run:
  assumes "rq_inv s" and "find_pid pid (procs s) = Some i"
  shows "wp (kkill pid) s (\<lambda>r t. r = 0 \<and> rq_inv t \<and> same_sched s t \<and> procs t = (procs s)[i :=
    (if p_state (procs s ! i) = SLEEPING then wake_proc (now_ticks s) ((procs s ! i)\<lparr>p_killed := 1\<rparr>)
     else (procs s ! i)\<lparr>p_killed := 1\<rparr>)])"
proof -
  have i: "i < NPROC" using find_pid_some [OF assms(2)] rq_inv_lens(1) [OF assms(1)] by simp
  have len: "length (procs s) = NPROC" using rq_inv_lens(1) [OF assms(1)] .
  define u where "u = s\<lparr>procs := (procs s)[i := (procs s ! i)\<lparr>p_killed := 1\<rparr>]\<rparr>"
  have iu: "rq_inv u"
    using rq_inv_upd_field [OF assms(1), of "\<lambda>x. x\<lparr>p_killed := 1\<rparr>" i] by (simp add: u_def)
  have su: "same_sched s u" by (simp add: u_def)
  have pu: "procs u ! i = (procs s ! i)\<lparr>p_killed := 1\<rparr>" using i len by (simp add: u_def)
  have k: "kkill pid s = thenk (whenk (p_state (procs u ! i) = SLEEPING)
      (thenk (upd_proc i (\<lambda>p. p\<lparr>p_state := RUNNABLE\<rparr>)) (rq_insert i))) (ret 0) u"
    using assms(2) by (simp add: kkill_def thenk_def bindk_def gets_def upd_proc_def modk_def u_def)
  show ?thesis
  proof (cases "p_state (procs s ! i) = SLEEPING")
    case False
    then have "kkill pid s = Inr (0, u)" using k pu by (simp add: whenk_def thenk_def bindk_def ret_def)
    then show ?thesis using iu su False by (simp add: wp_def u_def)
  next
    case True
    then have sl: "p_state (procs u ! i) = SLEEPING" by (simp add: pu)
    obtain t where t: "thenk (upd_proc i (\<lambda>p. p\<lparr>p_state := RUNNABLE\<rparr>)) (rq_insert i) u = Inr ((), t)"
      "rq_inv t" "same_sched u t" "procs t = (procs u)[i := wake_proc (now_ticks u) (procs u ! i)]"
      using make_runnable [OF iu i sl] by (auto simp: wp_def)
    have "kkill pid s = Inr (0, t)" using k sl t(1) by (simp add: whenk_def thenk_def bindk_def ret_def)
    moreover have "same_sched s t" using su t(3) by (rule same_sched_trans)
    moreover have "procs t = (procs s)[i := wake_proc (now_ticks s) ((procs s ! i)\<lparr>p_killed := 1\<rparr>)]"
      using same_sched_now [OF su] pu by (simp add: t(4)) (simp add: u_def)
    ultimately show ?thesis using t(2) True by (simp add: wp_def)
  qed
qed

section \<open>Properties\<close>



text \<open>
  C27. \<^verbatim>\<open>wakeup\<close> makes runnable exactly the processes that sleep on the channel (the caller apart),
  queues those whose start time has come, and leaves every other entry of the table as it was.
\<close>

theorem wakeup_correct:
  assumes "rq_inv s"
  shows "wp (wakeup h c) s (\<lambda>_ t. rq_inv t \<and> (\<forall>i<NPROC. procs t ! i =
    (if Some i \<noteq> myproc h s \<and> p_state (procs s ! i) = SLEEPING \<and> p_chan (procs s ! i) = Some c
     then (procs s ! i)\<lparr>p_state := RUNNABLE, p_in_rq := (p_start_time (procs s ! i) \<le> now_ticks s)\<rparr>
     else procs s ! i)))"
  using wakeup_run [OF assms]
  by (rule wp_mono) (simp add: woken_upto_def sleeper_def wake_proc_def)


text \<open>
  \<^verbatim>\<open>kkill\<close> reports -1 and changes nothing when no entry of the table has the pid; otherwise it
  returns 0, marks the first such entry killed, makes it runnable if it was asleep, and leaves
  every other entry as it was.
\<close>

theorem kkill_correct:
  assumes "rq_inv s"
  shows "case find_pid pid (procs s) of
      None \<Rightarrow> kkill pid s = Inr (- 1, s)
    | Some i \<Rightarrow> wp (kkill pid) s (\<lambda>r t. r = 0 \<and> rq_inv t \<and> p_killed (procs t ! i) = 1
        \<and> p_state (procs t ! i) = (if p_state (procs s ! i) = SLEEPING then RUNNABLE else p_state (procs s ! i))
        \<and> (\<forall>j. j = i \<or> procs t ! j = procs s ! j))"
proof (cases "find_pid pid (procs s)")
  case None
  then show ?thesis by (simp add: kkill_def bindk_def gets_def ret_def)
next
  case (Some i)
  have i: "i < length (procs s)" using find_pid_some [OF Some] by simp
  define x where "x = (if p_state (procs s ! i) = SLEEPING then wake_proc (now_ticks s) ((procs s ! i)\<lparr>p_killed := 1\<rparr>)
     else (procs s ! i)\<lparr>p_killed := 1\<rparr>)"
  obtain t where t: "kkill pid s = Inr (0, t)" "rq_inv t" "procs t = (procs s)[i := x]"
    using kkill_run [OF assms Some] by (auto simp: wp_def x_def)
  have "j = i \<or> procs t ! j = procs s ! j" for j by (cases "j = i") (simp_all add: t(3))
  moreover have "procs t ! i = x" using i by (simp add: t(3))
  ultimately show ?thesis using t(1,2) Some by (simp add: wp_def x_def wake_proc_def)
qed

text \<open>
  A mutex is taken by at most one caller at a time: \<^verbatim>\<open>sys_mtx_lock\<close> returns 0 only when it
  found the mutex in use and free, which it leaves locked and owned by the caller with every other
  mutex as before; on a locked mutex it waits; on a bad or unused id it fails and changes nothing.
\<close>

theorem mtx_lock_cases:
  "mtx_lock h i s =
     (if 0 \<le> i \<and> i < int NMUTEX \<and> m_used (mutexes s ! nat i) then
        (if m_locked (mutexes s ! nat i) then Inl (Asleep (ChanMutex (nat i)))
         else Inr (0, s\<lparr>mutexes := (mutexes s)[nat i := \<lparr>m_locked = True, m_used = True, m_owner = myproc h s\<rparr>]\<rparr>))
      else Inr (- 1, s))"
  by (cases "mutexes s ! nat i")
    (auto simp: mtx_lock_def bindk_def thenk_def gets_def ret_def asleep_def upd_mutex_def modk_def)

section \<open>Witnesses\<close>

definition demo_proc :: "procstate \<Rightarrow> int \<Rightarrow> int \<Rightarrow> proc" where
  "demo_proc st pid dl = \<lparr>p_state = st, p_chan = Some ChanTicks, p_killed = 0, p_xstate = 0, p_pid = pid,
     p_deadline = dl, p_priority = 0, p_start_time = 0, p_in_rq = False, p_parent = None, p_kstack = 0,
     p_sz = 0, p_pagetable = 0, p_trapframe = 0, p_context = [], p_ofile = [], p_cwd = None, p_name = [], p_trace_mask = 0\<rparr>"

text \<open>Two processes with deadlines 5 and 3, the rest of the table unused, nothing queued.\<close>

definition demo_sched :: "procstate \<Rightarrow> procstate \<Rightarrow> sched_state" where
  "demo_sched a b = \<lparr>cur_pid = 1, woken = [], pmem = (\<lambda>_. 0), page_refcount = [], freelist = 0,
     procs = demo_proc a 1 5 # demo_proc b 2 3 # replicate 62 (demo_proc UNUSED 0 0),
     cpus = replicate 8 \<lparr>c_proc = None\<rparr>, rq = \<lparr>rq_procs = replicate 64 0, rq_count = 0\<rparr>,
     mutexes = [], nextpid = 3, initproc = Some 0, ticks = 0\<rparr>"

lemma demo_at:
  assumes "i < 64"
  shows "procs (demo_sched a b) ! i = (if i = 0 then demo_proc a 1 5 else if i = 1 then demo_proc b 2 3
    else demo_proc UNUSED 0 0)"
proof (cases "i < 2")
  case True
  then have "i = 0 \<or> i = 1" by auto
  then show ?thesis by (auto simp: demo_sched_def)
next
  case False
  then obtain j where j: "i = 2 + j" using le_Suc_ex [of 2 i] by auto
  then have "j < 62" "i = Suc (Suc j)" using assms by simp_all
  then show ?thesis by (simp add: demo_sched_def)
qed

lemma demo_inv: "rq_inv (demo_sched a b)"
proof -
  have "\<not> p_in_rq (procs (demo_sched a b) ! i)" if "i < 64" for i
    using that by (simp add: demo_at) (simp add: demo_proc_def)
  then have "{i. i < NPROC \<and> p_in_rq (procs (demo_sched a b) ! i)} = {}" by (auto simp: NPROC_def)
  moreover have "queue (demo_sched a b) = []" by (simp add: queue_def demo_sched_def)
  moreover have "length (procs (demo_sched a b)) = NPROC" "length (rq_procs (rq (demo_sched a b))) = NPROC"
    by (simp_all add: demo_sched_def NPROC_def)
  ultimately show ?thesis by (simp add: rq_inv_def edf_sorted_def demo_sched_def)
qed

lemma demo_now: "now_ticks (demo_sched a b) = 0"
  by (simp add: now_ticks_def demo_sched_def)

lemma demo_candidate:
  "candidate (demo_sched a b) i \<longleftrightarrow> i = 0 \<and> a = RUNNABLE \<or> i = 1 \<and> b = RUNNABLE"
proof (cases "i < 64")
  case True
  then show ?thesis by (auto simp: candidate_def demo_at demo_now NPROC_def demo_proc_def)
qed (auto simp: candidate_def NPROC_def)



theorem wakeup_correct_witness:
  "wp (wakeup 0 ChanTicks) (demo_sched SLEEPING RUNNING)
    (\<lambda>_ t. p_state (procs t ! 0) = RUNNABLE \<and> procs t ! 1 = demo_proc RUNNING 2 3)"
proof -
  have "myproc 0 (demo_sched SLEEPING RUNNING) = None" by (simp add: myproc_def mycpu_def demo_sched_def)
  then show ?thesis
    by (intro wp_mono [OF wakeup_correct [OF demo_inv, of 0 ChanTicks SLEEPING RUNNING]])
      (elim conjE, frule spec [of _ 0], drule spec [of _ 1], simp add: NPROC_def demo_at demo_proc_def)
qed


theorem kkill_correct_witness:
  "wp (kkill 2) (demo_sched RUNNING SLEEPING) (\<lambda>r t. r = 0 \<and> p_killed (procs t ! 1) = 1
     \<and> p_state (procs t ! 1) = RUNNABLE)"
proof -
  have "find_pid 2 (procs (demo_sched RUNNING SLEEPING)) = Some 1"
    by (simp add: demo_sched_def demo_proc_def)
  then show ?thesis
    using kkill_correct [OF demo_inv, of 2 RUNNING SLEEPING]
    by (auto simp: demo_at elim!: wp_mono) (auto simp: demo_proc_def)
qed

end
