(* ===== verification/Vm.thy ===== *)
theory Vm
  imports Sched
begin

text \<open>
  Page tables and user memory (\<^verbatim>\<open>kernel/vm.c\<close>), with the page-table macros of \<^verbatim>\<open>kernel/riscv.h\<close> and
  the page-table parts of \<^verbatim>\<open>kernel/proc.c\<close>.

  Page tables live in \<open>pmem\<close>: a page-table entry is the 8-byte word at its address, and
  \<^verbatim>\<open>walk\<close> returns that address (\<open>None\<close> for the null pointer). The copies between kernel and user
  memory take or return the kernel side as a byte list. Addresses the linker script provides
  (\<^verbatim>\<open>end\<close>, \<^verbatim>\<open>etext\<close>, \<^verbatim>\<open>trampoline\<close>) are arguments. Loops over a range of pages run a number of
  times that the range fixes before the first turn.
\<close>

section \<open>Page-table entries\<close>

definition PTE_V :: u64 where "PTE_V = 1"
definition PTE_R :: u64 where "PTE_R = 2"
definition PTE_W :: u64 where "PTE_W = 4"
definition PTE_X :: u64 where "PTE_X = 8"
definition PTE_U :: u64 where "PTE_U = 16"

definition PA2PTE :: "u64 \<Rightarrow> u64" where "PA2PTE pa = push_bit 10 (drop_bit 12 pa)"
definition PTE2PA :: "u64 \<Rightarrow> u64" where "PTE2PA pte = push_bit 12 (drop_bit 10 pte)"
definition PTE_FLAGS :: "u64 \<Rightarrow> u64" where "PTE_FLAGS pte = and pte 0x3FF"

definition PX :: "nat \<Rightarrow> u64 \<Rightarrow> nat" where
  "PX level va = unat (and (drop_bit (12 + 9 * level) va) 0x1FF)"

definition MAXVA :: u64 where "MAXVA = 2 ^ 38"
definition TRAMPOLINE :: u64 where "TRAMPOLINE = MAXVA - of_nat PGSIZE"
definition TRAPFRAME :: u64 where "TRAPFRAME = TRAMPOLINE - of_nat PGSIZE"
definition UART0 :: u64 where "UART0 = 0x10000000"
definition VIRTIO0 :: u64 where "VIRTIO0 = 0x10001000"
definition PLIC :: u64 where "PLIC = 0x0c000000"

definition has :: "u64 \<Rightarrow> u64 \<Rightarrow> bool" where
  "has pte flag \<longleftrightarrow> and pte flag \<noteq> 0"

definition pte_addr :: "u64 \<Rightarrow> nat \<Rightarrow> u64 \<Rightarrow> nat" where
  "pte_addr pt level va = unat pt + 8 * PX level va"

definition get_pte :: "nat \<Rightarrow> ('a kmem_state_scheme, u64) kmon" where
  "get_pte a = gets (\<lambda>s. load64 (pmem s) a)"

definition set_pte :: "nat \<Rightarrow> u64 \<Rightarrow> ('a kmem_state_scheme, unit) kmon" where
  "set_pte a v = modk (\<lambda>s. s\<lparr>pmem := store64 a v (pmem s)\<rparr>)"

definition fill_page :: "u64 \<Rightarrow> uchar \<Rightarrow> ('a kmem_state_scheme, unit) kmon" where
  "fill_page p c = modk (\<lambda>s. s\<lparr>pmem := memset (unat p) c PGSIZE (pmem s)\<rparr>)"

text \<open>The number of turns of a loop \<^verbatim>\<open>for (a = lo; a < hi; a += PGSIZE)\<close>.\<close>

definition page_span :: "u64 \<Rightarrow> u64 \<Rightarrow> nat" where
  "page_span lo hi = (unat hi - unat lo + (PGSIZE - 1)) div PGSIZE"

definition page_seq :: "u64 \<Rightarrow> nat \<Rightarrow> u64 list" where
  "page_seq lo n = map (\<lambda>i. lo + of_nat (i * PGSIZE)) [0..<n]"

section \<open>Walking and mapping\<close>

primrec walk_from :: "nat \<Rightarrow> u64 \<Rightarrow> u64 \<Rightarrow> bool \<Rightarrow> ('a kmem_state_scheme, nat option) kmon" where
  "walk_from 0 pt va alloc = ret (Some (pte_addr pt 0 va))"
| "walk_from (Suc level) pt va alloc =
     bindk (get_pte (pte_addr pt (Suc level) va)) (\<lambda>pte.
     if has pte PTE_V then walk_from level (PTE2PA pte) va alloc
     else if \<not> alloc then ret None
     else bindk kalloc (\<lambda>new.
       if new = 0 then ret None
       else thenk (fill_page new 0)
         (thenk (set_pte (pte_addr pt (Suc level) va) (or (PA2PTE new) PTE_V))
         (walk_from level new va alloc))))"

definition walk :: "u64 \<Rightarrow> u64 \<Rightarrow> bool \<Rightarrow> ('a kmem_state_scheme, nat option) kmon" where
  "walk pt va alloc = (if va \<ge> MAXVA then panic ''walk'' else walk_from 2 pt va alloc)"

definition walkaddr :: "u64 \<Rightarrow> u64 \<Rightarrow> ('a kmem_state_scheme, u64) kmon" where
  "walkaddr pt va =
     (if va \<ge> MAXVA then ret 0
      else bindk (walk pt va False) (\<lambda>r.
      case r of
        None \<Rightarrow> ret 0
      | Some a \<Rightarrow> bindk (get_pte a) (\<lambda>pte.
          if \<not> has pte PTE_V then ret 0
          else if \<not> has pte PTE_U then ret 0
          else ret (PTE2PA pte))))"

primrec map_loop :: "nat \<Rightarrow> u64 \<Rightarrow> u64 \<Rightarrow> u64 \<Rightarrow> u64 \<Rightarrow> ('a kmem_state_scheme, int) kmon" where
  "map_loop 0 pt a pa perm = ret 0"
| "map_loop (Suc n) pt a pa perm =
     bindk (walk pt a True) (\<lambda>r.
     case r of
       None \<Rightarrow> ret (- 1)
     | Some p \<Rightarrow> bindk (get_pte p) (\<lambda>pte.
         if has pte PTE_V then panic ''mappages: remap''
         else thenk (set_pte p (or (or (PA2PTE pa) perm) PTE_V))
           (map_loop n pt (a + of_nat PGSIZE) (pa + of_nat PGSIZE) perm)))"

definition mappages :: "u64 \<Rightarrow> u64 \<Rightarrow> u64 \<Rightarrow> u64 \<Rightarrow> u64 \<Rightarrow> ('a kmem_state_scheme, int) kmon" where
  "mappages pt va sz pa perm =
     (if va mod of_nat PGSIZE \<noteq> 0 then panic ''mappages: va not aligned''
      else if sz mod of_nat PGSIZE \<noteq> 0 then panic ''mappages: size not aligned''
      else if sz = 0 then panic ''mappages: size''
      else map_loop (unat sz div PGSIZE) pt va pa perm)"

definition kvmmap :: "u64 \<Rightarrow> u64 \<Rightarrow> u64 \<Rightarrow> u64 \<Rightarrow> u64 \<Rightarrow> ('a kmem_state_scheme, unit) kmon" where
  "kvmmap kpt va pa sz perm =
     bindk (mappages kpt va sz pa perm) (\<lambda>r. if r \<noteq> 0 then panic ''kvmmap'' else ret ())"

definition proc_mapstacks :: "u64 \<Rightarrow> ('a kmem_state_scheme, unit) kmon" where
  "proc_mapstacks kpt =
     for_each [0..<NPROC] (\<lambda>i.
       bindk kalloc (\<lambda>pa.
       if pa = 0 then panic ''kalloc''
       else kvmmap kpt (KSTACK i) pa (of_nat PGSIZE) (or PTE_R PTE_W)))"

text \<open>\<^verbatim>\<open>kvmmake\<close> does not check the result of its first \<^verbatim>\<open>kalloc\<close>.\<close>

definition kvmmake :: "u64 \<Rightarrow> u64 \<Rightarrow> ('a kmem_state_scheme, u64) kmon" where
  "kvmmake etext tramp =
     bindk kalloc (\<lambda>kpt.
     thenk (fill_page kpt 0)
     (thenk (kvmmap kpt UART0 UART0 (of_nat PGSIZE) (or PTE_R PTE_W))
     (thenk (kvmmap kpt VIRTIO0 VIRTIO0 (of_nat PGSIZE) (or PTE_R PTE_W))
     (thenk (kvmmap kpt PLIC PLIC 0x4000000 (or PTE_R PTE_W))
     (thenk (kvmmap kpt KERNBASE KERNBASE (etext - KERNBASE) (or PTE_R PTE_X))
     (thenk (kvmmap kpt etext etext (PHYSTOP - etext) (or PTE_R PTE_W))
     (thenk (kvmmap kpt TRAMPOLINE tramp (of_nat PGSIZE) (or PTE_R PTE_X))
     (thenk (proc_mapstacks kpt) (ret kpt)))))))))"

section \<open>User address spaces\<close>

definition uvmcreate :: "('a kmem_state_scheme, u64) kmon" where
  "uvmcreate = bindk kalloc (\<lambda>pt. if pt = 0 then ret 0 else thenk (fill_page pt 0) (ret pt))"

definition unmap_page :: "u64 \<Rightarrow> u64 \<Rightarrow> bool \<Rightarrow> u64 \<Rightarrow> ('a kmem_state_scheme, unit) kmon" where
  "unmap_page kend pt do_free a =
     bindk (walk pt a False) (\<lambda>r.
     case r of
       None \<Rightarrow> ret ()
     | Some p \<Rightarrow> bindk (get_pte p) (\<lambda>pte.
         if \<not> has pte PTE_V then ret ()
         else thenk (whenk do_free (kfree kend (PTE2PA pte))) (set_pte p 0)))"

definition uvmunmap :: "u64 \<Rightarrow> u64 \<Rightarrow> u64 \<Rightarrow> u64 \<Rightarrow> bool \<Rightarrow> ('a kmem_state_scheme, unit) kmon" where
  "uvmunmap kend pt va npages do_free =
     (if va mod of_nat PGSIZE \<noteq> 0 then panic ''uvmunmap: not aligned''
      else for_each (page_seq va (page_span va (va + npages * of_nat PGSIZE))) (unmap_page kend pt do_free))"

definition uvmdealloc :: "u64 \<Rightarrow> u64 \<Rightarrow> u64 \<Rightarrow> u64 \<Rightarrow> ('a kmem_state_scheme, u64) kmon" where
  "uvmdealloc kend pt oldsz newsz =
     (if newsz \<ge> oldsz then ret oldsz
      else thenk (whenk (PGROUNDUP newsz < PGROUNDUP oldsz)
          (uvmunmap kend pt (PGROUNDUP newsz) ((PGROUNDUP oldsz - PGROUNDUP newsz) div of_nat PGSIZE) True))
        (ret newsz))"

primrec alloc_loop :: "u64 \<Rightarrow> nat \<Rightarrow> u64 \<Rightarrow> u64 \<Rightarrow> u64 \<Rightarrow> u64 \<Rightarrow> u64 \<Rightarrow> ('a kmem_state_scheme, u64) kmon" where
  "alloc_loop kend 0 pt a oldsz newsz xperm = ret newsz"
| "alloc_loop kend (Suc n) pt a oldsz newsz xperm =
     bindk kalloc (\<lambda>mem.
     if mem = 0 then thenk (uvmdealloc kend pt a oldsz) (ret 0)
     else thenk (fill_page mem 0)
       (bindk (mappages pt a (of_nat PGSIZE) mem (or (or PTE_R PTE_U) xperm)) (\<lambda>r.
        if r \<noteq> 0 then thenk (kfree kend mem) (thenk (uvmdealloc kend pt a oldsz) (ret 0))
        else alloc_loop kend n pt (a + of_nat PGSIZE) oldsz newsz xperm)))"

definition uvmalloc :: "u64 \<Rightarrow> u64 \<Rightarrow> u64 \<Rightarrow> u64 \<Rightarrow> u64 \<Rightarrow> ('a kmem_state_scheme, u64) kmon" where
  "uvmalloc kend pt oldsz newsz xperm =
     (if newsz < oldsz then ret oldsz
      else let lo = PGROUNDUP oldsz in alloc_loop kend (page_span lo newsz) pt lo lo newsz xperm)"

text \<open>
  \<^verbatim>\<open>freewalk\<close> recurses along the levels of the tree; a page table has three. A deeper tree, on which
  the code would recurse further, is a \<open>Fault\<close>.
\<close>

primrec freewalk_lev :: "u64 \<Rightarrow> nat \<Rightarrow> u64 \<Rightarrow> ('a kmem_state_scheme, unit) kmon" where
  "freewalk_lev kend 0 pt = fault ''freewalk: too deep''"
| "freewalk_lev kend (Suc level) pt =
     thenk (for_each [0..<512] (\<lambda>i.
       bindk (get_pte (unat pt + 8 * i)) (\<lambda>pte.
       if has pte PTE_V \<and> \<not> has pte (or PTE_R (or PTE_W PTE_X))
       then thenk (freewalk_lev kend level (PTE2PA pte)) (set_pte (unat pt + 8 * i) 0)
       else if has pte PTE_V then panic ''freewalk: leaf''
       else ret ())))
     (kfree kend pt)"

definition freewalk :: "u64 \<Rightarrow> u64 \<Rightarrow> ('a kmem_state_scheme, unit) kmon" where
  "freewalk kend pt = freewalk_lev kend 3 pt"

definition uvmfree :: "u64 \<Rightarrow> u64 \<Rightarrow> u64 \<Rightarrow> ('a kmem_state_scheme, unit) kmon" where
  "uvmfree kend pt sz =
     thenk (whenk (sz > 0) (uvmunmap kend pt 0 (PGROUNDUP sz div of_nat PGSIZE) True)) (freewalk kend pt)"

text \<open>One turn of the loop of \<^verbatim>\<open>uvmcopy\<close>: False when \<^verbatim>\<open>mappages\<close> failed.\<close>

definition copy_page :: "u64 \<Rightarrow> u64 \<Rightarrow> u64 \<Rightarrow> ('a kmem_state_scheme, bool) kmon" where
  "copy_page old new i =
     bindk (walk old i False) (\<lambda>r.
     case r of
       None \<Rightarrow> ret True
     | Some p \<Rightarrow> bindk (get_pte p) (\<lambda>pte.
         if \<not> has pte PTE_V then ret True
         else
           let pa = PTE2PA pte; flags = PTE_FLAGS pte in
           if has flags PTE_W then
             thenk (set_pte p (and pte (not PTE_W)))
             (bindk (mappages new i (of_nat PGSIZE) pa (and flags (not PTE_W))) (\<lambda>m.
              if m \<noteq> 0 then ret False else thenk (incref pa) (ret True)))
           else
             bindk (mappages new i (of_nat PGSIZE) pa flags) (\<lambda>m.
             if m \<noteq> 0 then ret False else thenk (incref pa) (ret True))))"

primrec copy_loop :: "u64 \<Rightarrow> nat \<Rightarrow> u64 \<Rightarrow> u64 \<Rightarrow> u64 \<Rightarrow> ('a kmem_state_scheme, int) kmon" where
  "copy_loop kend 0 old new i = ret 0"
| "copy_loop kend (Suc n) old new i =
     bindk (copy_page old new i) (\<lambda>ok.
     if ok then copy_loop kend n old new (i + of_nat PGSIZE)
     else thenk (for_each (page_seq 0 (page_span 0 i)) (\<lambda>j. uvmunmap kend new j 1 True)) (ret (- 1)))"

definition uvmcopy :: "u64 \<Rightarrow> u64 \<Rightarrow> u64 \<Rightarrow> u64 \<Rightarrow> ('a kmem_state_scheme, int) kmon" where
  "uvmcopy kend old new sz = copy_loop kend (page_span 0 sz) old new 0"

definition uvmclear :: "u64 \<Rightarrow> u64 \<Rightarrow> ('a kmem_state_scheme, unit) kmon" where
  "uvmclear pt va =
     bindk (walk pt va False) (\<lambda>r.
     case r of
       None \<Rightarrow> panic ''uvmclear''
     | Some p \<Rightarrow> bindk (get_pte p) (\<lambda>pte. set_pte p (and pte (not PTE_U))))"

definition ismapped :: "u64 \<Rightarrow> u64 \<Rightarrow> ('a kmem_state_scheme, bool) kmon" where
  "ismapped pt va =
     bindk (walk pt va False) (\<lambda>r.
     case r of None \<Rightarrow> ret False | Some p \<Rightarrow> bindk (get_pte p) (\<lambda>pte. ret (has pte PTE_V)))"

section \<open>Page faults\<close>

text \<open>\<open>me\<close> is \<^verbatim>\<open>myproc()\<close>. The page is mapped in the process's own table, whatever table was given.\<close>

definition vmfault :: "u64 \<Rightarrow> nat \<Rightarrow> u64 \<Rightarrow> u64 \<Rightarrow> ('a sched_state_scheme, u64) kmon" where
  "vmfault kend me pt va =
     bindk (gets (\<lambda>s. procs s ! me)) (\<lambda>p.
     if va \<ge> p_sz p then ret 0
     else let va0 = PGROUNDDOWN va in
       bindk (ismapped pt va0) (\<lambda>m.
       if m then ret 0
       else bindk kalloc (\<lambda>mem.
         if mem = 0 then ret 0
         else thenk (fill_page mem 0)
           (bindk (mappages (p_pagetable p) va0 (of_nat PGSIZE) mem (or (or PTE_W PTE_U) PTE_R)) (\<lambda>r.
            if r \<noteq> 0 then thenk (kfree kend mem) (ret 0) else ret mem)))))"

definition copy_phys :: "u64 \<Rightarrow> u64 \<Rightarrow> ('a kmem_state_scheme, unit) kmon" where
  "copy_phys dst src = modk (\<lambda>s. s\<lparr>pmem := memmove (unat dst) (unat src) PGSIZE (pmem s)\<rparr>)"

definition cowfault :: "u64 \<Rightarrow> u64 \<Rightarrow> u64 \<Rightarrow> ('a kmem_state_scheme, int) kmon" where
  "cowfault kend pt va =
     bindk (walk pt va False) (\<lambda>r.
     case r of
       None \<Rightarrow> ret (- 1)
     | Some p \<Rightarrow> bindk (get_pte p) (\<lambda>pte.
         if \<not> has pte PTE_V \<or> \<not> has pte PTE_U then ret (- 1)
         else if has pte PTE_X then ret (- 1)
         else if has pte PTE_W then ret 0
         else
           let pa = PTE2PA pte; flags = PTE_FLAGS pte; va0 = PGROUNDDOWN va in
           bindk (getref pa) (\<lambda>n.
           if n > 1 then
             bindk kalloc (\<lambda>mem.
             if mem = 0 then ret (- 1)
             else thenk (copy_phys mem pa)
               (thenk (uvmunmap kend pt va0 1 False)
               (bindk (mappages pt va0 (of_nat PGSIZE) mem (or (and flags (not PTE_W)) PTE_W)) (\<lambda>m.
                if m \<noteq> 0 then thenk (kfree kend mem) (ret (- 1))
                else thenk (decref pa) (ret 0)))))
           else thenk (set_pte p (or pte PTE_W)) (ret 0))))"

section \<open>Copying between kernel and user memory\<close>

definition page_rem :: "u64 \<Rightarrow> nat" where
  "page_rem va = PGSIZE - unat (va - PGROUNDDOWN va)"

definition put_bytes :: "nat \<Rightarrow> bytes \<Rightarrow> mem \<Rightarrow> mem" where
  "put_bytes a bs m = (\<lambda>x. if a \<le> x \<and> x < a + length bs then bs ! (x - a) else m x)"

definition get_bytes :: "nat \<Rightarrow> nat \<Rightarrow> mem \<Rightarrow> bytes" where
  "get_bytes a n m = map (\<lambda>i. m (a + i)) [0..<n]"

lemma page_rem_pos: "0 < page_rem va"
proof -
  have "unat (PGROUNDDOWN va) \<le> unat va" by (simp add: unat_PGROUNDDOWN)
  then have "PGROUNDDOWN va \<le> va" by (simp add: word_le_nat_alt)
  then have "unat (va - PGROUNDDOWN va) = unat va - 4096 * (unat va div 4096)"
    by (simp add: unat_sub unat_PGROUNDDOWN)
  also have "\<dots> = unat va mod 4096" by (simp add: minus_mult_div_eq_mod)
  also have "\<dots> < 4096" by simp
  finally show ?thesis by (simp add: page_rem_def PGSIZE_def)
qed

text \<open>The physical page to write to: a lazily allocated page is made present, a shared one is copied.\<close>

definition out_page :: "u64 \<Rightarrow> nat \<Rightarrow> u64 \<Rightarrow> u64 \<Rightarrow> ('a sched_state_scheme, u64) kmon" where
  "out_page kend me pt va0 =
     (if va0 \<ge> MAXVA then ret 0
      else bindk (walkaddr pt va0) (\<lambda>pa.
        bindk (if pa = 0 then vmfault kend me pt va0 else ret pa) (\<lambda>pa0.
        if pa0 = 0 then ret 0
        else bindk (walk pt va0 False) (\<lambda>r.
          case r of
            None \<Rightarrow> ret pa0
          | Some p \<Rightarrow> bindk (get_pte p) (\<lambda>pte.
              if has pte PTE_V \<and> has pte PTE_U \<and> \<not> has pte PTE_W then
                bindk (cowfault kend pt va0) (\<lambda>c. if c \<noteq> 0 then ret 0 else walkaddr pt va0)
              else ret pa0)))))"

function copyout :: "u64 \<Rightarrow> nat \<Rightarrow> u64 \<Rightarrow> u64 \<Rightarrow> bytes \<Rightarrow> ('a sched_state_scheme, int) kmon" where
  "copyout kend me pt dstva src =
     (if src = [] then ret 0
      else bindk (out_page kend me pt (PGROUNDDOWN dstva)) (\<lambda>pa0.
        if pa0 = 0 then ret (- 1)
        else thenk (modk (\<lambda>s. s\<lparr>pmem := put_bytes (unat (pa0 + (dstva - PGROUNDDOWN dstva)))
              (take (page_rem dstva) src) (pmem s)\<rparr>))
          (copyout kend me pt (PGROUNDDOWN dstva + of_nat PGSIZE) (drop (page_rem dstva) src))))"
  by pat_completeness auto
termination
  by (relation "measure (\<lambda>(_, _, _, _, src). length src)") (use page_rem_pos in auto)

declare copyout.simps [simp del]

definition in_page_addr :: "u64 \<Rightarrow> nat \<Rightarrow> u64 \<Rightarrow> u64 \<Rightarrow> ('a sched_state_scheme, u64) kmon" where
  "in_page_addr kend me pt va0 =
     bindk (walkaddr pt va0) (\<lambda>pa. if pa = 0 then vmfault kend me pt va0 else ret pa)"

text \<open>
  \<^verbatim>\<open>copyin\<close> returns its status and the bytes it has put in the destination, which on failure are
  those of the pages before the bad one.
\<close>

function copyin :: "u64 \<Rightarrow> nat \<Rightarrow> u64 \<Rightarrow> u64 \<Rightarrow> nat \<Rightarrow> ('a sched_state_scheme, int \<times> bytes) kmon" where
  "copyin kend me pt srcva len =
     (if len = 0 then ret (0, [])
      else bindk (in_page_addr kend me pt (PGROUNDDOWN srcva)) (\<lambda>pa0.
        if pa0 = 0 then ret (- 1, [])
        else bindk (gets (\<lambda>s. get_bytes (unat (pa0 + (srcva - PGROUNDDOWN srcva))) (min (page_rem srcva) len) (pmem s))) (\<lambda>bs.
          bindk (copyin kend me pt (PGROUNDDOWN srcva + of_nat PGSIZE) (len - page_rem srcva)) (\<lambda>(r, cs).
          ret (r, bs @ cs)))))"
  by pat_completeness auto
termination
  by (relation "measure (\<lambda>(_, _, _, _, len). len)") (use page_rem_pos in auto)

declare copyin.simps [simp del]

text \<open>\<^verbatim>\<open>copyinstr\<close>: the bytes before the first NUL among the first \<open>max\<close>, or failure.\<close>

function copyinstr :: "u64 \<Rightarrow> u64 \<Rightarrow> nat \<Rightarrow> ('a kmem_state_scheme, bytes option) kmon" where
  "copyinstr pt srcva mx =
     (if mx = 0 then ret None
      else bindk (walkaddr pt (PGROUNDDOWN srcva)) (\<lambda>pa0.
        if pa0 = 0 then ret None
        else bindk (gets (\<lambda>s. get_bytes (unat (pa0 + (srcva - PGROUNDDOWN srcva))) (min (page_rem srcva) mx) (pmem s))) (\<lambda>bs.
          if 0 \<in> set bs then ret (Some (takeWhile (\<lambda>c. c \<noteq> 0) bs))
          else bindk (copyinstr pt (PGROUNDDOWN srcva + of_nat PGSIZE) (mx - page_rem srcva)) (\<lambda>r.
            ret (map_option (\<lambda>cs. bs @ cs) r)))))"
  by pat_completeness auto
termination
  by (relation "measure (\<lambda>(_, _, mx). mx)") (use page_rem_pos in auto)

declare copyinstr.simps [simp del]

section \<open>Page tables of processes\<close>

definition proc_pagetable :: "u64 \<Rightarrow> u64 \<Rightarrow> u64 \<Rightarrow> ('a kmem_state_scheme, u64) kmon" where
  "proc_pagetable kend tramp trapframe =
     bindk uvmcreate (\<lambda>pt.
     if pt = 0 then ret 0
     else bindk (mappages pt TRAMPOLINE (of_nat PGSIZE) tramp (or PTE_R PTE_X)) (\<lambda>r.
       if r < 0 then thenk (uvmfree kend pt 0) (ret 0)
       else bindk (mappages pt TRAPFRAME (of_nat PGSIZE) trapframe (or PTE_R PTE_W)) (\<lambda>r.
         if r < 0 then thenk (uvmunmap kend pt TRAMPOLINE 1 False) (thenk (uvmfree kend pt 0) (ret 0))
         else ret pt)))"

definition proc_freepagetable :: "u64 \<Rightarrow> u64 \<Rightarrow> u64 \<Rightarrow> ('a kmem_state_scheme, unit) kmon" where
  "proc_freepagetable kend pt sz =
     thenk (uvmunmap kend pt TRAMPOLINE 1 False)
     (thenk (uvmunmap kend pt TRAPFRAME 1 False) (uvmfree kend pt sz))"

definition growproc :: "u64 \<Rightarrow> nat \<Rightarrow> int \<Rightarrow> ('a sched_state_scheme, int) kmon" where
  "growproc kend me n =
     bindk (gets (\<lambda>s. procs s ! me)) (\<lambda>p.
     if n > 0 then
       bindk (uvmalloc kend (p_pagetable p) (p_sz p) (p_sz p + of_int n) PTE_W) (\<lambda>sz.
       if sz = 0 then ret (- 1) else thenk (upd_proc me (\<lambda>p. p\<lparr>p_sz := sz\<rparr>)) (ret 0))
     else if n < 0 then
       bindk (uvmdealloc kend (p_pagetable p) (p_sz p) (p_sz p + of_int n)) (\<lambda>sz.
       thenk (upd_proc me (\<lambda>p. p\<lparr>p_sz := sz\<rparr>)) (ret 0))
     else ret 0)"

text \<open>\<^verbatim>\<open>struct sched_attr\<close> in user memory: three ints.\<close>

definition enc_attr :: "sched_attr \<Rightarrow> bytes" where
  "enc_attr a = enc32 (of_int (sa_deadline a)) @ enc32 (of_int (sa_priority a)) @ enc32 (of_int (sa_start_time a))"

definition dec_attr :: "bytes \<Rightarrow> sched_attr" where
  "dec_attr bs = \<lparr>sa_deadline = sint (dec32 (slice 0 4 bs)), sa_priority = sint (dec32 (slice 4 4 bs)),
     sa_start_time = sint (dec32 (slice 8 4 bs))\<rparr>"

end
