(* ===== verification/Vm_Props.thy ===== *)
theory Vm_Props
  imports Vm
begin

text \<open>
  Properties of page tables and user memory: the arithmetic of page-table entries, translation after
  mapping, copy-on-write, the system calls that carry scheduling attributes.
\<close>

section \<open>Page-table entries\<close>

unbundle bit_operations_syntax

lemma bit_has: "has pte (2 ^ n) \<longleftrightarrow> bit pte n"
  by (simp add: has_def bit_iff_and_push_bit_not_eq_0)

lemma flag_bits:
  "has pte PTE_V \<longleftrightarrow> bit pte 0" "has pte PTE_R \<longleftrightarrow> bit pte 1" "has pte PTE_W \<longleftrightarrow> bit pte 2"
  "has pte PTE_X \<longleftrightarrow> bit pte 3" "has pte PTE_U \<longleftrightarrow> bit pte 4"
  using bit_has [of pte 0] bit_has [of pte 1] bit_has [of pte 2] bit_has [of pte 3] bit_has [of pte 4]
  by (simp_all add: PTE_V_def PTE_R_def PTE_W_def PTE_X_def PTE_U_def)

lemma bit_PA2PTE: "bit (PA2PTE pa) i \<longleftrightarrow> 10 \<le> i \<and> i < 64 \<and> bit pa (i + 2)"
  by (auto simp: PA2PTE_def bit_push_bit_iff bit_drop_bit_eq)

lemma bit_PTE2PA: "bit (PTE2PA pte) i \<longleftrightarrow> 12 \<le> i \<and> i < 64 \<and> bit pte (i - 2)"
  by (auto simp: PTE2PA_def bit_push_bit_iff bit_drop_bit_eq)

lemma bits_below:
  assumes "perm < 2 ^ 10" and "10 \<le> i"
  shows "\<not> bit (perm :: u64) i"
proof -
  have "unat perm < 2 ^ 10" using assms(1) by (simp add: word_less_nat_alt)
  also have "(2::nat) ^ 10 \<le> 2 ^ i" using assms(2) by (intro power_increasing) auto
  finally have "\<not> bit (unat perm) i" by (simp add: bit_iff_odd)
  then show ?thesis by (simp add: bit_unsigned_iff)
qed

lemma page_aligned_bits:
  assumes "pa mod of_nat PGSIZE = 0" and "i < 12"
  shows "\<not> bit (pa :: u64) i"
proof -
  have "take_bit 12 pa = pa mod 2 ^ 12" by (rule take_bit_eq_mod)
  then have "take_bit 12 pa = 0" using assms(1) by (simp add: PGSIZE_def)
  then show ?thesis using assms(2) by (metis bit_take_bit_iff bit_0_eq bot_apply bot_bool_def)
qed

text \<open>A leaf entry as \<^verbatim>\<open>mappages\<close> builds it gives back its page and its permissions.\<close>

definition leaf_pte :: "u64 \<Rightarrow> u64 \<Rightarrow> u64" where
  "leaf_pte pa perm = or (or (PA2PTE pa) perm) PTE_V"

lemma bit_leaf: "bit (leaf_pte pa perm) i \<longleftrightarrow> (10 \<le> i \<and> i < 64 \<and> bit pa (i + 2)) \<or> bit perm i \<or> i = 0"
  by (auto simp: leaf_pte_def bit_or_iff bit_PA2PTE PTE_V_def bit_1_iff)

lemma PTE2PA_leaf:
  assumes "pa mod of_nat PGSIZE = 0" and "perm < 2 ^ 10"
  shows "PTE2PA (leaf_pte pa perm) = pa"
proof (rule bit_eqI)
  fix i
  assume "possible_bit TYPE(64 word) i"
  then have i: "i < 64" by simp
  show "bit (PTE2PA (leaf_pte pa perm)) i = bit pa i"
  proof (cases "12 \<le> i")
    case True
    then obtain k where k: "i = 12 + k" using le_Suc_ex by blast
    have "\<not> bit perm (10 + k)" using bits_below [OF assms(2), of "10 + k"] by simp
    then show ?thesis using i k by (simp add: bit_PTE2PA bit_leaf)
  next
    case False
    then show ?thesis using page_aligned_bits [OF assms(1), of i] by (simp add: bit_PTE2PA)
  qed
qed

lemma has_leaf:
  "has (leaf_pte pa perm) PTE_V" "has (leaf_pte pa perm) PTE_U \<longleftrightarrow> has perm PTE_U"
  by (simp_all add: flag_bits bit_leaf)

section \<open>Walking a complete path\<close>

text \<open>The entries of the two upper levels, when both are valid, and the address of the leaf entry.\<close>

definition mid_pt :: "mem \<Rightarrow> u64 \<Rightarrow> u64 \<Rightarrow> u64" where
  "mid_pt m pt va = PTE2PA (load64 m (pte_addr pt 2 va))"

definition low_pt :: "mem \<Rightarrow> u64 \<Rightarrow> u64 \<Rightarrow> u64" where
  "low_pt m pt va = PTE2PA (load64 m (pte_addr (mid_pt m pt va) 1 va))"

definition leaf_addr :: "mem \<Rightarrow> u64 \<Rightarrow> u64 \<Rightarrow> nat" where
  "leaf_addr m pt va = pte_addr (low_pt m pt va) 0 va"

definition path_ok :: "mem \<Rightarrow> u64 \<Rightarrow> u64 \<Rightarrow> bool" where
  "path_ok m pt va \<longleftrightarrow> va < MAXVA \<and> has (load64 m (pte_addr pt 2 va)) PTE_V
     \<and> has (load64 m (pte_addr (mid_pt m pt va) 1 va)) PTE_V"

text \<open>The leaf entry does not overlap the entries above it: they are in different pages.\<close>

definition path_apart :: "mem \<Rightarrow> u64 \<Rightarrow> u64 \<Rightarrow> bool" where
  "path_apart m pt va \<longleftrightarrow>
     (pte_addr pt 2 va + 8 \<le> leaf_addr m pt va \<or> leaf_addr m pt va + 8 \<le> pte_addr pt 2 va)
   \<and> (pte_addr (mid_pt m pt va) 1 va + 8 \<le> leaf_addr m pt va
      \<or> leaf_addr m pt va + 8 \<le> pte_addr (mid_pt m pt va) 1 va)"

lemma path_below: "path_ok m pt va \<Longrightarrow> \<not> MAXVA \<le> va"
  unfolding path_ok_def by (simp only: not_le)

lemma walk_path:
  assumes "path_ok (pmem s) pt va"
  shows "walk pt va alloc s = Inr (Some (leaf_addr (pmem s) pt va), s)"
proof -
  have "walk pt va alloc s = walk_from 2 pt va alloc s" using path_below [OF assms] by (simp add: walk_def)
  then show ?thesis
    using assms
    by (simp add: path_ok_def numeral_2_eq_2 get_pte_def bindk_def gets_def ret_def leaf_addr_def low_pt_def mid_pt_def)
qed

lemma path_store_leaf:
  assumes "path_apart m pt va" and m': "m' = store64 (leaf_addr m pt va) v m"
  shows "mid_pt m' pt va = mid_pt m pt va" "low_pt m' pt va = low_pt m pt va"
    "leaf_addr m' pt va = leaf_addr m pt va" "path_ok m' pt va = path_ok m pt va"
proof -
  have a: "load64 m' (pte_addr pt 2 va) = load64 m (pte_addr pt 2 va)"
    "load64 m' (pte_addr (mid_pt m pt va) 1 va) = load64 m (pte_addr (mid_pt m pt va) 1 va)"
    using assms(1) unfolding path_apart_def m' by (auto intro!: load_store64_other)
  show b: "mid_pt m' pt va = mid_pt m pt va" using a(1) by (simp add: mid_pt_def)
  show c: "low_pt m' pt va = low_pt m pt va" using a(2) b by (simp add: low_pt_def)
  show "leaf_addr m' pt va = leaf_addr m pt va" using c by (simp add: leaf_addr_def)
  show "path_ok m' pt va = path_ok m pt va" using a b by (simp add: path_ok_def)
qed

lemma walkaddr_path:
  assumes "path_ok (pmem s) pt va"
  shows "walkaddr pt va s = Inr (let pte = load64 (pmem s) (leaf_addr (pmem s) pt va) in
    if has pte PTE_V \<and> has pte PTE_U then PTE2PA pte else 0, s)"
proof -
  have "\<not> va \<ge> MAXVA" using assms by (rule path_below)
  then show ?thesis
    using walk_path [OF assms, of False]
    by (simp add: walkaddr_def bindk_def get_pte_def gets_def ret_def Let_def)
qed

section \<open>Properties\<close>


text \<open>
  C33. \<^verbatim>\<open>cowfault\<close> makes every present, non-executable user page with one owner writable, also one
  that was mapped read-only and never shared: no bit of the entry says it was writable before.
\<close>

theorem cowfault_grants_write:
  assumes "path_ok (pmem s) pt va" and "path_apart (pmem s) pt va"
    and "pte = load64 (pmem s) (leaf_addr (pmem s) pt va)"
    and "has pte PTE_V" and "has pte PTE_U" and "\<not> has pte PTE_X" and "\<not> has pte PTE_W"
    and "phys2ind (PTE2PA pte) < NPHYS_PAGES" and "ref_of s (PTE2PA pte) \<le> 1"
  shows "wp (cowfault kend pt va) s (\<lambda>r t. r = 0
    \<and> has (load64 (pmem t) (leaf_addr (pmem t) pt va)) PTE_W
    \<and> page_refcount t = page_refcount s \<and> freelist t = freelist s)"
proof -
  define t where "t = s\<lparr>pmem := store64 (leaf_addr (pmem s) pt va) (or pte PTE_W) (pmem s)\<rparr>"
  have "cowfault kend pt va s = Inr (0, t)"
    using walk_path [OF assms(1), of False] assms(3-9)
    by (simp add: cowfault_def bindk_def thenk_def get_pte_def set_pte_def gets_def modk_def ret_def t_def
        Let_def getref_def ref_of_def)
  moreover have "leaf_addr (pmem t) pt va = leaf_addr (pmem s) pt va"
    using path_store_leaf(3) [OF assms(2) refl] by (simp add: t_def)
  moreover have "has (or pte PTE_W) PTE_W" by (simp add: flag_bits bit_or_iff) (simp add: PTE_W_def)
  ultimately show ?thesis by (simp add: wp_def) (simp add: t_def)
qed

text \<open>
  The scheduling attributes survive the trip through user memory: what \<^verbatim>\<open>sys_getSchedAttr\<close>
  writes is what \<^verbatim>\<open>sys_setSchedAttr\<close> reads, for all values of C type int.
\<close>

theorem sched_attr_roundtrip:
  assumes "sa_deadline a \<in> {- (2 ^ 31)..<2 ^ 31}" and "sa_priority a \<in> {- (2 ^ 31)..<2 ^ 31}"
    and "sa_start_time a \<in> {- (2 ^ 31)..<2 ^ 31}"
  shows "length (enc_attr a) = 12 \<and> dec_attr (enc_attr a) = a"
proof -
  have "sint (of_int x :: u32) = x" if "x \<in> {- (2 ^ 31)..<2 ^ 31}" for x
    using that by (simp add: signed_of_int signed_take_bit_int_eq_self)
  then show ?thesis using assms
    by (cases a) (simp add: enc_attr_def dec_attr_def slice_def)
qed

section \<open>Witnesses\<close>

text \<open>A three-level path for address 0 in the pages at 0x80001000, 0x80002000 and 0x80003000.\<close>

definition demo_pt :: u64 where "demo_pt = 0x80001000"

definition demo_mem :: "u64 \<Rightarrow> mem" where
  "demo_mem pte = store64 0x80003000 pte (store64 0x80002000 0x20000C01 (store64 0x80001000 0x20000801 (\<lambda>_. 0)))"

definition demo_vm :: "u64 \<Rightarrow> kmem_state" where
  "demo_vm pte = \<lparr>cur_pid = 1, woken = [], pmem = demo_mem pte, page_refcount = replicate NPHYS_PAGES 1, freelist = 0\<rparr>"

lemma demo_loads:
  "load64 (demo_mem pte) 0x80001000 = 0x20000801" "load64 (demo_mem pte) 0x80002000 = 0x20000C01"
  "load64 (demo_mem pte) 0x80003000 = pte"
  by (simp_all add: demo_mem_def load_store64_other)

lemma demo_path:
  "mid_pt (demo_mem pte) demo_pt 0 = 0x80002000" "low_pt (demo_mem pte) demo_pt 0 = 0x80003000"
  "leaf_addr (demo_mem pte) demo_pt 0 = 0x80003000"
proof -
  show a: "mid_pt (demo_mem pte) demo_pt 0 = 0x80002000"
    by (simp add: mid_pt_def pte_addr_def PX_def demo_pt_def demo_loads) (simp add: PTE2PA_def)
  show b: "low_pt (demo_mem pte) demo_pt 0 = 0x80003000"
    by (simp add: low_pt_def a pte_addr_def PX_def demo_loads) (simp add: PTE2PA_def)
  show "leaf_addr (demo_mem pte) demo_pt 0 = 0x80003000"
    by (simp add: leaf_addr_def b pte_addr_def PX_def)
qed

lemma demo_path_ok: "path_ok (demo_mem pte) demo_pt 0" "path_apart (demo_mem pte) demo_pt 0"
  unfolding path_ok_def path_apart_def demo_path
  by (simp_all add: pte_addr_def PX_def demo_pt_def demo_loads has_def PTE_V_def MAXVA_def)


theorem cowfault_grants_write_witness:
  "wp (cowfault 0x80000000 demo_pt 0) (demo_vm 0x20001013) (\<lambda>r t. r = 0)"
proof -
  let ?p = "0x20001013 :: u64"
  have m: "pmem (demo_vm ?p) = demo_mem ?p" by (simp add: demo_vm_def)
  have f: "has ?p PTE_V" "has ?p PTE_U" "\<not> has ?p PTE_X" "\<not> has ?p PTE_W"
    by (simp_all add: has_def PTE_V_def PTE_U_def PTE_X_def PTE_W_def)
  have pa: "PTE2PA ?p = 0x80004000" by (simp add: PTE2PA_def)
  have ind: "phys2ind 0x80004000 = 4" by (simp add: phys2ind_def KERNBASE_def PGSIZE_def unat_div)
  have r: "phys2ind (PTE2PA ?p) < NPHYS_PAGES" "ref_of (demo_vm ?p) (PTE2PA ?p) \<le> 1"
    by (simp_all add: pa ind NPHYS_PAGES_eq ref_of_def demo_vm_def)
  show ?thesis
    using cowfault_grants_write [of "demo_vm ?p" demo_pt 0 ?p "0x80000000"] demo_path_ok [of ?p] f r
    unfolding m demo_path demo_loads by (auto elim!: wp_mono)
qed

theorem sched_attr_roundtrip_witness:
  "dec_attr (enc_attr \<lparr>sa_deadline = - 1, sa_priority = 7, sa_start_time = 2147483647\<rparr>)
    = \<lparr>sa_deadline = - 1, sa_priority = 7, sa_start_time = 2147483647\<rparr>"
  using sched_attr_roundtrip [of "\<lparr>sa_deadline = - 1, sa_priority = 7, sa_start_time = 2147483647\<rparr>"] by simp

end
