(* ===== verification/Fs.thy ===== *)
theory Fs
  imports Vm Journal
begin

text \<open>
  The file system proper (\<^verbatim>\<open>kernel/fs.c\<close>): blocks, inodes, directories, paths, on top of the log.

  An in-memory inode is an index in \<open>itable\<close>. A block's data is read with \<open>get_data\<close> and changed with
  \<open>set_data\<close> at the buffer that \<^verbatim>\<open>bread\<close> returned, as the code does through \<^verbatim>\<open>bp->data\<close>.
  File names are byte lists without the NUL; a name of \<open>DIRSIZ\<close> bytes fills its field.
  \<open>me\<close> is the index of \<^verbatim>\<open>myproc()\<close> and \<open>kend\<close> the first address after the kernel.
  Messages printed on the console are left out.
\<close>

section \<open>State\<close>

record inode =
  i_dev :: u32
  i_inum :: u32
  i_ref :: int
  i_lock :: sleeplock
  i_valid :: bool
  i_type :: ushort
  i_major :: ushort
  i_minor :: ushort
  i_nlink :: ushort
  i_size :: u32
  i_addrs :: "u32 list"

record fs_state = log_state +
  sb :: superblock
  itable :: "inode list"

definition inode_at :: "nat \<Rightarrow> ('a fs_state_scheme, inode) kmon" where
  "inode_at ip = gets (\<lambda>s. itable s ! ip)"

definition set_inode :: "nat \<Rightarrow> (inode \<Rightarrow> inode) \<Rightarrow> 'a fs_state_scheme \<Rightarrow> 'a fs_state_scheme" where
  "set_inode ip f s = s\<lparr>itable := (itable s)[ip := f (itable s ! ip)]\<rparr>"

definition upd_inode :: "nat \<Rightarrow> (inode \<Rightarrow> inode) \<Rightarrow> ('a fs_state_scheme, unit) kmon" where
  "upd_inode ip f = modk (set_inode ip f)"

definition upd_ilock :: "nat \<Rightarrow> (sleeplock \<Rightarrow> sleeplock) \<Rightarrow> 'a fs_state_scheme \<Rightarrow> 'a fs_state_scheme" where
  "upd_ilock ip f = set_inode ip (\<lambda>i. i\<lparr>i_lock := f (i_lock i)\<rparr>)"

definition data_at :: "nat \<Rightarrow> ('a fs_state_scheme, block) kmon" where
  "data_at bp = gets (get_data bp)"

definition put_data :: "nat \<Rightarrow> (block \<Rightarrow> block) \<Rightarrow> ('a fs_state_scheme, unit) kmon" where
  "put_data bp f = modk (set_data bp f)"

section \<open>Blocks\<close>

definition readsb :: "u32 \<Rightarrow> ('a fs_state_scheme, superblock) kmon" where
  "readsb dev =
     bindk (bread dev 1) (\<lambda>bp.
     bindk (data_at bp) (\<lambda>d.
     thenk (brelse bp) (ret (dec_superblock (slice 0 32 d)))))"

definition bzero :: "u32 \<Rightarrow> u32 \<Rightarrow> ('a fs_state_scheme, unit) kmon" where
  "bzero dev bno =
     bindk (bread dev bno) (\<lambda>bp.
     thenk (put_data bp (\<lambda>_. replicate BSIZE 0))
     (thenk (log_write bp) (brelse bp)))"

definition bm_bit :: "block \<Rightarrow> nat \<Rightarrow> bool" where
  "bm_bit d bi = bit (d ! (bi div 8)) (bi mod 8)"

definition bm_set :: "nat \<Rightarrow> block \<Rightarrow> block" where
  "bm_set bi d = d[bi div 8 := or (d ! (bi div 8)) (push_bit (bi mod 8) 1)]"

definition bm_clear :: "nat \<Rightarrow> block \<Rightarrow> block" where
  "bm_clear bi d = d[bi div 8 := and (d ! (bi div 8)) (not (push_bit (bi mod 8) 1))]"

text \<open>
  \<^verbatim>\<open>balloc\<close> over the bitmap blocks from block number \<open>b\<close>; \<open>n\<close> of them are left. The first clear bit
  below both \<open>BPB\<close> and the size of the file system is taken.
\<close>

primrec balloc_from :: "nat \<Rightarrow> u32 \<Rightarrow> nat \<Rightarrow> ('a fs_state_scheme, u32) kmon" where
  "balloc_from 0 dev b = ret 0"
| "balloc_from (Suc n) dev b =
     bindk (gets sb) (\<lambda>sb.
     bindk (bread dev (BBLOCK (of_nat b) sb)) (\<lambda>bp.
     bindk (data_at bp) (\<lambda>d.
     case scan_first (\<lambda>bi. \<not> bm_bit d bi) [0..<min BPB (unat (sb_size sb) - b)] of
       Some bi \<Rightarrow>
         thenk (put_data bp (bm_set bi))
         (thenk (log_write bp)
         (thenk (brelse bp)
         (thenk (bzero dev (of_nat (b + bi))) (ret (of_nat (b + bi))))))
     | None \<Rightarrow> thenk (brelse bp) (balloc_from n dev (b + BPB)))))"

definition balloc :: "u32 \<Rightarrow> ('a fs_state_scheme, u32) kmon" where
  "balloc dev = bindk (gets (\<lambda>s. unat (sb_size (sb s)))) (\<lambda>n. balloc_from ((n + BPB - 1) div BPB) dev 0)"

definition bfree :: "u32 \<Rightarrow> u32 \<Rightarrow> ('a fs_state_scheme, unit) kmon" where
  "bfree dev b =
     bindk (gets (\<lambda>s. BBLOCK b (sb s))) (\<lambda>bb.
     bindk (bread dev bb) (\<lambda>bp.
     bindk (data_at bp) (\<lambda>d.
     if \<not> bm_bit d (unat b mod BPB) then panic ''freeing free block''
     else thenk (put_data bp (bm_clear (unat b mod BPB)))
       (thenk (log_write bp) (brelse bp)))))"

section \<open>Inodes\<close>

definition iinit :: "('a fs_state_scheme, unit) kmon" where
  "iinit = for_each [0..<NINODE] (\<lambda>i. upd_inode i (\<lambda>x. x\<lparr>i_lock := initsleeplock\<rparr>))"

text \<open>The scan of \<^verbatim>\<open>iget\<close>: the first entry in use for this inode, else the first free one.\<close>

definition iget :: "u32 \<Rightarrow> u32 \<Rightarrow> ('a fs_state_scheme, nat) kmon" where
  "iget dev inum =
     bindk (gets itable) (\<lambda>tab.
     case scan_first (\<lambda>x. i_ref x > 0 \<and> i_dev x = dev \<and> i_inum x = inum) (take NINODE tab) of
       Some ip \<Rightarrow> thenk (upd_inode ip (\<lambda>x. x\<lparr>i_ref := i_ref x + 1\<rparr>)) (ret ip)
     | None \<Rightarrow>
         (case scan_first (\<lambda>x. i_ref x = 0) (take NINODE tab) of
            None \<Rightarrow> panic ''iget: no inodes''
          | Some ip \<Rightarrow>
              thenk (upd_inode ip (\<lambda>x. x\<lparr>i_dev := dev, i_inum := inum, i_ref := 1, i_valid := False\<rparr>))
              (ret ip)))"

definition idup :: "nat \<Rightarrow> ('a fs_state_scheme, nat) kmon" where
  "idup ip = thenk (upd_inode ip (\<lambda>x. x\<lparr>i_ref := i_ref x + 1\<rparr>)) (ret ip)"

definition dinode_of :: "inode \<Rightarrow> dinode" where
  "dinode_of x = \<lparr>di_type = i_type x, di_major = i_major x, di_minor = i_minor x, di_nlink = i_nlink x,
     di_size = i_size x, di_addrs = i_addrs x\<rparr>"

definition load_dinode :: "dinode \<Rightarrow> inode \<Rightarrow> inode" where
  "load_dinode d x = x\<lparr>i_type := di_type d, i_major := di_major d, i_minor := di_minor d,
     i_nlink := di_nlink d, i_size := di_size d, i_addrs := di_addrs d\<rparr>"

definition islot :: "u32 \<Rightarrow> nat" where
  "islot inum = unat inum mod IPB"

definition iupdate :: "nat \<Rightarrow> ('a fs_state_scheme, unit) kmon" where
  "iupdate ip =
     bindk (inode_at ip) (\<lambda>x.
     bindk (gets (\<lambda>s. IBLOCK (i_inum x) (sb s))) (\<lambda>ib.
     bindk (bread (i_dev x) ib) (\<lambda>bp.
     thenk (put_data bp (put_rec enc_dinode 64 (islot (i_inum x)) (dinode_of x)))
     (thenk (log_write bp) (brelse bp)))))"

primrec ialloc_from :: "nat \<Rightarrow> u32 \<Rightarrow> ushort \<Rightarrow> u32 \<Rightarrow> ('a fs_state_scheme, nat option) kmon" where
  "ialloc_from 0 dev ty inum = ret None"
| "ialloc_from (Suc n) dev ty inum =
     bindk (gets (\<lambda>s. IBLOCK inum (sb s))) (\<lambda>ib.
     bindk (bread dev ib) (\<lambda>bp.
     bindk (data_at bp) (\<lambda>d.
     if di_type (get_rec dec_dinode 64 (islot inum) d) = 0 then
       thenk (put_data bp (put_rec enc_dinode 64 (islot inum)
         \<lparr>di_type = ty, di_major = 0, di_minor = 0, di_nlink = 0, di_size = 0, di_addrs = replicate (NDIRECT + 1) 0\<rparr>))
       (thenk (log_write bp)
       (thenk (brelse bp)
       (bindk (iget dev inum) (\<lambda>ip. ret (Some ip)))))
     else thenk (brelse bp) (ialloc_from n dev ty (inum + 1)))))"

definition ialloc :: "u32 \<Rightarrow> ushort \<Rightarrow> ('a fs_state_scheme, nat option) kmon" where
  "ialloc dev ty = bindk (gets (\<lambda>s. unat (sb_ninodes (sb s)))) (\<lambda>n. ialloc_from (n - 1) dev ty 1)"

definition ilock :: "nat \<Rightarrow> ('a fs_state_scheme, unit) kmon" where
  "ilock ip =
     bindk (inode_at ip) (\<lambda>x.
     if i_ref x < 1 then panic ''ilock''
     else thenk (acquiresleep (ChanInode ip) (\<lambda>s. i_lock (itable s ! ip)) (upd_ilock ip))
       (if i_valid x then ret ()
        else bindk (gets (\<lambda>s. IBLOCK (i_inum x) (sb s))) (\<lambda>ib.
          bindk (bread (i_dev x) ib) (\<lambda>bp.
          bindk (data_at bp) (\<lambda>d.
          thenk (upd_inode ip (load_dinode (get_rec dec_dinode 64 (islot (i_inum x)) d)))
          (thenk (brelse bp)
          (thenk (upd_inode ip (\<lambda>x. x\<lparr>i_valid := True\<rparr>))
          (bindk (inode_at ip) (\<lambda>x.
           if i_type x = 0 then panic ''ilock: no type'' else ret ())))))))))"

definition iunlock :: "nat \<Rightarrow> ('a fs_state_scheme, unit) kmon" where
  "iunlock ip =
     bindk (holdingsleep (\<lambda>s. i_lock (itable s ! ip))) (\<lambda>h.
     bindk (inode_at ip) (\<lambda>x.
     if \<not> h \<or> i_ref x < 1 then panic ''iunlock''
     else releasesleep (ChanInode ip) (upd_ilock ip)))"

section \<open>Contents of inodes\<close>

definition bmap_direct :: "nat \<Rightarrow> nat \<Rightarrow> ('a fs_state_scheme, u32) kmon" where
  "bmap_direct ip k =
     bindk (inode_at ip) (\<lambda>x.
     if i_addrs x ! k \<noteq> 0 then ret (i_addrs x ! k)
     else bindk (balloc (i_dev x)) (\<lambda>addr.
       if addr = 0 then ret 0
       else thenk (upd_inode ip (\<lambda>x. x\<lparr>i_addrs := (i_addrs x)[k := addr]\<rparr>)) (ret addr)))"

definition bmap :: "nat \<Rightarrow> nat \<Rightarrow> ('a fs_state_scheme, u32) kmon" where
  "bmap ip bn =
     (if bn < NDIRECT then bmap_direct ip bn
      else if bn - NDIRECT < NINDIRECT then
        bindk (bmap_direct ip NDIRECT) (\<lambda>ind.
        if ind = 0 then ret 0
        else bindk (inode_at ip) (\<lambda>x.
          bindk (bread (i_dev x) ind) (\<lambda>bp.
          bindk (data_at bp) (\<lambda>d.
          let addr = get_rec dec32 4 (bn - NDIRECT) d in
          if addr \<noteq> 0 then thenk (brelse bp) (ret addr)
          else bindk (balloc (i_dev x)) (\<lambda>addr.
            thenk (whenk (addr \<noteq> 0)
              (thenk (put_data bp (put_rec enc32 4 (bn - NDIRECT) addr)) (log_write bp)))
            (thenk (brelse bp) (ret addr)))))))
      else panic ''bmap: out of range'')"

definition itrunc :: "nat \<Rightarrow> ('a fs_state_scheme, unit) kmon" where
  "itrunc ip =
     thenk (for_each [0..<NDIRECT] (\<lambda>i.
       bindk (inode_at ip) (\<lambda>x.
       whenk (i_addrs x ! i \<noteq> 0)
         (thenk (bfree (i_dev x) (i_addrs x ! i))
         (upd_inode ip (\<lambda>x. x\<lparr>i_addrs := (i_addrs x)[i := 0]\<rparr>))))))
     (thenk (bindk (inode_at ip) (\<lambda>x.
       whenk (i_addrs x ! NDIRECT \<noteq> 0)
         (bindk (bread (i_dev x) (i_addrs x ! NDIRECT)) (\<lambda>bp.
          thenk (for_each [0..<NINDIRECT] (\<lambda>j.
            bindk (data_at bp) (\<lambda>d.
            whenk (get_rec dec32 4 j d \<noteq> 0) (bfree (i_dev x) (get_rec dec32 4 j d)))))
          (thenk (brelse bp)
          (thenk (bfree (i_dev x) (i_addrs x ! NDIRECT))
          (upd_inode ip (\<lambda>x. x\<lparr>i_addrs := (i_addrs x)[NDIRECT := 0]\<rparr>))))))))
     (thenk (upd_inode ip (\<lambda>x. x\<lparr>i_size := 0\<rparr>))
     (iupdate ip)))"

definition iput :: "nat \<Rightarrow> ('a fs_state_scheme, unit) kmon" where
  "iput ip =
     bindk (inode_at ip) (\<lambda>x.
     thenk (whenk (i_ref x = 1 \<and> i_valid x \<and> i_nlink x = 0)
       (thenk (acquiresleep (ChanInode ip) (\<lambda>s. i_lock (itable s ! ip)) (upd_ilock ip))
       (thenk (itrunc ip)
       (thenk (upd_inode ip (\<lambda>x. x\<lparr>i_type := 0\<rparr>))
       (thenk (iupdate ip)
       (thenk (upd_inode ip (\<lambda>x. x\<lparr>i_valid := False\<rparr>))
       (releasesleep (ChanInode ip) (upd_ilock ip))))))))
     (upd_inode ip (\<lambda>x. x\<lparr>i_ref := i_ref x - 1\<rparr>)))"

definition iunlockput :: "nat \<Rightarrow> ('a fs_state_scheme, unit) kmon" where
  "iunlockput ip = thenk (iunlock ip) (iput ip)"

definition ireclaim1 :: "u32 \<Rightarrow> u32 \<Rightarrow> ('a fs_state_scheme, unit) kmon" where
  "ireclaim1 dev inum =
     bindk (gets (\<lambda>s. IBLOCK inum (sb s))) (\<lambda>ib.
     bindk (bread dev ib) (\<lambda>bp.
     bindk (data_at bp) (\<lambda>d.
     let di = get_rec dec_dinode 64 (islot inum) d in
     if di_type di \<noteq> 0 \<and> di_nlink di = 0 then
       bindk (iget dev inum) (\<lambda>ip.
       thenk (brelse bp)
       (thenk begin_op (thenk (ilock ip) (thenk (iunlock ip) (thenk (iput ip) end_op)))))
     else brelse bp)))"

definition ireclaim :: "u32 \<Rightarrow> ('a fs_state_scheme, unit) kmon" where
  "ireclaim dev =
     bindk (gets (\<lambda>s. unat (sb_ninodes (sb s)))) (\<lambda>n.
     for_each [1..<n] (\<lambda>i. ireclaim1 dev (of_nat i)))"

definition fsinit :: "u32 \<Rightarrow> ('a fs_state_scheme, unit) kmon" where
  "fsinit dev =
     bindk (readsb dev) (\<lambda>b.
     thenk (modk (\<lambda>s. s\<lparr>sb := b\<rparr>))
     (if sb_magic b \<noteq> FSMAGIC then panic ''invalid file system''
      else thenk (initlog dev b) (ireclaim dev)))"

record stat =
  st_dev :: u32
  st_ino :: u32
  st_type :: ushort
  st_nlink :: ushort
  st_size :: u64

definition stati :: "nat \<Rightarrow> ('a fs_state_scheme, stat) kmon" where
  "stati ip = bindk (inode_at ip) (\<lambda>x.
     ret \<lparr>st_dev = i_dev x, st_ino = i_inum x, st_type = i_type x, st_nlink = i_nlink x,
          st_size = ucast (i_size x)\<rparr>)"

end
