(* ===== verification/Fs_Dir.thy ===== *)
theory Fs_Dir
  imports Fs
begin

text \<open>
  Reading and writing inodes, directories and path names (\<^verbatim>\<open>kernel/fs.c\<close>), with
  \<^verbatim>\<open>either_copyout\<close> and \<^verbatim>\<open>either_copyin\<close> of \<^verbatim>\<open>kernel/proc.c\<close>.

  \<open>udst\<close> and \<open>usrc\<close> are the pair (\<^verbatim>\<open>user_dst\<close>, \<^verbatim>\<open>dst\<close>): a user address, or a kernel buffer. What a read
  puts in a kernel buffer is part of its result, and what a write takes from one is its argument.
  Offsets are natural numbers inside the loops: the guards before them exclude overflow of \<^verbatim>\<open>uint\<close>.
\<close>

section \<open>Reading and writing\<close>

datatype udst = KernDst | UserDst u64
datatype usrc = KernSrc bytes | UserSrc u64

definition my_pagetable :: "nat \<Rightarrow> ('a sched_state_scheme, u64) kmon" where
  "my_pagetable me = gets (\<lambda>s. p_pagetable (procs s ! me))"

text \<open>\<open>k\<close> bytes have been transferred before.\<close>

definition either_copyout :: "u64 \<Rightarrow> nat \<Rightarrow> udst \<Rightarrow> nat \<Rightarrow> bytes \<Rightarrow> ('a sched_state_scheme, int) kmon" where
  "either_copyout kend me dst k bs =
     (case dst of
        UserDst a \<Rightarrow> bindk (my_pagetable me) (\<lambda>pt. copyout kend me pt (a + of_nat k) bs)
      | KernDst \<Rightarrow> ret 0)"

definition either_copyin :: "u64 \<Rightarrow> nat \<Rightarrow> usrc \<Rightarrow> nat \<Rightarrow> nat \<Rightarrow> ('a sched_state_scheme, int \<times> bytes) kmon" where
  "either_copyin kend me src k n =
     (case src of
        UserSrc a \<Rightarrow> bindk (my_pagetable me) (\<lambda>pt. copyin kend me pt (a + of_nat k) n)
      | KernSrc bs \<Rightarrow> ret (0, slice k n bs))"

text \<open>
  The loop of \<^verbatim>\<open>readi\<close>: \<open>acc\<close> holds the \<^verbatim>\<open>tot\<close> bytes read so far and \<open>n\<close> are left. The result is
  \<open>None\<close> when the copy to user memory failed.
\<close>

function read_loop :: "u64 \<Rightarrow> nat \<Rightarrow> nat \<Rightarrow> udst \<Rightarrow> nat \<Rightarrow> nat \<Rightarrow> bytes \<Rightarrow> ('a fs_state_scheme, bytes option) kmon" where
  "read_loop kend me ip dst off n acc =
     (if n = 0 then ret (Some acc)
      else bindk (bmap ip (off div BSIZE)) (\<lambda>addr.
        if addr = 0 then ret (Some acc)
        else bindk (inode_at ip) (\<lambda>x.
          bindk (bread (i_dev x) addr) (\<lambda>bp.
          bindk (data_at bp) (\<lambda>d.
          let m = min n (BSIZE - off mod BSIZE); bs = slice (off mod BSIZE) m d in
          bindk (either_copyout kend me dst (length acc) bs) (\<lambda>r.
          thenk (brelse bp)
          (if r = - 1 then ret None
           else read_loop kend me ip dst (off + m) (n - m) (acc @ bs))))))))"
  by pat_completeness auto
termination
  by (relation "measure (\<lambda>(_, _, _, _, _, n, _). n)") auto

declare read_loop.simps [simp del]

definition readi :: "u64 \<Rightarrow> nat \<Rightarrow> nat \<Rightarrow> udst \<Rightarrow> u32 \<Rightarrow> u32 \<Rightarrow> ('a fs_state_scheme, int \<times> bytes) kmon" where
  "readi kend me ip dst off n =
     bindk (inode_at ip) (\<lambda>x.
     if off > i_size x \<or> off + n < off then ret (0, [])
     else bindk (read_loop kend me ip dst (unat off)
         (if off + n > i_size x then unat (i_size x - off) else unat n) []) (\<lambda>r.
       case r of Some acc \<Rightarrow> ret (int (length acc), acc) | None \<Rightarrow> ret (- 1, [])))"

text \<open>
  The loop of \<^verbatim>\<open>writei\<close> returns \<^verbatim>\<open>tot\<close> and \<^verbatim>\<open>off\<close>. A failed copy from user memory leaves the bytes it
  did copy in the buffer, which is released without \<^verbatim>\<open>log_write\<close>.
\<close>

function write_loop :: "u64 \<Rightarrow> nat \<Rightarrow> nat \<Rightarrow> usrc \<Rightarrow> nat \<Rightarrow> nat \<Rightarrow> nat \<Rightarrow> ('a fs_state_scheme, nat \<times> nat) kmon" where
  "write_loop kend me ip src off n tot =
     (if n = 0 then ret (tot, off)
      else bindk (bmap ip (off div BSIZE)) (\<lambda>addr.
        if addr = 0 then ret (tot, off)
        else bindk (inode_at ip) (\<lambda>x.
          bindk (bread (i_dev x) addr) (\<lambda>bp.
          let m = min n (BSIZE - off mod BSIZE) in
          bindk (either_copyin kend me src tot m) (\<lambda>(r, bs).
          thenk (put_data bp (splice (off mod BSIZE) bs))
          (if r = - 1 then thenk (brelse bp) (ret (tot, off))
           else thenk (log_write bp)
             (thenk (brelse bp)
             (write_loop kend me ip src (off + m) (n - m) (tot + m)))))))))"
  by pat_completeness auto
termination
  by (relation "measure (\<lambda>(_, _, _, _, _, n, _). n)") auto

declare write_loop.simps [simp del]

definition writei :: "u64 \<Rightarrow> nat \<Rightarrow> nat \<Rightarrow> usrc \<Rightarrow> u32 \<Rightarrow> u32 \<Rightarrow> ('a fs_state_scheme, int) kmon" where
  "writei kend me ip src off n =
     bindk (inode_at ip) (\<lambda>x.
     if off > i_size x \<or> off + n < off then ret (- 1)
     else if unat (off + n) > MAXFILE * BSIZE then ret (- 1)
     else bindk (write_loop kend me ip src (unat off) (unat n) 0) (\<lambda>(tot, off').
       thenk (upd_inode ip (\<lambda>x. if off' > unat (i_size x) then x\<lparr>i_size := of_nat off'\<rparr> else x))
       (thenk (iupdate ip) (ret (int tot)))))"

section \<open>Directories\<close>

definition cname :: "bytes \<Rightarrow> nat \<Rightarrow> uchar" where
  "cname nm i = (if i < length nm then nm ! i else 0)"

definition namecmp :: "bytes \<Rightarrow> bytes \<Rightarrow> int" where
  "namecmp s t = strncmp DIRSIZ (cname s) (cname t)"

definition read_dirent :: "u64 \<Rightarrow> nat \<Rightarrow> nat \<Rightarrow> nat \<Rightarrow> string \<Rightarrow> ('a fs_state_scheme, dirent) kmon" where
  "read_dirent kend me dp off msg =
     bindk (readi kend me dp KernDst (of_nat off) 16) (\<lambda>(r, bs).
     if r \<noteq> 16 then panic msg else ret (dec_dirent bs))"

text \<open>The loop of \<^verbatim>\<open>dirlookup\<close> from offset \<open>off\<close>, over \<open>n\<close> entries.\<close>

primrec dirlookup_from :: "nat \<Rightarrow> u64 \<Rightarrow> nat \<Rightarrow> nat \<Rightarrow> bytes \<Rightarrow> nat \<Rightarrow> ('a fs_state_scheme, (nat \<times> nat) option) kmon" where
  "dirlookup_from 0 kend me dp nm off = ret None"
| "dirlookup_from (Suc n) kend me dp nm off =
     bindk (read_dirent kend me dp off ''dirlookup read'') (\<lambda>de.
     if de_inum de \<noteq> 0 \<and> namecmp nm (de_name de) = 0 then
       bindk (inode_at dp) (\<lambda>x. bindk (iget (i_dev x) (ucast (de_inum de))) (\<lambda>ip. ret (Some (ip, off))))
     else dirlookup_from n kend me dp nm (off + 16))"

definition dir_slots :: "inode \<Rightarrow> nat" where
  "dir_slots x = (unat (i_size x) + 15) div 16"

definition dirlookup :: "u64 \<Rightarrow> nat \<Rightarrow> nat \<Rightarrow> bytes \<Rightarrow> ('a fs_state_scheme, (nat \<times> nat) option) kmon" where
  "dirlookup kend me dp nm =
     bindk (inode_at dp) (\<lambda>x.
     if i_type x \<noteq> T_DIR then panic ''dirlookup not DIR''
     else dirlookup_from (dir_slots x) kend me dp nm 0)"

primrec free_slot :: "nat \<Rightarrow> u64 \<Rightarrow> nat \<Rightarrow> nat \<Rightarrow> nat \<Rightarrow> ('a fs_state_scheme, nat) kmon" where
  "free_slot 0 kend me dp off = ret off"
| "free_slot (Suc n) kend me dp off =
     bindk (read_dirent kend me dp off ''dirlink read'') (\<lambda>de.
     if de_inum de = 0 then ret off else free_slot n kend me dp (off + 16))"

text \<open>\<^verbatim>\<open>strncpy(de.name, name, DIRSIZ)\<close>: cut at \<open>DIRSIZ\<close> or filled with NULs.\<close>

definition pad_name :: "bytes \<Rightarrow> bytes" where
  "pad_name nm = map (cname nm) [0..<DIRSIZ]"

definition dirlink :: "u64 \<Rightarrow> nat \<Rightarrow> nat \<Rightarrow> bytes \<Rightarrow> u32 \<Rightarrow> ('a fs_state_scheme, int) kmon" where
  "dirlink kend me dp nm inum =
     bindk (dirlookup kend me dp nm) (\<lambda>r.
     case r of
       Some (ip, _) \<Rightarrow> thenk (iput ip) (ret (- 1))
     | None \<Rightarrow>
         bindk (inode_at dp) (\<lambda>x.
         bindk (free_slot (dir_slots x) kend me dp 0) (\<lambda>off.
         bindk (writei kend me dp (KernSrc (enc_dirent \<lparr>de_inum = ucast inum, de_name = pad_name nm\<rparr>)) (of_nat off) 16) (\<lambda>w.
         if w \<noteq> 16 then ret (- 1) else ret 0))))"

section \<open>Paths\<close>

definition slash :: uchar where "slash = 47"

text \<open>\<^verbatim>\<open>skipelem\<close>: the next element, cut at \<open>DIRSIZ\<close>, and the rest of the path without leading slashes.\<close>

definition skipelem :: "bytes \<Rightarrow> (bytes \<times> bytes) option" where
  "skipelem path =
     (let p = dropWhile (\<lambda>c. c = slash) path in
      if p = [] then None
      else let elem = takeWhile (\<lambda>c. c \<noteq> slash) p in
        Some (take DIRSIZ elem, dropWhile (\<lambda>c. c = slash) (dropWhile (\<lambda>c. c \<noteq> slash) p)))"

lemma skipelem_shorter: "skipelem path = Some (nm, path2) \<Longrightarrow> length path2 < length path"
proof -
  assume a: "skipelem path = Some (nm, path2)"
  define p where "p = dropWhile (\<lambda>c. c = slash) path"
  have p: "p \<noteq> []" and path2: "path2 = dropWhile (\<lambda>c. c = slash) (dropWhile (\<lambda>c. c \<noteq> slash) p)"
    using a by (auto simp: skipelem_def Let_def p_def split: if_splits)
  have "hd p \<noteq> slash" using p hd_dropWhile [of "\<lambda>c. c = slash" path] by (simp add: p_def)
  then obtain c q where q: "p = c # q" "c \<noteq> slash" using p by (cases p) auto
  then have "length path2 \<le> length q" unfolding path2
    by (simp add: le_trans [OF length_dropWhile_le length_dropWhile_le])
  moreover have "length p \<le> length path" by (simp add: p_def length_dropWhile_le)
  ultimately show ?thesis using q(1) by simp
qed

function namex_loop :: "u64 \<Rightarrow> nat \<Rightarrow> nat \<Rightarrow> bytes \<Rightarrow> bool \<Rightarrow> bytes \<Rightarrow> ('a fs_state_scheme, (nat \<times> bytes) option) kmon" where
  "namex_loop kend me ip path parent nm =
     (case skipelem path of
        None \<Rightarrow> if parent then thenk (iput ip) (ret None) else ret (Some (ip, nm))
      | Some (el, path2) \<Rightarrow>
          thenk (ilock ip)
          (bindk (inode_at ip) (\<lambda>x.
           if i_type x \<noteq> T_DIR then thenk (iunlockput ip) (ret None)
           else if parent \<and> path2 = [] then thenk (iunlock ip) (ret (Some (ip, el)))
           else bindk (dirlookup kend me ip el) (\<lambda>r.
             case r of
               None \<Rightarrow> thenk (iunlockput ip) (ret None)
             | Some (nxt, _) \<Rightarrow> thenk (iunlockput ip) (namex_loop kend me nxt path2 parent el)))))"
  by pat_completeness auto
termination
  by (relation "measure (\<lambda>(_, _, _, path, _, _). length path)") (auto dest: skipelem_shorter)

declare namex_loop.simps [simp del]

text \<open>The result also carries the name the code leaves in \<^verbatim>\<open>name\<close>.\<close>

definition namex :: "u64 \<Rightarrow> nat \<Rightarrow> bytes \<Rightarrow> bool \<Rightarrow> ('a fs_state_scheme, (nat \<times> bytes) option) kmon" where
  "namex kend me path parent =
     bindk (if path \<noteq> [] \<and> hd path = slash then iget ROOTDEV ROOTINO
            else bindk (gets (\<lambda>s. p_cwd (procs s ! me))) (\<lambda>c.
              case c of None \<Rightarrow> fault ''cwd'' | Some ip \<Rightarrow> idup ip)) (\<lambda>ip.
     namex_loop kend me ip path parent [])"

definition namei :: "u64 \<Rightarrow> nat \<Rightarrow> bytes \<Rightarrow> ('a fs_state_scheme, nat option) kmon" where
  "namei kend me path = bindk (namex kend me path False) (\<lambda>r. ret (map_option fst r))"

definition nameiparent :: "u64 \<Rightarrow> nat \<Rightarrow> bytes \<Rightarrow> ('a fs_state_scheme, (nat \<times> bytes) option) kmon" where
  "nameiparent kend me path = namex kend me path True"

end
