(* ===== verification/File.thy ===== *)
theory File
  imports Fs_Dir
begin

text \<open>
  The open-file table (\<^verbatim>\<open>kernel/file.c\<close>) and pipes (\<^verbatim>\<open>kernel/pipe.c\<close>).

  A \<^verbatim>\<open>struct file *\<close> is an index in \<open>ftable\<close>. A pipe lives in a page from \<^verbatim>\<open>kalloc\<close>; \<open>pipes\<close> gives the
  \<^verbatim>\<open>struct pipe\<close> at each page address. \<open>h\<close> is the hart and \<open>me\<close> the index of \<^verbatim>\<open>myproc()\<close>.

  \<^verbatim>\<open>pipewrite\<close> may sleep after it has stored part of its bytes. Its loop therefore returns either its
  result or the position at which it waits, with the state at that moment; the call continues there
  when the process runs again.
\<close>

section \<open>Data\<close>

definition PIPESIZE :: nat where "PIPESIZE = 512"

record pipe =
  pi_data :: bytes
  pi_nread :: u32
  pi_nwrite :: u32
  pi_readopen :: bool
  pi_writeopen :: bool

datatype fdtype = FD_NONE | FD_PIPE | FD_INODE | FD_DEVICE

record ofile =
  f_type :: fdtype
  f_ref :: int
  f_readable :: bool
  f_writable :: bool
  f_pipe :: u64
  f_ip :: nat
  f_off :: u32
  f_major :: int

record file_state = fs_state +
  ftable :: "ofile list"
  pipes :: "u64 \<Rightarrow> pipe"

definition file_at :: "nat \<Rightarrow> ('a file_state_scheme, ofile) kmon" where
  "file_at f = gets (\<lambda>s. ftable s ! f)"

definition upd_file :: "nat \<Rightarrow> (ofile \<Rightarrow> ofile) \<Rightarrow> ('a file_state_scheme, unit) kmon" where
  "upd_file f g = modk (\<lambda>s. s\<lparr>ftable := (ftable s)[f := g (ftable s ! f)]\<rparr>)"

definition pipe_at :: "u64 \<Rightarrow> ('a file_state_scheme, pipe) kmon" where
  "pipe_at pi = gets (\<lambda>s. pipes s pi)"

definition upd_pipe :: "u64 \<Rightarrow> (pipe \<Rightarrow> pipe) \<Rightarrow> ('a file_state_scheme, unit) kmon" where
  "upd_pipe pi g = modk (\<lambda>s. s\<lparr>pipes := (pipes s)(pi := g (pipes s pi))\<rparr>)"

definition chan_read :: "u64 \<Rightarrow> chan" where "chan_read pi = ChanPipeRead (unat pi)"
definition chan_write :: "u64 \<Rightarrow> chan" where "chan_write pi = ChanPipeWrite (unat pi)"

section \<open>Pipes\<close>

definition pipeclose :: "u64 \<Rightarrow> nat \<Rightarrow> u64 \<Rightarrow> bool \<Rightarrow> ('a file_state_scheme, unit) kmon" where
  "pipeclose kend h pi writable =
     thenk (if writable then thenk (upd_pipe pi (\<lambda>p. p\<lparr>pi_writeopen := False\<rparr>)) (wakeup h (chan_read pi))
            else thenk (upd_pipe pi (\<lambda>p. p\<lparr>pi_readopen := False\<rparr>)) (wakeup h (chan_write pi)))
     (bindk (pipe_at pi) (\<lambda>p.
      whenk (\<not> pi_readopen p \<and> \<not> pi_writeopen p) (kfree kend pi)))"

definition put_byte :: "uchar \<Rightarrow> pipe \<Rightarrow> pipe" where
  "put_byte c p = p\<lparr>pi_data := (pi_data p)[unat (pi_nwrite p) mod PIPESIZE := c], pi_nwrite := pi_nwrite p + 1\<rparr>"

datatype write_result = Wrote int | Waits nat

text \<open>The loop from byte \<open>i\<close> with \<open>k\<close> bytes left; \<open>Waits i\<close> when the pipe is full at byte \<open>i\<close>.\<close>

primrec pipewrite_loop :: "nat \<Rightarrow> u64 \<Rightarrow> nat \<Rightarrow> nat \<Rightarrow> u64 \<Rightarrow> u64 \<Rightarrow> nat \<Rightarrow> ('a file_state_scheme, write_result) kmon" where
  "pipewrite_loop 0 kend h me pi addr i = thenk (wakeup h (chan_read pi)) (ret (Wrote (int i)))"
| "pipewrite_loop (Suc k) kend h me pi addr i =
     bindk (pipe_at pi) (\<lambda>p.
     bindk (killed me) (\<lambda>kl.
     if \<not> pi_readopen p \<or> kl \<noteq> 0 then ret (Wrote (- 1))
     else if pi_nwrite p = pi_nread p + of_nat PIPESIZE then thenk (wakeup h (chan_read pi)) (ret (Waits i))
     else bindk (my_pagetable me) (\<lambda>pt.
       bindk (copyin kend me pt (addr + of_nat i) 1) (\<lambda>(r, bs).
       if r = - 1 then thenk (wakeup h (chan_read pi)) (ret (Wrote (int i)))
       else thenk (upd_pipe pi (put_byte (hd bs)))
         (pipewrite_loop k kend h me pi addr (Suc i))))))"

definition pipewrite :: "u64 \<Rightarrow> nat \<Rightarrow> nat \<Rightarrow> u64 \<Rightarrow> u64 \<Rightarrow> int \<Rightarrow> nat \<Rightarrow> ('a file_state_scheme, write_result) kmon" where
  "pipewrite kend h me pi addr n i = pipewrite_loop (nat n - i) kend h me pi addr i"

definition pipe_byte :: "pipe \<Rightarrow> uchar" where
  "pipe_byte p = pi_data p ! (unat (pi_nread p) mod PIPESIZE)"

primrec piperead_loop :: "nat \<Rightarrow> u64 \<Rightarrow> nat \<Rightarrow> u64 \<Rightarrow> u64 \<Rightarrow> nat \<Rightarrow> ('a file_state_scheme, nat) kmon" where
  "piperead_loop 0 kend me pi addr i = ret i"
| "piperead_loop (Suc k) kend me pi addr i =
     bindk (pipe_at pi) (\<lambda>p.
     if pi_nread p = pi_nwrite p then ret i
     else thenk (upd_pipe pi (\<lambda>p. p\<lparr>pi_nread := pi_nread p + 1\<rparr>))
       (bindk (my_pagetable me) (\<lambda>pt.
        bindk (copyout kend me pt (addr + of_nat i) [pipe_byte p]) (\<lambda>r.
        if r = - 1 then ret i else piperead_loop k kend me pi addr (Suc i)))))"

definition piperead :: "u64 \<Rightarrow> nat \<Rightarrow> nat \<Rightarrow> u64 \<Rightarrow> u64 \<Rightarrow> int \<Rightarrow> ('a file_state_scheme, int) kmon" where
  "piperead kend h me pi addr n =
     bindk (pipe_at pi) (\<lambda>p.
     bindk (killed me) (\<lambda>kl.
     if pi_nread p = pi_nwrite p \<and> pi_writeopen p then
       (if kl \<noteq> 0 then ret (- 1) else asleep (chan_read pi))
     else bindk (piperead_loop (nat n) kend me pi addr 0) (\<lambda>i.
       thenk (wakeup h (chan_write pi)) (ret (int i)))))"

section \<open>The file table\<close>

definition filealloc :: "('a file_state_scheme, nat option) kmon" where
  "filealloc =
     bindk (gets (\<lambda>s. scan_first (\<lambda>f. f_ref f = 0) (take NFILE (ftable s)))) (\<lambda>r.
     case r of
       None \<Rightarrow> ret None
     | Some f \<Rightarrow> thenk (upd_file f (\<lambda>x. x\<lparr>f_ref := 1\<rparr>)) (ret (Some f)))"

definition filedup :: "nat \<Rightarrow> ('a file_state_scheme, nat) kmon" where
  "filedup f =
     bindk (file_at f) (\<lambda>x.
     if f_ref x < 1 then panic ''filedup''
     else thenk (upd_file f (\<lambda>x. x\<lparr>f_ref := f_ref x + 1\<rparr>)) (ret f))"

definition fileclose :: "u64 \<Rightarrow> nat \<Rightarrow> nat \<Rightarrow> ('a file_state_scheme, unit) kmon" where
  "fileclose kend h f =
     bindk (file_at f) (\<lambda>x.
     if f_ref x < 1 then panic ''fileclose''
     else if f_ref x - 1 > 0 then upd_file f (\<lambda>x. x\<lparr>f_ref := f_ref x - 1\<rparr>)
     else thenk (upd_file f (\<lambda>x. x\<lparr>f_ref := 0, f_type := FD_NONE\<rparr>))
       (if f_type x = FD_PIPE then pipeclose kend h (f_pipe x) (f_writable x)
        else if f_type x = FD_INODE \<or> f_type x = FD_DEVICE then
          thenk begin_op (thenk (iput (f_ip x)) end_op)
        else ret ()))"

definition pipe_fail :: "u64 \<Rightarrow> nat \<Rightarrow> nat option \<Rightarrow> nat option \<Rightarrow> ('a file_state_scheme, (nat \<times> nat) option) kmon" where
  "pipe_fail kend h f0 f1 =
     thenk (case f0 of None \<Rightarrow> ret () | Some f \<Rightarrow> fileclose kend h f)
     (thenk (case f1 of None \<Rightarrow> ret () | Some f \<Rightarrow> fileclose kend h f) (ret None))"

definition pipealloc :: "u64 \<Rightarrow> nat \<Rightarrow> ('a file_state_scheme, (nat \<times> nat) option) kmon" where
  "pipealloc kend h =
     bindk filealloc (\<lambda>r0.
     case r0 of
       None \<Rightarrow> pipe_fail kend h None None
     | Some f0 \<Rightarrow>
         bindk filealloc (\<lambda>r1.
         case r1 of
           None \<Rightarrow> pipe_fail kend h (Some f0) None
         | Some f1 \<Rightarrow>
             bindk kalloc (\<lambda>pi.
             if pi = 0 then pipe_fail kend h (Some f0) (Some f1)
             else thenk (upd_pipe pi (\<lambda>p. p\<lparr>pi_readopen := True, pi_writeopen := True, pi_nwrite := 0, pi_nread := 0\<rparr>))
               (thenk (upd_file f0 (\<lambda>x. x\<lparr>f_type := FD_PIPE, f_readable := True, f_writable := False, f_pipe := pi\<rparr>))
               (thenk (upd_file f1 (\<lambda>x. x\<lparr>f_type := FD_PIPE, f_readable := False, f_writable := True, f_pipe := pi\<rparr>))
               (ret (Some (f0, f1))))))))"

text \<open>\<^verbatim>\<open>struct stat\<close> has four bytes of padding, which hold what was on the stack: \<open>pad\<close>.\<close>

definition enc_stat :: "bytes \<Rightarrow> stat \<Rightarrow> bytes" where
  "enc_stat pad st = enc32 (st_dev st) @ enc32 (st_ino st) @ enc16 (st_type st) @ enc16 (st_nlink st)
     @ pad @ enc64 (st_size st)"

definition filestat :: "bytes \<Rightarrow> u64 \<Rightarrow> nat \<Rightarrow> nat \<Rightarrow> u64 \<Rightarrow> ('a file_state_scheme, int) kmon" where
  "filestat pad kend me f addr =
     bindk (file_at f) (\<lambda>x.
     if f_type x = FD_INODE \<or> f_type x = FD_DEVICE then
       thenk (ilock (f_ip x))
       (bindk (stati (f_ip x)) (\<lambda>st.
        thenk (iunlock (f_ip x))
        (bindk (my_pagetable me) (\<lambda>pt.
         bindk (copyout kend me pt addr (enc_stat pad st)) (\<lambda>r. if r < 0 then ret (- 1) else ret 0)))))
     else ret (- 1))"

end
