(* ===== verification/Proc.thy ===== *)
theory Proc
  imports File
begin

text \<open>
  Life of a process (\<^verbatim>\<open>kernel/proc.c\<close>): creation, \<^verbatim>\<open>fork\<close>, \<^verbatim>\<open>exit\<close> and \<^verbatim>\<open>wait\<close>.

  \<open>kend\<close>, \<open>tramp\<close> and \<open>fret\<close> are the addresses of \<^verbatim>\<open>end\<close>, \<^verbatim>\<open>trampoline\<close> and \<^verbatim>\<open>forkret\<close>; \<open>h\<close> is the hart and
  \<open>me\<close> the index of \<^verbatim>\<open>myproc()\<close>. The saved registers of \<^verbatim>\<open>struct context\<close> are a list, \<^verbatim>\<open>ra\<close> and \<^verbatim>\<open>sp\<close>
  first; the trapframe is memory at the physical address \<^verbatim>\<open>p->trapframe\<close>.
\<close>

definition freeproc :: "u64 \<Rightarrow> nat \<Rightarrow> ('a sched_state_scheme, unit) kmon" where
  "freeproc kend p =
     bindk (gets (\<lambda>s. procs s ! p)) (\<lambda>x.
     thenk (whenk (p_trapframe x \<noteq> 0) (kfree kend (p_trapframe x)))
     (thenk (upd_proc p (\<lambda>x. x\<lparr>p_trapframe := 0\<rparr>))
     (thenk (whenk (p_pagetable x \<noteq> 0) (proc_freepagetable kend (p_pagetable x) (p_sz x)))
     (upd_proc p (\<lambda>x. x\<lparr>p_pagetable := 0, p_sz := 0, p_pid := 0, p_parent := None, p_name := (p_name x)[0 := 0],
        p_chan := None, p_killed := 0, p_xstate := 0, p_deadline := 0, p_priority := 0, p_start_time := 0,
        p_in_rq := False, p_state := UNUSED\<rparr>)))))"

definition allocproc :: "u64 \<Rightarrow> u64 \<Rightarrow> u64 \<Rightarrow> ('a sched_state_scheme, nat option) kmon" where
  "allocproc kend tramp fret =
     bindk (gets (\<lambda>s. scan_first (\<lambda>p. p_state p = UNUSED) (procs s))) (\<lambda>r.
     case r of
       None \<Rightarrow> ret None
     | Some p \<Rightarrow>
         bindk allocpid (\<lambda>pid.
         thenk (upd_proc p (\<lambda>x. x\<lparr>p_pid := pid, p_state := USED, p_deadline := 0, p_priority := 0,
           p_start_time := 0, p_in_rq := False\<rparr>))
         (bindk kalloc (\<lambda>tf.
         thenk (upd_proc p (\<lambda>x. x\<lparr>p_trapframe := tf\<rparr>))
         (if tf = 0 then thenk (freeproc kend p) (ret None)
          else bindk (proc_pagetable kend tramp tf) (\<lambda>pt.
            thenk (upd_proc p (\<lambda>x. x\<lparr>p_pagetable := pt\<rparr>))
            (if pt = 0 then thenk (freeproc kend p) (ret None)
             else thenk (upd_proc p (\<lambda>x. x\<lparr>p_context := fret # (p_kstack x + of_nat PGSIZE) # replicate 12 0\<rparr>))
               (ret (Some p)))))))))"

definition userinit :: "u64 \<Rightarrow> u64 \<Rightarrow> u64 \<Rightarrow> nat \<Rightarrow> ('a fs_state_scheme, unit) kmon" where
  "userinit kend tramp fret me =
     bindk (allocproc kend tramp fret) (\<lambda>r.
     thenk (modk (\<lambda>s. s\<lparr>initproc := r\<rparr>))
     (case r of
        None \<Rightarrow> fault ''userinit''
      | Some p \<Rightarrow>
          bindk (namei kend me [slash]) (\<lambda>c.
          thenk (upd_proc p (\<lambda>x. x\<lparr>p_cwd := c, p_state := RUNNABLE\<rparr>)) (rq_insert p))))"

definition TF_SIZE :: nat where "TF_SIZE = 288"
definition TF_A0 :: nat where "TF_A0 = 112"

text \<open>\<^verbatim>\<open>safestrcpy\<close> between two \<^verbatim>\<open>name\<close> fields of 16 bytes.\<close>

definition copy_name :: "bytes \<Rightarrow> bytes \<Rightarrow> bytes" where
  "copy_name src old = (let n = length (takeWhile (\<lambda>c. c \<noteq> 0) (take 15 src)) in take n src @ 0 # drop (Suc n) old)"

definition dup_files :: "nat \<Rightarrow> nat \<Rightarrow> ('a file_state_scheme, unit) kmon" where
  "dup_files me np =
     for_each [0..<NOFILE] (\<lambda>i.
       bindk (gets (\<lambda>s. p_ofile (procs s ! me) ! i)) (\<lambda>o1.
       case o1 of
         None \<Rightarrow> ret ()
       | Some f \<Rightarrow> bindk (filedup f) (\<lambda>g. upd_proc np (\<lambda>x. x\<lparr>p_ofile := (p_ofile x)[i := Some g]\<rparr>))))"

definition kfork :: "u64 \<Rightarrow> u64 \<Rightarrow> u64 \<Rightarrow> nat \<Rightarrow> ('a file_state_scheme, int) kmon" where
  "kfork kend tramp fret me =
     bindk (allocproc kend tramp fret) (\<lambda>r.
     case r of
       None \<Rightarrow> ret (- 1)
     | Some np \<Rightarrow>
         bindk (gets (\<lambda>s. (procs s ! me, procs s ! np))) (\<lambda>(p, q).
         bindk (uvmcopy kend (p_pagetable p) (p_pagetable q) (p_sz p)) (\<lambda>u.
         if u < 0 then thenk (freeproc kend np) (ret (- 1))
         else
           thenk (upd_proc np (\<lambda>x. x\<lparr>p_sz := p_sz p\<rparr>))
           (thenk (modk (\<lambda>s. s\<lparr>pmem := memmove (unat (p_trapframe q)) (unat (p_trapframe p)) TF_SIZE (pmem s)\<rparr>))
           (thenk (modk (\<lambda>s. s\<lparr>pmem := store64 (unat (p_trapframe q) + TF_A0) 0 (pmem s)\<rparr>))
           (thenk (dup_files me np)
           (bindk (case p_cwd p of None \<Rightarrow> fault ''cwd'' | Some c \<Rightarrow> idup c) (\<lambda>c.
           thenk (upd_proc np (\<lambda>x. x\<lparr>p_cwd := Some c, p_name := copy_name (p_name p) (p_name x),
             p_trace_mask := p_trace_mask p, p_deadline := p_deadline p, p_priority := p_priority p\<rparr>))
           (thenk (upd_proc np (\<lambda>x. x\<lparr>p_parent := Some me\<rparr>))
           (thenk (upd_proc np (\<lambda>x. x\<lparr>p_state := RUNNABLE\<rparr>))
           (thenk (rq_insert np) (ret (p_pid q)))))))))))))"

definition close_files :: "u64 \<Rightarrow> nat \<Rightarrow> nat \<Rightarrow> ('a file_state_scheme, unit) kmon" where
  "close_files kend h me =
     for_each [0..<NOFILE] (\<lambda>fd.
       bindk (gets (\<lambda>s. p_ofile (procs s ! me) ! fd)) (\<lambda>o1.
       case o1 of
         None \<Rightarrow> ret ()
       | Some f \<Rightarrow> thenk (fileclose kend h f) (upd_proc me (\<lambda>x. x\<lparr>p_ofile := (p_ofile x)[fd := None]\<rparr>))))"

text \<open>\<^verbatim>\<open>kexit\<close> up to the switch to the scheduler, from which it does not come back.\<close>

definition kexit :: "u64 \<Rightarrow> nat \<Rightarrow> nat \<Rightarrow> int \<Rightarrow> ('a file_state_scheme, unit) kmon" where
  "kexit kend h me status =
     bindk (gets initproc) (\<lambda>ini.
     if ini = Some me then panic ''init exiting''
     else thenk (close_files kend h me)
       (thenk begin_op
       (bindk (gets (\<lambda>s. p_cwd (procs s ! me))) (\<lambda>c.
       thenk (case c of None \<Rightarrow> fault ''cwd'' | Some ip \<Rightarrow> iput ip)
       (thenk end_op
       (thenk (upd_proc me (\<lambda>x. x\<lparr>p_cwd := None\<rparr>))
       (thenk (reparent h me)
       (bindk (gets (\<lambda>s. procs s ! me)) (\<lambda>x.
       thenk (case p_parent x of None \<Rightarrow> ret () | Some q \<Rightarrow> wakeup h (ChanProc q))
       (thenk (proc_freepagetable kend (p_pagetable x) (p_sz x))
       (thenk (upd_proc me (\<lambda>x. x\<lparr>p_pagetable := 0, p_sz := 0\<rparr>))
       (bindk (gets (\<lambda>s. p_state (procs s ! me))) (\<lambda>st.
       thenk (whenk (st = RUNNABLE) (rq_remove me))
       (thenk (upd_proc me (\<lambda>x. x\<lparr>p_xstate := status, p_state := ZOMBIE\<rparr>))
       (thenk (sched me) (leave_cpu h))))))))))))))))"

definition kwait :: "u64 \<Rightarrow> nat \<Rightarrow> u64 \<Rightarrow> ('a sched_state_scheme, int) kmon" where
  "kwait kend me addr =
     bindk (gets (\<lambda>s. scan_first (\<lambda>q. p_parent q = Some me \<and> p_state q = ZOMBIE) (procs s))) (\<lambda>r.
     case r of
       Some pp \<Rightarrow>
         bindk (gets (\<lambda>s. (procs s ! pp, p_pagetable (procs s ! me)))) (\<lambda>(q, pt).
         bindk (if addr \<noteq> 0 then copyout kend me pt addr (enc32 (of_int (p_xstate q))) else ret 0) (\<lambda>c.
         if c < 0 then ret (- 1) else thenk (freeproc kend pp) (ret (p_pid q))))
     | None \<Rightarrow>
         bindk (gets (\<lambda>s. (\<exists>q\<in>set (procs s). p_parent q = Some me, p_killed (procs s ! me)))) (\<lambda>(kids, kl).
         if \<not> kids \<or> kl \<noteq> 0 then ret (- 1) else asleep (ChanProc me)))"

section \<open>The process table is only changed by the process code\<close>

text \<open>The allocator and the page tables leave the process table as it is.\<close>

abbreviation procs_are :: "proc list \<Rightarrow> 'a sched_state_scheme \<Rightarrow> bool" where
  "procs_are P s \<equiv> procs s = P"

lemma keeps_case_option [keeps_intros]:
  "keeps I f \<Longrightarrow> (\<And>x. keeps I (g x)) \<Longrightarrow> keeps I (case r of None \<Rightarrow> f | Some x \<Rightarrow> g x)"
  by (cases r) simp_all

lemma keeps_mem [keeps_intros]:
  "keeps (procs_are P) (get_pte a)" "keeps (procs_are P) (set_pte a v)" "keeps (procs_are P) (fill_page p c)"
  "keeps (procs_are P) (upd_ref pa f)"
  by (simp_all add: keeps_def get_pte_def set_pte_def fill_page_def upd_ref_def gets_def modk_def fault_def
      split: if_splits)

lemma keeps_kalloc [keeps_intros]: "keeps (procs_are P) kalloc"
  unfolding kalloc_def by (intro keeps_intros keeps_modk) auto

lemma keeps_kfree [keeps_intros]: "keeps (procs_are P) (kfree kend pa)"
  unfolding kfree_def by (intro keeps_intros keeps_modk) auto

lemma keeps_walk_from: "keeps (procs_are P) (walk_from n pt va alloc)"
  by (induction n arbitrary: pt) (auto intro!: keeps_intros)

lemma keeps_walk [keeps_intros]: "keeps (procs_are P) (walk pt va alloc)"
  unfolding walk_def by (intro keeps_intros keeps_walk_from)

lemma keeps_map_loop: "keeps (procs_are P) (map_loop n pt a pa perm)"
  by (induction n arbitrary: a pa) (auto intro!: keeps_intros)

lemma keeps_mappages [keeps_intros]: "keeps (procs_are P) (mappages pt va sz pa perm)"
  unfolding mappages_def by (intro keeps_intros keeps_map_loop)

lemma keeps_uvmunmap [keeps_intros]: "keeps (procs_are P) (uvmunmap kend pt va n f)"
  unfolding uvmunmap_def unmap_page_def by (intro keeps_intros)

lemma keeps_freewalk_lev: "keeps (procs_are P) (freewalk_lev kend n pt)"
  by (induction n arbitrary: pt) (auto intro!: keeps_intros)

lemma keeps_uvmfree [keeps_intros]: "keeps (procs_are P) (uvmfree kend pt sz)"
  unfolding uvmfree_def freewalk_def by (intro keeps_intros keeps_freewalk_lev)

lemma keeps_proc_pagetable [keeps_intros]: "keeps (procs_are P) (proc_pagetable kend tramp tf)"
  unfolding proc_pagetable_def uvmcreate_def by (intro keeps_intros)

end
