(* ===== verification/Sysfile.thy ===== *)
theory Sysfile
  imports Proc
begin

text \<open>
  System-call arguments (\<^verbatim>\<open>kernel/syscall.c\<close>) and the file-system calls (\<^verbatim>\<open>kernel/sysfile.c\<close>).

  The arguments are read from the trapframe page of the process, where \<^verbatim>\<open>a0\<close> is at offset 112 and the
  others follow. A path is the byte list before its NUL. The local arrays of the C functions are
  values; what a call leaves in them after an error is not observed.
\<close>

section \<open>Arguments\<close>

definition argraw :: "nat \<Rightarrow> nat \<Rightarrow> ('a sched_state_scheme, u64) kmon" where
  "argraw me n =
     (if n \<le> 5 then gets (\<lambda>s. load64 (pmem s) (unat (p_trapframe (procs s ! me)) + TF_A0 + 8 * n))
      else panic ''argraw'')"

definition argint :: "nat \<Rightarrow> nat \<Rightarrow> ('a sched_state_scheme, int) kmon" where
  "argint me n = bindk (argraw me n) (\<lambda>v. ret (sint (ucast v :: u32)))"

definition argaddr :: "nat \<Rightarrow> nat \<Rightarrow> ('a sched_state_scheme, u64) kmon" where
  "argaddr me n = argraw me n"

definition fetchaddr :: "u64 \<Rightarrow> nat \<Rightarrow> u64 \<Rightarrow> ('a sched_state_scheme, u64 option) kmon" where
  "fetchaddr kend me addr =
     bindk (gets (\<lambda>s. procs s ! me)) (\<lambda>p.
     if addr \<ge> p_sz p \<or> addr + 8 > p_sz p then ret None
     else bindk (copyin kend me (p_pagetable p) addr 8) (\<lambda>(r, bs).
       if r \<noteq> 0 then ret None else ret (Some (dec64 bs))))"

definition fetchstr :: "nat \<Rightarrow> u64 \<Rightarrow> nat \<Rightarrow> ('a sched_state_scheme, bytes option) kmon" where
  "fetchstr me addr mx = bindk (my_pagetable me) (\<lambda>pt. copyinstr pt addr mx)"

definition argstr :: "nat \<Rightarrow> nat \<Rightarrow> nat \<Rightarrow> ('a sched_state_scheme, bytes option) kmon" where
  "argstr me n mx = bindk (argaddr me n) (\<lambda>addr. fetchstr me addr mx)"

definition argfd :: "nat \<Rightarrow> nat \<Rightarrow> ('a sched_state_scheme, (int \<times> nat) option) kmon" where
  "argfd me n =
     bindk (argint me n) (\<lambda>fd.
     if fd < 0 \<or> fd \<ge> int NOFILE then ret None
     else bindk (gets (\<lambda>s. p_ofile (procs s ! me) ! nat fd)) (\<lambda>r.
       ret (map_option (\<lambda>f. (fd, f)) r)))"

definition set_fd :: "nat \<Rightarrow> nat \<Rightarrow> nat option \<Rightarrow> ('a sched_state_scheme, unit) kmon" where
  "set_fd me fd v = upd_proc me (\<lambda>x. x\<lparr>p_ofile := (p_ofile x)[fd := v]\<rparr>)"

definition fdalloc :: "nat \<Rightarrow> nat \<Rightarrow> ('a sched_state_scheme, int) kmon" where
  "fdalloc me f =
     bindk (gets (\<lambda>s. scan_first (\<lambda>x. x = None) (take NOFILE (p_ofile (procs s ! me))))) (\<lambda>r.
     case r of
       None \<Rightarrow> ret (- 1)
     | Some fd \<Rightarrow> thenk (set_fd me fd (Some f)) (ret (int fd)))"

section \<open>Calls on descriptors\<close>

definition sys_dup :: "nat \<Rightarrow> ('a file_state_scheme, int) kmon" where
  "sys_dup me =
     bindk (argfd me 0) (\<lambda>r.
     case r of
       None \<Rightarrow> ret (- 1)
     | Some (_, f) \<Rightarrow> bindk (fdalloc me f) (\<lambda>fd.
         if fd < 0 then ret (- 1) else bindk (filedup f) (\<lambda>_. ret fd)))"

definition sys_close :: "u64 \<Rightarrow> nat \<Rightarrow> nat \<Rightarrow> ('a file_state_scheme, int) kmon" where
  "sys_close kend h me =
     bindk (argfd me 0) (\<lambda>r.
     case r of
       None \<Rightarrow> ret (- 1)
     | Some (fd, f) \<Rightarrow> thenk (set_fd me (nat fd) None) (thenk (fileclose kend h f) (ret 0)))"

definition sys_fstat :: "bytes \<Rightarrow> u64 \<Rightarrow> nat \<Rightarrow> ('a file_state_scheme, int) kmon" where
  "sys_fstat pad kend me =
     bindk (argaddr me 1) (\<lambda>st.
     bindk (argfd me 0) (\<lambda>r.
     case r of None \<Rightarrow> ret (- 1) | Some (_, f) \<Rightarrow> filestat pad kend me f st))"

section \<open>Links and directories\<close>

definition fail_op :: "('a log_state_scheme, int) kmon" where
  "fail_op = thenk end_op (ret (- 1))"

definition add_nlink :: "nat \<Rightarrow> ushort \<Rightarrow> ('a fs_state_scheme, unit) kmon" where
  "add_nlink ip d = thenk (upd_inode ip (\<lambda>x. x\<lparr>i_nlink := i_nlink x + d\<rparr>)) (iupdate ip)"

definition link_bad :: "nat \<Rightarrow> ('a fs_state_scheme, int) kmon" where
  "link_bad ip = thenk (ilock ip) (thenk (add_nlink ip (- 1)) (thenk (iunlockput ip) fail_op))"

definition link_paths :: "u64 \<Rightarrow> nat \<Rightarrow> bytes \<Rightarrow> bytes \<Rightarrow> ('a fs_state_scheme, int) kmon" where
  "link_paths kend me old new =
     thenk begin_op
     (bindk (namei kend me old) (\<lambda>r.
      case r of
        None \<Rightarrow> fail_op
      | Some ip \<Rightarrow>
          thenk (ilock ip)
          (bindk (inode_at ip) (\<lambda>x.
           if i_type x = T_DIR then thenk (iunlockput ip) fail_op
           else thenk (add_nlink ip 1)
             (thenk (iunlock ip)
             (bindk (nameiparent kend me new) (\<lambda>q.
              case q of
                None \<Rightarrow> link_bad ip
              | Some (dp, nm) \<Rightarrow>
                  thenk (ilock dp)
                  (bindk (gets (\<lambda>s. (itable s ! dp, itable s ! ip))) (\<lambda>(d, i).
                   bindk (if i_dev d \<noteq> i_dev i then ret (- 1) else dirlink kend me dp nm (i_inum i)) (\<lambda>l.
                   if l < 0 then thenk (iunlockput dp) (link_bad ip)
                   else thenk (iunlockput dp) (thenk (iput ip) (thenk end_op (ret 0)))))))))))))"

definition sys_link :: "u64 \<Rightarrow> nat \<Rightarrow> ('a fs_state_scheme, int) kmon" where
  "sys_link kend me =
     bindk (argstr me 0 MAXPATH) (\<lambda>o1.
     case o1 of
       None \<Rightarrow> ret (- 1)
     | Some old \<Rightarrow> bindk (argstr me 1 MAXPATH) (\<lambda>o2.
         case o2 of None \<Rightarrow> ret (- 1) | Some new \<Rightarrow> link_paths kend me old new))"

primrec empty_from :: "nat \<Rightarrow> u64 \<Rightarrow> nat \<Rightarrow> nat \<Rightarrow> nat \<Rightarrow> ('a fs_state_scheme, bool) kmon" where
  "empty_from 0 kend me dp off = ret True"
| "empty_from (Suc n) kend me dp off =
     bindk (read_dirent kend me dp off ''isdirempty: readi'') (\<lambda>de.
     if de_inum de \<noteq> 0 then ret False else empty_from n kend me dp (off + 16))"

definition isdirempty :: "u64 \<Rightarrow> nat \<Rightarrow> nat \<Rightarrow> ('a fs_state_scheme, bool) kmon" where
  "isdirempty kend me dp = bindk (inode_at dp) (\<lambda>x. empty_from (dir_slots x - 2) kend me dp 32)"

definition dot :: bytes where "dot = [46]"
definition dotdot :: bytes where "dotdot = [46, 46]"

definition unlink_bad :: "nat \<Rightarrow> ('a fs_state_scheme, int) kmon" where
  "unlink_bad dp = thenk (iunlockput dp) fail_op"

definition unlink_path :: "u64 \<Rightarrow> nat \<Rightarrow> bytes \<Rightarrow> ('a fs_state_scheme, int) kmon" where
  "unlink_path kend me path =
     thenk begin_op
     (bindk (nameiparent kend me path) (\<lambda>r.
      case r of
        None \<Rightarrow> fail_op
      | Some (dp, nm) \<Rightarrow>
          thenk (ilock dp)
          (if namecmp nm dot = 0 \<or> namecmp nm dotdot = 0 then unlink_bad dp
           else bindk (dirlookup kend me dp nm) (\<lambda>l.
             case l of
               None \<Rightarrow> unlink_bad dp
             | Some (ip, off) \<Rightarrow>
                 thenk (ilock ip)
                 (bindk (inode_at ip) (\<lambda>x.
                  if sint (i_nlink x) < 1 then panic ''unlink: nlink < 1''
                  else bindk (if i_type x = T_DIR then isdirempty kend me ip else ret True) (\<lambda>e.
                    if \<not> e then thenk (iunlockput ip) (unlink_bad dp)
                    else bindk (writei kend me dp (KernSrc (replicate 16 0)) (of_nat off) 16) (\<lambda>w.
                      if w \<noteq> 16 then panic ''unlink: writei''
                      else thenk (whenk (i_type x = T_DIR) (add_nlink dp (- 1)))
                        (thenk (iunlockput dp)
                        (thenk (add_nlink ip (- 1))
                        (thenk (iunlockput ip) (thenk end_op (ret 0)))))))))))))"

definition sys_unlink :: "u64 \<Rightarrow> nat \<Rightarrow> ('a fs_state_scheme, int) kmon" where
  "sys_unlink kend me =
     bindk (argstr me 0 MAXPATH) (\<lambda>o1.
     case o1 of None \<Rightarrow> ret (- 1) | Some path \<Rightarrow> unlink_path kend me path)"

definition create_fail :: "nat \<Rightarrow> nat \<Rightarrow> ('a fs_state_scheme, nat option) kmon" where
  "create_fail dp ip =
     thenk (upd_inode ip (\<lambda>x. x\<lparr>i_nlink := 0\<rparr>))
     (thenk (iupdate ip) (thenk (iunlockput ip) (thenk (iunlockput dp) (ret None))))"

text \<open>The entries \<^verbatim>\<open>.\<close> and \<^verbatim>\<open>..\<close> of a new directory; the second is not tried when the first fails.\<close>

definition link_dots :: "u64 \<Rightarrow> nat \<Rightarrow> nat \<Rightarrow> nat \<Rightarrow> ('a fs_state_scheme, bool) kmon" where
  "link_dots kend me dp ip =
     bindk (gets (\<lambda>s. (i_inum (itable s ! ip), i_inum (itable s ! dp)))) (\<lambda>(i, d).
     bindk (dirlink kend me ip dot i) (\<lambda>a.
     if a < 0 then ret False else bindk (dirlink kend me ip dotdot d) (\<lambda>b. ret (\<not> b < 0))))"

definition create :: "u64 \<Rightarrow> nat \<Rightarrow> bytes \<Rightarrow> ushort \<Rightarrow> ushort \<Rightarrow> ushort \<Rightarrow> ('a fs_state_scheme, nat option) kmon" where
  "create kend me path ty maj mnr =
     bindk (nameiparent kend me path) (\<lambda>r.
     case r of
       None \<Rightarrow> ret None
     | Some (dp, nm) \<Rightarrow>
         thenk (ilock dp)
         (bindk (dirlookup kend me dp nm) (\<lambda>l.
          case l of
            Some (ip, _) \<Rightarrow>
              thenk (iunlockput dp)
              (thenk (ilock ip)
              (bindk (inode_at ip) (\<lambda>x.
               if ty = T_FILE \<and> (i_type x = T_FILE \<or> i_type x = T_DEVICE) then ret (Some ip)
               else thenk (iunlockput ip) (ret None))))
          | None \<Rightarrow>
              bindk (inode_at dp) (\<lambda>d.
              bindk (ialloc (i_dev d) ty) (\<lambda>a.
              case a of
                None \<Rightarrow> thenk (iunlockput dp) (ret None)
              | Some ip \<Rightarrow>
                  thenk (ilock ip)
                  (thenk (upd_inode ip (\<lambda>x. x\<lparr>i_major := maj, i_minor := mnr, i_nlink := 1\<rparr>))
                  (thenk (iupdate ip)
                  (bindk (if ty = T_DIR then link_dots kend me dp ip else ret True) (\<lambda>ok.
                   if \<not> ok then create_fail dp ip
                   else bindk (inode_at ip) (\<lambda>x.
                     bindk (dirlink kend me dp nm (i_inum x)) (\<lambda>e.
                     if e < 0 then create_fail dp ip
                     else thenk (whenk (ty = T_DIR) (add_nlink dp 1))
                       (thenk (iunlockput dp) (ret (Some ip))))))))))))))"

definition make_node :: "u64 \<Rightarrow> nat \<Rightarrow> bytes option \<Rightarrow> ushort \<Rightarrow> ushort \<Rightarrow> ushort \<Rightarrow> ('a fs_state_scheme, int) kmon" where
  "make_node kend me p ty maj mnr =
     bindk (case p of None \<Rightarrow> ret None | Some path \<Rightarrow> create kend me path ty maj mnr) (\<lambda>r.
     case r of None \<Rightarrow> fail_op | Some ip \<Rightarrow> thenk (iunlockput ip) (thenk end_op (ret 0)))"

definition sys_mkdir :: "u64 \<Rightarrow> nat \<Rightarrow> ('a fs_state_scheme, int) kmon" where
  "sys_mkdir kend me =
     thenk begin_op (bindk (argstr me 0 MAXPATH) (\<lambda>p. make_node kend me p T_DIR 0 0))"

definition sys_mknod :: "u64 \<Rightarrow> nat \<Rightarrow> ('a fs_state_scheme, int) kmon" where
  "sys_mknod kend me =
     thenk begin_op
     (bindk (argint me 1) (\<lambda>maj.
      bindk (argint me 2) (\<lambda>mnr.
      bindk (argstr me 0 MAXPATH) (\<lambda>p. make_node kend me p T_DEVICE (of_int maj) (of_int mnr)))))"

definition chdir_to :: "u64 \<Rightarrow> nat \<Rightarrow> nat \<Rightarrow> ('a fs_state_scheme, int) kmon" where
  "chdir_to kend me ip =
     thenk (ilock ip)
     (bindk (inode_at ip) (\<lambda>x.
      if i_type x \<noteq> T_DIR then thenk (iunlockput ip) fail_op
      else thenk (iunlock ip)
        (bindk (gets (\<lambda>s. p_cwd (procs s ! me))) (\<lambda>c.
         thenk (case c of None \<Rightarrow> fault ''cwd'' | Some old \<Rightarrow> iput old)
         (thenk end_op
         (thenk (upd_proc me (\<lambda>x. x\<lparr>p_cwd := Some ip\<rparr>)) (ret 0)))))))"

definition sys_chdir :: "u64 \<Rightarrow> nat \<Rightarrow> ('a fs_state_scheme, int) kmon" where
  "sys_chdir kend me =
     thenk begin_op
     (bindk (argstr me 0 MAXPATH) (\<lambda>p.
      bindk (case p of None \<Rightarrow> ret None | Some path \<Rightarrow> namei kend me path) (\<lambda>r.
      case r of None \<Rightarrow> fail_op | Some ip \<Rightarrow> chdir_to kend me ip)))"

section \<open>Symbolic links\<close>

definition MAX_SYMLINK_DEPTH :: nat where "MAX_SYMLINK_DEPTH = 10"

text \<open>
  The loop of \<^verbatim>\<open>follow_symlink\<close> with \<open>k\<close> turns left before the depth limit. The result is the inode
  reached, locked, and the turns left; \<open>None\<close> when a link could not be followed.
\<close>

primrec follow_loop :: "nat \<Rightarrow> u64 \<Rightarrow> nat \<Rightarrow> nat \<Rightarrow> ('a fs_state_scheme, (nat \<times> nat) option) kmon" where
  "follow_loop 0 kend me ip = ret (Some (ip, 0))"
| "follow_loop (Suc k) kend me ip =
     bindk (inode_at ip) (\<lambda>x.
     if i_type x \<noteq> T_SYMLINK then ret (Some (ip, Suc k))
     else bindk (readi kend me ip KernDst 0 (of_nat (MAXPATH - 1))) (\<lambda>(n, bs).
       if n \<le> 0 then thenk (iunlockput ip) (ret None)
       else thenk (iunlockput ip)
         (bindk (namei kend me (takeWhile (\<lambda>c. c \<noteq> 0) bs)) (\<lambda>r.
          case r of
            None \<Rightarrow> ret None
          | Some nxt \<Rightarrow> thenk (ilock nxt) (follow_loop k kend me nxt)))))"

definition follow_symlink :: "u64 \<Rightarrow> nat \<Rightarrow> nat \<Rightarrow> bool \<Rightarrow> ('a fs_state_scheme, nat option) kmon" where
  "follow_symlink kend me ip nofollow =
     (if nofollow then ret (Some ip)
      else bindk (follow_loop MAX_SYMLINK_DEPTH kend me ip) (\<lambda>r.
        case r of
          None \<Rightarrow> ret None
        | Some (i, k) \<Rightarrow> if k = 0 then thenk (iunlockput i) (ret None) else ret (Some i)))"

definition symlink_paths :: "u64 \<Rightarrow> nat \<Rightarrow> bytes \<Rightarrow> bytes \<Rightarrow> ('a fs_state_scheme, int) kmon" where
  "symlink_paths kend me target path =
     thenk begin_op
     (bindk (create kend me path T_SYMLINK 0 0) (\<lambda>r.
      case r of
        None \<Rightarrow> fail_op
      | Some ip \<Rightarrow>
          bindk (writei kend me ip (KernSrc target) 0 (of_nat (length target))) (\<lambda>w.
          if w \<noteq> int (length target) then thenk (iunlockput ip) fail_op
          else thenk (iunlockput ip) (thenk end_op (ret 0)))))"

definition sys_symlink :: "u64 \<Rightarrow> nat \<Rightarrow> ('a fs_state_scheme, int) kmon" where
  "sys_symlink kend me =
     bindk (argstr me 0 MAXPATH) (\<lambda>o1.
     case o1 of
       None \<Rightarrow> ret (- 1)
     | Some target \<Rightarrow> bindk (argstr me 1 MAXPATH) (\<lambda>o2.
         case o2 of None \<Rightarrow> ret (- 1) | Some path \<Rightarrow> symlink_paths kend me target path))"

section \<open>Opening files and pipes\<close>

definition O_RDONLY :: int where "O_RDONLY = 0"
definition O_WRONLY :: int where "O_WRONLY = 1"
definition O_RDWR :: int where "O_RDWR = 2"
definition O_CREATE :: int where "O_CREATE = 0x200"
definition O_TRUNC :: int where "O_TRUNC = 0x400"
definition O_NOFOLLOW :: int where "O_NOFOLLOW = 0x800"

definition oflag :: "int \<Rightarrow> int \<Rightarrow> bool" where
  "oflag omode f \<longleftrightarrow> and omode f \<noteq> 0"

text \<open>The inode to open, locked; \<open>None\<close> when the call fails.\<close>

definition open_inode :: "u64 \<Rightarrow> nat \<Rightarrow> bytes \<Rightarrow> int \<Rightarrow> ('a fs_state_scheme, nat option) kmon" where
  "open_inode kend me path omode =
     (if oflag omode O_CREATE then create kend me path T_FILE 0 0
      else bindk (namei kend me path) (\<lambda>r.
        case r of
          None \<Rightarrow> ret None
        | Some ip0 \<Rightarrow>
            thenk (ilock ip0)
            (bindk (follow_symlink kend me ip0 (oflag omode O_NOFOLLOW)) (\<lambda>q.
             case q of
               None \<Rightarrow> ret None
             | Some ip \<Rightarrow> bindk (inode_at ip) (\<lambda>x.
                 if i_type x = T_DIR \<and> omode \<noteq> O_RDONLY then thenk (iunlockput ip) (ret None)
                 else ret (Some ip))))))"

definition open_file :: "u64 \<Rightarrow> nat \<Rightarrow> nat \<Rightarrow> int \<Rightarrow> nat \<Rightarrow> ('a file_state_scheme, int) kmon" where
  "open_file kend h me omode ip =
     bindk (inode_at ip) (\<lambda>x.
     if i_type x = T_DEVICE \<and> (sint (i_major x) < 0 \<or> sint (i_major x) \<ge> NDEV) then thenk (iunlockput ip) fail_op
     else bindk filealloc (\<lambda>a.
       case a of
         None \<Rightarrow> thenk (iunlockput ip) fail_op
       | Some f \<Rightarrow> bindk (fdalloc me f) (\<lambda>fd.
           if fd < 0 then thenk (fileclose kend h f) (thenk (iunlockput ip) fail_op)
           else thenk (upd_file f (\<lambda>g. if i_type x = T_DEVICE then g\<lparr>f_type := FD_DEVICE, f_major := sint (i_major x)\<rparr>
               else g\<lparr>f_type := FD_INODE, f_off := 0\<rparr>))
             (thenk (upd_file f (\<lambda>g. g\<lparr>f_ip := ip, f_readable := \<not> oflag omode O_WRONLY,
               f_writable := (oflag omode O_WRONLY \<or> oflag omode O_RDWR)\<rparr>))
             (thenk (whenk (oflag omode O_TRUNC \<and> i_type x = T_FILE) (itrunc ip))
             (thenk (iunlock ip) (thenk end_op (ret fd))))))))"

definition sys_open :: "u64 \<Rightarrow> nat \<Rightarrow> nat \<Rightarrow> ('a file_state_scheme, int) kmon" where
  "sys_open kend h me =
     bindk (argint me 1) (\<lambda>omode.
     bindk (argstr me 0 MAXPATH) (\<lambda>p.
     case p of
       None \<Rightarrow> ret (- 1)
     | Some path \<Rightarrow>
         thenk begin_op
         (bindk (open_inode kend me path omode) (\<lambda>r.
          case r of None \<Rightarrow> fail_op | Some ip \<Rightarrow> open_file kend h me omode ip))))"

definition pipe_undo :: "u64 \<Rightarrow> nat \<Rightarrow> nat \<Rightarrow> nat \<Rightarrow> ('a file_state_scheme, int) kmon" where
  "pipe_undo kend h rdf wrf = thenk (fileclose kend h rdf) (thenk (fileclose kend h wrf) (ret (- 1)))"

definition sys_pipe :: "u64 \<Rightarrow> nat \<Rightarrow> nat \<Rightarrow> ('a file_state_scheme, int) kmon" where
  "sys_pipe kend h me =
     bindk (argaddr me 0) (\<lambda>fdarray.
     bindk (pipealloc kend h) (\<lambda>r.
     case r of
       None \<Rightarrow> ret (- 1)
     | Some (rdf, wrf) \<Rightarrow>
         bindk (fdalloc me rdf) (\<lambda>fd0.
         if fd0 < 0 then pipe_undo kend h rdf wrf
         else bindk (fdalloc me wrf) (\<lambda>fd1.
           if fd1 < 0 then thenk (set_fd me (nat fd0) None) (pipe_undo kend h rdf wrf)
           else bindk (my_pagetable me) (\<lambda>pt.
             bindk (copyout kend me pt fdarray (enc32 (of_int fd0))) (\<lambda>c.
             bindk (if c < 0 then ret c else copyout kend me pt (fdarray + 4) (enc32 (of_int fd1))) (\<lambda>d.
             if d < 0 then thenk (set_fd me (nat fd0) None) (thenk (set_fd me (nat fd1) None) (pipe_undo kend h rdf wrf))
             else ret 0)))))))"

end
