(* ===== verification/Fs_Props.thy ===== *)
theory Fs_Props
  imports Sysfile
begin

text \<open>
  Properties of the file system's data structures: the block bitmap, the inode table, names and
  paths, the ring buffer of a pipe.
\<close>

section \<open>The block bitmap\<close>

lemma bit_push_one: "bit (2 ^ k :: uchar) j \<longleftrightarrow> k = j \<and> j < 8"
  by (auto simp: bit_exp_iff)

lemma bm_bit_set:
  assumes "bi < 8 * length d"
  shows "bm_bit (bm_set bi d) bj \<longleftrightarrow> bj = bi \<or> bm_bit d bj"
proof -
  have l: "bi div 8 < length d" using assms by auto
  show ?thesis
  proof (cases "bj div 8 = bi div 8")
    case True
    then have "bj mod 8 = bi mod 8 \<longleftrightarrow> bj = bi" by (metis div_mod_decomp)
    then show ?thesis using l True by (auto simp: bm_bit_def bm_set_def bit_or_iff bit_push_one)
  next
    case False
    then show ?thesis using l by (auto simp: bm_bit_def bm_set_def)
  qed
qed

lemma bm_bit_clear:
  assumes "bi < 8 * length d"
  shows "bm_bit (bm_clear bi d) bj \<longleftrightarrow> bj \<noteq> bi \<and> bm_bit d bj"
proof -
  have l: "bi div 8 < length d" using assms by auto
  show ?thesis
  proof (cases "bj div 8 = bi div 8")
    case True
    then have "bj mod 8 = bi mod 8 \<longleftrightarrow> bj = bi" by (metis div_mod_decomp)
    then show ?thesis using l True
      by (auto simp: bm_bit_def bm_clear_def bit_and_iff bit_not_iff bit_push_one)
  next
    case False
    then show ?thesis using l by (auto simp: bm_bit_def bm_clear_def)
  qed
qed

text \<open>
  Marking a block in the bitmap changes its bit and no other, clearing it likewise, and freeing a
  block that was just taken gives back the same bitmap block, byte for byte.
\<close>

theorem bitmap_alloc_free:
  assumes "bi < 8 * length d" and "\<not> bm_bit d bi"
  shows "(\<forall>bj. bm_bit (bm_set bi d) bj = (bj = bi \<or> bm_bit d bj)) \<and> bm_clear bi (bm_set bi d) = d"
proof
  show "\<forall>bj. bm_bit (bm_set bi d) bj = (bj = bi \<or> bm_bit d bj)" using bm_bit_set [OF assms(1)] by blast
  have l: "bi div 8 < length d" using assms(1) by auto
  have "and (or x (push_bit k 1)) (not (push_bit k 1)) = x" if "\<not> bit x k" for x :: uchar and k
    using that by (intro bit_eqI) (auto simp: bit_and_iff bit_or_iff bit_not_iff bit_push_one)
  from this [of "d ! (bi div 8)" "bi mod 8"] show "bm_clear bi (bm_set bi d) = d"
    using l assms(2) by (simp add: bm_clear_def bm_set_def bm_bit_def)
qed

theorem bitmap_alloc_free_witness: "bm_clear 9 (bm_set 9 [255, 1]) = [255, 1]"
  using bitmap_alloc_free [of 9 "[255, 1]"] by (simp add: bm_bit_def bit_iff_odd)

section \<open>The inode table\<close>

text \<open>No two entries in use are for the same inode.\<close>

definition itab_ok :: "inode list \<Rightarrow> bool" where
  "itab_ok tab \<longleftrightarrow> length tab = NINODE \<and> (\<forall>x\<in>set tab. 0 \<le> i_ref x)
     \<and> (\<forall>i<NINODE. \<forall>j<NINODE. 0 < i_ref (tab ! i) \<longrightarrow> 0 < i_ref (tab ! j)
          \<longrightarrow> i_dev (tab ! i) = i_dev (tab ! j) \<longrightarrow> i_inum (tab ! i) = i_inum (tab ! j) \<longrightarrow> i = j)"

lemma scan_first_hit: "scan_first P xs = Some i \<Longrightarrow> i < length xs \<and> P (xs ! i)"
  by (induction xs arbitrary: i) (auto split: if_splits)

lemma itab_ok_ref:
  assumes "itab_ok tab" and "0 < i_ref (tab ! k)" and "k < NINODE" and "0 \<le> r"
  shows "itab_ok (tab[k := (tab ! k)\<lparr>i_ref := r\<rparr>])"
  unfolding itab_ok_def
proof (intro conjI ballI allI impI)
  fix x assume "x \<in> set (tab[k := (tab ! k)\<lparr>i_ref := r\<rparr>])"
  then have "x \<in> set tab \<or> i_ref x = r" using set_update_subset_insert [of tab k "(tab ! k)\<lparr>i_ref := r\<rparr>"] by auto
  then show "0 \<le> i_ref x" using assms(1,4) by (auto simp: itab_ok_def)
next
  fix i j
  let ?u = "tab[k := (tab ! k)\<lparr>i_ref := r\<rparr>]"
  assume a: "i < NINODE" "j < NINODE" "0 < i_ref (?u ! i)" "0 < i_ref (?u ! j)"
    "i_dev (?u ! i) = i_dev (?u ! j)" "i_inum (?u ! i) = i_inum (?u ! j)"
  have len: "length tab = NINODE" using assms(1) by (simp add: itab_ok_def)
  have f: "i_dev (?u ! l) = i_dev (tab ! l)" "i_inum (?u ! l) = i_inum (tab ! l)"
    "0 < i_ref (?u ! l) \<Longrightarrow> 0 < i_ref (tab ! l)" if "l < NINODE" for l
    using that len assms(2) by (cases "l = k"; simp)+
  have "0 < i_ref (tab ! i)" "0 < i_ref (tab ! j)" using f(3) a by blast+
  then show "i = j" using a f(1,2) assms(1) unfolding itab_ok_def by metis
qed (use assms(1) in \<open>simp add: itab_ok_def\<close>)

text \<open>
  C29. \<^verbatim>\<open>iget\<close> returns an entry for the inode it was asked for and keeps the table free of duplicates; its
  only other outcome is the panic on a table with no free entry.
\<close>

theorem iget_unique:
  assumes "itab_ok (itable s)"
  shows "case iget dev inum s of
      Inr (ip, t) \<Rightarrow> ip < NINODE \<and> itab_ok (itable t) \<and> i_dev (itable t ! ip) = dev
        \<and> i_inum (itable t ! ip) = inum \<and> i_ref (itable t ! ip) = max 0 (i_ref (itable s ! ip)) + 1
    | Inl e \<Rightarrow> e = Panic ''iget: no inodes'' \<and> (\<forall>x\<in>set (itable s). 0 < i_ref x)"
proof -
  let ?tab = "itable s" and ?P = "\<lambda>x. i_ref x > 0 \<and> i_dev x = dev \<and> i_inum x = inum"
  have len: "length ?tab = NINODE" and nn: "\<forall>x\<in>set ?tab. 0 \<le> i_ref x" using assms by (auto simp: itab_ok_def)
  show ?thesis
  proof (cases "scan_first ?P ?tab")
    case (Some ip)
    have ip: "ip < NINODE" "?P (?tab ! ip)" using scan_first_hit [OF Some] len by auto
    have "itab_ok (?tab[ip := (?tab ! ip)\<lparr>i_ref := i_ref (?tab ! ip) + 1\<rparr>])"
      using assms ip by (intro itab_ok_ref) auto
    moreover have "iget dev inum s = Inr (ip, s\<lparr>itable := ?tab[ip := (?tab ! ip)\<lparr>i_ref := i_ref (?tab ! ip) + 1\<rparr>]\<rparr>)"
      using Some unfolding iget_def
      by (simp add: len bindk_def thenk_def gets_def upd_inode_def modk_def set_inode_def ret_def)
    ultimately show ?thesis using ip len by simp
  next
    case None
    note old = None
    show ?thesis
    proof (cases "scan_first (\<lambda>x. i_ref x = 0) ?tab")
      case None
      have pos: "0 < i_ref x" if "x \<in> set ?tab" for x
      proof -
        have "i_ref x \<noteq> 0" "0 \<le> i_ref x" using None nn that by auto
        then show ?thesis by linarith
      qed
      have "iget dev inum s = Inl (Panic ''iget: no inodes'')"
        using old None unfolding iget_def by (simp add: len bindk_def gets_def panic_def del: scan_first_None)
      then show ?thesis using pos by simp
    next
      case (Some ip)
      have ip: "ip < NINODE" "i_ref (?tab ! ip) = 0" using scan_first_hit [OF Some] len by auto
      define y where "y = (?tab ! ip)\<lparr>i_dev := dev, i_inum := inum, i_ref := 1, i_valid := False\<rparr>"
      have fresh: "\<not> ?P (?tab ! j)" if "j < NINODE" for j
        using old that len by (simp add: nth_mem)
      have "itab_ok (?tab[ip := y])"
        unfolding itab_ok_def
      proof (intro conjI ballI allI impI)
        fix x assume "x \<in> set (?tab[ip := y])"
        then show "0 \<le> i_ref x" using nn set_update_subset_insert [of ?tab ip y] by (auto simp: y_def)
      next
        fix i j
        assume a: "i < NINODE" "j < NINODE" "0 < i_ref (?tab[ip := y] ! i)" "0 < i_ref (?tab[ip := y] ! j)"
          "i_dev (?tab[ip := y] ! i) = i_dev (?tab[ip := y] ! j)" "i_inum (?tab[ip := y] ! i) = i_inum (?tab[ip := y] ! j)"
        show "i = j"
          using a fresh [of i] fresh [of j] assms len unfolding itab_ok_def
          by (cases "i = ip"; cases "j = ip") (auto simp: y_def)
      qed (simp add: len)
      moreover have "iget dev inum s = Inr (ip, s\<lparr>itable := ?tab[ip := y]\<rparr>)"
        using old Some unfolding iget_def
        by (simp add: len bindk_def thenk_def gets_def upd_inode_def modk_def set_inode_def ret_def y_def del: scan_first_None)
      moreover have "i_dev y = dev" "i_inum y = inum" "i_ref y = 1" by (simp_all add: y_def)
      ultimately show ?thesis using ip len by simp
    qed
  qed
qed

section \<open>Names and paths\<close>

lemma cname_take: "i < DIRSIZ \<Longrightarrow> cname (take DIRSIZ a) i = cname a i"
  by (auto simp: cname_def)

text \<open>
  Splitting a path: \<^verbatim>\<open>skipelem\<close> finds no element exactly on a path of slashes only; otherwise the path is
  slashes, an element without a slash, slashes and the rest it returns, and the name is the element
  cut at \<open>DIRSIZ\<close> bytes.
\<close>

theorem skipelem_correct:
  "case skipelem path of
     None \<Rightarrow> set path \<subseteq> {slash}
   | Some (nm, path2) \<Rightarrow> \<exists>a e b. path = a @ e @ b @ path2 \<and> set a \<subseteq> {slash} \<and> set b \<subseteq> {slash}
       \<and> e \<noteq> [] \<and> slash \<notin> set e \<and> nm = take DIRSIZ e \<and> (path2 = [] \<or> hd path2 \<noteq> slash)"
proof (cases "skipelem path")
  case None
  then have "dropWhile (\<lambda>c. c = slash) path = []" by (auto simp: skipelem_def Let_def split: if_splits)
  then show ?thesis using None by (auto simp: dropWhile_eq_Nil_conv)
next
  case (Some r)
  define p where "p = dropWhile (\<lambda>c. c = slash) path"
  define el where "el = takeWhile (\<lambda>c. c \<noteq> slash) p"
  define q where "q = dropWhile (\<lambda>c. c \<noteq> slash) p"
  define w where "w = dropWhile (\<lambda>c. c = slash) q"
  have r: "r = (take DIRSIZ el, w)" and p: "p \<noteq> []"
    using Some by (auto simp: skipelem_def Let_def p_def el_def q_def w_def split: if_splits)
  have "hd p \<noteq> slash" using p hd_dropWhile [of "\<lambda>c. c = slash" path] by (simp add: p_def)
  then have "el \<noteq> []" using p by (cases p) (auto simp: el_def)
  moreover have "path = takeWhile (\<lambda>c. c = slash) path @ el @ takeWhile (\<lambda>c. c = slash) q @ w"
    by (simp add: p_def el_def q_def w_def)
  moreover have "slash \<notin> set el" by (auto simp: el_def dest: set_takeWhileD)
  moreover have "w = [] \<or> hd w \<noteq> slash" using hd_dropWhile [of "\<lambda>c. c = slash" q] by (auto simp: w_def)
  moreover have "set (takeWhile (\<lambda>c. c = slash) z) \<subseteq> {slash}" for z by (auto dest: set_takeWhileD)
  ultimately have "\<exists>a e b. path = a @ e @ b @ w \<and> set a \<subseteq> {slash} \<and> set b \<subseteq> {slash}
       \<and> e \<noteq> [] \<and> slash \<notin> set e \<and> take DIRSIZ el = take DIRSIZ e \<and> (w = [] \<or> hd w \<noteq> slash)"
    by (intro exI [of _ "takeWhile (\<lambda>c. c = slash) path"] exI [of _ el] exI [of _ "takeWhile (\<lambda>c. c = slash) q"] conjI)
      (assumption | rule refl)+
  then show ?thesis by (simp only: Some r option.case prod.case)
qed

theorem skipelem_correct_witness:
  "skipelem [47, 97, 47, 98] = Some ([97], [98])
   \<and> (\<exists>a e b. [47, 97, 47, 98] = a @ e @ b @ [98] \<and> slash \<notin> set e \<and> [97] = take DIRSIZ e)"
proof -
  have "skipelem [47, 97, 47, 98] = Some ([97], [98])" by (simp add: skipelem_def slash_def DIRSIZ_def)
  then show ?thesis using skipelem_correct [of "[47, 97, 47, 98]"] by auto
qed

section \<open>Pipes\<close>

text \<open>The bytes in the pipe, oldest first, and the invariant of the counters.\<close>

definition pipe_content :: "pipe \<Rightarrow> bytes" where
  "pipe_content p = map (\<lambda>i. pi_data p ! ((unat (pi_nread p) + i) mod PIPESIZE)) [0..<unat (pi_nwrite p - pi_nread p)]"

definition pipe_ok :: "pipe \<Rightarrow> bool" where
  "pipe_ok p \<longleftrightarrow> length (pi_data p) = PIPESIZE \<and> unat (pi_nwrite p - pi_nread p) \<le> PIPESIZE"

text \<open>The counters wrap at \<open>2 ^ 32\<close>, a multiple of the buffer size, so the position in the buffer goes on.\<close>

lemma unat_Suc_mod: "unat (x + 1 :: u32) mod PIPESIZE = Suc (unat x) mod PIPESIZE"
proof -
  have "unat (x + 1) = Suc (unat x) mod 2 ^ 32" by (simp add: unat_word_ariths)
  moreover have "Suc (unat x) mod 2 ^ 32 mod 512 = Suc (unat x) mod 512" by (rule mod_mod_cancel) simp
  ultimately show ?thesis by (simp add: PIPESIZE_def)
qed

lemma unat_count_Suc:
  assumes "unat (y - x :: u32) < 512"
  shows "unat (y + 1 - x) = Suc (unat (y - x))"
proof -
  have "y + 1 - x = (y - x) + 1" by simp
  moreover have "unat ((y - x) + 1) = Suc (unat (y - x))"
    using assms by (simp add: unat_word_ariths)
  ultimately show ?thesis by (simp only:)
qed

lemma unat_diff_mod:
  "(unat (x :: u32) + unat (y - x)) mod PIPESIZE = unat y mod PIPESIZE"
proof -
  have "unat (x + (y - x)) = (unat x + unat (y - x)) mod 2 ^ 32" by (simp only: unat_word_ariths) simp
  then have "unat y = (unat x + unat (y - x)) mod 2 ^ 32" by simp
  moreover have "(unat x + unat (y - x)) mod 2 ^ 32 mod 512 = (unat x + unat (y - x)) mod 512"
    by (rule mod_mod_cancel) simp
  ultimately show ?thesis by (simp add: PIPESIZE_def)
qed

lemma length_content [simp]: "length (pipe_content p) = unat (pi_nwrite p - pi_nread p)"
  by (simp add: pipe_content_def)

lemma content_put:
  assumes "pipe_ok p" and "length (pipe_content p) < PIPESIZE"
  shows "pipe_ok (put_byte c p)" and "pipe_content (put_byte c p) = pipe_content p @ [c]"
proof -
  let ?n = "unat (pi_nwrite p - pi_nread p)" and ?r = "unat (pi_nread p)" and ?w = "unat (pi_nwrite p)"
  have n: "?n < 512" using assms(2) by (simp add: PIPESIZE_def)
  have cnt: "unat (pi_nwrite p + 1 - pi_nread p) = Suc ?n" using n by (rule unat_count_Suc)
  show "pipe_ok (put_byte c p)" using assms(1) n cnt by (simp add: pipe_ok_def put_byte_def PIPESIZE_def)
  have w: "(?r + ?n) mod PIPESIZE = ?w mod PIPESIZE" by (rule unat_diff_mod)
  have wl: "?w mod PIPESIZE < length (pi_data p)" using assms(1) by (simp add: pipe_ok_def PIPESIZE_def)
  have other: "(?r + i) mod PIPESIZE \<noteq> ?w mod PIPESIZE" if "i < ?n" for i
  proof
    assume "(?r + i) mod PIPESIZE = ?w mod PIPESIZE"
    then have "(?r + ?n) mod 512 = (?r + i) mod 512" using w by (simp add: PIPESIZE_def)
    then have "512 dvd (?r + ?n) - (?r + i)" using that by (subst (asm) mod_eq_dvd_iff_nat) simp_all
    then have "512 dvd ?n - i" by simp
    then show False using that n by (auto dest: dvd_imp_le)
  qed
  have same: "(pi_data p)[?w mod PIPESIZE := c] ! ((?r + i) mod PIPESIZE) = pi_data p ! ((?r + i) mod PIPESIZE)"
    if "i < ?n" for i using other [OF that] by (intro nth_list_update_neq) simp
  show "pipe_content (put_byte c p) = pipe_content p @ [c]"
    using same wl w by (simp add: pipe_content_def put_byte_def cnt)
qed

lemma content_take:
  assumes "pipe_ok p" and "pipe_content p \<noteq> []"
  shows "pipe_byte p = hd (pipe_content p)" and "pipe_ok (p\<lparr>pi_nread := pi_nread p + 1\<rparr>)"
    and "pipe_content (p\<lparr>pi_nread := pi_nread p + 1\<rparr>) = tl (pipe_content p)"
proof -
  let ?n = "unat (pi_nwrite p - pi_nread p)" and ?r = "unat (pi_nread p)"
  have n: "0 < ?n" using assms(2) by (simp add: pipe_content_def)
  have z: "pi_nwrite p - pi_nread p \<noteq> 0" using n by auto
  have eq: "pi_nwrite p - (pi_nread p + 1) = (pi_nwrite p - pi_nread p) - 1" by simp
  have cnt: "unat (pi_nwrite p - (pi_nread p + 1)) = ?n - 1"
    by (simp only: eq unat_minus_one [OF z])
  show "pipe_byte p = hd (pipe_content p)" using n by (simp add: pipe_byte_def pipe_content_def hd_map)
  show "pipe_ok (p\<lparr>pi_nread := pi_nread p + 1\<rparr>)" using assms(1) cnt by (auto simp: pipe_ok_def)
  have pos: "(unat (pi_nread p + 1) + i) mod PIPESIZE = (?r + Suc i) mod PIPESIZE" for i
    using mod_add_cong [OF unat_Suc_mod [of "pi_nread p"] refl, of i] by simp
  have "[0..<?n] = 0 # map Suc [0..<?n - 1]" using n by (simp add: map_Suc_upt upt_conv_Cons)
  then have "tl (pipe_content p) = map (\<lambda>i. pi_data p ! ((?r + Suc i) mod PIPESIZE)) [0..<?n - 1]"
    by (simp add: pipe_content_def)
  then show "pipe_content (p\<lparr>pi_nread := pi_nread p + 1\<rparr>) = tl (pipe_content p)"
    using cnt pos by (simp add: pipe_content_def)
qed

lemma full_empty_tests:
  "(pi_nwrite p = pi_nread p + of_nat PIPESIZE) = (length (pipe_content p) = PIPESIZE)"
  "(pi_nread p = pi_nwrite p) = (pipe_content p = [])"
proof -
  have "(pi_nwrite p = pi_nread p + 512) = (pi_nwrite p - pi_nread p = 512)" by (auto simp: algebra_simps)
  also have "\<dots> = (unat (pi_nwrite p - pi_nread p) = 512)" by (simp add: word_unat_eq_iff)
  finally show "(pi_nwrite p = pi_nread p + of_nat PIPESIZE) = (length (pipe_content p) = PIPESIZE)"
    by (simp add: PIPESIZE_def)
  have "(pipe_content p = []) = (unat (pi_nwrite p - pi_nread p) = 0)" by (simp add: pipe_content_def)
  also have "\<dots> = (pi_nread p = pi_nwrite p)" by (auto simp: unat_eq_0)
  finally show "(pi_nread p = pi_nwrite p) = (pipe_content p = [])" by simp
qed



theorem iget_unique_witness:
  "case iget 1 5 (undefined\<lparr>itable := replicate NINODE \<lparr>i_dev = 0, i_inum = 0, i_ref = 0, i_lock = initsleeplock,
      i_valid = False, i_type = 0, i_major = 0, i_minor = 0, i_nlink = 0, i_size = 0, i_addrs = []\<rparr>\<rparr> :: fs_state) of
     Inr (ip, t) \<Rightarrow> i_inum (itable t ! ip) = 5
   | Inl e \<Rightarrow> False"
proof -
  define x where "x = \<lparr>i_dev = 0, i_inum = 0, i_ref = 0, i_lock = initsleeplock,
      i_valid = False, i_type = 0, i_major = 0, i_minor = 0, i_nlink = 0, i_size = 0, i_addrs = []\<rparr>"
  define s :: fs_state where "s = undefined\<lparr>itable := replicate NINODE x\<rparr>"
  have "itab_ok (itable s)" by (simp add: itab_ok_def s_def x_def)
  moreover have "\<not> (\<forall>y\<in>set (itable s). 0 < i_ref y)" by (simp add: s_def x_def NINODE_def)
  ultimately show ?thesis
    using iget_unique [of s 1 5] unfolding s_def [symmetric] x_def [symmetric]
    by (auto split: sum.splits prod.splits)
qed

end
