(* ===== verification/Fs_Blocks.thy ===== *)
theory Fs_Blocks
  imports Fs_Props Log_Props
begin

text \<open>
  The block allocator of \<^verbatim>\<open>kernel/fs.c\<close> inside a transaction, proved against the interface \<open>journal\<close>
  of the log.

  \<open>used\<close> reads the bitmap as the file system sees it; \<open>txn_ready\<close> says that the running
  operation holds no buffer and that the log has room for \<open>n\<close> more blocks.
\<close>

abbreviation ab :: "u32 \<Rightarrow> 'a fs_state_scheme \<Rightarrow> cache_abs" where
  "ab d s \<equiv> abs_cache d s"

definition txn_ready :: "u32 \<Rightarrow> nat \<Rightarrow> 'a fs_state_scheme \<Rightarrow> bool" where
  "txn_ready d n s \<longleftrightarrow> dev_is d s \<and> a_held (ab d s) = Map.empty \<and> card (a_pins (ab d s)) + n \<le> LOGBLOCKS"

definition bmap_blk :: "superblock \<Rightarrow> nat \<Rightarrow> u32" where
  "bmap_blk q k = of_nat k + sb_bmapstart q"

definition used :: "superblock \<Rightarrow> (u32 \<Rightarrow> block) \<Rightarrow> nat \<Rightarrow> bool" where
  "used q v b \<longleftrightarrow> bm_bit (v (bmap_blk q (b div BPB))) (b mod BPB)"

lemma BBLOCK_nat:
  assumes "c < 2 ^ 32"
  shows "BBLOCK (of_nat c) q = bmap_blk q (c div BPB)"
proof -
  have "(of_nat c :: u32) div of_nat BPB = of_nat (c div BPB)"
    using assms by (simp add: word_unat_eq_iff unat_div unat_of_nat BPB_def BSIZE_def take_bit_nat_eq_self_iff)
  then show ?thesis by (simp add: BBLOCK_def bmap_blk_def)
qed

lemma sb_more: "log_state.more t = log_state.more s \<Longrightarrow> sb t = sb s \<and> itable t = itable s"
  by (cases t; cases s) simp

lemma sb_lrest: "lrest t = lrest s \<Longrightarrow> sb t = sb s"
  using lrestD(6) [of t s] sb_more by blast

lemma ready_room:
  assumes "txn_ready d (Suc n) s"
  shows "in_use (ab d s) < NBUF" and "card (a_pins (ab d s)) < LOGBLOCKS"
  using assms by (simp_all add: txn_ready_def in_use_def NBUF_def LOGBLOCKS_def)

text \<open>A logged update of one block, with room for \<open>n\<close> more after it.\<close>

lemma ready_update:
  assumes "txn_ready d (Suc n) s"
    and "ab d t = (ab d s)\<lparr>a_view := v, a_pins := insert bn (a_pins (ab d s))\<rparr>" and "dev_is d t"
  shows "txn_ready d n t"
proof -
  have "card (insert bn (a_pins (ab d s))) \<le> Suc (card (a_pins (ab d s)))"
    by (rule card_insert_le_m1) simp_all
  then show ?thesis using assms by (simp add: txn_ready_def)
qed

lemma bzero_spec:
  assumes "txn_ready d (Suc n) s" and "home_blk (lrest s) bn"
  shows "wp (bzero d bn) s (\<lambda>_ t. txn_ready d n t \<and> lrest t = lrest s
    \<and> ab d t = (ab d s)\<lparr>a_view := (a_view (ab d s))(bn := replicate BSIZE 0), a_pins := insert bn (a_pins (ab d s))\<rparr>)"
  unfolding bzero_def put_data_def wp_bindk wp_thenk
proof (rule jn.update_wp)
  show "dev_is d s" "a_held (ab d s) bn = None" using assms by (simp_all add: txn_ready_def)
  show "bn \<in> a_pins (ab d s) \<or> in_use (ab d s) < NBUF" "card (a_pins (ab d s)) < LOGBLOCKS"
    using ready_room [OF assms(1)] by auto
  show "home_blk (lrest s) bn" by (rule assms(2))
  show "length (replicate BSIZE (0::uchar)) = BSIZE" by simp
qed (use ready_update [OF assms(1)] in auto)

section \<open>Allocation\<close>

text \<open>What taking block \<open>b\<close> does to the blocks the file system sees.\<close>

definition taken :: "superblock \<Rightarrow> nat \<Rightarrow> cache_abs \<Rightarrow> cache_abs" where
  "taken q b a = a\<lparr>a_view := (a_view a)(bmap_blk q (b div BPB) := bm_set (b mod BPB) (a_view a (bmap_blk q (b div BPB))),
     of_nat b := replicate BSIZE 0), a_pins := insert (of_nat b) (insert (bmap_blk q (b div BPB)) (a_pins a))\<rparr>"

lemma mark_block:
  assumes "txn_ready d (Suc n) s" and "home_blk (lrest s) bb" and "bread d bb s = Inr (bp, s1)" and "dev_is d s1"
    and "lrest s1 = lrest s" and "ab d s1 = (ab d s)\<lparr>a_held := (a_held (ab d s))(bb \<mapsto> bp)\<rparr>"
  shows "wp (put_data bp (bm_set bi)) s1 (\<lambda>_ u. wp (log_write bp) u (\<lambda>_ v. wp (brelse bp) v (\<lambda>_ t.
    txn_ready d n t \<and> lrest t = lrest s \<and> ab d t = (ab d s)\<lparr>a_view := (a_view (ab d s))(bb := bm_set bi (a_view (ab d s) bb)),
      a_pins := insert bb (a_pins (ab d s))\<rparr>)))"
proof -
  have dv: "dev_is d s" and h: "a_held (ab d s) = Map.empty" using assms(1) by (simp_all add: txn_ready_def)
  have len: "length (bm_set bi (a_view (ab d s1) bb)) = BSIZE"
    using jn.view_length [OF assms(4), of bb] by (simp add: bm_set_def)
  define s2 where "s2 = set_data bp (bm_set bi) s1"
  have 2: "dev_is d s2" "lrest s2 = lrest s1"
    "ab d s2 = (ab d s1)\<lparr>a_view := (a_view (ab d s1))(bb := bm_set bi (a_view (ab d s1) bb))\<rparr>"
    using jn.setd_law [OF assms(4), of bb bp "bm_set bi"] assms(6) len by (simp_all add: s2_def)
  obtain s3 where 3: "log_write bp s2 = Inr ((), s3)" "dev_is d s3" "lrest s3 = lrest s2"
    "ab d s3 = (ab d s2)\<lparr>a_pins := insert bb (a_pins (ab d s2))\<rparr>"
    using jn.lw_law [OF 2(1), of bb bp] 2(2,3) assms(2,5,6) ready_room(2) [OF assms(1)] by (auto simp: wp_def)
  obtain s4 where 4: "brelse bp s3 = Inr ((), s4)" "dev_is d s4" "lrest s4 = lrest s3"
    "ab d s4 = (ab d s3)\<lparr>a_held := (a_held (ab d s3))(bb := None)\<rparr>"
    using jn.brel_law [OF 3(2), of bb bp] 3(4) 2(3) assms(6) by (auto simp: wp_def)
  have fin: "ab d s4 = (ab d s)\<lparr>a_view := (a_view (ab d s))(bb := bm_set bi (a_view (ab d s) bb)), a_pins := insert bb (a_pins (ab d s))\<rparr>"
    using 4(4) 3(4) 2(3) assms(6) h by simp
  then have "txn_ready d n s4" using ready_update [OF assms(1) _ 4(2)] by blast
  then show ?thesis
    using 3(1,3) 4(1,3) 2(2) assms(5) fin by (simp add: wp_def put_data_def modk_def s2_def)
qed

lemma balloc_from_spec:
  fixes s :: "'a fs_state_scheme"
  defines "z \<equiv> unat (sb_size (sb s))"
  assumes "txn_ready d 2 s" and "\<And>k. k < (z + BPB - 1) div BPB \<Longrightarrow> home_blk (lrest s) (bmap_blk (sb s) k)"
    and "\<And>b. b < z \<Longrightarrow> \<not> used (sb s) (a_view (ab d s)) b \<Longrightarrow> home_blk (lrest s) (of_nat b)"
    and "\<forall>c < k * BPB. c < z \<longrightarrow> used (sb s) (a_view (ab d s)) c" and "k + n = (z + BPB - 1) div BPB"
  shows "wp (balloc_from n d (k * BPB)) s (\<lambda>r t. dev_is d t \<and> lrest t = lrest s \<and>
    (if \<forall>b<z. used (sb s) (a_view (ab d s)) b then r = 0 \<and> ab d t = ab d s
     else \<exists>b<z. \<not> used (sb s) (a_view (ab d s)) b \<and> (\<forall>c<b. used (sb s) (a_view (ab d s)) c)
       \<and> r = of_nat b \<and> ab d t = taken (sb s) b (ab d s)))"
  using assms(2-) unfolding z_def
proof (induction n arbitrary: k s)
  case 0
  let ?z = "unat (sb_size (sb s))"
  have "?z \<le> k * BPB" using "0.prems"(5) by (simp add: BPB_def BSIZE_def)
  then have "\<forall>b<?z. used (sb s) (a_view (ab d s)) b" using "0.prems"(4) by auto
  then show ?case using "0.prems"(1) by (simp add: txn_ready_def)
next
  case (Suc n)
  let ?z = "unat (sb_size (sb s))" and ?bb = "bmap_blk (sb s) k" and ?u = "used (sb s) (a_view (ab d s))"
  have dv: "dev_is d s" and h: "a_held (ab d s) = Map.empty" using Suc.prems(1) by (simp_all add: txn_ready_def)
  have z: "?z < 2 ^ 32" using unsigned_less [of "sb_size (sb s)", where 'a = nat] by simp
  have B: "0 < BPB" by (simp add: BPB_def BSIZE_def)
  have kz: "k * BPB < ?z" using Suc.prems(5) by (simp add: BPB_def BSIZE_def)
  have home: "home_blk (lrest s) ?bb" using Suc.prems(2,5) by simp
  have BB: "BBLOCK (of_nat (k * BPB)) (sb s) = ?bb" using BBLOCK_nat [of "k * BPB" "sb s"] kz z B by simp
  have ready: "txn_ready d (Suc 1) s" using Suc.prems(1) by (simp add: numeral_2_eq_2)
  obtain bp s1 where 1: "bread d ?bb s = Inr (bp, s1)" "dev_is d s1" "lrest s1 = lrest s"
    "ab d s1 = (ab d s)\<lparr>a_held := (a_held (ab d s))(?bb \<mapsto> bp)\<rparr>"
    using jn.br_law [OF dv, of ?bb] ready_room(1) [OF ready] h home by (auto simp: wp_def)
  have data: "get_data bp s1 = a_view (ab d s) ?bb" using jn.getd_law [OF 1(2), of ?bb bp] 1(4) by simp
  have uk: "?u (k * BPB + i) = bm_bit (a_view (ab d s) ?bb) i" if "i < BPB" for i
    using that by (simp add: used_def)
  let ?scan = "scan_first (\<lambda>bi. \<not> bm_bit (a_view (ab d s) ?bb) bi) [0..<min BPB (?z - k * BPB)]"
  have head: "balloc_from (Suc n) d (k * BPB) s = (case ?scan of
       Some bi \<Rightarrow>
         thenk (put_data bp (bm_set bi))
         (thenk (log_write bp)
         (thenk (brelse bp)
         (thenk (bzero d (of_nat (k * BPB + bi))) (ret (of_nat (k * BPB + bi))))))
     | None \<Rightarrow> thenk (brelse bp) (balloc_from n d (k * BPB + BPB))) s1"
    using 1(1) data BB by (simp add: bindk_def gets_def data_at_def del: scan_first_None of_nat_mult)
  show ?case
  proof (cases ?scan)
    case None
    then have all: "bm_bit (a_view (ab d s) ?bb) i" if "i < BPB" "k * BPB + i < ?z" for i using that by auto
    have clean: "?bb \<in> a_pins (ab d s) \<or> a_view (ab d s) ?bb = a_disk (ab d s) ?bb"
      using jn.clean_law [OF dv, of ?bb] h by auto
    obtain s2 where 2: "brelse bp s1 = Inr ((), s2)" "dev_is d s2" "lrest s2 = lrest s" "ab d s2 = ab d s"
      using jn.brel_law [OF 1(2), of ?bb bp] 1(3,4) clean h by (auto simp: wp_def fun_upd_idem)
    have sb2: "sb s2 = sb s" using 2(3) by (rule sb_lrest)
    have "\<forall>c < Suc k * BPB. c < ?z \<longrightarrow> ?u c"
    proof (intro allI impI)
      fix c assume c: "c < Suc k * BPB" "c < ?z"
      show "?u c"
      proof (cases "c < k * BPB")
        case False
        then obtain i where "c = k * BPB + i" using le_Suc_ex not_less by blast
        then show ?thesis using all [of i] uk [of i] c by simp
      qed (use Suc.prems(4) c in auto)
    qed
    then have "wp (balloc_from n d (Suc k * BPB)) s2 (\<lambda>r t. dev_is d t \<and> lrest t = lrest s2 \<and>
      (if \<forall>b<unat (sb_size (sb s2)). used (sb s2) (a_view (ab d s2)) b then r = 0 \<and> ab d t = ab d s2
       else \<exists>b<unat (sb_size (sb s2)). \<not> used (sb s2) (a_view (ab d s2)) b \<and> (\<forall>c<b. used (sb s2) (a_view (ab d s2)) c)
         \<and> r = of_nat b \<and> ab d t = taken (sb s2) b (ab d s2)))"
      by (intro Suc.IH) (use Suc.prems 2 sb2 in \<open>simp_all add: txn_ready_def\<close>)
    note ih = this [unfolded sb2 2(3,4)]
    have "balloc_from (Suc n) d (k * BPB) s = balloc_from n d (Suc k * BPB) s2"
      unfolding head using None 2(1) by (simp add: thenk_def bindk_def add.commute del: scan_first_None)
    with ih show ?thesis unfolding wp_def by simp
  next
    case (Some bi)
    have bi: "bi < BPB" "k * BPB + bi < ?z" "\<not> bm_bit (a_view (ab d s) ?bb) bi"
      using scan_first_hit [OF Some] by auto
    have first: "bm_bit (a_view (ab d s) ?bb) j" if "j < bi" for j
      using scan_first_SomeD [OF Some] that bi by auto
    let ?b = "k * BPB + bi"
    have db: "?b div BPB = k" "?b mod BPB = bi" using bi(1) B by simp_all
    have nu: "\<not> ?u ?b" using uk [OF bi(1)] bi(3) by simp
    have low: "?u c" if "c < ?b" for c
    proof (cases "c < k * BPB")
      case False
      then obtain i where "c = k * BPB + i" using le_Suc_ex not_less by blast
      then show ?thesis using first [of i] uk [of i] that bi by simp
    qed (use Suc.prems(4) that bi in auto)
    obtain s4 where m: "thenk (put_data bp (bm_set bi)) (thenk (log_write bp) (brelse bp)) s1 = Inr ((), s4)"
      "txn_ready d 1 s4" "lrest s4 = lrest s"
      "ab d s4 = (ab d s)\<lparr>a_view := (a_view (ab d s))(?bb := bm_set bi (a_view (ab d s) ?bb)), a_pins := insert ?bb (a_pins (ab d s))\<rparr>"
      using mark_block [OF ready home 1, of bi] unfolding wp_thenk [symmetric] by (auto simp: wp_def)
    obtain s5 where z5: "bzero d (of_nat ?b) s4 = Inr ((), s5)" "txn_ready d 0 s5" "lrest s5 = lrest s"
      "ab d s5 = (ab d s4)\<lparr>a_view := (a_view (ab d s4))(of_nat ?b := replicate BSIZE 0), a_pins := insert (of_nat ?b) (a_pins (ab d s4))\<rparr>"
      using bzero_spec [of d 0 s4 "of_nat ?b"] m(2,3) Suc.prems(3) [OF bi(2) nu] by (auto simp: wp_def simp del: of_nat_add of_nat_mult)
    have "ab d s5 = taken (sb s) ?b (ab d s)"
      using z5(4) m(4) db by (simp add: taken_def del: of_nat_add of_nat_mult)
    moreover have "balloc_from (Suc n) d (k * BPB) s = Inr (of_nat ?b, s5)"
      unfolding head using Some m(1) z5(1)
      by (auto simp: thenk_def bindk_def ret_def simp del: of_nat_add of_nat_mult split: sum.splits)
    moreover have "dev_is d s5" using z5(2) by (simp add: txn_ready_def)
    ultimately show ?thesis using z5(3) bi(2) nu low by (auto simp: wp_def simp del: of_nat_add of_nat_mult)
  qed
qed

text \<open>
  C25. Block allocation: with room for two more blocks in the transaction, \<^verbatim>\<open>balloc\<close> returns the lowest
  free block of the bitmap, marks it and no other as used, leaves it filled with zeros, and changes
  no other block; when every block is in use it returns 0 and changes nothing.
\<close>

theorem balloc_correct:
  fixes s :: "'a fs_state_scheme"
  assumes "txn_ready d 2 s"
    and "\<And>k. k < (unat (sb_size (sb s)) + BPB - 1) div BPB \<Longrightarrow> home_blk (lrest s) (bmap_blk (sb s) k)"
    and "\<And>b. b < unat (sb_size (sb s)) \<Longrightarrow> \<not> used (sb s) (a_view (ab d s)) b \<Longrightarrow> home_blk (lrest s) (of_nat b)"
  shows "wp (balloc d) s (\<lambda>r t. dev_is d t \<and> lrest t = lrest s \<and>
    (if \<forall>b<unat (sb_size (sb s)). used (sb s) (a_view (ab d s)) b then r = 0 \<and> ab d t = ab d s
     else \<exists>b<unat (sb_size (sb s)). \<not> used (sb s) (a_view (ab d s)) b \<and> (\<forall>c<b. used (sb s) (a_view (ab d s)) c)
       \<and> r = of_nat b \<and> ab d t = taken (sb s) b (ab d s)))"
  using balloc_from_spec [OF assms, of 0 "(unat (sb_size (sb s)) + BPB - 1) div BPB"]
  by (simp add: balloc_def)

text \<open>
  A machine booted from a disk with the first 48 blocks marked as used, inside an operation.
\<close>

definition demo_disk :: "u32 \<Rightarrow> block" where
  "demo_disk = (\<lambda>_. replicate BSIZE 0)(45 := replicate 6 (- 1) @ replicate (BSIZE - 6) 0)"

definition demo_mount :: "log_state \<Rightarrow> fs_state" where
  "demo_mount s = log_state.extend s (fs_state.fields demo_sb [])"

definition demo_fs :: fs_state where
  "demo_fs = run begin_op (demo_mount (run (initlog 1 demo_sb) (binit (boot_mem demo_disk))))"

lemma demo_mount_facts:
  "log_inv (demo_mount s) = log_inv s" "abs_cache d (demo_mount s) = abs_cache d s" "logged (demo_mount s) = logged s"
  "log_start (demo_mount s) = log_start s" "log_dev (demo_mount s) = log_dev s" "log_lh (demo_mount s) = log_lh s"
  "log_outstanding (demo_mount s) = log_outstanding s" "log_committing (demo_mount s) = log_committing s"
  "sb (demo_mount s) = demo_sb"
proof -
  show "log_start (demo_mount s) = log_start s" "log_dev (demo_mount s) = log_dev s" "log_lh (demo_mount s) = log_lh s"
    "log_outstanding (demo_mount s) = log_outstanding s" "log_committing (demo_mount s) = log_committing s"
    "sb (demo_mount s) = demo_sb"
    by (simp_all add: demo_mount_def log_state.defs fs_state.defs)
  show "log_inv (demo_mount s) = log_inv s" "logged (demo_mount s) = logged s"
    by (rule log_inv_cong; simp add: demo_mount_def log_state.defs fs_state.defs)+
  show "abs_cache d (demo_mount s) = abs_cache d s"
    by (rule abs_cache_cong) (simp_all add: demo_mount_def log_state.defs fs_state.defs)
qed

lemma demo_fs_facts:
  "dev_is 1 demo_fs" "a_held (ab 1 demo_fs) = Map.empty" "a_pins (ab 1 demo_fs) = {}"
  "a_view (ab 1 demo_fs) 45 = demo_disk 45" "log_start demo_fs = 2" "sb demo_fs = demo_sb"
proof -
  have z: "get_rec dec32 4 0 (demo_disk 2) = 0" using zero_head by (simp add: demo_disk_def)
  note e = recovered_empty [of demo_disk 2, OF z]
  have l: "length (demo_disk bn) = BSIZE" for bn by (simp add: demo_disk_def BSIZE_def)
  obtain t where t: "reboot 1 demo_sb demo_disk = Inr ((), t)" "log_inv t" "logged t = []" "a_held (lab t) = Map.empty"
    "a_view (lab t) 45 = demo_disk 45"
    "lrest t = \<lparr>lr_pid = 1, lr_start = 2, lr_dev = 1, lr_outstanding = 0, lr_committing = False, lr_more = ()\<rparr>"
    using reboot_spec [of 1 demo_disk demo_sb] e(1) e(2) [of 45] l by (auto simp: demo_sb_def)
  have fs: "demo_fs = run begin_op (demo_mount t)" using t(1) by (simp add: demo_fs_def run_def reboot_def)
  have f: "log_start t = 2" "log_dev t = 1" "log_outstanding t = 0" "\<not> log_committing t"
    using t(6) by (simp_all add: lrest_def)
  have n: "lh_n (log_lh t) = 0" using log_wfD(3) [OF log_invD(1) [OF t(2)]] t(3) by simp
  have s: "dev_is 1 demo_fs" "lab demo_fs = lab t" "lrest demo_fs = (lrest (demo_mount t))\<lparr>lr_outstanding := 1\<rparr>"
    using wp_run [OF begin_op_spec [of "demo_mount t"]] f n t(2)
    by (simp_all add: fs demo_mount_facts LOGBLOCKS_def MAXOPBLOCKS_def)
  have a: "ab 1 demo_fs = lab t" using s(2) dev_isD(2) [OF s(1)] by simp
  have p: "a_pins (lab t) = {}" using log_invD(2) [OF t(2)] t(3) by simp
  show "dev_is 1 demo_fs" "a_held (ab 1 demo_fs) = Map.empty" "a_pins (ab 1 demo_fs) = {}" "a_view (ab 1 demo_fs) 45 = demo_disk 45"
    using s(1) a p t(4,5) by simp_all
  have "log_state.more demo_fs = log_state.more (demo_mount t)" "log_start demo_fs = log_start (demo_mount t)"
    using s(3) by (simp_all add: lrest_def)
  then show "log_start demo_fs = 2" "sb demo_fs = demo_sb"
    using sb_more [of demo_fs "demo_mount t"] f by (simp_all add: demo_mount_facts)
qed

lemma demo_used:
  assumes "b < 2000"
  shows "used demo_sb (a_view (ab 1 demo_fs)) b \<longleftrightarrow> b < 48"
proof -
  have "b div BPB = 0" "b mod BPB = b" using assms by (simp_all add: BPB_def BSIZE_def)
  then have u: "used demo_sb (a_view (ab 1 demo_fs)) b \<longleftrightarrow> bit (demo_disk 45 ! (b div 8)) (b mod 8)"
    using demo_fs_facts(4) by (simp add: used_def bmap_blk_def bm_bit_def demo_sb_def)
  have "b div 8 < 250" using assms by simp
  then have "demo_disk 45 ! (b div 8) = (if b div 8 < 6 then - 1 else 0)"
    by (simp add: demo_disk_def nth_append BSIZE_def)
  then show ?thesis unfolding u by auto
qed

theorem balloc_correct_witness:
  "wp (balloc 1) demo_fs (\<lambda>r t. r = 48 \<and> ab 1 t = taken demo_sb 48 (ab 1 demo_fs))"
proof -
  note f = demo_fs_facts
  have z: "unat (sb_size demo_sb) = 2000" by (simp add: demo_sb_def)
  have "txn_ready 1 2 demo_fs" using f by (simp add: txn_ready_def LOGBLOCKS_def MAXOPBLOCKS_def)
  moreover have "home_blk (lrest demo_fs) (bmap_blk demo_sb k)" if "k < (2000 + BPB - 1) div BPB" for k
    using that f(5) by (simp add: home_blk_def lrest_def log_area_2 bmap_blk_def demo_sb_def BPB_def BSIZE_def)
  moreover have "home_blk (lrest demo_fs) (of_nat b)" if "b < 2000" "\<not> used demo_sb (a_view (ab 1 demo_fs)) b" for b
    using that f(5) by (simp add: demo_used home_blk_def lrest_def log_area_2 unat_of_nat take_bit_nat_eq_self)
  ultimately have *: "wp (balloc 1) demo_fs (\<lambda>r t. dev_is 1 t \<and> lrest t = lrest demo_fs \<and>
    (if \<forall>b<2000. used demo_sb (a_view (ab 1 demo_fs)) b then r = 0 \<and> ab 1 t = ab 1 demo_fs
     else \<exists>b<2000. \<not> used demo_sb (a_view (ab 1 demo_fs)) b \<and> (\<forall>c<b. used demo_sb (a_view (ab 1 demo_fs)) c)
       \<and> r = of_nat b \<and> ab 1 t = taken demo_sb b (ab 1 demo_fs)))"
    by (intro balloc_correct [of 1 demo_fs, unfolded f(6) z])
  have b: "b = 48" if "b < 2000" "\<not> used demo_sb (a_view (ab 1 demo_fs)) b" "\<forall>c<b. used demo_sb (a_view (ab 1 demo_fs)) c" for b
  proof -
    have "\<not> b < 48" using demo_used [OF that(1)] that(2) by simp
    moreover have "\<not> 48 < b" using that(3) demo_used [of 48] by auto
    ultimately show ?thesis by simp
  qed
  have "\<not> (\<forall>b<2000. used demo_sb (a_view (ab 1 demo_fs)) b)" using demo_used [of 48] by (auto intro!: exI [of _ 48])
  with * have "wp (balloc 1) demo_fs (\<lambda>r t. \<exists>b<2000. \<not> used demo_sb (a_view (ab 1 demo_fs)) b
      \<and> (\<forall>c<b. used demo_sb (a_view (ab 1 demo_fs)) c) \<and> r = of_nat b \<and> ab 1 t = taken demo_sb b (ab 1 demo_fs))"
    by (simp only: if_False) (auto simp: wp_def)
  then show ?thesis unfolding wp_def using b by fastforce
qed

end
