(* ===== verification/Proc_Props.thy ===== *)
theory Proc_Props
  imports Proc Sched_Props
begin

text \<open>
  Properties of process creation, and of \<^verbatim>\<open>kill\<close> on entries of the table that are not in use.
\<close>

section \<open>Creation\<close>

lemma thenk_InrE:
  assumes "thenk f g s = Inr (y, u)"
  obtains x t where "f s = Inr (x, t)" and "g t = Inr (y, u)"
  using assms unfolding thenk_def by (rule bindk_InrE)

lemma upd_proc_run [simp]: "upd_proc i f s = Inr ((), s\<lparr>procs := (procs s)[i := f (procs s ! i)]\<rparr>)"
  by (simp add: upd_proc_def modk_def)

lemma scan_first_bound: "scan_first P xs = Some i \<Longrightarrow> i < length xs \<and> P (xs ! i)"
  by (induction xs arbitrary: i) (auto split: if_splits)

lemma procs_kept: "keeps (procs_are (procs s)) f \<Longrightarrow> f s = Inr (x, t) \<Longrightarrow> procs t = procs s"
  using keepsD [of "procs_are (procs s)" f s x t] by blast

definition born :: "int \<Rightarrow> proc \<Rightarrow> proc" where
  "born pid x = x\<lparr>p_pid := pid, p_state := USED, p_deadline := 0, p_priority := 0, p_start_time := 0, p_in_rq := False\<rparr>"

lemma allocproc_procs:
  assumes "allocproc kend tramp fret s = Inr (Some p, t)"
  shows "\<exists>tf pt cx. scan_first (\<lambda>p. p_state p = UNUSED) (procs s) = Some p
    \<and> procs t = (procs s)[p := (born (nextpid s) (procs s ! p))\<lparr>p_trapframe := tf, p_pagetable := pt, p_context := cx\<rparr>]"
proof -
  obtain q where q: "scan_first (\<lambda>p. p_state p = UNUSED) (procs s) = Some q"
    using assms by (auto simp: allocproc_def bindk_def gets_def ret_def split: option.splits)
  have ql: "q < length (procs s)" using scan_first_bound [OF q] by simp
  define s1 where "s1 = s\<lparr>nextpid := nextpid s + 1, procs := (procs s)[q := born (nextpid s) (procs s ! q)]\<rparr>"
  have "bindk kalloc (\<lambda>tf. thenk (upd_proc q (\<lambda>x. x\<lparr>p_trapframe := tf\<rparr>))
         (if tf = 0 then thenk (freeproc kend q) (ret None)
          else bindk (proc_pagetable kend tramp tf) (\<lambda>pt.
            thenk (upd_proc q (\<lambda>x. x\<lparr>p_pagetable := pt\<rparr>))
            (if pt = 0 then thenk (freeproc kend q) (ret None)
             else thenk (upd_proc q (\<lambda>x. x\<lparr>p_context := fret # (p_kstack x + of_nat PGSIZE) # replicate 12 0\<rparr>))
               (ret (Some q)))))) s1 = Inr (Some p, t)"
    using assms q
    by (simp add: allocproc_def allocpid_def bindk_def thenk_def gets_def modk_def ret_def s1_def born_def)
  then obtain tf s2 where a: "kalloc s1 = Inr (tf, s2)" and b: "thenk (upd_proc q (\<lambda>x. x\<lparr>p_trapframe := tf\<rparr>))
         (if tf = 0 then thenk (freeproc kend q) (ret None)
          else bindk (proc_pagetable kend tramp tf) (\<lambda>pt.
            thenk (upd_proc q (\<lambda>x. x\<lparr>p_pagetable := pt\<rparr>))
            (if pt = 0 then thenk (freeproc kend q) (ret None)
             else thenk (upd_proc q (\<lambda>x. x\<lparr>p_context := fret # (p_kstack x + of_nat PGSIZE) # replicate 12 0\<rparr>))
               (ret (Some q))))) s2 = Inr (Some p, t)" by (rule bindk_InrE)
  have p2: "procs s2 = procs s1" using keeps_kalloc a by (rule procs_kept)
  define s3 where "s3 = s2\<lparr>procs := (procs s2)[q := (procs s2 ! q)\<lparr>p_trapframe := tf\<rparr>]\<rparr>"
  have tf: "tf \<noteq> 0" using b by (auto simp: thenk_def bindk_def ret_def split: sum.splits if_splits)
  obtain pt s4 where c: "proc_pagetable kend tramp tf s3 = Inr (pt, s4)" and d: "thenk (upd_proc q (\<lambda>x. x\<lparr>p_pagetable := pt\<rparr>))
            (if pt = 0 then thenk (freeproc kend q) (ret None)
             else thenk (upd_proc q (\<lambda>x. x\<lparr>p_context := fret # (p_kstack x + of_nat PGSIZE) # replicate 12 0\<rparr>))
               (ret (Some q))) s4 = Inr (Some p, t)"
    using b tf unfolding s3_def by (auto simp: thenk_def bindk_def split: sum.splits)
  have p4: "procs s4 = procs s3" using keeps_proc_pagetable c by (rule procs_kept)
  have "p = q \<and> procs t = (procs s)[q := (born (nextpid s) (procs s ! q))\<lparr>p_trapframe := tf, p_pagetable := pt,
      p_context := fret # (p_kstack (procs s ! q) + of_nat PGSIZE) # replicate 12 0\<rparr>]"
    using d p4 p2 ql
    by (auto simp: thenk_def bindk_def ret_def s3_def s1_def born_def split: sum.splits if_splits)
  then show ?thesis using q by blast
qed

section \<open>Properties\<close>

text \<open>
  Whenever \<^verbatim>\<open>allocproc\<close> returns an entry, that entry was the first unused one; it gets the next pid,
  the state USED and cleared scheduling attributes, and its \<^verbatim>\<open>killed\<close> flag and every other entry are as
  before.
\<close>

theorem allocproc_entry:
  "case allocproc kend tramp fret s of
     Inr (Some p, t) \<Rightarrow> p < length (procs s) \<and> p_state (procs s ! p) = UNUSED
       \<and> p_state (procs t ! p) = USED \<and> p_pid (procs t ! p) = nextpid s \<and> \<not> p_in_rq (procs t ! p)
       \<and> p_killed (procs t ! p) = p_killed (procs s ! p) \<and> (\<forall>j. j = p \<or> procs t ! j = procs s ! j)
   | _ \<Rightarrow> True"
proof -
  have "p < length (procs s) \<and> p_state (procs s ! p) = UNUSED
       \<and> p_state (procs t ! p) = USED \<and> p_pid (procs t ! p) = nextpid s \<and> \<not> p_in_rq (procs t ! p)
       \<and> p_killed (procs t ! p) = p_killed (procs s ! p) \<and> (\<forall>j. j = p \<or> procs t ! j = procs s ! j)"
    if a: "allocproc kend tramp fret s = Inr (Some p, t)" for p t
  proof -
    obtain tf pt cx where r: "scan_first (\<lambda>p. p_state p = UNUSED) (procs s) = Some p"
      "procs t = (procs s)[p := (born (nextpid s) (procs s ! p))\<lparr>p_trapframe := tf, p_pagetable := pt, p_context := cx\<rparr>]"
      using allocproc_procs [OF a] by blast
    have p: "p < length (procs s)" "p_state (procs s ! p) = UNUSED" using scan_first_bound [OF r(1)] by auto
    have "j = p \<or> procs t ! j = procs s ! j" for j by (cases "j = p") (simp_all add: r(2))
    then show ?thesis using p by (simp add: r(2) born_def)
  qed
  then show ?thesis by (simp split: sum.splits prod.splits option.splits)
qed

text \<open>
  C32. \<^verbatim>\<open>kill(0)\<close> succeeds on a table whose first entry with pid 0 is unused: the pid of an unused entry
  is 0. The entry is left marked killed, so the process that is next created there starts out killed.
\<close>

theorem kill_zero_marks_unused:
  assumes "rq_inv s" and "find_pid 0 (procs s) = Some i" and "p_state (procs s ! i) = UNUSED"
  shows "wp (kkill 0) s (\<lambda>r t. r = 0 \<and> p_state (procs t ! i) = UNUSED \<and> p_killed (procs t ! i) = 1
    \<and> (case allocproc kend tramp fret t of
         Inr (Some p, u) \<Rightarrow> p_killed (procs u ! p) = p_killed (procs t ! p)
       | _ \<Rightarrow> True))"
proof -
  obtain t where t: "kkill 0 s = Inr (0, t)" "procs t = (procs s)[i := (procs s ! i)\<lparr>p_killed := 1\<rparr>]"
    using kkill_run [OF assms(1,2)] assms(3) by (auto simp: wp_def)
  have "i < length (procs s)" using find_pid_some [OF assms(2)] by simp
  moreover have "p_killed (procs u ! p) = p_killed (procs t ! p)"
    if a: "allocproc kend tramp fret t = Inr (Some p, u)" for p u
  proof -
    obtain tf pt cx where r: "scan_first (\<lambda>p. p_state p = UNUSED) (procs t) = Some p"
      "procs u = (procs t)[p := (born (nextpid t) (procs t ! p))\<lparr>p_trapframe := tf, p_pagetable := pt, p_context := cx\<rparr>]"
      using allocproc_procs [OF a] by blast
    then show ?thesis using scan_first_bound [OF r(1)] by (simp add: born_def)
  qed
  ultimately show ?thesis using t assms(3) by (simp add: wp_def split: sum.splits prod.splits option.splits)
qed

theorem kill_zero_marks_unused_witness:
  "wp (kkill 0) (demo_sched RUNNING RUNNING) (\<lambda>r t. r = 0 \<and> p_killed (procs t ! 2) = 1)"
proof -
  have f: "find_pid 0 (procs (demo_sched RUNNING RUNNING)) = Some 2"
    by (simp add: demo_sched_def demo_proc_def numeral_eq_Suc)
  have u: "p_state (procs (demo_sched RUNNING RUNNING) ! 2) = UNUSED" by (simp add: demo_at demo_proc_def)
  show ?thesis
    by (rule wp_mono, rule kill_zero_marks_unused [where kend = 0 and tramp = 0 and fret = 0, OF demo_inv f u]) simp
qed

end
