(* ===== verification/Sysproc.thy ===== *)
theory Sysproc
  imports Sysfile
begin

text \<open>
  The system calls on processes (\<^verbatim>\<open>kernel/sysproc.c\<close>) and the mutex calls of \<^verbatim>\<open>kernel/proc.c\<close>, with
  their arguments taken from the trapframe.
\<close>

section \<open>Processes\<close>

definition sys_get_num_free_pages :: "('a sched_state_scheme, int) kmon" where
  "sys_get_num_free_pages = getNumFreePages"

definition sys_trace :: "nat \<Rightarrow> ('a sched_state_scheme, int) kmon" where
  "sys_trace me =
     bindk (argint me 0) (\<lambda>msk.
     thenk (upd_proc me (\<lambda>x. x\<lparr>p_trace_mask := of_int msk\<rparr>)) (ret 0))"

text \<open>The call does not return: the process switches to the scheduler for the last time.\<close>

definition sys_exit :: "u64 \<Rightarrow> nat \<Rightarrow> nat \<Rightarrow> ('a file_state_scheme, unit) kmon" where
  "sys_exit kend h me = bindk (argint me 0) (\<lambda>n. kexit kend h me n)"

definition sys_getpid :: "nat \<Rightarrow> ('a sched_state_scheme, int) kmon" where
  "sys_getpid me = gets (\<lambda>s. p_pid (procs s ! me))"

definition sys_fork :: "u64 \<Rightarrow> u64 \<Rightarrow> u64 \<Rightarrow> nat \<Rightarrow> ('a file_state_scheme, int) kmon" where
  "sys_fork kend tramp fret me = kfork kend tramp fret me"

definition sys_wait :: "u64 \<Rightarrow> nat \<Rightarrow> ('a sched_state_scheme, int) kmon" where
  "sys_wait kend me = bindk (argaddr me 0) (\<lambda>p. kwait kend me p)"

definition SBRK_EAGER :: int where "SBRK_EAGER = 1"

definition sys_sbrk :: "u64 \<Rightarrow> nat \<Rightarrow> ('a sched_state_scheme, u64) kmon" where
  "sys_sbrk kend me =
     bindk (argint me 0) (\<lambda>n.
     bindk (argint me 1) (\<lambda>t.
     bindk (gets (\<lambda>s. p_sz (procs s ! me))) (\<lambda>addr.
     if t = SBRK_EAGER \<or> n < 0 then
       bindk (growproc kend me n) (\<lambda>r. if r < 0 then ret (- 1) else ret addr)
     else if addr + of_int n < addr then ret (- 1)
     else thenk (upd_proc me (\<lambda>p. p\<lparr>p_sz := p_sz p + of_int n\<rparr>)) (ret addr))))"

text \<open>
  The loop of \<^verbatim>\<open>sys_pause\<close> when \<^verbatim>\<open>ticks0\<close> is known; the difference of the unsigned tick counts is
  compared with the int \<^verbatim>\<open>n\<close> as unsigned numbers. A process that sleeps runs the test again when
  the clock wakes it.
\<close>

definition pause_loop :: "nat \<Rightarrow> u32 \<Rightarrow> int \<Rightarrow> ('a sched_state_scheme, int) kmon" where
  "pause_loop me ticks0 n =
     bindk (gets (\<lambda>s. (ticks s, p_killed (procs s ! me)))) (\<lambda>(t, k).
     if t - ticks0 < of_int n then (if k \<noteq> 0 then ret (- 1) else asleep ChanTicks) else ret 0)"

definition sys_pause :: "nat \<Rightarrow> ('a sched_state_scheme, int) kmon" where
  "sys_pause me =
     bindk (argint me 0) (\<lambda>n.
     bindk (gets ticks) (\<lambda>t0. pause_loop me t0 (if n < 0 then 0 else n)))"

definition sys_sleep :: "nat \<Rightarrow> ('a sched_state_scheme, int) kmon" where
  "sys_sleep me = sys_pause me"

definition sys_kill :: "nat \<Rightarrow> ('a sched_state_scheme, int) kmon" where
  "sys_kill me = bindk (argint me 0) (\<lambda>pid. kkill pid)"

definition sys_uptime :: "('a sched_state_scheme, u64) kmon" where
  "sys_uptime = gets (\<lambda>s. ucast (ticks s))"

definition sys_setSchedAttr :: "u64 \<Rightarrow> nat \<Rightarrow> ('a sched_state_scheme, int) kmon" where
  "sys_setSchedAttr kend me =
     bindk (argaddr me 0) (\<lambda>uaddr.
     bindk (my_pagetable me) (\<lambda>pt.
     bindk (copyin kend me pt uaddr 12) (\<lambda>(r, bs).
     if r < 0 then ret (- 1) else thenk (setSchedAttr me (dec_attr bs)) (ret 0))))"

definition sys_getSchedAttr :: "u64 \<Rightarrow> nat \<Rightarrow> ('a sched_state_scheme, int) kmon" where
  "sys_getSchedAttr kend me =
     bindk (argaddr me 0) (\<lambda>uaddr.
     bindk (getSchedAttr me) (\<lambda>a.
     bindk (my_pagetable me) (\<lambda>pt.
     bindk (copyout kend me pt uaddr (enc_attr a)) (\<lambda>r. if r < 0 then ret (- 1) else ret 0))))"

section \<open>Mutexes\<close>

definition sys_mtx_create :: "nat \<Rightarrow> nat \<Rightarrow> ('a sched_state_scheme, int) kmon" where
  "sys_mtx_create h me = bindk (argint me 0) (\<lambda>lk. mtx_create h lk)"

definition sys_mtx_lock :: "nat \<Rightarrow> nat \<Rightarrow> ('a sched_state_scheme, int) kmon" where
  "sys_mtx_lock h me = bindk (argint me 0) (\<lambda>i. mtx_lock h i)"

definition sys_mtx_unlock :: "nat \<Rightarrow> nat \<Rightarrow> ('a sched_state_scheme, int) kmon" where
  "sys_mtx_unlock h me = bindk (argint me 0) (\<lambda>i. mtx_unlock h i)"

end
