(* ===== verification/User_Io.thy ===== *)
theory User_Io
  imports Cstring
begin

text \<open>
  The world of a user program, and the library \<^verbatim>\<open>user/ulib.c\<close>.

  A user program sees the kernel through the answers of its system calls. They are explicit: \<open>io\<close>
  holds, for every descriptor, the pieces \<^verbatim>\<open>read\<close> is still going to deliver and the bytes written
  so far, and what \<^verbatim>\<open>open\<close> answers for a path. A read returns at most one piece and at most as many
  bytes as were asked for, so that every way of cutting the input is covered; no piece left is the
  end of the file. A string argument is the list of its bytes, and \<open>at s i\<close> is \<^verbatim>\<open>s[i]\<close>, with the
  terminating NUL just past the end.
\<close>

section \<open>Bytes and strings\<close>

definition at :: "bytes \<Rightarrow> nat \<Rightarrow> uchar" where
  "at s i = (if i < length s then s ! i else 0)"

lemma at_Nil [simp]: "at [] i = 0"
  by (simp add: at_def)

lemma at_Cons_0 [simp]: "at (c # s) 0 = c"
  by (simp add: at_def)

lemma at_Cons_Suc [simp]: "at (c # s) (Suc i) = at s i"
  by (simp add: at_def)

lemma at_0_nz: "at s 0 \<noteq> 0 \<Longrightarrow> \<exists>c t. s = c # t \<and> c \<noteq> 0"
  by (cases s) auto

lemma at_drop [simp]: "at (drop n s) i = at s (n + i)"
  by (auto simp: at_def add.commute)

lemma at_drop_less [termination_simp]:
  "at s 0 \<noteq> 0 \<Longrightarrow> length s - Suc 0 < length s" "0 \<noteq> at s 0 \<Longrightarrow> length s - Suc 0 < length s"
  by (cases s; simp)+

lemma at_range_less [termination_simp]: "48 \<le> at s 0 \<Longrightarrow> length s - Suc 0 < length s"
  by (cases s) simp_all

definition str :: "string \<Rightarrow> bytes" where
  "str = map of_char"

section \<open>System calls\<close>

record io =
  io_in :: "int \<Rightarrow> bytes list"
  io_out :: "int \<Rightarrow> bytes"
  io_open :: "bytes \<Rightarrow> int"

definition u_read :: "int \<Rightarrow> nat \<Rightarrow> io \<Rightarrow> bytes \<times> io" where
  "u_read fd n s =
     (case io_in s fd of
        [] \<Rightarrow> ([], s)
      | p # ps \<Rightarrow>
          if length p \<le> n then (p, s\<lparr>io_in := (io_in s)(fd := ps)\<rparr>)
          else (take n p, s\<lparr>io_in := (io_in s)(fd := drop n p # ps)\<rparr>))"

definition u_write :: "int \<Rightarrow> bytes \<Rightarrow> io \<Rightarrow> io" where
  "u_write fd b s = s\<lparr>io_out := (io_out s)(fd := io_out s fd @ b)\<rparr>"

lemma u_write_in [simp]: "io_in (u_write fd b s) = io_in s"
  by (simp add: u_write_def)

lemma u_write_open [simp]: "io_open (u_write fd b s) = io_open s"
  by (simp add: u_write_def)

lemma u_write_out [simp]: "io_out (u_write fd b s) = (io_out s)(fd := io_out s fd @ b)"
  by (simp add: u_write_def)

lemma u_write_twice: "u_write fd b (u_write fd a s) = u_write fd (a @ b) s"
  by (simp add: u_write_def)

lemma u_write_Nil [simp]: "u_write fd [] s = s"
  by (simp add: u_write_def)

text \<open>How many bytes are still to come on a descriptor.\<close>

definition pending :: "int \<Rightarrow> io \<Rightarrow> nat" where
  "pending fd s = sum_list (map length (io_in s fd))"

lemma u_read_pending: "u_read fd n s = (b, t) \<Longrightarrow> pending fd t + length b = pending fd s"
  by (auto simp: u_read_def pending_def split: list.splits if_splits)

lemma pending_write [simp]: "pending fd (u_write d b s) = pending fd s"
  by (simp add: pending_def)

lemma u_read_less:
  assumes "(b, t) = u_read fd n s" and "b \<noteq> []"
  shows "pending fd t < pending fd s"
  using u_read_pending [OF assms(1) [symmetric]] assms(2) by (cases b) auto

lemma u_read_length: "u_read fd n s = (b, t) \<Longrightarrow> length b \<le> n"
  by (auto simp: u_read_def split: list.splits if_splits)

lemma u_read_stream: "u_read fd n s = (b, t) \<Longrightarrow> b @ concat (io_in t fd) = concat (io_in s fd)"
  by (auto simp: u_read_def split: list.splits if_splits)

lemma u_read_same: "u_read fd n s = (b, t) \<Longrightarrow> io_out t = io_out s \<and> io_open t = io_open s"
  by (auto simp: u_read_def split: list.splits if_splits)

section \<open>The user library\<close>

text \<open>Routines on strings as byte lists; those on memory take the memory.\<close>

partial_function (option) ustrlen_from :: "mem \<Rightarrow> nat \<Rightarrow> nat option" where
  [code]: "ustrlen_from s n = (if s n \<noteq> 0 then ustrlen_from s (Suc n) else Some n)"

definition ustrlen :: "mem \<Rightarrow> nat option" where
  "ustrlen s = ustrlen_from s 0"

partial_function (option) strcpy :: "nat \<Rightarrow> nat \<Rightarrow> mem \<Rightarrow> mem option" where
  [code]: "strcpy s t m =
     (let m' = m(s := m t) in if m t \<noteq> 0 then strcpy (Suc s) (Suc t) m' else Some m')"

fun strcmp :: "bytes \<Rightarrow> bytes \<Rightarrow> int" where
  "strcmp p q =
     (if at p 0 \<noteq> 0 \<and> at p 0 = at q 0 then strcmp (drop 1 p) (drop 1 q)
      else uint (at p 0) - uint (at q 0))"

fun strchr :: "bytes \<Rightarrow> uchar \<Rightarrow> nat option" where
  "strchr s c =
     (if at s 0 = 0 then None
      else if at s 0 = c then Some 0
      else map_option Suc (strchr (drop 1 s) c))"

declare strcmp.simps [simp del] strchr.simps [simp del]

primrec umemset :: "nat \<Rightarrow> uchar \<Rightarrow> nat \<Rightarrow> mem \<Rightarrow> mem" where
  "umemset dst c 0 m = m"
| "umemset dst c (Suc n) m = (umemset dst c n m)(dst + n := c)"

text \<open>\<^verbatim>\<open>gets\<close> reads one byte at a time from descriptor 0, up to and including an end of line.\<close>

function gets_from :: "int \<Rightarrow> bytes \<Rightarrow> io \<Rightarrow> bytes \<times> io" where
  "gets_from nmax buf s =
     (if int (length buf) + 1 < nmax then
        case u_read 0 1 s of (b, t) \<Rightarrow>
          if length b < 1 then (buf, t)
          else if hd b = 10 \<or> hd b = 13 then (buf @ b, t)
          else gets_from nmax (buf @ b) t
      else (buf, s))"
  by pat_completeness auto
termination
  by (relation "measure (\<lambda>(nmax, buf, s). nat (nmax - int (length buf)))") (auto simp: not_less)

declare gets_from.simps [simp del]

definition ugets :: "int \<Rightarrow> io \<Rightarrow> bytes \<times> io" where
  "ugets nmax s = gets_from nmax [] s"

text \<open>\<^verbatim>\<open>atoi\<close> computes in a 32-bit \<^verbatim>\<open>int\<close>.\<close>

fun atoi_from :: "u32 \<Rightarrow> bytes \<Rightarrow> u32" where
  "atoi_from n s =
     (if 48 \<le> at s 0 \<and> at s 0 \<le> 57 then atoi_from (n * 10 + ucast (at s 0) - 48) (drop 1 s) else n)"

declare atoi_from.simps [simp del]

definition atoi :: "bytes \<Rightarrow> int" where
  "atoi s = sint (atoi_from 0 s)"

definition umemmove :: "nat \<Rightarrow> nat \<Rightarrow> int \<Rightarrow> mem \<Rightarrow> mem" where
  "umemmove dst src n m =
     (if src > dst then copy_up dst src (nat n) m else copy_down dst src (nat n) m)"

primrec umemcmp :: "nat \<Rightarrow> mem \<Rightarrow> mem \<Rightarrow> int" where
  "umemcmp 0 s1 s2 = 0"
| "umemcmp (Suc n) s1 s2 =
     (if s1 0 \<noteq> s2 0 then uint (s1 0) - uint (s2 0)
      else umemcmp n (\<lambda>i. s1 (Suc i)) (\<lambda>i. s2 (Suc i)))"

definition umemcpy :: "nat \<Rightarrow> nat \<Rightarrow> nat \<Rightarrow> mem \<Rightarrow> mem" where
  "umemcpy dst src n m = umemmove dst src (sint (of_nat n :: u32)) m"

section \<open>What the library computes\<close>

lemma strchr_Some:
  assumes "0 \<notin> set s" and "c \<noteq> 0"
  shows "strchr s c = Some k \<longleftrightarrow> k < length s \<and> s ! k = c \<and> c \<notin> set (take k s)"
  using assms
proof (induction s arbitrary: k)
  case Nil
  then show ?case by (simp add: strchr.simps)
next
  case (Cons x s)
  then show ?case by (cases k) (auto simp: strchr.simps [of "x # s"])
qed

lemma strchr_None:
  assumes "0 \<notin> set s" and "c \<noteq> 0"
  shows "strchr s c = None \<longleftrightarrow> c \<notin> set s"
  using assms
proof (induction s)
  case Nil
  then show ?case by (simp add: strchr.simps)
next
  case (Cons x s)
  then show ?case by (auto simp: strchr.simps [of "x # s"])
qed

lemma strcmp_zero:
  assumes "0 \<notin> set p" and "0 \<notin> set q"
  shows "strcmp p q = 0 \<longleftrightarrow> p = q"
  using assms
proof (induction p arbitrary: q)
  case Nil
  then show ?case by (cases q) (auto simp: strcmp.simps uint_0_iff)
next
  case (Cons x p)
  then show ?case by (cases q) (auto simp: strcmp.simps [of "x # p"] uint_0_iff simp flip: word_uint_eq_iff)
qed

end
