(* ===== verification/Printf.thy ===== *)
theory Printf
  imports User_Io
begin

text \<open>
  Formatted output: \<^verbatim>\<open>user/printf.c\<close>, and the formatting of \<^verbatim>\<open>kernel/printf.c\<close>, which uses the same
  conversions with lower-case hexadecimal digits.

  A conversion that needs an argument that is not there, and a store past the end of the 20-byte
  buffer of \<^verbatim>\<open>printint\<close>, are \<open>None\<close>. Negation of a \<^verbatim>\<open>long long\<close> is two's complement.
\<close>

datatype arg = Num u64 | Str "bytes option"

section \<open>Numbers\<close>

definition udigits :: bytes where
  "udigits = str ''0123456789ABCDEF''"

definition kdigits :: bytes where
  "kdigits = str ''0123456789abcdef''"

definition INTBUF :: nat where "INTBUF = 20"

function printint_loop :: "bytes \<Rightarrow> u64 \<Rightarrow> u64 \<Rightarrow> bytes \<Rightarrow> bytes option" where
  "printint_loop digs base x buf =
     (if INTBUF \<le> length buf then None
      else let buf' = buf @ [at digs (unat (x mod base))] in
        if x div base \<noteq> 0 then printint_loop digs base (x div base) buf' else Some buf')"
  by pat_completeness auto
termination
  by (relation "measure (\<lambda>(digs, base, x, buf). INTBUF - length buf)") auto

declare printint_loop.simps [simp del]

definition printint_text :: "bytes \<Rightarrow> u64 \<Rightarrow> u64 \<Rightarrow> bool \<Rightarrow> bytes option" where
  "printint_text digs xx base sg =
     (let neg = (sg \<and> sint xx < 0); x = (if neg then - xx else xx) in
      case printint_loop digs base x [] of
        None \<Rightarrow> None
      | Some buf \<Rightarrow>
          if neg then if INTBUF \<le> length buf then None else Some (rev (buf @ [45]))
          else Some (rev buf))"

definition printint :: "int \<Rightarrow> u64 \<Rightarrow> u64 \<Rightarrow> bool \<Rightarrow> io \<Rightarrow> io option" where
  "printint fd xx base sg s = map_option (\<lambda>b. u_write fd b s) (printint_text udigits xx base sg)"

primrec printptr_loop :: "bytes \<Rightarrow> nat \<Rightarrow> u64 \<Rightarrow> bytes" where
  "printptr_loop digs 0 x = []"
| "printptr_loop digs (Suc n) x = at digs (unat (drop_bit 60 x)) # printptr_loop digs n (push_bit 4 x)"

definition printptr_text :: "bytes \<Rightarrow> u64 \<Rightarrow> bytes" where
  "printptr_text digs x = [48, 120] @ printptr_loop digs 16 x"

section \<open>Formats\<close>

text \<open>
  The chain of tests after a percent sign on the next three bytes: the conversion, and how many
  bytes of the format it takes beyond the first.
\<close>

datatype conv = Int32 u64 bool | Int64 u64 bool | Ptr | Chr | Txt | Percent | Unknown

definition conv_of :: "uchar \<Rightarrow> uchar \<Rightarrow> uchar \<Rightarrow> conv \<times> nat" where
  "conv_of c0 c1 c2 =
     (if c0 = 100 then (Int32 10 True, 0)
      else if c0 = 108 \<and> c1 = 100 then (Int64 10 True, 1)
      else if c0 = 108 \<and> c1 = 108 \<and> c2 = 100 then (Int64 10 True, 2)
      else if c0 = 117 then (Int32 10 False, 0)
      else if c0 = 108 \<and> c1 = 117 then (Int64 10 False, 1)
      else if c0 = 108 \<and> c1 = 108 \<and> c2 = 117 then (Int64 10 False, 2)
      else if c0 = 120 then (Int32 16 False, 0)
      else if c0 = 108 \<and> c1 = 120 then (Int64 16 False, 1)
      else if c0 = 108 \<and> c1 = 108 \<and> c2 = 120 then (Int64 16 False, 2)
      else if c0 = 112 then (Ptr, 0)
      else if c0 = 99 then (Chr, 0)
      else if c0 = 115 then (Txt, 0)
      else if c0 = 37 then (Percent, 0)
      else (Unknown, 0))"

text \<open>What a conversion prints and the arguments it leaves.\<close>

fun emit :: "bytes \<Rightarrow> uchar \<Rightarrow> conv \<Rightarrow> arg list \<Rightarrow> (bytes \<times> arg list) option" where
  "emit digs c0 (Int32 base sg) (Num a # as) =
     map_option (\<lambda>b. (b, as))
       (printint_text digs (if sg then scast (ucast a :: u32) else ucast (ucast a :: u32)) base sg)"
| "emit digs c0 (Int64 base sg) (Num a # as) = map_option (\<lambda>b. (b, as)) (printint_text digs a base sg)"
| "emit digs c0 Ptr (Num a # as) = Some (printptr_text digs a, as)"
| "emit digs c0 Chr (Num a # as) = Some ([ucast a], as)"
| "emit digs c0 Txt (Str None # as) = Some (str ''(null)'', as)"
| "emit digs c0 Txt (Str (Some t) # as) = Some (takeWhile (\<lambda>c. c \<noteq> 0) t, as)"
| "emit digs c0 Percent as = Some ([37], as)"
| "emit digs c0 Unknown as = Some ([37, c0], as)"
| "emit digs c0 _ _ = None"

lemma at_percent: "at s 0 = 37 \<Longrightarrow> 0 < length s"
  by (cases s) auto

text \<open>The loop of \<^verbatim>\<open>vprintf\<close>; \<open>st\<close> says that a percent sign has been read.\<close>

function vprintf_loop :: "bool \<Rightarrow> bytes \<Rightarrow> arg list \<Rightarrow> bytes option" where
  "vprintf_loop st fmt ap =
     (let c0 = at fmt 0 in
      if c0 = 0 then Some []
      else if \<not> st then
        if c0 = 37 then vprintf_loop True (drop 1 fmt) ap
        else map_option (\<lambda>b. c0 # b) (vprintf_loop False (drop 1 fmt) ap)
      else
        let c1 = at fmt 1; c2 = (if c1 \<noteq> 0 then at fmt 2 else 0); (cv, k) = conv_of c0 c1 c2 in
        case emit udigits c0 cv ap of
          None \<Rightarrow> None
        | Some (b, as) \<Rightarrow> map_option (\<lambda>b'. b @ b') (vprintf_loop False (drop (Suc k) fmt) as))"
  by pat_completeness auto
termination
  by (relation "measure (\<lambda>(st, fmt, ap). length fmt)") (auto dest: at_0_nz at_percent)

definition vprintf :: "int \<Rightarrow> bytes \<Rightarrow> arg list \<Rightarrow> io \<Rightarrow> io option" where
  "vprintf fd fmt ap s = map_option (\<lambda>b. u_write fd b s) (vprintf_loop False fmt ap)"

definition fprintf :: "int \<Rightarrow> bytes \<Rightarrow> arg list \<Rightarrow> io \<Rightarrow> io option" where
  "fprintf fd fmt ap s = vprintf fd fmt ap s"

definition uprintf :: "bytes \<Rightarrow> arg list \<Rightarrow> io \<Rightarrow> io option" where
  "uprintf fmt ap s = vprintf 1 fmt ap s"

text \<open>The kernel's \<^verbatim>\<open>printf\<close>: the bytes it hands to \<^verbatim>\<open>consputc\<close>.\<close>

function kprintf :: "bytes \<Rightarrow> bytes \<Rightarrow> arg list \<Rightarrow> bytes option" where
  "kprintf digs fmt ap =
     (let cx = at fmt 0 in
      if cx = 0 then Some []
      else if cx \<noteq> 37 then map_option (\<lambda>b. cx # b) (kprintf digs (drop 1 fmt) ap)
      else
        let c0 = at fmt 1; c1 = (if c0 \<noteq> 0 then at fmt 2 else 0); c2 = (if c1 \<noteq> 0 then at fmt 3 else 0);
          (cv, k) = conv_of c0 c1 c2 in
        if c0 = 0 then Some []
        else case emit digs c0 cv ap of
          None \<Rightarrow> None
        | Some (b, as) \<Rightarrow> map_option (\<lambda>b'. b @ b') (kprintf digs (drop (k + 2) fmt) as))"
  by pat_completeness auto
termination
  by (relation "measure (\<lambda>(digs, fmt, ap). length fmt)") (auto dest: at_0_nz at_percent)

declare vprintf_loop.simps [simp del] kprintf.simps [simp del]

section \<open>Digits\<close>

text \<open>The digits of \<open>n\<close>, least significant first.\<close>

function lsd :: "nat \<Rightarrow> nat \<Rightarrow> nat list" where
  "lsd b n = n mod b # (if n div b = 0 \<or> b < 2 then [] else lsd b (n div b))"
  by pat_completeness auto
termination
  by (relation "measure snd") (auto intro!: div_less_dividend intro: gr0I)

declare lsd.simps [simp del]

lemma lsd_length:
  assumes "2 \<le> b" and "n < b ^ k" and "0 < k"
  shows "length (lsd b n) \<le> k"
  using assms(2,3)
proof (induction k arbitrary: n)
  case (Suc k)
  have d: "n div b < b ^ k" using Suc.prems assms(1) by (simp add: less_mult_imp_div_less mult.commute)
  show ?case
  proof (cases "n div b = 0")
    case False
    then have "0 < k" using d by (cases k) auto
    then show ?thesis using Suc.IH [OF d] by (subst lsd.simps) simp
  qed (subst lsd.simps, simp)
qed simp

lemma lsd_less: "2 \<le> b \<Longrightarrow> d \<in> set (lsd b n) \<Longrightarrow> d < b"
  by (induction b n rule: lsd.induct) (subst (asm) (2) lsd.simps, auto split: if_splits)

lemma unat_div_mod [simp]: "unat (x div y :: u64) = unat x div unat y" "unat (x mod y :: u64) = unat x mod unat y"
  by (simp_all add: unat_div unat_mod)

lemma printint_loop_lsd:
  assumes "2 \<le> unat base" and "length buf + length (lsd (unat base) (unat x)) \<le> INTBUF"
  shows "printint_loop digs base x buf = Some (buf @ map (at digs) (lsd (unat base) (unat x)))"
  using assms
proof (induction digs base x buf rule: printint_loop.induct)
  case (1 digs base x buf)
  have nz: "x div base = 0 \<longleftrightarrow> unat x div unat base = 0" by (simp add: word_unat_eq_iff)
  have l: "lsd (unat base) (unat x) = unat x mod unat base
      # (if x div base = 0 then [] else lsd (unat base) (unat (x div base)))"
    using 1(2) by (subst lsd.simps) (simp add: nz)
  have "length buf < INTBUF" using 1(3) by (simp add: l)
  then show ?case using 1(1) [OF _ refl] 1(2,3) by (subst printint_loop.simps) (auto simp: l Let_def)
qed

lemma sint_neg_abs:
  assumes "sint (x :: u64) < 0"
  shows "unat (- x) \<le> 2 ^ 63" and "int (unat (- x)) = - sint x"
proof -
  have r: "- (2 ^ 63) \<le> sint x" using sint_range_size [of x] by (simp add: word_size)
  have "- x = word_of_int (- sint x)" by simp
  then have "uint (- x) = - sint x mod 2 ^ 64" by (simp only: uint_word_of_int) simp
  also have "\<dots> = - sint x" using assms r by (intro mod_pos_pos_trivial) auto
  finally have u: "uint (- x) = - sint x" .
  then show "int (unat (- x)) = - sint x" by simp
  then have "int (unat (- x)) \<le> int (2 ^ 63)" using r by simp
  then show "unat (- x) \<le> 2 ^ 63" by (simp only: of_nat_le_iff)
qed

lemma printint_text_eq:
  assumes "base = 10 \<or> base = 16"
  shows "printint_text digs xx base sg = Some (if sg \<and> sint xx < 0
    then 45 # rev (map (at digs) (lsd (unat base) (unat (- xx)))) else rev (map (at digs) (lsd (unat base) (unat xx))))"
    and "length (the (printint_text digs xx base sg)) \<le> INTBUF"
proof -
  have b: "2 \<le> unat base" using assms by auto
  have u: "unat xx < 2 ^ 64" using unsigned_less [of xx, where 'a = nat] by simp
  have "unat xx < unat base ^ 20" using assms u by auto
  then have l: "length (lsd (unat base) (unat xx)) \<le> 20" using lsd_length [OF b] by simp
  have ln: "length (lsd (unat base) (unat (- xx))) \<le> 19" if "sint xx < 0"
  proof -
    have "unat (- xx) < unat base ^ 19" using assms sint_neg_abs(1) [OF that] by auto
    then show ?thesis using lsd_length [OF b] by simp
  qed
  show "printint_text digs xx base sg = Some (if sg \<and> sint xx < 0
    then 45 # rev (map (at digs) (lsd (unat base) (unat (- xx)))) else rev (map (at digs) (lsd (unat base) (unat xx))))"
    using l ln by (auto simp: printint_text_def Let_def printint_loop_lsd [OF b] INTBUF_def)
  then show "length (the (printint_text digs xx base sg)) \<le> INTBUF" using l ln by (auto simp: INTBUF_def)
qed

text \<open>
  C38. The 20-byte buffer of \<^verbatim>\<open>printint\<close> is large enough: in base 10 and 16, signed or not, printing
  any 64-bit value stores at most 20 characters and returns. The bound is met by the most negative
  value.
\<close>

theorem printint_fits:
  "(\<exists>t. printint_text digs xx 10 sg = Some t \<and> length t \<le> 20)
   \<and> (\<exists>t. printint_text digs xx 16 sg = Some t \<and> length t \<le> 20)
   \<and> printint_text udigits (- (2 ^ 63)) 10 True = Some (str ''-9223372036854775808'')"
proof (intro conjI)
  show "\<exists>t. printint_text digs xx 10 sg = Some t \<and> length t \<le> 20"
    using printint_text_eq [of 10 digs xx sg] by (simp add: INTBUF_def)
  show "\<exists>t. printint_text digs xx 16 sg = Some t \<and> length t \<le> 20"
    using printint_text_eq [of 16 digs xx sg] by (simp add: INTBUF_def)
  show "printint_text udigits (- (2 ^ 63)) 10 True = Some (str ''-9223372036854775808'')"
    by code_simp
qed

section \<open>Printing and reading back\<close>

text \<open>The value \<^verbatim>\<open>atoi\<close> gives to a run of decimal digits, most significant first.\<close>

lemma udigits_at:
  assumes "d < 10"
  shows "48 \<le> at udigits d" "at udigits d \<le> 57" "(ucast (at udigits d) :: u32) = 48 + of_nat d"
proof -
  have "\<forall>d\<in>{..<10}. 48 \<le> at udigits d \<and> at udigits d \<le> 57 \<and> (ucast (at udigits d) :: u32) = 48 + of_nat d"
    by code_simp
  then show "48 \<le> at udigits d" "at udigits d \<le> 57" "(ucast (at udigits d) :: u32) = 48 + of_nat d"
    using assms by blast+
qed

lemma atoi_digit: "d < 10 \<Longrightarrow> atoi_from n (at udigits d # s) = atoi_from (n * 10 + of_nat d) s"
  by (subst atoi_from.simps) (simp add: udigits_at)

lemma atoi_digits:
  assumes "\<forall>d \<in> set ds. d < 10"
  shows "atoi_from n (map (at udigits) ds) = foldl (\<lambda>n d. n * 10 + of_nat d) n ds"
  using assms
proof (induction ds arbitrary: n)
  case Nil
  then show ?case by (simp add: atoi_from.simps)
next
  case (Cons d ds)
  then show ?case by (simp add: atoi_digit)
qed

lemma lsd_value: "2 \<le> b \<Longrightarrow> foldr (\<lambda>d n. n * of_nat b + of_nat d) (lsd b n) 0 = (of_nat n :: u32)"
proof (induction b n rule: lsd.induct)
  case (1 b n)
  have e: "(of_nat n :: u32) = of_nat (n div b) * of_nat b + of_nat (n mod b)"
    by (metis div_mult_mod_eq of_nat_add of_nat_mult)
  show ?case
  proof (cases "n div b = 0")
    case True
    then show ?thesis using e by (subst lsd.simps) simp
  next
    case False
    then have "foldr (\<lambda>d n. n * of_nat b + of_nat d) (lsd b (n div b)) 0 = (of_nat (n div b) :: u32)"
      using 1 by simp
    with False "1.prems" show ?thesis using e by (subst lsd.simps) simp
  qed
qed

text \<open>
  Printing and reading a number: what \<^verbatim>\<open>printint\<close> writes in decimal for a non-negative \<^verbatim>\<open>int\<close> is
  read back by \<^verbatim>\<open>atoi\<close> as that number.
\<close>

theorem atoi_printint:
  assumes "0 \<le> i" and "i < 2 ^ 31"
  shows "map_option atoi (printint_text udigits (word_of_int i) 10 True) = Some i"
proof -
  have "uint (word_of_int i :: u64) = i" using assms by (simp add: uint_word_of_int_eq take_bit_int_eq_self)
  then have u: "unat (word_of_int i :: u64) = nat i" "sint (word_of_int i :: u64) = i"
    using assms by (simp_all add: sint_sbintrunc' signed_take_bit_int_eq_self flip: nat_uint_eq)
  have "atoi (rev (map (at udigits) (lsd 10 (nat i)))) = sint (of_nat (nat i) :: u32)"
    using lsd_less [of 10 _ "nat i"] lsd_value [of 10 "nat i"]
    by (simp add: atoi_def atoi_digits foldl_conv_foldr rev_map)
  also have "\<dots> = i" using assms by (simp add: sint_sbintrunc' signed_take_bit_int_eq_self)
  finally show ?thesis using assms u by (simp add: printint_text_eq)
qed

theorem atoi_printint_witness:
  "map_option atoi (printint_text udigits (word_of_int 2147483647) 10 True) = Some 2147483647"
  by (rule atoi_printint) simp_all

section \<open>One format language\<close>

text \<open>
  The two \<^verbatim>\<open>printf\<close> implementations agree: with the same digits, the kernel's loop, which reads a
  conversion in one step, prints what the state machine of the user library prints, on every
  format and every argument list, and fails on the same ones.
\<close>

theorem printf_agree: "kprintf udigits fmt ap = vprintf_loop False fmt ap"
proof (induction udigits fmt ap rule: kprintf.induct)
  case (1 fmt ap)
  show ?case
  proof (cases "at fmt 0 = 37 \<and> at fmt 1 \<noteq> 0")
    case False
    then show ?thesis using 1(1)
      by (subst kprintf.simps, subst vprintf_loop.simps) (auto simp: Let_def vprintf_loop.simps [of True "drop (Suc 0) fmt"])
  next
    case True
    obtain cv k where cv: "conv_of (at fmt 1) (at fmt 2) (if at fmt 2 \<noteq> 0 then at fmt 3 else 0) = (cv, k)" by fastforce
    have n: "at (drop 1 fmt) 0 = at fmt 1" "at (drop 1 fmt) 1 = at fmt 2" "at (drop 1 fmt) 2 = at fmt 3"
      "drop (Suc k) (drop 1 fmt) = drop (k + 2) fmt" for k
      by (simp_all add: numeral_2_eq_2 numeral_3_eq_3)
    have "vprintf_loop False fmt ap = vprintf_loop True (drop 1 fmt) ap"
      using True by (subst vprintf_loop.simps) simp
    also have "\<dots> = (case emit udigits (at fmt 1) cv ap of None \<Rightarrow> None
      | Some (b, as) \<Rightarrow> map_option (\<lambda>b'. b @ b') (vprintf_loop False (drop (k + 2) fmt) as))"
      unfolding vprintf_loop.simps [of True "drop 1 fmt"] Let_def n cv using True by simp
    finally show ?thesis using True cv 1(2) by (subst kprintf.simps) (auto simp: Let_def split: option.splits)
  qed
qed

end
