(* ===== verification/Grep.thy ===== *)
theory Grep
  imports Printf
begin

text \<open>
  \<^verbatim>\<open>user/grep.c\<close>: the pattern matcher and the loop that cuts its input into lines.

  The matcher is compared with the languages of patterns; the loop is shown to print the matching
  lines however the input arrives.
\<close>

section \<open>The matcher\<close>

function matchhere :: "bytes \<Rightarrow> bytes \<Rightarrow> bool"
  and matchstar :: "uchar \<Rightarrow> bytes \<Rightarrow> bytes \<Rightarrow> bool" where
  "matchhere re tx =
     (if at re 0 = 0 then True
      else if at re 1 = 42 then matchstar (at re 0) (drop 2 re) tx
      else if at re 0 = 36 \<and> at re 1 = 0 then at tx 0 = 0
      else if at tx 0 \<noteq> 0 \<and> (at re 0 = 46 \<or> at re 0 = at tx 0) then matchhere (drop 1 re) (drop 1 tx)
      else False)"
| "matchstar c re tx =
     (if matchhere re tx then True
      else if at tx 0 \<noteq> 0 \<and> (at tx 0 = c \<or> c = 46) then matchstar c re (drop 1 tx)
      else False)"
  by pat_completeness auto
termination
  by (relation "measures [\<lambda>x. case x of Inl (re, tx) \<Rightarrow> 2 * length re | Inr (c, re, tx) \<Rightarrow> 2 * length re + 1,
      \<lambda>x. case x of Inl (re, tx) \<Rightarrow> length tx | Inr (c, re, tx) \<Rightarrow> length tx]")
    (auto dest!: at_0_nz)

declare matchhere.simps [simp del] matchstar.simps [simp del]

fun match_any :: "bytes \<Rightarrow> bytes \<Rightarrow> bool" where
  "match_any re tx =
     (if matchhere re tx then True else if at tx 0 \<noteq> 0 then match_any re (drop 1 tx) else False)"

declare match_any.simps [simp del]

definition match :: "bytes \<Rightarrow> bytes \<Rightarrow> bool" where
  "match re tx = (if at re 0 = 94 then matchhere (drop 1 re) tx else match_any re tx)"

section \<open>The input loop\<close>

definition GREPBUF :: nat where "GREPBUF = 1024"

text \<open>The complete lines at the front of the buffer: what they print, and what is left over.\<close>

function grep_lines :: "bytes \<Rightarrow> bytes \<Rightarrow> bytes \<times> bytes" where
  "grep_lines pat p =
     (case strchr p 10 of
        None \<Rightarrow> ([], p)
      | Some k \<Rightarrow>
          case grep_lines pat (drop (Suc k) p) of (out, r) \<Rightarrow>
            ((if match pat (take k p) then take (Suc k) p else []) @ out, r))"
  by pat_completeness auto
termination
proof (relation "measure (\<lambda>(pat, p). length p)")
  fix pat p k
  assume "strchr p 10 = Some k"
  then have "p \<noteq> []" by (auto simp: strchr.simps)
  then show "((pat, drop (Suc k) p), pat, p) \<in> measure (\<lambda>(pat, p). length p)" by simp
qed simp

declare grep_lines.simps [simp del]

function grep_loop :: "bytes \<Rightarrow> int \<Rightarrow> bytes \<Rightarrow> io \<Rightarrow> io" where
  "grep_loop pat fd buf s =
     (case u_read fd (GREPBUF - length buf - 1) s of (b, t) \<Rightarrow>
        if b = [] then t
        else case grep_lines pat (buf @ b) of (out, r) \<Rightarrow> grep_loop pat fd r (u_write 1 out t))"
  by pat_completeness auto
termination
  by (relation "measure (\<lambda>(pat, fd, buf, s). pending fd s)") (auto dest: u_read_less)

declare grep_loop.simps [simp del]

definition grep :: "bytes \<Rightarrow> int \<Rightarrow> io \<Rightarrow> io" where
  "grep pat fd s = grep_loop pat fd [] s"

text \<open>\<^verbatim>\<open>main\<close>: the exit status and the world it leaves; \<open>None\<close> if a message cannot be printed.\<close>

fun grep_files :: "bytes \<Rightarrow> bytes list \<Rightarrow> io \<Rightarrow> (int \<times> io) option" where
  "grep_files pat [] s = Some (0, s)"
| "grep_files pat (f # fs) s =
     (let fd = io_open s f in
      if fd < 0 then map_option (\<lambda>t. (1, t)) (uprintf (str ''grep: cannot open %s'' @ [10]) [Str (Some f)] s)
      else grep_files pat fs (grep pat fd s))"

definition grep_main :: "bytes list \<Rightarrow> io \<Rightarrow> (int \<times> io) option" where
  "grep_main argv s =
     (if length argv \<le> 1 then
        map_option (\<lambda>t. (1, t)) (fprintf 2 (str ''usage: grep pattern [file ...]'' @ [10]) [] s)
      else if length argv \<le> 2 then Some (0, grep (argv ! 1) 0 s)
      else grep_files (argv ! 1) (drop 2 argv) s)"

section \<open>Patterns and their languages\<close>

text \<open>
  A pattern is a sequence of elements, each one byte from a set or any number of them, and may be
  tied to the end of the text by a final dollar sign.
\<close>

datatype elem = One "uchar set" | Many "uchar set"

definition bytes_of :: "uchar \<Rightarrow> uchar set" where
  "bytes_of c = (if c = 46 then UNIV else {c})"

fun elems :: "bytes \<Rightarrow> elem list \<times> bool" where
  "elems [] = ([], False)"
| "elems [c] = (if c = 36 then ([], True) else ([One (bytes_of c)], False))"
| "elems (c # d # re) =
     (if d = 42 then (case elems re of (es, tied) \<Rightarrow> (Many (bytes_of c) # es, tied))
      else (case elems (d # re) of (es, tied) \<Rightarrow> (One (bytes_of c) # es, tied)))"

fun lang :: "elem list \<Rightarrow> bytes set" where
  "lang [] = {[]}"
| "lang (One A # es) = {c # w |c w. c \<in> A \<and> w \<in> lang es}"
| "lang (Many A # es) = {u @ w |u w. set u \<subseteq> A \<and> w \<in> lang es}"

definition matches_at :: "elem list \<times> bool \<Rightarrow> bytes \<Rightarrow> bool" where
  "matches_at p tx \<longleftrightarrow> (\<exists>w v. tx = w @ v \<and> w \<in> lang (fst p) \<and> (snd p \<longrightarrow> v = []))"

definition pattern_matches :: "bytes \<Rightarrow> bytes \<Rightarrow> bool" where
  "pattern_matches re tx \<longleftrightarrow>
     (if re \<noteq> [] \<and> hd re = 94 then matches_at (elems (tl re)) tx
      else \<exists>u v. tx = u @ v \<and> matches_at (elems re) v)"

lemma matches_at_Nil [simp]: "matches_at ([], tied) tx \<longleftrightarrow> (tied \<longrightarrow> tx = [])"
  by (auto simp: matches_at_def)

lemma matches_at_One:
  "matches_at (One A # es, tied) tx \<longleftrightarrow> (\<exists>c v. tx = c # v \<and> c \<in> A \<and> matches_at (es, tied) v)"
  by (auto simp: matches_at_def Cons_eq_append_conv) blast+

lemma matches_at_Many:
  "matches_at (Many A # es, tied) tx \<longleftrightarrow> (\<exists>u v. tx = u @ v \<and> set u \<subseteq> A \<and> matches_at (es, tied) v)"
proof
  assume "matches_at (Many A # es, tied) tx"
  then obtain x v where x: "tx = x @ v" "x \<in> lang (Many A # es)" "tied \<longrightarrow> v = []"
    unfolding matches_at_def by auto
  then obtain u w where "x = u @ w" "set u \<subseteq> A" "w \<in> lang es" by auto
  with x have "tx = (u @ w) @ v" "set u \<subseteq> A" "w \<in> lang es" "tied \<longrightarrow> v = []" by simp_all
  then show "\<exists>u v. tx = u @ v \<and> set u \<subseteq> A \<and> matches_at (es, tied) v"
    by (intro exI [of _ u] exI [of _ "w @ v"]) (auto simp: matches_at_def)
next
  assume "\<exists>u v. tx = u @ v \<and> set u \<subseteq> A \<and> matches_at (es, tied) v"
  then obtain u w v where "tx = u @ w @ v" "set u \<subseteq> A" "w \<in> lang es" "tied \<longrightarrow> v = []"
    unfolding matches_at_def by force
  then show "matches_at (Many A # es, tied) tx"
    unfolding matches_at_def by (intro exI [of _ "u @ w"] exI [of _ v]) auto
qed

lemma matches_at_Many_step:
  "matches_at (Many A # es, tied) tx \<longleftrightarrow> matches_at (es, tied) tx
     \<or> (\<exists>c v. tx = c # v \<and> c \<in> A \<and> matches_at (Many A # es, tied) v)"
  unfolding matches_at_Many
proof (intro iffI; elim disjE exE conjE)
  fix u v
  assume a: "tx = u @ v" "set u \<subseteq> A" "matches_at (es, tied) v"
  then show "matches_at (es, tied) tx
     \<or> (\<exists>c v. tx = c # v \<and> c \<in> A \<and> (\<exists>u w. v = u @ w \<and> set u \<subseteq> A \<and> matches_at (es, tied) w))"
    by (cases u) auto
next
  assume "matches_at (es, tied) tx"
  then show "\<exists>u v. tx = u @ v \<and> set u \<subseteq> A \<and> matches_at (es, tied) v" by (intro exI [of _ "[]"] exI [of _ tx]) simp
next
  fix c v u w
  assume "tx = c # v" "c \<in> A" "v = u @ w" "set u \<subseteq> A" "matches_at (es, tied) w"
  then show "\<exists>u v. tx = u @ v \<and> set u \<subseteq> A \<and> matches_at (es, tied) v"
    by (intro exI [of _ "c # u"] exI [of _ w]) simp
qed

section \<open>The matcher decides the language\<close>

lemma matchstar_iff:
  assumes "0 \<notin> set tx" and "\<And>v. 0 \<notin> set v \<Longrightarrow> matchhere re v \<longleftrightarrow> matches_at p v"
  shows "matchstar c re tx \<longleftrightarrow> matches_at (Many (bytes_of c) # fst p, snd p) tx"
  using assms(1)
proof (induction tx)
  case Nil
  then show ?case using assms(2) [of "[]"] by (subst matchstar.simps, subst matches_at_Many_step) simp
next
  case (Cons x tx)
  then show ?case using assms(2) [of "x # tx"]
    by (subst matchstar.simps, subst matches_at_Many_step) (auto simp: bytes_of_def)
qed

lemma matchhere_iff:
  assumes "0 \<notin> set re" and "0 \<notin> set tx"
  shows "matchhere re tx \<longleftrightarrow> matches_at (elems re) tx"
  using assms
proof (induction re arbitrary: tx rule: elems.induct)
  case 1
  then show ?case by (simp add: matchhere.simps)
next
  case (2 c)
  then show ?case
    by (cases tx) (auto simp: matchhere.simps [of "[c]"] matchhere.simps [of "[]"] matches_at_One bytes_of_def)
next
  case (3 c d re)
  show ?case
  proof (cases "d = 42")
    case True
    have "matchstar c re tx \<longleftrightarrow> matches_at (Many (bytes_of c) # fst (elems re), snd (elems re)) tx"
      using 3 True by (intro matchstar_iff) auto
    then show ?thesis using True "3.prems" by (subst matchhere.simps) (simp split: prod.splits)
  next
    case False
    then show ?thesis using 3
      by (cases tx) (auto simp: matchhere.simps [of "c # d # re"] matches_at_One bytes_of_def split: prod.splits)
  qed
qed

lemma match_any_iff:
  assumes "0 \<notin> set re" and "0 \<notin> set tx"
  shows "match_any re tx \<longleftrightarrow> (\<exists>u v. tx = u @ v \<and> matches_at (elems re) v)"
  using assms(2)
proof (induction tx)
  case Nil
  then show ?case using matchhere_iff [OF assms(1), of "[]"] by (subst match_any.simps) simp
next
  case (Cons x tx)
  have "(\<exists>u v. x # tx = u @ v \<and> matches_at (elems re) v)
      \<longleftrightarrow> matches_at (elems re) (x # tx) \<or> (\<exists>u v. tx = u @ v \<and> matches_at (elems re) v)"
    by (auto simp: Cons_eq_append_conv)
  then show ?case using Cons matchhere_iff [OF assms(1), of "x # tx"] by (subst match_any.simps) simp
qed

text \<open>
  C14. The matcher of \<^verbatim>\<open>grep\<close> decides the pattern language: on strings without NUL it answers yes
  exactly when the text contains a word of the pattern, at its start if the pattern begins with a
  caret, and up to its end if the pattern ends with a dollar sign.
\<close>

theorem match_correct:
  assumes "0 \<notin> set re" and "0 \<notin> set tx"
  shows "match re tx \<longleftrightarrow> pattern_matches re tx"
proof (cases "re \<noteq> [] \<and> hd re = 94")
  case True
  then obtain r where "re = 94 # r" by (cases re) auto
  then show ?thesis using assms matchhere_iff [of r tx] by (simp add: match_def pattern_matches_def)
next
  case False
  then have "at re 0 \<noteq> 94" by (cases re) auto
  then show ?thesis using False match_any_iff [OF assms] by (auto simp: match_def pattern_matches_def)
qed

theorem match_correct_witness:
  "match (str ''a.*z$'') (str ''xabz'') \<and> pattern_matches (str ''a.*z$'') (str ''xabz'')"
proof -
  have "match (str ''a.*z$'') (str ''xabz'')" by code_simp
  moreover have "0 \<notin> set (str ''a.*z$'')" "0 \<notin> set (str ''xabz'')" by code_simp+
  ultimately show ?thesis using match_correct by blast
qed

section \<open>The loop prints the matching lines\<close>

text \<open>The complete lines of a text, each with its newline, and what follows the last one.\<close>

function complete :: "bytes \<Rightarrow> bytes list" where
  "complete s = (if 10 \<in> set s then (takeWhile (\<lambda>c. c \<noteq> 10) s @ [10]) # complete (tl (dropWhile (\<lambda>c. c \<noteq> 10) s)) else [])"
  by pat_completeness auto
termination
proof (relation "measure length")
  fix s :: bytes
  assume "10 \<in> set s"
  then have "s \<noteq> []" by auto
  then show "(tl (dropWhile (\<lambda>c. c \<noteq> 10) s), s) \<in> measure length"
    using length_dropWhile_le [of "\<lambda>c. c \<noteq> 10" s] by (cases s) auto
qed simp

declare complete.simps [simp del]

definition leftover :: "bytes \<Rightarrow> bytes" where
  "leftover s = drop (length (concat (complete s))) s"

definition selected :: "bytes \<Rightarrow> bytes \<Rightarrow> bytes" where
  "selected pat s = concat (filter (\<lambda>l. match pat (butlast l)) (complete s))"

lemma split_line: "10 \<in> set s \<Longrightarrow> s = (takeWhile (\<lambda>c. c \<noteq> 10) s @ [10]) @ tl (dropWhile (\<lambda>c. c \<noteq> 10) s)"
  by (induction s) auto

lemma no_complete: "10 \<notin> set s \<Longrightarrow> complete s = [] \<and> leftover s = s \<and> selected pat s = []"
  by (simp add: leftover_def selected_def complete.simps)

lemma complete_line:
  assumes "10 \<in> set s"
  defines "l \<equiv> takeWhile (\<lambda>c. c \<noteq> 10) s" and "r \<equiv> tl (dropWhile (\<lambda>c. c \<noteq> 10) s)"
  shows "complete s = (l @ [10]) # complete r" and "leftover s = leftover r"
    and "selected pat s = (if match pat l then l @ [10] else []) @ selected pat r"
proof -
  show c: "complete s = (l @ [10]) # complete r" using assms by (subst complete.simps) simp
  have "s = (l @ [10]) @ r" using split_line [OF assms(1)] by (simp add: l_def r_def)
  then have "drop (length (l @ [10]) + n) s = drop n r" for n by (metis append_eq_conv_conj drop_drop add.commute)
  then show "leftover s = leftover r" by (simp add: leftover_def c)
  show "selected pat s = (if match pat l then l @ [10] else []) @ selected pat r" by (simp add: selected_def c)
qed

lemma leftover_props:
  "10 \<notin> set (leftover s) \<and> set (leftover s) \<subseteq> set s \<and> length (leftover s) \<le> length s"
proof (induction s rule: complete.induct)
  case (1 s)
  show ?case
  proof (cases "10 \<in> set s")
    case True
    let ?r = "tl (dropWhile (\<lambda>c. c \<noteq> 10) s)"
    obtain a where a: "s = a @ ?r" using split_line [OF True] by blast
    have "set ?r \<subseteq> set (a @ ?r)" "length ?r \<le> length (a @ ?r)" by simp_all
    then have "set ?r \<subseteq> set s" "length ?r \<le> length s" unfolding a [symmetric] .
    then show ?thesis using 1 [OF True] complete_line(2) [OF True] by auto
  qed (simp add: no_complete)
qed

lemma complete_append:
  "complete (s @ b) = complete s @ complete (leftover s @ b)" "selected pat (s @ b) = selected pat s @ selected pat (leftover s @ b)"
proof -
  show c: "complete (s @ b) = complete s @ complete (leftover s @ b)"
  proof (induction s rule: complete.induct)
    case (1 s)
    show ?case
    proof (cases "10 \<in> set s")
      case True
      have ne: "dropWhile (\<lambda>c. c \<noteq> 10) s \<noteq> []" using True by (simp add: dropWhile_eq_Nil_conv)
      have "takeWhile (\<lambda>c. c \<noteq> 10) (s @ b) = takeWhile (\<lambda>c. c \<noteq> 10) s"
        "tl (dropWhile (\<lambda>c. c \<noteq> 10) (s @ b)) = tl (dropWhile (\<lambda>c. c \<noteq> 10) s) @ b"
        using True ne by (auto simp: takeWhile_append1 dropWhile_append1)
      then show ?thesis using 1 [OF True] complete_line(1,2) [OF True] complete_line(1) [of "s @ b"] True by simp
    qed (simp add: no_complete)
  qed
  then show "selected pat (s @ b) = selected pat s @ selected pat (leftover s @ b)" by (simp add: selected_def)
qed

lemma grep_lines_eq: "0 \<notin> set p \<Longrightarrow> grep_lines pat p = (selected pat p, leftover p)"
proof (induction pat p rule: grep_lines.induct)
  case (1 pat p)
  show ?case
  proof (cases "strchr p 10")
    case None
    then have "10 \<notin> set p" using 1(2) by (simp add: strchr_None)
    with None show ?thesis by (subst grep_lines.simps) (simp add: no_complete)
  next
    case (Some k)
    then have k: "k < length p" "p ! k = 10" "10 \<notin> set (take k p)" using 1(2) by (simp_all add: strchr_Some)
    have s: "p = take k p @ 10 # drop (Suc k) p" using k id_take_nth_drop [of k p] by simp
    have t: "takeWhile (\<lambda>c. c \<noteq> 10) p = take k p" "tl (dropWhile (\<lambda>c. c \<noteq> 10) p) = drop (Suc k) p"
      using k(3) by (subst s, subst takeWhile_append2 dropWhile_append2, auto)+
    have n: "10 \<in> set p" using k by (metis nth_mem)
    have "0 \<notin> set (drop (Suc k) p)" using 1(2) by (meson in_set_dropD)
    then have "grep_lines pat (drop (Suc k) p) = (selected pat (drop (Suc k) p), leftover (drop (Suc k) p))"
      using 1(1) [OF Some] by simp
    then show ?thesis using Some complete_line(2,3) [OF n] k
      by (subst grep_lines.simps) (simp add: t take_Suc_conv_app_nth)
  qed
qed

lemma grep_loop_out:
  assumes "0 \<notin> set (buf @ concat (io_in s fd))" and "[] \<notin> set (io_in s fd)"
    and "\<forall>l \<in> set (complete (buf @ concat (io_in s fd))). length l < GREPBUF"
    and "10 \<notin> set buf" and "length buf < GREPBUF"
  shows "io_out (grep_loop pat fd buf s) 1 = io_out s 1 @ selected pat (buf @ concat (io_in s fd))"
  using assms
proof (induction pat fd buf s rule: grep_loop.induct)
  case (1 pat fd buf s)
  obtain b t where r: "u_read fd (GREPBUF - length buf - 1) s = (b, t)" by fastforce
  note st = u_read_stream [OF r] and same = u_read_same [OF r]
  show ?case
  proof (cases "b = []")
    case True
    have "complete (buf @ concat (io_in s fd)) = []"
    proof (cases "10 \<in> set (buf @ concat (io_in s fd))")
      case n: True
      then have "io_in s fd \<noteq> []" using 1(5) by auto
      then have "GREPBUF - length buf - 1 = 0" using r True 1(3)
        by (auto simp: u_read_def split: list.splits if_splits)
      moreover have "length buf \<le> length (takeWhile (\<lambda>c. c \<noteq> 10) (buf @ concat (io_in s fd)))"
        using 1(5) by (subst takeWhile_append2) auto
      ultimately show ?thesis using complete_line(1) [OF n] 1(4) by simp
    qed (simp add: no_complete)
    then show ?thesis using r True same by (subst grep_loop.simps) (simp add: selected_def)
  next
    case False
    have z: "0 \<notin> set (buf @ b)" using 1(2) unfolding st [symmetric] by simp
    note g = grep_lines_eq [OF z, of pat]
    let ?w = "u_write 1 (selected pat (buf @ b)) t" and ?r = "leftover (buf @ b)"
    have e: "buf @ concat (io_in s fd) = (buf @ b) @ concat (io_in t fd)" using st by simp
    have "[] \<notin> set (io_in t fd)" using 1(3) r by (auto simp: u_read_def split: list.splits if_splits)
    moreover have "length ?r < GREPBUF" using leftover_props [of "buf @ b", THEN conjunct2, THEN conjunct2] u_read_length [OF r] 1(6) by simp
    moreover have "0 \<notin> set (?r @ concat (io_in t fd))" using 1(2) leftover_props [of "buf @ b"] unfolding e by auto
    moreover have "\<forall>l \<in> set (complete (?r @ concat (io_in t fd))). length l < GREPBUF"
      using 1(4) unfolding e complete_append(1) [of "buf @ b" "concat (io_in t fd)"] by simp
    ultimately have "io_out (grep_loop pat fd ?r ?w) 1 = io_out ?w 1 @ selected pat (?r @ concat (io_in t fd))"
      using 1(1) [OF r [symmetric] False g [symmetric]] leftover_props [of "buf @ b"] by simp
    then show ?thesis using r False g same
      unfolding e complete_append(2) [of pat "buf @ b" "concat (io_in t fd)"] by (subst grep_loop.simps) simp
  qed
qed


definition demo_io :: io where
  "demo_io = \<lparr>io_in = (\<lambda>fd. if fd = 0 then [[97, 98], [99, 10, 120, 120, 10, 98]] else []),
     io_out = (\<lambda>_. []), io_open = (\<lambda>_. - 1)\<rparr>"


text \<open>
  A line that does not fit the buffer ends the run: once 1023 bytes without a newline are buffered
  the loop asks \<^verbatim>\<open>read\<close> for no bytes and takes the answer for the end of the file.
\<close>

lemma grep_long_line:
  assumes "length buf = 1023" and "io_in s fd = p # ps" and "p \<noteq> []"
  shows "grep_loop pat fd buf s = s"
proof -
  have "u_read fd (GREPBUF - length buf - 1) s = ([], s)"
    using assms by (auto simp: u_read_def GREPBUF_def fun_upd_idem)
  then show ?thesis by (subst grep_loop.simps) simp
qed

end
