(* ===== verification/Uthread.thy ===== *)
theory Uthread
  imports User_Io
begin

text \<open>
  User-level threads, \<^verbatim>\<open>user/uthread.c\<close>: the thread table, creation, the round-robin choice of the
  next thread, \<^verbatim>\<open>yield\<close> and \<^verbatim>\<open>exit\<close>.

  The stacks and the register file of the processor are not part of the model; the saved registers
  of a thread are, since \<^verbatim>\<open>thread_create\<close> sets them and \<^verbatim>\<open>thread_switch\<close> (assembly that stores the
  callee-saved registers in one context and loads them from another) exchanges them with the
  processor's.
\<close>

datatype tstate = TFREE | TRUNNING | TRUNNABLE

record regi =
  r_ra :: u64
  r_sp :: u64
  r_s :: "u64 list"

record uthread =
  t_stack :: u64
  t_state :: tstate
  t_regs :: regi

definition STACK_SIZE :: nat where "STACK_SIZE = 8192"
definition MAX_THREAD :: nat where "MAX_THREAD = 4"

text \<open>\<open>all_thread\<close>, the index of \<^verbatim>\<open>current_thread\<close>, and the processor's registers.\<close>

record threads =
  all_thread :: "uthread list"
  current :: nat
  cpu_regs :: regi

text \<open>
  Why a call does not return: the program exits (no runnable thread), or it stores past the end of
  the thread table.
\<close>

datatype tstop = TExit int | TFault

definition set_state :: "nat \<Rightarrow> tstate \<Rightarrow> threads \<Rightarrow> threads" where
  "set_state i x s = s\<lparr>all_thread := (all_thread s)[i := (all_thread s ! i)\<lparr>t_state := x\<rparr>]\<rparr>"

definition zero_regs :: regi where
  "zero_regs = \<lparr>r_ra = 0, r_sp = 0, r_s = replicate 12 0\<rparr>"

definition thread_init :: "threads \<Rightarrow> threads" where
  "thread_init s =
     (let s = set_state 0 TRUNNING (s\<lparr>current := 0\<rparr>) in
      s\<lparr>all_thread := (all_thread s)[0 := (all_thread s ! 0)\<lparr>t_regs := zero_regs\<rparr>]\<rparr>)"

definition thread_switch :: "nat \<Rightarrow> nat \<Rightarrow> threads \<Rightarrow> threads" where
  "thread_switch old new s =
     (let ts = (all_thread s)[old := (all_thread s ! old)\<lparr>t_regs := cpu_regs s\<rparr>] in
      s\<lparr>all_thread := ts, cpu_regs := t_regs (ts ! new)\<rparr>)"

text \<open>The search of \<^verbatim>\<open>thread_schedule\<close>: at most \<open>n\<close> more steps, from \<open>t\<close>, wrapping at the end.\<close>

primrec find_runnable :: "nat \<Rightarrow> nat \<Rightarrow> uthread list \<Rightarrow> nat option" where
  "find_runnable 0 t ts = None"
| "find_runnable (Suc n) t ts =
     (let t = (if t \<ge> MAX_THREAD then 0 else t) in
      if t_state (ts ! t) = TRUNNABLE then Some t else find_runnable n (t + 1) ts)"

definition thread_schedule :: "threads \<Rightarrow> tstop + threads" where
  "thread_schedule s =
     (case find_runnable MAX_THREAD (current s + 1) (all_thread s) of
        None \<Rightarrow> Inl (TExit (- 1))
      | Some n \<Rightarrow>
          if current s \<noteq> n then
            let t = current s; s = (set_state n TRUNNING s)\<lparr>current := n\<rparr> in Inr (thread_switch t n s)
          else Inr s)"

definition thread_create :: "u64 \<Rightarrow> threads \<Rightarrow> tstop + threads" where
  "thread_create func s =
     (case scan_first (\<lambda>t. t_state t = TFREE) (take MAX_THREAD (all_thread s)) of
        None \<Rightarrow> Inl TFault
      | Some i \<Rightarrow>
          let t = all_thread s ! i in
          Inr (s\<lparr>all_thread := (all_thread s)[i := t\<lparr>t_state := TRUNNABLE,
            t_regs := (t_regs t)\<lparr>r_sp := t_stack t + of_nat (STACK_SIZE - 1), r_ra := func\<rparr>\<rparr>]\<rparr>))"

definition thread_yield :: "threads \<Rightarrow> tstop + threads" where
  "thread_yield s = thread_schedule (set_state (current s) TRUNNABLE s)"

definition thread_exit :: "threads \<Rightarrow> tstop + threads" where
  "thread_exit s = thread_schedule (set_state (current s) TFREE s)"

section \<open>The table\<close>

text \<open>
  Before and after every call the table has \<open>MAX_THREAD\<close> entries and the current thread is in it;
  between calls it is also the only one marked running. \<^verbatim>\<open>thread_yield\<close> of the only runnable thread
  leaves it marked runnable, so the second part allows that.
\<close>

definition tt_inv :: "threads \<Rightarrow> bool" where
  "tt_inv s \<longleftrightarrow> length (all_thread s) = MAX_THREAD \<and> current s < MAX_THREAD
     \<and> t_state (all_thread s ! current s) \<noteq> TFREE
     \<and> (\<forall>i < MAX_THREAD. i \<noteq> current s \<longrightarrow> t_state (all_thread s ! i) \<noteq> TRUNNING)"

text \<open>\<open>dist c i\<close>: how far thread \<open>i\<close> is behind \<open>c\<close> in the round.\<close>

definition dist :: "nat \<Rightarrow> nat \<Rightarrow> nat" where
  "dist c i = (if c < i then i - c else i + MAX_THREAD - c)"

lemma find_runnable_next:
  assumes "c < MAX_THREAD" "i < MAX_THREAD" "i \<noteq> c" "t_state (ts ! i) = TRUNNABLE"
  shows "\<exists>n. find_runnable MAX_THREAD (c + 1) ts = Some n \<and> n < MAX_THREAD \<and> n \<noteq> c
    \<and> t_state (ts ! n) = TRUNNABLE \<and> (n = i \<or> dist n i < dist c i)"
proof -
  have "c = 0 \<or> c = 1 \<or> c = 2 \<or> c = 3" "i = 0 \<or> i = 1 \<or> i = 2 \<or> i = 3"
    using assms by (auto simp: MAX_THREAD_def)
  then show ?thesis using assms(3,4)
    by (elim disjE) (simp_all add: MAX_THREAD_def dist_def eval_nat_numeral)
qed

lemma find_runnable_sound:
  assumes "find_runnable n t ts = Some j"
  shows "j < MAX_THREAD \<and> t_state (ts ! j) = TRUNNABLE"
  using assms by (induction n arbitrary: t) (auto simp: Let_def MAX_THREAD_def split: if_splits)

lemma schedule_cases:
  assumes "length (all_thread s) = MAX_THREAD" and "current s < MAX_THREAD"
    and "thread_schedule s = Inr t"
  obtains n where "find_runnable MAX_THREAD (current s + 1) (all_thread s) = Some n" and "current t = n"
    and "length (all_thread t) = MAX_THREAD"
    and "\<And>j. j < MAX_THREAD \<Longrightarrow> t_state (all_thread t ! j)
      = (if j = n \<and> n \<noteq> current s then TRUNNING else t_state (all_thread s ! j))"
proof -
  obtain n where n: "find_runnable MAX_THREAD (current s + 1) (all_thread s) = Some n"
    using assms(3) by (auto simp: thread_schedule_def split: option.splits)
  have "n < MAX_THREAD" using find_runnable_sound [OF n] by simp
  then show ?thesis using assms n
    by (intro that [OF n]) (auto simp: thread_schedule_def set_state_def thread_switch_def Let_def nth_list_update split: if_splits)
qed

lemma schedule_inv:
  assumes "length (all_thread s) = MAX_THREAD" and "current s < MAX_THREAD"
    and "\<forall>i < MAX_THREAD. t_state (all_thread s ! i) \<noteq> TRUNNING" and "thread_schedule s = Inr t"
  shows "tt_inv t"
  using assms(1,2,4)
proof (rule schedule_cases)
  fix n
  assume "find_runnable MAX_THREAD (current s + 1) (all_thread s) = Some n" "current t = n"
    "length (all_thread t) = MAX_THREAD"
    "\<And>j. j < MAX_THREAD \<Longrightarrow> t_state (all_thread t ! j) = (if j = n \<and> n \<noteq> current s then TRUNNING else t_state (all_thread s ! j))"
  then show "tt_inv t" using assms(3) find_runnable_sound [of MAX_THREAD "current s + 1" "all_thread s" n]
    by (auto simp: tt_inv_def)
qed

section \<open>Programs\<close>

text \<open>What the running thread calls, and a sequence of such calls.\<close>

datatype tcall = Yield | Exit | Create u64

fun tcall_step :: "tcall \<Rightarrow> threads \<Rightarrow> tstop + threads" where
  "tcall_step Yield s = thread_yield s"
| "tcall_step Exit s = thread_exit s"
| "tcall_step (Create f) s = thread_create f s"

primrec run_calls :: "tcall list \<Rightarrow> threads \<Rightarrow> tstop + threads" where
  "run_calls [] s = Inr s"
| "run_calls (c # cs) s = (case tcall_step c s of Inl e \<Rightarrow> Inl e | Inr t \<Rightarrow> run_calls cs t)"

definition switches :: "tcall list \<Rightarrow> nat" where
  "switches cs = length (filter (\<lambda>c. c = Yield \<or> c = Exit) cs)"

lemma marked:
  assumes "tt_inv s" and "x \<noteq> TRUNNING"
  shows "length (all_thread (set_state (current s) x s)) = MAX_THREAD" "current (set_state (current s) x s) = current s"
    "\<forall>i < MAX_THREAD. t_state (all_thread (set_state (current s) x s) ! i) \<noteq> TRUNNING"
    "i \<noteq> current s \<Longrightarrow> all_thread (set_state (current s) x s) ! i = all_thread s ! i"
  using assms by (auto simp: tt_inv_def set_state_def nth_list_update)

lemma create_eq:
  assumes "thread_create f s = Inr t"
  obtains i r where "i < length (all_thread s)" "t_state (all_thread s ! i) = TFREE"
    "t = s\<lparr>all_thread := (all_thread s)[i := (all_thread s ! i)\<lparr>t_state := TRUNNABLE, t_regs := r\<rparr>]\<rparr>"
proof -
  let ?ts = "take MAX_THREAD (all_thread s)"
  obtain i where i: "scan_first (\<lambda>t. t_state t = TFREE) ?ts = Some i"
    using assms by (cases "scan_first (\<lambda>t. t_state t = TFREE) ?ts") (simp_all add: thread_create_def)
  have "i < length (all_thread s)" "t_state (all_thread s ! i) = TFREE"
    using scan_first_SomeD(1,2) [OF i] by simp_all
  then show thesis using assms i by (intro that) (auto simp: thread_create_def Let_def)
qed

text \<open>
  Every call of the thread library keeps the table well formed: the current thread is a live
  entry and no other thread is marked running.
\<close>

lemma tcall_inv:
  assumes "tt_inv s" and "tcall_step c s = Inr t"
  shows "tt_inv t"
proof (cases c)
  case Yield
  then show ?thesis using assms marked [OF assms(1), of TRUNNABLE]
    by (intro schedule_inv [of "set_state (current s) TRUNNABLE s"]) (auto simp: thread_yield_def tt_inv_def)
next
  case Exit
  then show ?thesis using assms marked [OF assms(1), of TFREE]
    by (intro schedule_inv [of "set_state (current s) TFREE s"]) (auto simp: thread_exit_def tt_inv_def)
next
  case (Create f)
  with assms(2) have "thread_create f s = Inr t" by simp
  then show ?thesis using assms(1) by (elim create_eq) (auto simp: tt_inv_def nth_list_update)
qed

definition demo_thread :: "tstate \<Rightarrow> uthread" where
  "demo_thread x = \<lparr>t_stack = 4096, t_state = x, t_regs = zero_regs\<rparr>"

definition demo_threads :: threads where
  "demo_threads = \<lparr>all_thread = map demo_thread [TRUNNING, TRUNNABLE, TFREE, TRUNNABLE], current = 0, cpu_regs = zero_regs\<rparr>"

lemma demo_threads_inv: "tt_inv demo_threads"
  by (auto simp: tt_inv_def demo_threads_def demo_thread_def MAX_THREAD_def less_Suc_eq eval_nat_numeral)

section \<open>Bounded waiting\<close>

text \<open>One call brings a waiting thread nearer, or runs it, or leaves the current thread running.\<close>

lemma switch_nearer:
  assumes "tt_inv s" "i < MAX_THREAD" "i \<noteq> current s" "t_state (all_thread s ! i) = TRUNNABLE" "x \<noteq> TRUNNING"
  shows "\<exists>t. thread_schedule (set_state (current s) x s) = Inr t
    \<and> (current t = i \<or> t_state (all_thread t ! i) = TRUNNABLE \<and> dist (current t) i < dist (current s) i)"
proof -
  let ?s = "set_state (current s) x s"
  note m = marked [OF assms(1,5)]
  have c: "current s < MAX_THREAD" using assms(1) by (simp add: tt_inv_def)
  obtain n where n: "find_runnable MAX_THREAD (current s + 1) (all_thread ?s) = Some n" "n \<noteq> current s"
    "n = i \<or> dist n i < dist (current s) i"
    using find_runnable_next [OF c assms(2,3), of "all_thread ?s"] m(4) [OF assms(3)] assms(4) by auto
  then obtain t where t: "thread_schedule ?s = Inr t" by (simp add: thread_schedule_def m(2) Let_def)
  have "current ?s < MAX_THREAD" using c m(2) by simp
  from m(1) this t obtain k where k: "find_runnable MAX_THREAD (current ?s + 1) (all_thread ?s) = Some k"
    "current t = k" "\<And>j. j < MAX_THREAD \<Longrightarrow> t_state (all_thread t ! j)
      = (if j = k \<and> k \<noteq> current ?s then TRUNNING else t_state (all_thread ?s ! j))"
    by (rule schedule_cases) blast
  have "k = n" using k(1) n(1) by (simp add: m(2))
  then show ?thesis using t n(2,3) k(2) k(3) [OF assms(2)] m(4) [OF assms(3)] assms(4) by auto
qed

lemma create_keeps:
  assumes "thread_create f s = Inr t" "t_state (all_thread s ! i) = TRUNNABLE"
  shows "current t = current s \<and> t_state (all_thread t ! i) = TRUNNABLE"
  using assms by (elim create_eq) (auto simp: nth_list_update)



text \<open>
  With no free entry, \<^verbatim>\<open>thread_create\<close> leaves its search one past the end of the table and stores
  there: the search has no test for a full table.
\<close>

theorem thread_create_full:
  assumes "length (all_thread s) = MAX_THREAD"
  shows "thread_create f s = Inl TFault \<longleftrightarrow> (\<forall>t \<in> set (all_thread s). t_state t \<noteq> TFREE)"
proof (cases "scan_first (\<lambda>t. t_state t = TFREE) (all_thread s)")
  case None
  then have "\<forall>t \<in> set (all_thread s). t_state t \<noteq> TFREE" by simp
  with None show ?thesis using assms by (simp add: thread_create_def del: scan_first_None)
next
  case (Some i)
  then have "all_thread s ! i \<in> set (all_thread s)" "t_state (all_thread s ! i) = TFREE"
    using scan_first_SomeD(1,2) [OF Some] by simp_all
  then show ?thesis using assms Some by (auto simp: thread_create_def Let_def)
qed

theorem thread_create_full_witness:
  "thread_create 0 (demo_threads\<lparr>all_thread := replicate 4 (demo_thread TRUNNABLE)\<rparr>) = Inl TFault"
  using thread_create_full [of "demo_threads\<lparr>all_thread := replicate 4 (demo_thread TRUNNABLE)\<rparr>" 0]
  by (simp add: MAX_THREAD_def demo_thread_def)

end
