(* ===== verification/Spinlock.thy ===== *)
theory Spinlock
  imports Kernel_Prelude
begin

text \<open>
  Spin locks, \<^verbatim>\<open>kernel/spinlock.c\<close>, and how harts interleave on them.

  The other components treat a critical section as atomic. Here the locks themselves are modelled
  at the grain of the code: entering \<^verbatim>\<open>acquire\<close> (interrupts off, the test for a lock already held),
  one atomic swap, recording the owner; and for \<^verbatim>\<open>release\<close> clearing the owner, the atomic store,
  \<^verbatim>\<open>pop_off\<close>. A step relation lets any hart take its next step at any time, and call \<^verbatim>\<open>acquire\<close> and
  \<^verbatim>\<open>release\<close> in any order, so that what is shown holds for every kernel code that uses them.

  \<open>hpc\<close> is where a hart is inside the two functions.
\<close>

datatype pc = Outside | Spin nat | Swapped nat | Cleared nat | Stored nat

record spinlock =
  locked :: bool
  owner :: "nat option"

record hart =
  noff :: int
  intena :: bool
  sie :: bool
  hpc :: pc

record lock_state =
  locks :: "nat \<Rightarrow> spinlock"
  harts :: "nat \<Rightarrow> hart"

definition upd_hart :: "nat \<Rightarrow> (hart \<Rightarrow> hart) \<Rightarrow> lock_state \<Rightarrow> lock_state" where
  "upd_hart h f s = s\<lparr>harts := (harts s)(h := f (harts s h))\<rparr>"

definition upd_lock :: "nat \<Rightarrow> (spinlock \<Rightarrow> spinlock) \<Rightarrow> lock_state \<Rightarrow> lock_state" where
  "upd_lock l f s = s\<lparr>locks := (locks s)(l := f (locks s l))\<rparr>"

definition initlock :: "nat \<Rightarrow> lock_state \<Rightarrow> lock_state" where
  "initlock l s = upd_lock l (\<lambda>_. \<lparr>locked = False, owner = None\<rparr>) s"

definition holding :: "nat \<Rightarrow> nat \<Rightarrow> lock_state \<Rightarrow> bool" where
  "holding h l s \<longleftrightarrow> locked (locks s l) \<and> owner (locks s l) = Some h"

definition push_off :: "nat \<Rightarrow> lock_state \<Rightarrow> lock_state" where
  "push_off h s =
     upd_hart h (\<lambda>c. c\<lparr>sie := False, intena := (if noff c = 0 then sie c else intena c), noff := noff c + 1\<rparr>) s"

definition pop_off :: "nat \<Rightarrow> (lock_state, unit) kmon" where
  "pop_off h =
     bindk (gets (\<lambda>s. harts s h)) (\<lambda>c.
     if sie c then panic ''pop_off - interruptible''
     else if noff c < 1 then panic ''pop_off''
     else modk (upd_hart h (\<lambda>c. c\<lparr>noff := noff c - 1, sie := (if noff c - 1 = 0 \<and> intena c then True else sie c)\<rparr>)))"

definition goto :: "nat \<Rightarrow> pc \<Rightarrow> (lock_state, unit) kmon" where
  "goto h p = modk (upd_hart h (\<lambda>c. c\<lparr>hpc := p\<rparr>))"

text \<open>The steps of \<^verbatim>\<open>acquire\<close>.\<close>

definition acquire_enter :: "nat \<Rightarrow> nat \<Rightarrow> (lock_state, unit) kmon" where
  "acquire_enter h l =
     thenk (modk (push_off h))
     (bindk (gets (holding h l)) (\<lambda>b. if b then panic ''acquire'' else goto h (Spin l)))"

definition acquire_swap :: "nat \<Rightarrow> nat \<Rightarrow> (lock_state, unit) kmon" where
  "acquire_swap h l =
     bindk (gets (\<lambda>s. locked (locks s l))) (\<lambda>old.
     thenk (modk (upd_lock l (\<lambda>k. k\<lparr>locked := True\<rparr>)))
     (if old then ret () else goto h (Swapped l)))"

definition acquire_own :: "nat \<Rightarrow> nat \<Rightarrow> (lock_state, unit) kmon" where
  "acquire_own h l = thenk (modk (upd_lock l (\<lambda>k. k\<lparr>owner := Some h\<rparr>))) (goto h Outside)"

text \<open>The steps of \<^verbatim>\<open>release\<close>.\<close>

definition release_enter :: "nat \<Rightarrow> nat \<Rightarrow> (lock_state, unit) kmon" where
  "release_enter h l =
     bindk (gets (holding h l)) (\<lambda>b.
     if \<not> b then panic ''release''
     else thenk (modk (upd_lock l (\<lambda>k. k\<lparr>owner := None\<rparr>))) (goto h (Cleared l)))"

definition release_store :: "nat \<Rightarrow> nat \<Rightarrow> (lock_state, unit) kmon" where
  "release_store h l = thenk (modk (upd_lock l (\<lambda>k. k\<lparr>locked := False\<rparr>))) (goto h (Stored l))"

definition release_leave :: "nat \<Rightarrow> (lock_state, unit) kmon" where
  "release_leave h = thenk (pop_off h) (goto h Outside)"

section \<open>Interleaving\<close>

text \<open>
  One step of one hart. \<open>Intr\<close> is \<^verbatim>\<open>intr_on\<close> or \<^verbatim>\<open>intr_off\<close> in code outside every \<^verbatim>\<open>push_off\<close>.
\<close>

datatype act = Acquire nat | Release nat | Continue | Intr bool

fun hart_step :: "nat \<Rightarrow> act \<Rightarrow> (lock_state, unit) kmon" where
  "hart_step h a s =
     (case (hpc (harts s h), a) of
        (Outside, Acquire l) \<Rightarrow> acquire_enter h l s
      | (Outside, Release l) \<Rightarrow> release_enter h l s
      | (Outside, Intr b) \<Rightarrow> (if noff (harts s h) = 0 then modk (upd_hart h (\<lambda>c. c\<lparr>sie := b\<rparr>)) s else ret () s)
      | (Spin l, Continue) \<Rightarrow> acquire_swap h l s
      | (Swapped l, Continue) \<Rightarrow> acquire_own h l s
      | (Cleared l, Continue) \<Rightarrow> release_store h l s
      | (Stored l, Continue) \<Rightarrow> release_leave h s
      | _ \<Rightarrow> ret () s)"

declare hart_step.simps [simp del]

inductive reachable :: "lock_state \<Rightarrow> bool" where
  start: "\<forall>l. \<not> locked (locks s l) \<and> owner (locks s l) = None \<Longrightarrow>
    \<forall>h. noff (harts s h) = 0 \<and> hpc (harts s h) = Outside \<Longrightarrow> reachable s"
| step: "reachable s \<Longrightarrow> hart_step h a s = Inr ((), t) \<Longrightarrow> reachable t"

section \<open>Mutual exclusion\<close>

text \<open>A hart is inside lock \<open>l\<close> from its successful swap to its store.\<close>

definition inside :: "lock_state \<Rightarrow> nat \<Rightarrow> nat \<Rightarrow> bool" where
  "inside s h l \<longleftrightarrow> owner (locks s l) = Some h \<or> hpc (harts s h) = Swapped l \<or> hpc (harts s h) = Cleared l"

definition owned :: "lock_state \<Rightarrow> nat \<Rightarrow> nat set" where
  "owned s h = {l. owner (locks s l) = Some h}"

definition nesting :: "lock_state \<Rightarrow> nat \<Rightarrow> nat" where
  "nesting s h = card (owned s h) + (if hpc (harts s h) = Outside then 0 else 1)"

text \<open>Who is inside, and how interrupts are masked.\<close>

definition excl_inv :: "lock_state \<Rightarrow> bool" where
  "excl_inv s \<longleftrightarrow>
     (\<forall>l h. inside s h l \<longrightarrow> locked (locks s l))
   \<and> (\<forall>l h g. inside s h l \<longrightarrow> inside s g l \<longrightarrow> h = g)
   \<and> (\<forall>l h. owner (locks s l) = Some h \<longrightarrow> hpc (harts s h) \<noteq> Swapped l \<and> hpc (harts s h) \<noteq> Cleared l)"

definition mask_at :: "lock_state \<Rightarrow> nat \<Rightarrow> bool" where
  "mask_at s h \<longleftrightarrow> finite (owned s h) \<and> noff (harts s h) = int (nesting s h)
     \<and> (0 < noff (harts s h) \<longrightarrow> \<not> sie (harts s h))"

definition mask_inv :: "lock_state \<Rightarrow> bool" where
  "mask_inv s \<longleftrightarrow> (\<forall>h. mask_at s h)"

lemma hart_upd [simp]:
  "locks (upd_hart h f s) = locks s" "harts (upd_lock l g s) = harts s"
  "harts (upd_hart h f s) = (harts s)(h := f (harts s h))" "locks (upd_lock l g s) = (locks s)(l := g (locks s l))"
  by (simp_all add: upd_hart_def upd_lock_def)

lemma owned_upd [simp]:
  "owned (upd_hart h f s) g = owned s g"
  "owned (upd_lock l k s) g = (if owner (k (locks s l)) = Some g then insert l (owned s g) else owned s g - {l})"
  by (auto simp: owned_def)

lemma owned_iff: "l \<in> owned s h \<longleftrightarrow> owner (locks s l) = Some h"
  by (simp add: owned_def)

lemmas step_defs = acquire_enter_def acquire_swap_def acquire_own_def release_enter_def release_store_def
  release_leave_def goto_def pop_off_def push_off_def holding_def bindk_def thenk_def gets_def modk_def ret_def panic_def

text \<open>The cases of a step that returns.\<close>

lemma hart_step_cases:
  assumes "hart_step h a s = Inr ((), t)"
  obtains (same) "t = s"
  | (enter) l where "hpc (harts s h) = Outside" "\<not> holding h l s"
      "t = upd_hart h (\<lambda>c. c\<lparr>hpc := Spin l\<rparr>) (push_off h s)"
  | (swap) l where "hpc (harts s h) = Spin l" "\<not> locked (locks s l)"
      "t = upd_hart h (\<lambda>c. c\<lparr>hpc := Swapped l\<rparr>) (upd_lock l (\<lambda>k. k\<lparr>locked := True\<rparr>) s)"
  | (own) l where "hpc (harts s h) = Swapped l"
      "t = upd_hart h (\<lambda>c. c\<lparr>hpc := Outside\<rparr>) (upd_lock l (\<lambda>k. k\<lparr>owner := Some h\<rparr>) s)"
  | (clear) l where "hpc (harts s h) = Outside" "locked (locks s l)" "owner (locks s l) = Some h"
      "t = upd_hart h (\<lambda>c. c\<lparr>hpc := Cleared l\<rparr>) (upd_lock l (\<lambda>k. k\<lparr>owner := None\<rparr>) s)"
  | (store) l where "hpc (harts s h) = Cleared l"
      "t = upd_hart h (\<lambda>c. c\<lparr>hpc := Stored l\<rparr>) (upd_lock l (\<lambda>k. k\<lparr>locked := False\<rparr>) s)"
  | (leave) l where "hpc (harts s h) = Stored l" "\<not> sie (harts s h)" "1 \<le> noff (harts s h)"
      "t = upd_hart h (\<lambda>c. c\<lparr>noff := noff c - 1, sie := (noff c = 1 \<and> intena c), hpc := Outside\<rparr>) s"
  | (intr) b where "hpc (harts s h) = Outside" "noff (harts s h) = 0" "t = upd_hart h (\<lambda>c. c\<lparr>sie := b\<rparr>) s"
proof (cases "hpc (harts s h)")
  case Outside
  note o = this
  show ?thesis
  proof (cases a)
    case (Acquire l)
    with o assms show ?thesis
      by (intro enter [of l]) (auto simp: hart_step.simps step_defs upd_hart_def split: if_splits)
  next
    case (Release l)
    with o assms show ?thesis
      by (intro clear [of l]) (auto simp: hart_step.simps step_defs split: if_splits)
  next
    case Continue
    with o assms show ?thesis by (intro same) (simp add: hart_step.simps ret_def)
  next
    case (Intr b)
    with o assms show ?thesis
      by (cases "noff (harts s h) = 0") (auto simp: hart_step.simps modk_def ret_def intro: intr same)
  qed
next
  case (Spin l)
  with assms show ?thesis
  proof (cases "a = Continue \<and> \<not> locked (locks s l)")
    case True
    with Spin assms show ?thesis by (intro swap [of l]) (auto simp: hart_step.simps step_defs)
  next
    case False
    with Spin assms have "t = s \<or> t = upd_lock l (\<lambda>k. k\<lparr>locked := True\<rparr>) s \<and> locked (locks s l)"
      by (cases a) (auto simp: hart_step.simps step_defs split: if_splits)
    then have "t = s" by (auto simp: upd_lock_def fun_upd_idem)
    then show ?thesis by (rule same)
  qed
next
  case (Swapped l)
  with assms show ?thesis
    by (cases a) (auto simp: hart_step.simps step_defs intro: same own [of l])
next
  case (Cleared l)
  with assms show ?thesis
    by (cases a) (auto simp: hart_step.simps step_defs intro: same store [of l])
next
  case (Stored l)
  show ?thesis
  proof (cases "a = Continue")
    case True
    with Stored assms show ?thesis
      by (intro leave [of l]) (auto simp: hart_step.simps step_defs upd_hart_def split: if_splits)
  next
    case False
    with Stored assms show ?thesis by (intro same) (cases a; simp add: hart_step.simps ret_def)
  qed
qed

lemma excl_invI:
  assumes "\<And>l h. inside t h l \<Longrightarrow> locked (locks t l)" and "\<And>l h g. inside t h l \<Longrightarrow> inside t g l \<Longrightarrow> h = g"
    and "\<And>l h. owner (locks t l) = Some h \<Longrightarrow> hpc (harts t h) \<noteq> Swapped l \<and> hpc (harts t h) \<noteq> Cleared l"
  shows "excl_inv t"
  unfolding excl_inv_def using assms by blast

lemma excl_invD:
  assumes "excl_inv s"
  shows "inside s h l \<Longrightarrow> locked (locks s l)" "inside s h l \<Longrightarrow> inside s g l \<Longrightarrow> h = g"
    "owner (locks s l) = Some h \<Longrightarrow> hpc (harts s h) \<noteq> Swapped l \<and> hpc (harts s h) \<noteq> Cleared l"
  using assms unfolding excl_inv_def by blast+

text \<open>A step that leaves everyone inside where they were.\<close>

lemma excl_same:
  assumes "excl_inv s" and "\<And>g m. inside t g m = inside s g m" and "\<And>m. locked (locks t m) = locked (locks s m)"
    and "\<And>l h. owner (locks t l) = Some h \<Longrightarrow> hpc (harts t h) \<noteq> Swapped l \<and> hpc (harts t h) \<noteq> Cleared l"
  shows "excl_inv t"
  by (rule excl_invI) (use excl_invD [OF assms(1)] assms(2-4) in blast)+

lemma excl_step:
  assumes "excl_inv s" and "hart_step h a s = Inr ((), t)"
  shows "excl_inv t"
  using assms(2)
proof (cases rule: hart_step_cases)
  case same
  then show ?thesis using assms(1) by simp
next
  case (enter l)
  then show ?thesis using excl_invD(3) [OF assms(1)]
    by (intro excl_same [OF assms(1)]) (auto simp: inside_def push_off_def)
next
  case (swap l)
  have n: "\<not> inside s g l" for g using swap excl_invD(1) [OF assms(1)] by blast
  have i: "inside t g m = (inside s g m \<or> g = h \<and> m = l)" for g m using swap by (auto simp: inside_def)
  show ?thesis
  proof (rule excl_invI)
    show "locked (locks t m)" if "inside t g m" for g m
      using that excl_invD(1) [OF assms(1)] swap unfolding i by auto
    show "g = g'" if "inside t g m" "inside t g' m" for g g' m
      using that excl_invD(2) [OF assms(1)] n unfolding i by blast
    show "hpc (harts t g) \<noteq> Swapped m \<and> hpc (harts t g) \<noteq> Cleared m" if "owner (locks t m) = Some g" for g m
    proof -
      have o: "owner (locks s m) = Some g" using that swap by (auto split: if_splits)
      then have "m \<noteq> l" using n [of g] by (auto simp: inside_def)
      then show ?thesis using excl_invD(3) [OF assms(1) o] swap by auto
    qed
  qed
next
  case (own l)
  have u: "g = h" if "inside s g l" for g
    using excl_invD(2) [OF assms(1) that] own by (auto simp: inside_def)
  then have "owner (locks s l) = None \<or> owner (locks s l) = Some h" by (cases "owner (locks s l)") (auto simp: inside_def)
  then have "inside t g m = inside s g m" for g m using own by (auto simp: inside_def)
  then show ?thesis using own excl_invD(3) [OF assms(1)]
    by (intro excl_same [OF assms(1)]) (auto split: if_splits)
next
  case (clear l)
  have "inside t g m = inside s g m" for g m using clear by (auto simp: inside_def)
  then show ?thesis using clear excl_invD(3) [OF assms(1)]
    by (intro excl_same [OF assms(1)]) (auto split: if_splits)
next
  case (store l)
  have u: "g = h" if "inside s g l" for g
    using excl_invD(2) [OF assms(1) that] store by (auto simp: inside_def)
  have no: "owner (locks s l) \<noteq> Some g" for g
    using u [of g] excl_invD(3) [OF assms(1), of l h] store by (auto simp: inside_def)
  have out: "hpc (harts s g) \<noteq> Swapped l \<and> hpc (harts s g) \<noteq> Cleared l" if "g \<noteq> h" for g
    using u [of g] that by (auto simp: inside_def)
  have i: "inside t g m = (inside s g m \<and> m \<noteq> l)" for g m
  proof (cases "g = h")
    case True
    then show ?thesis using store no [of h] by (simp add: inside_def, blast?)
  next
    case False
    then show ?thesis using store(2) no [of g] out [of g] by (simp add: inside_def, blast?)
  qed
  show ?thesis
  proof (rule excl_invI)
    show "locked (locks t m)" if "inside t g m" for g m
      using that excl_invD(1) [OF assms(1)] store unfolding i by auto
    show "g = g'" if "inside t g m" "inside t g' m" for g g' m
      using that excl_invD(2) [OF assms(1)] unfolding i by blast
    show "hpc (harts t g) \<noteq> Swapped m \<and> hpc (harts t g) \<noteq> Cleared m" if "owner (locks t m) = Some g" for g m
      using that store excl_invD(3) [OF assms(1), of m g] by (auto split: if_splits)
  qed
next
  case (leave l)
  then show ?thesis using excl_invD(3) [OF assms(1)]
    by (intro excl_same [OF assms(1)]) (auto simp: inside_def)
next
  case (intr b)
  then show ?thesis using excl_invD(3) [OF assms(1)]
    by (intro excl_same [OF assms(1)]) (auto simp: inside_def)
qed

text \<open>The step of hart \<open>h\<close> leaves the masks of the others alone.\<close>

lemma mask_invI:
  assumes "mask_inv s" and "\<And>g. g \<noteq> h \<Longrightarrow> owned t g = owned s g \<and> harts t g = harts s g" and "mask_at s h \<Longrightarrow> mask_at t h"
  shows "mask_inv t"
  unfolding mask_inv_def
proof
  fix g
  have "mask_at s g" using assms(1) by (simp add: mask_inv_def)
  then show "mask_at t g"
  proof (cases "g = h")
    case False
    with \<open>mask_at s g\<close> show ?thesis using assms(2) [OF False] by (simp add: mask_at_def nesting_def)
  qed (use assms(3) in simp)
qed

lemma mask_step:
  assumes "mask_inv s" and "excl_inv s" and "hart_step h a s = Inr ((), t)"
  shows "mask_inv t"
  using assms(3)
proof (cases rule: hart_step_cases)
  case same
  then show ?thesis using assms(1) by simp
next
  case (enter l)
  show ?thesis
    by (rule mask_invI [OF assms(1), of h]) (use enter in \<open>simp_all add: mask_at_def nesting_def push_off_def\<close>)
next
  case (swap l)
  then have n: "owner (locks s l) \<noteq> Some g" for g using excl_invD(1) [OF assms(2), of g l] by (auto simp: inside_def)
  then have "owned s g - {l} = owned s g" for g by (auto simp: owned_def)
  then show ?thesis
    by (intro mask_invI [OF assms(1), of h]) (use swap n in \<open>simp_all add: mask_at_def nesting_def\<close>)
next
  case (own l)
  have n: "l \<notin> owned s g" for g
    using own excl_invD(2) [OF assms(2), of g l h] excl_invD(3) [OF assms(2), of l g] by (auto simp: owned_iff inside_def)
  then have "owned s g - {l} = owned s g" for g by simp
  then show ?thesis
    by (intro mask_invI [OF assms(1), of h]) (use own n in \<open>simp_all add: mask_at_def nesting_def\<close>)
next
  case (clear l)
  then have l: "l \<in> owned s h" by (simp add: owned_iff)
  have "owned s g - {l} = owned s g" if "g \<noteq> h" for g using clear(3) that by (auto simp: owned_def)
  moreover have "mask_at t h" if "mask_at s h"
  proof -
    have "card (owned s h) = Suc (card (owned s h - {l}))" using l that by (metis card.remove mask_at_def)
    then show ?thesis using that clear by (simp add: mask_at_def nesting_def)
  qed
  ultimately show ?thesis
    by (intro mask_invI [OF assms(1), of h]) (use clear in simp_all)
next
  case (store l)
  have "owned t g = owned s g" for g using store by (auto simp: owned_def)
  then show ?thesis
    by (intro mask_invI [OF assms(1), of h]) (use store in \<open>simp_all add: mask_at_def nesting_def\<close>)
next
  case (leave l)
  then show ?thesis
    by (intro mask_invI [OF assms(1), of h]) (auto simp: mask_at_def nesting_def)
next
  case (intr b)
  then show ?thesis
    by (intro mask_invI [OF assms(1), of h]) (auto simp: mask_at_def nesting_def)
qed

lemma reachable_inv: "reachable s \<Longrightarrow> excl_inv s \<and> mask_inv s"
proof (induction rule: reachable.induct)
  case (start s)
  then show ?case by (auto simp: excl_inv_def mask_inv_def mask_at_def inside_def nesting_def owned_def)
next
  case (step s h a t)
  then show ?case using excl_step mask_step by blast
qed

text \<open>
  C9. Spin locks exclude each other: in every state that any interleaving of \<^verbatim>\<open>acquire\<close> and \<^verbatim>\<open>release\<close>
  steps can reach, two harts are never inside the same lock, a hart that owns a lock has interrupts
  off, and the \<^verbatim>\<open>pop_off\<close> that ends a release does not panic.
\<close>

theorem mutual_exclusion:
  assumes "reachable s"
  shows "(inside s h l \<and> inside s g l \<longrightarrow> h = g)
    \<and> (owner (locks s l) = Some h \<longrightarrow> \<not> sie (harts s h))
    \<and> (hpc (harts s h) = Stored l \<longrightarrow> (\<exists>t. release_leave h s = Inr ((), t)))"
proof (intro conjI impI)
  note inv = reachable_inv [OF assms]
  show "h = g" if "inside s h l \<and> inside s g l" using that inv excl_invD(2) by blast
  show "\<not> sie (harts s h)" if "owner (locks s l) = Some h"
  proof -
    have "l \<in> owned s h" "finite (owned s h)" using that inv by (auto simp: owned_iff mask_inv_def mask_at_def)
    then have "0 < nesting s h" by (auto simp: nesting_def card_gt_0_iff)
    then show ?thesis using inv by (auto simp: mask_inv_def mask_at_def)
  qed
  show "\<exists>t. release_leave h s = Inr ((), t)" if "hpc (harts s h) = Stored l"
  proof -
    have "0 < nesting s h" using that by (simp add: nesting_def)
    then have "1 \<le> noff (harts s h)" "\<not> sie (harts s h)" using inv by (auto simp: mask_inv_def mask_at_def)
    then show ?thesis by (simp add: step_defs)
  qed
qed

definition boot_locks :: lock_state where
  "boot_locks = \<lparr>locks = (\<lambda>_. \<lparr>locked = False, owner = None\<rparr>),
     harts = (\<lambda>_. \<lparr>noff = 0, intena = False, sie = True, hpc = Outside\<rparr>)\<rparr>"

primrec run_sched :: "(nat \<times> act) list \<Rightarrow> (lock_state, unit) kmon" where
  "run_sched [] = ret ()"
| "run_sched (x # xs) = thenk (hart_step (fst x) (snd x)) (run_sched xs)"

text \<open>Entering \<^verbatim>\<open>acquire\<close>, and a whole acquisition of a free lock.\<close>

definition entered :: "nat \<Rightarrow> nat \<Rightarrow> lock_state \<Rightarrow> lock_state" where
  "entered h l s = upd_hart h (\<lambda>c. c\<lparr>hpc := Spin l\<rparr>) (push_off h s)"

definition acquired :: "nat \<Rightarrow> nat \<Rightarrow> lock_state \<Rightarrow> lock_state" where
  "acquired h l s = upd_lock l (\<lambda>k. k\<lparr>locked := True, owner := Some h\<rparr>) (push_off h s)"

lemma run_enter:
  assumes "hpc (harts s h) = Outside" and "\<not> holding h l s"
  shows "run_sched ((h, Acquire l) # xs) s = run_sched xs (entered h l s)"
  using assms by (auto simp: hart_step.simps step_defs entered_def)

lemma run_acquire:
  assumes "hpc (harts s h) = Outside" and "\<not> locked (locks s l)"
  shows "run_sched ((h, Acquire l) # (h, Continue) # (h, Continue) # xs) s = run_sched xs (acquired h l s)"
proof -
  let ?t = "upd_hart h (\<lambda>c. c\<lparr>hpc := Outside\<rparr>) (upd_lock l (\<lambda>k. k\<lparr>owner := Some h\<rparr>)
    (upd_hart h (\<lambda>c. c\<lparr>hpc := Swapped l\<rparr>) (upd_lock l (\<lambda>k. k\<lparr>locked := True\<rparr>) (entered h l s))))"
  have "run_sched ((h, Acquire l) # (h, Continue) # (h, Continue) # xs) s = run_sched xs ?t"
    using assms by (auto simp: holding_def hart_step.simps acquire_enter_def acquire_swap_def acquire_own_def goto_def
      entered_def push_off_def bindk_def thenk_def gets_def modk_def)
  also have "?t = acquired h l s"
    using assms(1) by (cases "harts s h") (simp add: acquired_def entered_def push_off_def upd_hart_def upd_lock_def)
  finally show ?thesis .
qed

lemma entered_simps [simp]:
  "locks (entered h l s) = locks s" "hpc (harts (entered h l s) g) = (if g = h then Spin l else hpc (harts s g))"
  by (simp_all add: entered_def push_off_def)

lemma acquired_simps [simp]:
  "locks (acquired h l s) = (locks s)(l := (locks s l)\<lparr>locked := True, owner := Some h\<rparr>)"
  "hpc (harts (acquired h l s) g) = hpc (harts s g)"
  by (simp_all add: acquired_def push_off_def)

lemma boot_simps [simp]:
  "locks boot_locks l = \<lparr>locked = False, owner = None\<rparr>" "hpc (harts boot_locks h) = Outside"
  by (simp_all add: boot_locks_def)

lemma run_sched_reachable: "reachable s \<Longrightarrow> run_sched xs s = Inr ((), t) \<Longrightarrow> reachable t"
proof (induction xs arbitrary: s)
  case Nil
  then show ?case by (simp add: ret_def)
next
  case (Cons x xs)
  then obtain u where "hart_step (fst x) (snd x) s = Inr ((), u)" "run_sched xs u = Inr ((), t)"
    by (auto simp: thenk_def elim!: bindk_InrE)
  then show ?case using Cons reachable.step by blast
qed

lemma boot_reachable: "reachable boot_locks"
  by (rule reachable.start) (simp_all add: boot_locks_def)

theorem mutual_exclusion_witness:
  "\<exists>s. run_sched [(0, Acquire 5), (0, Continue), (0, Continue), (1, Acquire 5)] boot_locks = Inr ((), s)
    \<and> owner (locks s 5) = Some 0 \<and> \<not> sie (harts s 0) \<and> \<not> inside s 1 5"
proof -
  let ?s = "entered 1 5 (acquired 0 5 boot_locks)"
  have s: "run_sched [(0, Acquire 5), (0, Continue), (0, Continue), (1, Acquire 5)] boot_locks = Inr ((), ?s)"
    by (simp add: run_acquire del: run_sched.simps(2)) (simp add: run_enter holding_def ret_def del: run_sched.simps(2))
  have "reachable ?s" using boot_reachable s by (rule run_sched_reachable)
  from mutual_exclusion [OF this, of 0 5 1] show ?thesis using s by (auto simp: inside_def)
qed

section \<open>The order of \<^verbatim>\<open>rq_lock\<close> and \<^verbatim>\<open>tickslock\<close>\<close>

text \<open>
  The lock calls of \<^verbatim>\<open>rq_insert\<close> (\<^verbatim>\<open>kernel/proc.c\<close>), which reads \<^verbatim>\<open>ticks\<close> under \<^verbatim>\<open>tickslock\<close> unless its hart
  holds that lock already, and of \<^verbatim>\<open>clockintr\<close> (\<^verbatim>\<open>kernel/trap.c\<close>) when \<^verbatim>\<open>wakeup\<close> finds process \<open>p\<close>
  sleeping on \<^verbatim>\<open>ticks\<close>.
\<close>

definition RQ_LOCK :: nat where "RQ_LOCK = 0"
definition TICKSLOCK :: nat where "TICKSLOCK = 1"
definition P_LOCK :: "nat \<Rightarrow> nat" where "P_LOCK p = p + 2"

definition rq_insert_calls :: "bool \<Rightarrow> act list" where
  "rq_insert_calls holding_ticks =
     [Acquire RQ_LOCK] @ (if holding_ticks then [] else [Acquire TICKSLOCK, Release TICKSLOCK]) @ [Release RQ_LOCK]"

definition clockintr_calls :: "nat \<Rightarrow> act list" where
  "clockintr_calls p =
     [Acquire TICKSLOCK, Acquire (P_LOCK p)] @ rq_insert_calls True @ [Release (P_LOCK p), Release TICKSLOCK]"

text \<open>Each call with its inner steps, when no other hart is in the way.\<close>

definition steps_of :: "act list \<Rightarrow> act list" where
  "steps_of cs = concat (map (\<lambda>c. [c, Continue, Continue]) cs)"


end
