(* ===== verification/Umalloc.thy ===== *)
theory Umalloc
  imports User_Io
begin

text \<open>
  The user-level allocator \<^verbatim>\<open>user/umalloc.c\<close>: a circular list of free blocks in address order, each
  with a header of 16 bytes in front of it.

  An address is a number of bytes; \<open>hmem\<close> gives the header at an address. Pointer arithmetic on
  \<^verbatim>\<open>Header*\<close> counts units of 16 bytes. The address of the static header \<^verbatim>\<open>base\<close> comes from the linker
  and is the argument \<open>bs\<close>. \<^verbatim>\<open>sbrk\<close> is the system call: \<open>brk\<close> is the size of the process and \<open>brk_max\<close>
  what the kernel is willing to give. The loops follow pointers, so they are partial functions:
  \<open>None\<close> is a loop that does not end.
\<close>

record hdr =
  h_ptr :: nat
  h_size :: u32

record heap =
  hmem :: "nat \<Rightarrow> hdr"
  freep :: nat
  brk :: nat
  brk_max :: nat

definition HSIZE :: nat where "HSIZE = 16"

definition set_ptr :: "nat \<Rightarrow> nat \<Rightarrow> (nat \<Rightarrow> hdr) \<Rightarrow> nat \<Rightarrow> hdr" where
  "set_ptr a q m = m(a := (m a)\<lparr>h_ptr := q\<rparr>)"

definition set_size :: "nat \<Rightarrow> u32 \<Rightarrow> (nat \<Rightarrow> hdr) \<Rightarrow> nat \<Rightarrow> hdr" where
  "set_size a z m = m(a := (m a)\<lparr>h_size := z\<rparr>)"

text \<open>The end of the block at \<open>a\<close>: \<^verbatim>\<open>a + a->s.size\<close>.\<close>

definition block_end :: "(nat \<Rightarrow> hdr) \<Rightarrow> nat \<Rightarrow> nat" where
  "block_end m a = a + HSIZE * unat (h_size (m a))"

section \<open>The functions\<close>

partial_function (option) free_find :: "(nat \<Rightarrow> hdr) \<Rightarrow> nat \<Rightarrow> nat \<Rightarrow> nat option" where
  [code]: "free_find m bp p =
     (if bp > p \<and> bp < h_ptr (m p) then Some p
      else if p \<ge> h_ptr (m p) \<and> (bp > p \<or> bp < h_ptr (m p)) then Some p
      else free_find m bp (h_ptr (m p)))"

definition free_join :: "nat \<Rightarrow> nat \<Rightarrow> (nat \<Rightarrow> hdr) \<Rightarrow> nat \<Rightarrow> hdr" where
  "free_join bp p m =
     (let m = (if block_end m bp = h_ptr (m p)
               then set_ptr bp (h_ptr (m (h_ptr (m p)))) (set_size bp (h_size (m bp) + h_size (m (h_ptr (m p)))) m)
               else set_ptr bp (h_ptr (m p)) m)
      in if block_end m p = bp
         then set_ptr p (h_ptr (m bp)) (set_size p (h_size (m p) + h_size (m bp)) m)
         else set_ptr p bp m)"

definition ufree :: "nat \<Rightarrow> heap \<Rightarrow> heap option" where
  "ufree ap s =
     (let bp = ap - HSIZE in
      case free_find (hmem s) bp (freep s) of
        None \<Rightarrow> None
      | Some p \<Rightarrow> Some (s\<lparr>hmem := free_join bp p (hmem s), freep := p\<rparr>))"

definition u_sbrk :: "int \<Rightarrow> heap \<Rightarrow> nat option \<times> heap" where
  "u_sbrk n s =
     (if n > 0 then
        if brk s + nat n \<le> brk_max s then (Some (brk s), s\<lparr>brk := brk s + nat n\<rparr>) else (None, s)
      else if int (brk s) + n < 0 then (Some (brk s), s)
      else (Some (brk s), s\<lparr>brk := nat (int (brk s) + n)\<rparr>))"

text \<open>\<^verbatim>\<open>sbrk\<close> takes an \<^verbatim>\<open>int\<close>: the byte count is cut to 32 bits and read as signed.\<close>

definition morecore :: "u32 \<Rightarrow> heap \<Rightarrow> (nat option \<times> heap) option" where
  "morecore nu s =
     (let nu = (if nu < 4096 then 4096 else nu) in
      case u_sbrk (sint (nu * of_nat HSIZE)) s of
        (None, t) \<Rightarrow> Some (None, t)
      | (Some hp, t) \<Rightarrow>
          map_option (\<lambda>t. (Some (freep t), t)) (ufree (hp + HSIZE) (t\<lparr>hmem := set_size hp nu (hmem t)\<rparr>)))"

definition nunits_for :: "u32 \<Rightarrow> u32" where
  "nunits_for nbytes = of_nat ((unat nbytes + HSIZE - 1) div HSIZE + 1)"

text \<open>Taking \<open>n\<close> units from block \<open>p\<close> behind \<open>prevp\<close>: the header of what is handed out, and the heap.\<close>

definition carve :: "nat \<Rightarrow> nat \<Rightarrow> u32 \<Rightarrow> heap \<Rightarrow> nat \<times> heap" where
  "carve prevp p n s =
     (let m = hmem s in
      if h_size (m p) = n then (p, s\<lparr>hmem := set_ptr prevp (h_ptr (m p)) m, freep := prevp\<rparr>)
      else let m = set_size p (h_size (m p) - n) m; q = block_end m p in
        (q, s\<lparr>hmem := set_size q n m, freep := prevp\<rparr>))"

partial_function (option) malloc_loop :: "u32 \<Rightarrow> nat \<Rightarrow> nat \<Rightarrow> heap \<Rightarrow> (nat option \<times> heap) option" where
  [code]: "malloc_loop n prevp p s =
     (if h_size (hmem s p) \<ge> n then
        case carve prevp p n s of (q, t) \<Rightarrow> Some (Some (q + HSIZE), t)
      else if p = freep s then
        case morecore n s of
          None \<Rightarrow> None
        | Some (None, t) \<Rightarrow> Some (None, t)
        | Some (Some p', t) \<Rightarrow> malloc_loop n p' (h_ptr (hmem t p')) t
      else malloc_loop n p (h_ptr (hmem s p)) s)"

text \<open>The first call makes the list of \<^verbatim>\<open>base\<close> alone.\<close>

definition malloc_init :: "nat \<Rightarrow> heap \<Rightarrow> heap" where
  "malloc_init bs s = (if freep s = 0 then s\<lparr>hmem := (hmem s)(bs := \<lparr>h_ptr = bs, h_size = 0\<rparr>), freep := bs\<rparr> else s)"

definition malloc :: "nat \<Rightarrow> u32 \<Rightarrow> heap \<Rightarrow> (nat option \<times> heap) option" where
  "malloc bs nbytes s =
     (let n = nunits_for nbytes; s = malloc_init bs s in malloc_loop n (freep s) (h_ptr (hmem s (freep s))) s)"

section \<open>The free list\<close>

text \<open>The headers \<open>xs\<close> are linked in this order, and the last one points to \<open>z\<close>.\<close>

fun links :: "(nat \<Rightarrow> hdr) \<Rightarrow> nat list \<Rightarrow> nat \<Rightarrow> bool" where
  "links m [] z = True"
| "links m [x] z = (h_ptr (m x) = z)"
| "links m (x # y # xs) z = (h_ptr (m x) = y \<and> links m (y # xs) z)"

lemma links_append: "links m (xs @ y # ys) z \<longleftrightarrow> links m xs y \<and> links m (y # ys) z"
  by (induction m xs y rule: links.induct) auto

lemma links_cong: "(\<And>x. x \<in> set xs \<Longrightarrow> h_ptr (m x) = h_ptr (m' x)) \<Longrightarrow> links m xs z = links m' xs z"
  by (induction m xs z rule: links.induct) auto

text \<open>Blocks in address order without overlap, all below \<open>e\<close>.\<close>

fun apart :: "(nat \<Rightarrow> hdr) \<Rightarrow> nat list \<Rightarrow> nat \<Rightarrow> bool" where
  "apart m [] e = True"
| "apart m [x] e = (block_end m x \<le> e)"
| "apart m (x # y # xs) e = (x < y \<and> block_end m x \<le> y \<and> apart m (y # xs) e)"

lemma apart_append: "apart m (xs @ y # ys) e \<longleftrightarrow> apart m xs y \<and> (xs \<noteq> [] \<longrightarrow> last xs < y) \<and> apart m (y # ys) e"
  by (induction m xs y rule: apart.induct) auto

lemma apart_cong: "(\<And>x. x \<in> set xs \<Longrightarrow> h_size (m x) = h_size (m' x)) \<Longrightarrow> apart m xs z = apart m' xs z"
  by (induction m xs z rule: apart.induct) (auto simp: block_end_def)

lemma apart_mono: "apart m xs e \<Longrightarrow> e \<le> e' \<Longrightarrow> apart m xs e'"
  by (induction m xs e rule: apart.induct) auto

lemma apart_sorted: "apart m (x # xs) e \<Longrightarrow> y \<in> set xs \<Longrightarrow> x < y \<and> block_end m x \<le> y"
proof (induction xs arbitrary: x)
  case (Cons z xs)
  then show ?case by (fastforce simp: block_end_def)
qed simp

definition region :: "(nat \<Rightarrow> hdr) \<Rightarrow> nat \<Rightarrow> nat set" where
  "region m x = {x..<block_end m x}"

definition free_bytes :: "(nat \<Rightarrow> hdr) \<Rightarrow> nat list \<Rightarrow> nat set" where
  "free_bytes m xs = (\<Union>x\<in>set xs. region m x)"

text \<open>
  The heap: the list starts at \<^verbatim>\<open>base\<close>, whose block is empty, and the other blocks are not; everything
  is below the end of the process, which is below 64 GiB (the machine has 128 MiB).
\<close>

definition heap_list :: "nat \<Rightarrow> heap \<Rightarrow> nat list \<Rightarrow> bool" where
  "heap_list bs s xs \<longleftrightarrow>
     (\<exists>ys. xs = bs # ys \<and> h_size (hmem s bs) = 0 \<and> (\<forall>y \<in> set ys. h_size (hmem s y) \<noteq> 0))
   \<and> links (hmem s) xs bs \<and> apart (hmem s) xs (brk s) \<and> freep s \<in> set xs
   \<and> 0 < bs \<and> bs < brk s \<and> brk s \<le> brk_max s \<and> brk_max s \<le> 2 ^ 36"

lemma block_end_ge [simp]: "x \<le> block_end m x"
  by (simp add: block_end_def)

lemma block_end_gt [simp]: "x < block_end m x \<longleftrightarrow> h_size (m x) \<noteq> 0"
  by (auto simp: block_end_def HSIZE_def unat_gt_0)

lemma block_end_cong: "h_size (m' x) = h_size (m x) \<Longrightarrow> block_end m' x = block_end m x"
  by (simp add: block_end_def)

section \<open>Finding the place\<close>

text \<open>The list is cut at the freed block: \<open>as\<close> below it, \<open>cs\<close> above.\<close>

lemma free_find_below:
  assumes "links m (as @ cs) bs" and "as = us @ p # vs" and "\<forall>x \<in> set as. bs \<le> x \<and> x < bp" and "\<forall>x \<in> set cs. bp < x"
    and "sorted_wrt (<) as"
  shows "free_find m bp p = Some (last as)"
  using assms(2)
proof (induction vs arbitrary: us p)
  case Nil
  have p: "p < bp" "bs \<le> p" "last as = p" using Nil assms(3) by auto
  have "links m (us @ p # cs) bs" using assms(1) Nil by simp
  then have l: "links m (p # cs) bs" by (simp only: links_append)
  show ?case
  proof (cases cs)
    case Nil
    then show ?thesis using l p by (subst free_find.simps) simp
  next
    case (Cons c cs')
    then show ?thesis using l p assms(4) by (subst free_find.simps) simp
  qed
next
  case (Cons y vs)
  have "links m (us @ p # y # vs @ cs) bs" using assms(1) Cons.prems by simp
  then have "h_ptr (m p) = y" by (simp add: links_append)
  moreover have "p < y" "y < bp" using Cons.prems assms(3,5) by (auto simp: sorted_wrt_append)
  moreover have "free_find m bp y = Some (last as)" using Cons.IH [of "us @ [p]" y] Cons.prems by simp
  ultimately show ?case by (subst free_find.simps) simp
qed

lemma free_find_above:
  assumes "links m (as @ cs) bs" and "cs = us @ p # vs" and "as = bs # as'" and "\<forall>x \<in> set as. bs \<le> x \<and> x < bp"
    and "\<forall>x \<in> set cs. bp < x" and "sorted_wrt (<) as" and "sorted_wrt (<) cs"
  shows "free_find m bp p = Some (last as)"
  using assms(2)
proof (induction vs arbitrary: us p)
  case Nil
  have p: "bp < p" "bs < p" "bs < bp" using Nil assms(3-5) by auto
  have "links m ((as @ us) @ p # []) bs" using assms(1) Nil by simp
  then have "h_ptr (m p) = bs" by (simp only: links_append) simp
  moreover have "free_find m bp bs = Some (last as)"
    by (rule free_find_below [OF assms(1), of "[]" bs as']) (use assms in auto)
  ultimately show ?case using p by (subst free_find.simps) simp
next
  case (Cons y vs)
  have "links m ((as @ us) @ p # y # vs) bs" using assms(1) Cons.prems by simp
  then have "h_ptr (m p) = y" by (simp only: links_append) simp
  moreover have "p < y" "bp < p" using Cons.prems assms(5,7) by (auto simp: sorted_wrt_append)
  moreover have "free_find m bp y = Some (last as)" using Cons.IH [of "us @ [p]" y] Cons.prems by simp
  ultimately show ?case by (subst free_find.simps) simp
qed

lemma apart_sorted_wrt: "apart m xs e \<Longrightarrow> sorted_wrt (<) xs"
proof (induction xs)
  case (Cons x xs)
  have "apart m xs e" using Cons.prems by (cases xs) auto
  then show ?case using Cons apart_sorted [of m x xs e] by auto
qed simp

lemma apart_ends: "apart m xs e \<Longrightarrow> x \<in> set xs \<Longrightarrow> block_end m x \<le> e"
proof (induction m xs e arbitrary: x rule: apart.induct)
  case (3 m x' y xs e)
  then have "block_end m y \<le> e" by simp
  moreover have "block_end m x' \<le> block_end m y" using 3(2) le_trans [of "block_end m x'" y "block_end m y"] by simp
  ultimately have "block_end m x' \<le> e" by simp
  then show ?case using 3 by auto
qed auto

section \<open>Joining\<close>

lemma size_add:
  assumes "0 < x" and "x + HSIZE * (unat a + unat b) \<le> 2 ^ 36"
  shows "unat (a + b :: u32) = unat a + unat b"
proof -
  have "unat a + unat b < 2 ^ 32" using assms by (simp add: HSIZE_def)
  then show ?thesis by (simp add: unat_word_ariths)
qed

text \<open>Linking \<open>bp\<close> in front of the blocks above it, joined with the first one when they touch.\<close>

lemma join_right:
  fixes m bp p
  defines "c \<equiv> h_ptr (m p)"
  defines "m1 \<equiv> (if block_end m bp = c then set_ptr bp (h_ptr (m c)) (set_size bp (h_size (m bp) + h_size (m c)) m) else set_ptr bp c m)"
  assumes "links m (p # cs) bs" and "apart m cs e" and "\<forall>x \<in> set cs. bp < x \<and> h_size (m x) \<noteq> 0"
    and "region m bp \<inter> free_bytes m cs = {}" and "h_size (m bp) \<noteq> 0" and "block_end m bp \<le> e" and "e \<le> 2 ^ 36" and "bs < bp"
  shows "\<exists>cs'. links m1 (bp # cs') bs \<and> apart m1 (bp # cs') e \<and> set cs' \<subseteq> set cs \<and> h_size (m1 bp) \<noteq> 0
    \<and> free_bytes m1 (bp # cs') = region m bp \<union> free_bytes m cs \<and> block_end m bp \<le> block_end m1 bp"
proof (cases "block_end m bp = c")
  case False
  then have m1: "m1 = set_ptr bp c m" by (simp add: m1_def)
  have same: "h_size (m1 x) = h_size (m x)" "block_end m1 x = block_end m x" for x
    by (simp_all add: m1 set_ptr_def block_end_def)
  have l: "links m1 (bp # cs) bs"
  proof (cases cs)
    case Nil
    then show ?thesis using assms(3) by (simp add: m1 set_ptr_def c_def)
  next
    case (Cons y ys)
    then have "bp \<notin> set cs" using assms(5) by auto
    then have "links m1 cs bs = links m cs bs" by (intro links_cong) (auto simp: m1 set_ptr_def)
    then show ?thesis using assms(3) Cons by (simp add: m1 set_ptr_def c_def)
  qed
  have a: "apart m1 (bp # cs) e"
  proof (cases cs)
    case Nil
    then show ?thesis using assms(8) same(2) by simp
  next
    case (Cons y ys)
    have "y \<in> free_bytes m cs" using assms(5) Cons by (simp add: free_bytes_def region_def)
    then have "y \<notin> region m bp" using assms(6) by blast
    then have "block_end m bp \<le> y" using assms(5) Cons by (auto simp: region_def)
    then show ?thesis using assms(4,5) Cons same(2) apart_cong [of cs m1 m e] same(1) by simp
  qed
  have "free_bytes m1 (bp # cs) = region m bp \<union> free_bytes m cs"
    by (simp add: free_bytes_def region_def same(2))
  then show ?thesis using l a assms(7) same(1,2) by (intro exI [of _ cs]) simp
next
  case True
  have "cs \<noteq> []"
  proof
    assume "cs = []"
    then have "c = bs" using assms(3) by (simp add: c_def)
    then show False using True block_end_ge [of bp m] assms(10) by simp
  qed
  then obtain ys where cs: "cs = c # ys" using assms(3) by (cases cs) (auto simp: c_def)
  have m1: "m1 = set_ptr bp (h_ptr (m c)) (set_size bp (h_size (m bp) + h_size (m c)) m)" using True by (simp add: m1_def)
  have nb: "bp \<notin> set cs" using assms(5) by auto
  have same: "x \<noteq> bp \<Longrightarrow> m1 x = m x" for x by (simp add: m1 set_ptr_def set_size_def)
  have bp: "h_ptr (m1 bp) = h_ptr (m c)" "h_size (m1 bp) = h_size (m bp) + h_size (m c)"
    by (simp_all add: m1 set_ptr_def set_size_def)
  have ce: "block_end m c \<le> e" using apart_ends [OF assms(4)] cs by simp
  then have "bp + HSIZE * (unat (h_size (m bp)) + unat (h_size (m c))) \<le> 2 ^ 36"
    using True assms(9) by (simp add: block_end_def algebra_simps)
  then have z: "unat (h_size (m1 bp)) = unat (h_size (m bp)) + unat (h_size (m c))"
    using size_add [of bp] assms(10) bp by simp
  then have be: "block_end m1 bp = block_end m c" using True by (simp add: block_end_def algebra_simps)
  have sy: "m1 x = m x" if "x \<in> set ys" for x using that nb cs by (cases "x = bp") (auto simp: same)
  then have ys: "block_end m1 x = block_end m x" if "x \<in> set ys" for x using that by (simp add: block_end_def)
  have l: "links m1 (bp # ys) bs"
  proof (cases ys)
    case Nil
    then show ?thesis using assms(3) cs bp by simp
  next
    case (Cons y zs)
    have "links m1 ys bs = links m ys bs" by (intro links_cong) (simp add: sy)
    then show ?thesis using assms(3) cs bp Cons by simp
  qed
  have a: "apart m1 (bp # ys) e"
  proof (cases ys)
    case Nil
    then show ?thesis using be ce by simp
  next
    case (Cons y zs)
    have "apart m1 ys e = apart m ys e" by (intro apart_cong) (simp add: sy)
    then show ?thesis using assms(4,5) cs be Cons by simp
  qed
  have "region m1 bp = region m bp \<union> region m c"
    using True be block_end_ge [of bp m] block_end_ge [of c m] by (simp add: region_def ivl_disj_un_two(3))
  then have "free_bytes m1 (bp # ys) = region m bp \<union> free_bytes m cs"
    using ys by (auto simp: free_bytes_def cs region_def)
  moreover have "h_size (m1 bp) \<noteq> 0" using z assms(7) by (metis add_is_0 unat_eq_zero)
  ultimately show ?thesis using l a cs be True block_end_ge [of c m] by (intro exI [of _ ys]) auto
qed

text \<open>Linking the block in front to \<open>bp\<close>, joined with it when they touch.\<close>

lemma join_left:
  fixes m1 bp p
  defines "m2 \<equiv> (if block_end m1 p = bp then set_ptr p (h_ptr (m1 bp)) (set_size p (h_size (m1 p) + h_size (m1 bp)) m1)
    else set_ptr p bp m1)"
  assumes "links m1 (bp # cs) bs" and "apart m1 (bp # cs) e" and "block_end m1 p \<le> bp" and "p < bp" and "0 < p"
    and "e \<le> 2 ^ 36" and "h_size (m1 bp) \<noteq> 0"
  shows "\<exists>cs'. links m2 (p # cs') bs \<and> apart m2 (p # cs') e \<and> set cs' \<subseteq> insert bp (set cs)
    \<and> (\<forall>x. x \<noteq> p \<longrightarrow> m2 x = m1 x) \<and> (block_end m1 p \<noteq> bp \<longrightarrow> h_size (m2 p) = h_size (m1 p))
    \<and> (h_size (m1 p) \<noteq> 0 \<longrightarrow> h_size (m2 p) \<noteq> 0)
    \<and> free_bytes m2 (p # cs') = region m1 p \<union> free_bytes m1 (bp # cs)
    \<and> (\<exists>y \<in> set (p # cs'). region m1 bp \<subseteq> region m2 y)"
proof -
  have gt: "\<forall>x \<in> set (bp # cs). p < x"
    using apart_sorted [OF assms(3)] assms(5) by fastforce
  then have np: "p \<notin> set (bp # cs)" by auto
  have other: "x \<noteq> p \<Longrightarrow> m2 x = m1 x" for x by (simp add: m2_def set_ptr_def set_size_def)
  have fb: "free_bytes m2 ys = free_bytes m1 ys" if "set ys \<subseteq> set (bp # cs)" for ys
    using that np unfolding free_bytes_def
    by (intro SUP_cong refl) (metis other block_end_cong region_def subsetD)
  have eq: "m2 x = m1 x" if "x \<in> set (bp # cs)" for x using that np by (cases "x = p") (auto simp: other)
  have ln: "links m2 ys bs = links m1 ys bs" "apart m2 ys e = apart m1 ys e" if "set ys \<subseteq> set (bp # cs)" for ys
  proof -
    have "m2 x = m1 x" if "x \<in> set ys" for x using that \<open>set ys \<subseteq> set (bp # cs)\<close> eq by blast
    then show "links m2 ys bs = links m1 ys bs" "apart m2 ys e = apart m1 ys e"
      using links_cong [of ys m2 m1 bs] apart_cong [of ys m2 m1 e] by simp_all
  qed
  show ?thesis
  proof (cases "block_end m1 p = bp")
    case False
    then have p: "h_ptr (m2 p) = bp" "h_size (m2 p) = h_size (m1 p)" by (simp_all add: m2_def set_ptr_def)
    have e: "block_end m2 p = block_end m1 p" using p by (simp add: block_end_def)
    have "links m2 (p # bp # cs) bs" "apart m2 (p # bp # cs) e" using p e ln [of "bp # cs"] assms(2-5) by simp_all
    moreover have "free_bytes m2 (p # bp # cs) = region m1 p \<union> free_bytes m1 (bp # cs)"
      using fb [of "bp # cs"] e by (simp add: free_bytes_def region_def)
    moreover have "region m1 bp \<subseteq> region m2 bp" using eq [of bp] by (simp add: region_def block_end_def)
    ultimately show ?thesis using other p by (intro exI [of _ "bp # cs"]) auto
  next
    case True
    then have p: "h_ptr (m2 p) = h_ptr (m1 bp)" "h_size (m2 p) = h_size (m1 p) + h_size (m1 bp)"
      by (simp_all add: m2_def set_ptr_def set_size_def)
    have be: "block_end m1 bp \<le> e" using apart_ends [OF assms(3)] by simp
    then have "p + HSIZE * (unat (h_size (m1 p)) + unat (h_size (m1 bp))) \<le> 2 ^ 36"
      using True assms(7) by (simp add: block_end_def algebra_simps)
    then have z: "unat (h_size (m2 p)) = unat (h_size (m1 p)) + unat (h_size (m1 bp))"
      using size_add [of p] assms(6) p by simp
    then have e: "block_end m2 p = block_end m1 bp" using True by (simp add: block_end_def algebra_simps)
    have "links m2 (p # cs) bs"
      using p ln(1) [of cs] assms(2) by (cases cs) auto
    moreover have "apart m2 (p # cs) e"
      using e be gt ln(2) [of cs] assms(3) by (cases cs) auto
    moreover have "free_bytes m2 (p # cs) = region m1 p \<union> free_bytes m1 (bp # cs)"
    proof -
      have "region m2 p = region m1 p \<union> region m1 bp"
        using True e block_end_ge [of p m1] block_end_ge [of bp m1] by (simp add: region_def ivl_disj_un_two(3))
      then show ?thesis using fb [of cs] by (auto simp: free_bytes_def)
    qed
    moreover have "h_size (m2 p) \<noteq> 0" using z assms(8) by (metis add_is_0 unat_eq_zero)
    moreover have "region m1 bp \<subseteq> region m2 p" using e assms(5) by (simp add: region_def)
    ultimately show ?thesis using other True by (intro exI [of _ cs]) auto
  qed
qed

text \<open>The place of a block that is not in the list.\<close>

lemma split_at:
  assumes "sorted_wrt (<) xs" and "bp \<notin> set xs"
  obtains as cs where "xs = as @ cs" "\<forall>x \<in> set as. x < bp" "\<forall>x \<in> set cs. bp < (x :: nat)"
proof (rule that [of "takeWhile (\<lambda>x. x < bp) xs" "dropWhile (\<lambda>x. x < bp) xs"])
  show "\<forall>x \<in> set (takeWhile (\<lambda>x. x < bp) xs). x < bp" by (auto dest: set_takeWhileD)
  show "\<forall>x \<in> set (dropWhile (\<lambda>x. x < bp) xs). bp < x" using assms by (induction xs) (auto split: if_splits)
qed simp

text \<open>A block the program holds: in the heap, above \<^verbatim>\<open>base\<close>, not free.\<close>

definition allocated :: "nat \<Rightarrow> heap \<Rightarrow> nat list \<Rightarrow> nat \<Rightarrow> bool" where
  "allocated bs s xs bp \<longleftrightarrow> bs < bp \<and> h_size (hmem s bp) \<noteq> 0 \<and> block_end (hmem s) bp \<le> brk s
     \<and> region (hmem s) bp \<inter> free_bytes (hmem s) xs = {} \<and> bp \<notin> set xs"

text \<open>The list is cut at the block, and the search ends at the last header below it.\<close>

lemma free_place:
  assumes "heap_list bs s xs" and "allocated bs s xs bp"
  obtains as0 p cs as' where "xs = as0 @ p # cs" "\<forall>x \<in> set (as0 @ [p]). bs \<le> x \<and> x < bp" "\<forall>x \<in> set cs. bp < x"
    "sorted_wrt (<) (as0 @ [p])" "as0 @ [p] = bs # as'" "free_find (hmem s) bp (freep s) = Some p"
proof -
  let ?m = "hmem s"
  obtain xs' where xs: "xs = bs # xs'" and h: "links ?m xs bs" "apart ?m xs (brk s)" "freep s \<in> set xs"
    using assms(1) by (auto simp: heap_list_def)
  have b: "bs < bp" "bp \<notin> set xs" using assms(2) by (auto simp: allocated_def)
  have sorted: "sorted_wrt (<) xs" using apart_sorted_wrt [OF h(2)] .
  obtain as cs where ac: "xs = as @ cs" "\<forall>x \<in> set as. x < bp" "\<forall>x \<in> set cs. bp < x"
    using split_at [OF sorted b(2)] by blast
  obtain as' where as': "as = bs # as'" using xs ac(1,3) b(1) by (cases as) auto
  have low: "\<forall>x \<in> set as. bs \<le> x \<and> x < bp" using ac(1,2) as' sorted by (auto intro: less_imp_le)
  have sac: "sorted_wrt (<) as" "sorted_wrt (<) cs" using sorted ac(1) by (simp_all add: sorted_wrt_append)
  obtain as0 p where p: "as = as0 @ [p]" using as' by (metis list.distinct(1) rev_exhaust)
  have f: "free_find ?m bp (freep s) = Some p"
  proof (cases "freep s \<in> set as")
    case True
    then obtain us vs where "as = us @ freep s # vs" by (meson split_list)
    from free_find_below [OF h(1) [unfolded ac(1)] this low ac(3) sac(1)] show ?thesis using p by simp
  next
    case False
    then have "freep s \<in> set cs" using h(3) ac(1) by auto
    then obtain us vs where "cs = us @ freep s # vs" by (meson split_list)
    from free_find_above [OF h(1) [unfolded ac(1)] this as' low ac(3) sac] show ?thesis using p by simp
  qed
  have "as0 @ [p] = bs # as'" "xs = as0 @ p # cs" using p as' ac(1) by simp_all
  then show thesis using that [OF _ low [unfolded p] ac(3) sac(1) [unfolded p] _ f] by blast
qed

lemma ufree_spec:
  assumes "heap_list bs s xs" and "allocated bs s xs bp"
  shows "\<exists>t ys. ufree (bp + HSIZE) s = Some t \<and> heap_list bs t ys \<and> brk t = brk s \<and> brk_max t = brk_max s
    \<and> free_bytes (hmem t) ys = free_bytes (hmem s) xs \<union> region (hmem s) bp
    \<and> (\<exists>y \<in> set ys. region (hmem s) bp \<subseteq> region (hmem t) y)
    \<and> (\<forall>x. x \<notin> insert bp (set xs) \<longrightarrow> hmem t x = hmem s x)"
proof -
  let ?m = "hmem s"
  obtain xs' where xs: "xs = bs # xs'" "h_size (?m bs) = 0" "\<forall>y \<in> set xs'. h_size (?m y) \<noteq> 0"
    and h: "links ?m xs bs" "apart ?m xs (brk s)" "freep s \<in> set xs" "brk s \<le> 2 ^ 36" "0 < bs"
      "bs < brk s" "brk s \<le> brk_max s" "brk_max s \<le> 2 ^ 36"
    using assms(1) by (auto simp: heap_list_def)
  have b: "bs < bp" "h_size (?m bp) \<noteq> 0" "block_end ?m bp \<le> brk s" "region ?m bp \<inter> free_bytes ?m xs = {}" "bp \<notin> set xs"
    using assms(2) by (auto simp: allocated_def)
  obtain as0 p cs as' where pl: "xs = as0 @ p # cs" "\<forall>x \<in> set (as0 @ [p]). bs \<le> x \<and> x < bp" "\<forall>x \<in> set cs. bp < x"
    "sorted_wrt (<) (as0 @ [p])" "as0 @ [p] = bs # as'" and find: "free_find ?m bp (freep s) = Some p"
    using free_place [OF assms] .
  define as where "as = as0 @ [p]"
  have p: "as = as0 @ [p]" and ac: "xs = as @ cs" "\<forall>x \<in> set as. x < bp" "\<forall>x \<in> set cs. bp < x"
    and low: "\<forall>x \<in> set as. bs \<le> x \<and> x < bp" and sac: "sorted_wrt (<) as"
    and as': "as = bs # as'"
    using pl by (simp_all add: as_def)
  have lp: "links ?m as0 p" "links ?m (p # cs) bs"
    using h(1) ac(1) p links_append [of ?m as0 p cs bs] by simp_all
  have ap: "apart ?m as0 p" "as0 \<noteq> [] \<longrightarrow> last as0 < p" "apart ?m (p # cs) (brk s)"
    using h(2) ac(1) p apart_append [of ?m as0 p cs "brk s"] by simp_all
  have acs: "apart ?m cs (brk s)" using ap(3) by (cases cs) auto
  have ncs: "\<forall>x \<in> set cs. bp < x \<and> h_size (?m x) \<noteq> 0" using ac xs as' by auto
  define m1 where "m1 = (if block_end ?m bp = h_ptr (?m p)
    then set_ptr bp (h_ptr (?m (h_ptr (?m p)))) (set_size bp (h_size (?m bp) + h_size (?m (h_ptr (?m p)))) ?m)
    else set_ptr bp (h_ptr (?m p)) ?m)"
  define m2 where "m2 = (if block_end m1 p = bp then set_ptr p (h_ptr (m1 bp)) (set_size p (h_size (m1 p) + h_size (m1 bp)) m1)
    else set_ptr p bp m1)"
  have fcs: "free_bytes ?m cs \<subseteq> free_bytes ?m xs" by (auto simp: free_bytes_def ac(1))
  obtain cs1 where c1: "links m1 (bp # cs1) bs" "apart m1 (bp # cs1) (brk s)" "set cs1 \<subseteq> set cs" "h_size (m1 bp) \<noteq> 0"
    "free_bytes m1 (bp # cs1) = region ?m bp \<union> free_bytes ?m cs" "block_end ?m bp \<le> block_end m1 bp"
    using join_right [OF lp(2) acs ncs _ b(2,3) h(4) b(1)] b(4) fcs unfolding m1_def by blast
  have m1: "x \<noteq> bp \<Longrightarrow> m1 x = ?m x" for x by (simp add: m1_def set_ptr_def set_size_def)
  have pb: "p < bp" "bs \<le> p" using low p by auto
  have pe: "block_end m1 p \<le> bp"
  proof (rule ccontr)
    assume "\<not> block_end m1 p \<le> bp"
    then have "bp \<in> region ?m p" using pb m1 [of p] by (simp add: region_def block_end_def)
    then have "bp \<in> free_bytes ?m xs" using ac(1) p by (auto simp: free_bytes_def)
    moreover have "bp \<in> region ?m bp" using b(2) by (simp add: region_def)
    ultimately show False using b(4) by blast
  qed
  obtain cs2 where c2: "links m2 (p # cs2) bs" "apart m2 (p # cs2) (brk s)" "set cs2 \<subseteq> insert bp (set cs1)"
    "\<And>x. x \<noteq> p \<Longrightarrow> m2 x = m1 x" "block_end m1 p \<noteq> bp \<longrightarrow> h_size (m2 p) = h_size (m1 p)"
    "h_size (m1 p) \<noteq> 0 \<longrightarrow> h_size (m2 p) \<noteq> 0" "free_bytes m2 (p # cs2) = region m1 p \<union> free_bytes m1 (bp # cs1)"
    "\<exists>y \<in> set (p # cs2). region m1 bp \<subseteq> region m2 y"
    using join_left [OF c1(1,2) pe pb(1) _ h(4) c1(4)] pb(2) h(5) unfolding m2_def by auto
  let ?ys = "as0 @ p # cs2" and ?t = "s\<lparr>hmem := m2, freep := p\<rparr>"
  have as0: "m2 x = ?m x" if "x \<in> set as0" for x
    using that sac p low m1 [of x] c2(4) [of x] by (auto simp: sorted_wrt_append)
  have "links m2 as0 p" "apart m2 as0 p" using lp(1) ap(1) links_cong [of as0 m2 ?m p] apart_cong [of as0 m2 ?m p] as0 by simp_all
  then have l: "links m2 ?ys bs" "apart m2 ?ys (brk s)" using c2(1,2) ap(2) by (simp_all add: links_append apart_append)
  have fb: "free_bytes m2 ?ys = free_bytes ?m xs \<union> region ?m bp"
  proof -
    have "free_bytes m2 ?ys = free_bytes m2 as0 \<union> free_bytes m2 (p # cs2)" by (auto simp: free_bytes_def)
    also have "free_bytes m2 as0 = free_bytes ?m as0"
      unfolding free_bytes_def using as0 by (intro SUP_cong refl) (simp add: region_def block_end_def)
    also have "free_bytes m2 (p # cs2) = region ?m p \<union> (region ?m bp \<union> free_bytes ?m cs)"
      using c1(5) c2(7) pb m1 [of p] by (simp add: region_def block_end_def)
    finally show ?thesis using ac(1) p by (auto simp: free_bytes_def)
  qed
  have nz: "h_size (m2 x) \<noteq> 0" if "x \<in> set cs2" for x
  proof -
    have "x = bp \<or> x \<in> set cs" using that c1(3) c2(3) by auto
    then have "x \<noteq> p" "h_size (m1 x) \<noteq> 0" using pb ncs c1(4) m1 [of x] by auto
    then show ?thesis using c2(4) by simp
  qed
  have "heap_list bs ?t ?ys"
  proof (cases as0)
    case Nil
    then have "p = bs" using p as' by simp
    moreover from this have "block_end m1 p \<noteq> bp" using m1 [of bs] xs(2) b(1) by (simp add: block_end_def)
    ultimately have "h_size (m2 bs) = 0" using c2(5) m1 [of bs] xs(2) b(1) by simp
    then show ?thesis using l nz h(5-8) Nil \<open>p = bs\<close> by (auto simp: heap_list_def)
  next
    case (Cons a as1)
    then have a: "a = bs" using p as' by simp
    have "h_size (?m p) \<noteq> 0" "\<forall>x \<in> set as1. h_size (?m x) \<noteq> 0" using xs(1,3) ac(1) p Cons by auto
    then have "h_size (m2 p) \<noteq> 0" "\<forall>x \<in> set as1. h_size (m2 x) \<noteq> 0" "h_size (m2 bs) = 0"
      using c2(6) m1 [of p] pb as0 Cons a xs(2) by auto
    then show ?thesis using l nz h(5-8) Cons a by (auto simp: heap_list_def)
  qed
  moreover have "ufree (bp + HSIZE) s = Some ?t"
    using find by (simp add: ufree_def free_join_def Let_def m1_def m2_def)
  moreover have "\<exists>y \<in> set ?ys. region ?m bp \<subseteq> region m2 y"
  proof -
    have "region ?m bp \<subseteq> region m1 bp" using c1(6) by (auto simp: region_def)
    then show ?thesis using c2(8) by auto
  qed
  moreover have "m2 x = ?m x" if "x \<notin> insert bp (set xs)" for x
    using that m1 [of x] c2(4) [of x] ac(1) p by auto
  ultimately show ?thesis using fb by (intro exI [of _ ?t] exI [of _ ?ys]) simp
qed

section \<open>Taking a block\<close>

lemma heap_listD:
  assumes "heap_list bs s xs"
  shows "links (hmem s) xs bs" "apart (hmem s) xs (brk s)" "freep s \<in> set xs" "0 < bs" "bs < brk s"
    "brk s \<le> brk_max s" "brk_max s \<le> 2 ^ 36" "h_size (hmem s bs) = 0" "xs = bs # tl xs"
    "\<And>x. x \<in> set xs \<Longrightarrow> x \<noteq> bs \<Longrightarrow> h_size (hmem s x) \<noteq> 0" "distinct xs"
  using assms apart_sorted_wrt [of "hmem s" xs "brk s"]
  by (auto simp: heap_list_def strict_sorted_iff)

lemma heap_listI:
  assumes "links (hmem s) xs bs" "apart (hmem s) xs (brk s)" "freep s \<in> set xs" "0 < bs" "bs < brk s"
    "brk s \<le> brk_max s" "brk_max s \<le> 2 ^ 36" "h_size (hmem s bs) = 0" "xs = bs # tl xs"
    "\<And>x. x \<in> set xs \<Longrightarrow> x \<noteq> bs \<Longrightarrow> h_size (hmem s x) \<noteq> 0"
  shows "heap_list bs s xs"
proof -
  have "bs \<notin> set (tl xs)" using apart_sorted_wrt [OF assms(2)] assms(9) by (metis list.sel(3) sorted_wrt.simps(2) less_irrefl)
  then show ?thesis using assms unfolding heap_list_def by (metis list.set_intros(2))
qed

text \<open>The other blocks lie below or above a block.\<close>

lemma apart_around:
  assumes "apart m (us @ p # vs) e"
  shows "x \<in> set us \<Longrightarrow> x < p \<and> block_end m x \<le> p" "x \<in> set vs \<Longrightarrow> p < x \<and> block_end m p \<le> x"
    "block_end m p \<le> e" "free_bytes m us \<subseteq> {..<p}" "free_bytes m vs \<subseteq> {block_end m p..}"
proof -
  note a = assms [unfolded apart_append]
  show 1: "x < p \<and> block_end m x \<le> p" if "x \<in> set us" for x
    using that a apart_ends [of m us p x] apart_sorted_wrt [OF assms] by (auto simp: sorted_wrt_append)
  show 2: "p < x \<and> block_end m p \<le> x" if "x \<in> set vs" for x
    using that a apart_sorted [of m p vs e x] by simp
  show "block_end m p \<le> e" using apart_ends [OF assms] by simp
  show "free_bytes m us \<subseteq> {..<p}" using 1 by (fastforce simp: free_bytes_def region_def)
  show "free_bytes m vs \<subseteq> {block_end m p..}" using 2 by (fastforce simp: free_bytes_def region_def)
qed

lemma free_bytes_split: "free_bytes m (us @ p # vs) = free_bytes m us \<union> region m p \<union> free_bytes m vs"
  by (auto simp: free_bytes_def)

lemma free_bytes_cong: "(\<And>x. x \<in> set xs \<Longrightarrow> h_size (m x) = h_size (m' x)) \<Longrightarrow> free_bytes m xs = free_bytes m' xs"
  unfolding free_bytes_def by (intro SUP_cong refl) (simp add: region_def block_end_def)

lemma carve_exact:
  assumes "heap_list bs s (us @ prevp # p # vs)" and "h_size (hmem s p) = n" and "n \<noteq> 0"
  shows "\<exists>t. carve prevp p n s = (p, t) \<and> heap_list bs t (us @ prevp # vs) \<and> allocated bs t (us @ prevp # vs) p
    \<and> h_size (hmem t p) = n \<and> region (hmem t) p \<subseteq> region (hmem s) p \<and> brk t = brk s \<and> brk_max t = brk_max s
    \<and> free_bytes (hmem t) (us @ prevp # vs) = free_bytes (hmem s) (us @ prevp # p # vs) - region (hmem t) p"
proof -
  let ?m = "hmem s" and ?xs = "us @ prevp # p # vs" and ?ys = "us @ prevp # vs"
  note h = heap_listD [OF assms(1)]
  define m1 where "m1 = set_ptr prevp (h_ptr (?m p)) ?m"
  have sz: "h_size (m1 x) = h_size (?m x)" for x by (simp add: m1_def set_ptr_def)
  then have be: "block_end m1 x = block_end ?m x" "region m1 x = region ?m x" for x by (simp_all add: region_def block_end_def)
  have ptr: "x \<noteq> prevp \<Longrightarrow> h_ptr (m1 x) = h_ptr (?m x)" "h_ptr (m1 prevp) = h_ptr (?m p)" for x
    by (simp_all add: m1_def set_ptr_def)
  have "links ?m us prevp" "links ?m (p # vs) bs" using h(1) by (simp_all add: links_append)
  moreover have "prevp \<notin> set us" "prevp \<notin> set vs" using h(11) by auto
  ultimately have "links m1 us prevp" "links m1 (prevp # vs) bs"
    using links_cong [of us m1 ?m prevp] links_cong [of vs m1 ?m bs] ptr by (cases vs; force)+
  then have l: "links m1 ?ys bs" by (simp add: links_append)
  note a = h(2)
  have ar: "apart ?m ((us @ [prevp]) @ p # vs) (brk s)" using a by simp
  note around = apart_around [OF ar]
  have "apart ?m ?ys (brk s)"
  proof (cases vs)
    case Nil
    then show ?thesis using a apart_ends [OF a, of prevp] by (auto simp: apart_append)
  next
    case (Cons y zs)
    then show ?thesis using a around(1) [of prevp] around(2) [of y] by (auto simp: apart_append)
  qed
  then have ap: "apart m1 ?ys (brk s)" using apart_cong [of ?ys m1 ?m "brk s"] sz by simp
  have pb: "p \<noteq> bs" using h(8) assms(2,3) by auto
  have "?ys = bs # tl ?ys" using h(9) by (cases us) auto
  then have hl: "heap_list bs (s\<lparr>hmem := m1, freep := prevp\<rparr>) ?ys"
    using l ap h(4-8) h(10) sz by (intro heap_listI) auto
  have fb: "free_bytes m1 ?ys = free_bytes ?m ?ys" using sz by (intro free_bytes_cong)
  have dis: "region ?m p \<inter> free_bytes ?m ?ys = {}"
  proof -
    have "free_bytes ?m ?ys = free_bytes ?m (us @ [prevp]) \<union> free_bytes ?m vs" by (auto simp: free_bytes_def)
    then show ?thesis using around(4,5) by (fastforce simp: region_def)
  qed
  have "bs \<in> set (us @ [prevp])" using h(9) by (cases us) auto
  then have "allocated bs (s\<lparr>hmem := m1, freep := prevp\<rparr>) ?ys p"
    using around(1) [of bs] around(3) dis fb be sz assms(2,3) h(11) by (auto simp: allocated_def)
  moreover have "free_bytes ?m ?xs = free_bytes ?m ?ys \<union> region ?m p" by (auto simp: free_bytes_def)
  then have "free_bytes m1 ?ys = free_bytes ?m ?xs - region m1 p" using fb dis be by auto
  moreover have "carve prevp p n s = (p, s\<lparr>hmem := m1, freep := prevp\<rparr>)"
    using assms(2) by (simp add: carve_def m1_def Let_def)
  ultimately show ?thesis using hl assms(2) be sz by (intro exI [of _ "s\<lparr>hmem := m1, freep := prevp\<rparr>"]) simp
qed

lemma carve_split:
  assumes "heap_list bs s xs" and "p \<in> set xs" and "n < h_size (hmem s p)" and "n \<noteq> 0" and "prevp \<in> set xs"
  shows "\<exists>q t. carve prevp p n s = (q, t) \<and> heap_list bs t xs \<and> allocated bs t xs q
    \<and> h_size (hmem t q) = n \<and> region (hmem t) q \<subseteq> region (hmem s) p \<and> brk t = brk s \<and> brk_max t = brk_max s
    \<and> free_bytes (hmem t) xs = free_bytes (hmem s) xs - region (hmem t) q"
proof -
  let ?m = "hmem s"
  note h = heap_listD [OF assms(1)]
  define m1 where "m1 = set_size p (h_size (?m p) - n) ?m"
  define q where "q = block_end m1 p"
  define m2 where "m2 = set_size q n m1"
  have u: "unat (h_size (?m p) - n) = unat (h_size (?m p)) - unat n" "unat n < unat (h_size (?m p))" "0 < unat n"
    using assms(3,4) unat_sub [OF less_imp_le [OF assms(3)]] by (simp_all add: word_less_nat_alt unat_gt_0)
  have q: "p < q" "q + HSIZE * unat n = block_end ?m p"
    using u by (simp_all add: q_def m1_def block_end_def set_size_def HSIZE_def algebra_simps)
  have pq: "q \<noteq> p" using q by simp
  have m2: "\<And>x. x \<noteq> p \<Longrightarrow> x \<noteq> q \<Longrightarrow> m2 x = ?m x" "\<And>x. x \<noteq> q \<Longrightarrow> h_ptr (m2 x) = h_ptr (?m x)"
    "h_size (m2 p) = h_size (?m p) - n" "h_size (m2 q) = n"
    using pq by (auto simp: m2_def m1_def set_size_def)
  have be: "block_end m2 p = q" "block_end m2 q = block_end ?m p"
    using m2(3,4) q(2) by (simp_all add: q_def m1_def block_end_def set_size_def)
  obtain us vs where xs: "xs = us @ p # vs" using assms(2) by (meson split_list)
  note around = apart_around [OF h(2) [unfolded xs]] and a = h(2) [unfolded xs apart_append]
  have nq: "q \<notin> set us" "q \<notin> set vs" using around(1) [of q] around(2) [of q] q u(3) by (auto simp: HSIZE_def)
  have same: "m2 x = ?m x" if "x \<in> set us \<or> x \<in> set vs" for x
    using that nq xs h(11) m2(1) [of x] by auto
  have "h_ptr (m2 x) = h_ptr (?m x)" if "x \<in> set xs" for x using that nq pq xs by (cases "x = q") (auto simp: m2(2))
  then have l: "links m2 xs bs" using h(1) links_cong [of xs m2 ?m bs] by simp
  have ap: "apart m2 xs (brk s)"
  proof -
    have "apart m2 us p" using a apart_cong [of us m2 ?m p] same by simp
    moreover have "apart m2 (p # vs) (brk s)"
      using a be(1) q around(3) apart_cong [of vs m2 ?m "brk s"] same by (cases vs) auto
    ultimately show ?thesis using a by (simp add: xs apart_append)
  qed
  have pb: "p \<noteq> bs" using h(8) assms(3) by auto
  have bs: "bs \<in> set us" using h(9) xs pb by (cases us) auto
  have "h_size (m2 p) \<noteq> 0" using u m2(3) by auto
  then have nz: "h_size (m2 x) \<noteq> 0" if "x \<in> set xs" "x \<noteq> bs" for x
    using that h(10) [OF that] same [of x] xs by auto
  have hl: "heap_list bs (s\<lparr>hmem := m2, freep := prevp\<rparr>) xs"
    using l ap assms(5) h(4-9) same [of bs] bs nz by (intro heap_listI) simp_all
  have f: "free_bytes m2 us = free_bytes ?m us" "free_bytes m2 vs = free_bytes ?m vs"
    using same by (simp_all cong: free_bytes_cong)
  have r: "region m2 p = {p..<q}" "region m2 q = {q..<block_end ?m p}" "region ?m p = {p..<q} \<union> {q..<block_end ?m p}"
    using be q by (simp_all add: region_def ivl_disj_un_two(3))
  have fb: "free_bytes m2 xs = free_bytes ?m xs - region m2 q" "region m2 q \<inter> free_bytes m2 xs = {}"
    unfolding xs free_bytes_split f r using around(4,5) q by fastforce+
  have "allocated bs (s\<lparr>hmem := m2, freep := prevp\<rparr>) xs q"
    using fb(2) around(1) [OF bs] q(1) be(2) around(3) m2(4) assms(4) nq pq xs by (auto simp: allocated_def)
  moreover have "carve prevp p n s = (q, s\<lparr>hmem := m2, freep := prevp\<rparr>)"
    using assms(3) by (auto simp: carve_def Let_def m2_def m1_def q_def)
  ultimately show ?thesis using hl fb(1) m2(4) r by auto
qed

lemma carve_spec:
  assumes "heap_list bs s xs" and "prevp \<in> set xs" and "h_ptr (hmem s prevp) = p" and "n \<le> h_size (hmem s p)" and "n \<noteq> 0"
    and "p \<in> set xs"
  shows "\<exists>q t ys. carve prevp p n s = (q, t) \<and> heap_list bs t ys \<and> allocated bs t ys q \<and> h_size (hmem t q) = n
    \<and> region (hmem t) q \<subseteq> free_bytes (hmem s) xs \<and> brk t = brk s \<and> brk_max t = brk_max s
    \<and> free_bytes (hmem t) ys = free_bytes (hmem s) xs - region (hmem t) q"
proof (cases "h_size (hmem s p) = n")
  case True
  have pb: "p \<noteq> bs" using heap_listD(8) [OF assms(1)] assms(4,5) by auto
  obtain us ws where ws: "xs = us @ prevp # ws" using assms(2) by (meson split_list)
  have "links (hmem s) (prevp # ws) bs" using heap_listD(1) [OF assms(1)] ws by (simp add: links_append)
  then obtain vs where "ws = p # vs" using pb assms(3) by (cases ws) auto
  then have xs: "xs = us @ prevp # p # vs" using ws by simp
  have "region (hmem s) p \<subseteq> free_bytes (hmem s) xs" using xs by (auto simp: free_bytes_def)
  then show ?thesis using carve_exact [OF assms(1) [unfolded xs] True assms(5)] unfolding xs [symmetric] by blast
next
  case False
  have "region (hmem s) p \<subseteq> free_bytes (hmem s) xs" using assms(6) by (auto simp: free_bytes_def)
  moreover have "n < h_size (hmem s p)" using assms(4) False by simp
  from carve_split [OF assms(1,6) this assms(5,2)] obtain q t where "carve prevp p n s = (q, t)" "heap_list bs t xs"
    "allocated bs t xs q" "h_size (hmem t q) = n" "region (hmem t) q \<subseteq> region (hmem s) p" "brk t = brk s"
    "brk_max t = brk_max s" "free_bytes (hmem t) xs = free_bytes (hmem s) xs - region (hmem t) q" by blast
  ultimately show ?thesis by (intro exI [of _ q] exI [of _ t] exI [of _ xs]) auto
qed

section \<open>The search\<close>

lemma links_rotate:
  assumes "links m (us @ f # vs) bs" and "us @ f # vs = bs # ws"
  shows "links m (f # vs @ us) f"
proof (cases us)
  case Nil
  then show ?thesis using assms by simp
next
  case (Cons y us')
  have l: "links m (f # vs) bs" "links m us f" using assms(1) by (simp_all add: links_append)
  then have "links m (f # vs) bs" "links m (bs # us') f" "y = bs" using Cons assms(2) by simp_all
  then show ?thesis using Cons links_append [of m "f # vs" bs us' f] by simp
qed

lemma malloc_loop_hit:
  assumes "links (hmem s) (prevp # as @ x # cs) z" and "\<forall>a \<in> set as. h_size (hmem s a) < n \<and> a \<noteq> freep s"
    and "n \<le> h_size (hmem s x)"
  shows "malloc_loop n prevp (h_ptr (hmem s prevp)) s = (case carve (last (prevp # as)) x n s of (q, t) \<Rightarrow> Some (Some (q + HSIZE), t))
    \<and> h_ptr (hmem s (last (prevp # as))) = x"
  using assms(1,2)
proof (induction as arbitrary: prevp)
  case Nil
  then show ?case using assms(3) by (subst malloc_loop.simps) simp
next
  case (Cons a as)
  then have a: "h_ptr (hmem s prevp) = a" "\<not> n \<le> h_size (hmem s a)" "a \<noteq> freep s" by (auto simp: not_le)
  have "malloc_loop n prevp a s = malloc_loop n a (h_ptr (hmem s a)) s"
    using a(2,3) by (subst malloc_loop.simps) (simp del: not_le)
  then show ?case using Cons.IH [of a] Cons.prems a by simp
qed

lemma malloc_loop_miss:
  assumes "links (hmem s) (prevp # as @ [freep s]) z" and "\<forall>a \<in> set as. h_size (hmem s a) < n \<and> a \<noteq> freep s"
    and "h_size (hmem s (freep s)) < n"
  shows "malloc_loop n prevp (h_ptr (hmem s prevp)) s = (case morecore n s of
          None \<Rightarrow> None
        | Some (None, t) \<Rightarrow> Some (None, t)
        | Some (Some p', t) \<Rightarrow> malloc_loop n p' (h_ptr (hmem t p')) t)"
  using assms(1,2)
proof (induction as arbitrary: prevp)
  case Nil
  then have "h_ptr (hmem s prevp) = freep s" "\<not> n \<le> h_size (hmem s (freep s))" using assms(3) by (auto simp: not_le)
  then show ?case by (subst malloc_loop.simps) (simp del: not_le)
next
  case (Cons a as)
  then have a: "h_ptr (hmem s prevp) = a" "\<not> n \<le> h_size (hmem s a)" "a \<noteq> freep s" by (auto simp: not_le)
  have "malloc_loop n prevp a s = malloc_loop n a (h_ptr (hmem s a)) s"
    using a(2,3) by (subst malloc_loop.simps) (simp del: not_le)
  then show ?case using Cons.IH [of a] Cons.prems a by simp
qed

text \<open>The blocks in the order of the search, which ends at \<^verbatim>\<open>freep\<close>.\<close>

lemma search_order:
  assumes "heap_list bs s xs"
  obtains ws where "links (hmem s) (freep s # ws) (freep s)" "set xs = insert (freep s) (set ws)" "freep s \<notin> set ws" "distinct ws"
proof -
  note h = heap_listD [OF assms]
  obtain us vs where u: "xs = us @ freep s # vs" using h(3) by (meson split_list)
  have "us @ freep s # vs = bs # tl xs" unfolding u [symmetric] by (rule h(9))
  then have "links (hmem s) (freep s # vs @ us) (freep s)"
    by (rule links_rotate [rotated]) (use h(1) u in simp)
  then show thesis using u h(11) by (intro that [of "vs @ us"]) auto
qed

text \<open>Only headers of the list and of free memory change.\<close>

lemma carve_frame: "carve prevp p n s = (q, t) \<Longrightarrow> x \<notin> {prevp, p, q} \<Longrightarrow> hmem t x = hmem s x"
  by (auto simp: carve_def Let_def set_ptr_def set_size_def split: if_splits)

lemma heap_set: "heap_list bs s xs \<Longrightarrow> set xs \<subseteq> insert bs (free_bytes (hmem s) xs)"
proof
  fix x
  assume h: "heap_list bs s xs" and x: "x \<in> set xs"
  then show "x \<in> insert bs (free_bytes (hmem s) xs)"
    using heap_listD(10) [OF h x] by (cases "x = bs") (auto simp: free_bytes_def region_def)
qed

lemma malloc_found:
  assumes "heap_list bs s xs" and "n \<noteq> 0" and "\<exists>x \<in> set xs. n \<le> h_size (hmem s x)"
  shows "\<exists>q t ys. malloc_loop n (freep s) (h_ptr (hmem s (freep s))) s = Some (Some (q + HSIZE), t)
    \<and> heap_list bs t ys \<and> allocated bs t ys q \<and> h_size (hmem t q) = n
    \<and> region (hmem t) q \<subseteq> free_bytes (hmem s) xs \<and> brk t = brk s
    \<and> free_bytes (hmem t) ys = free_bytes (hmem s) xs - region (hmem t) q
    \<and> (\<forall>x. x \<notin> insert bs (free_bytes (hmem s) xs) \<longrightarrow> hmem t x = hmem s x)"
proof -
  obtain ws where w: "links (hmem s) (freep s # ws) (freep s)" "set xs = insert (freep s) (set ws)" "freep s \<notin> set ws"
    using search_order [OF assms(1)] by blast
  let ?P = "\<lambda>x. n \<le> h_size (hmem s x)"
  have "\<exists>x \<in> set (ws @ [freep s]). ?P x" using assms(3) w(2) by auto
  from split_list_first_prop [OF this]
  obtain as x cs where f: "ws @ [freep s] = as @ x # cs" "?P x" "\<forall>a \<in> set as. \<not> ?P a" by blast
  have nf: "a \<noteq> freep s" if "a \<in> set as" for a
  proof -
    have "set as \<subseteq> set ws" using f(1) by (cases cs rule: rev_cases) (auto simp flip: append_assoc simp del: append_assoc)
    then show ?thesis using that w(3) by auto
  qed
  have "links (hmem s) ((freep s # ws) @ [freep s]) (h_ptr (hmem s (freep s)))"
    unfolding links_append using w(1) by simp
  then have "links (hmem s) (freep s # as @ x # cs) (h_ptr (hmem s (freep s)))" using f(1) by simp
  from malloc_loop_hit [OF this, of n] f(2,3) nf
  have r: "malloc_loop n (freep s) (h_ptr (hmem s (freep s))) s
      = (case carve (last (freep s # as)) x n s of (q, t) \<Rightarrow> Some (Some (q + HSIZE), t))"
    "h_ptr (hmem s (last (freep s # as))) = x" by (auto simp: not_le)
  have sub: "set (as @ x # cs) = set xs" unfolding f(1) [symmetric] using w(2) by auto
  have l: "last (freep s # as) \<in> set xs" using sub w(2) by (cases as rule: rev_cases) auto
  have xin: "x \<in> set xs" using sub by auto
  from carve_spec [OF assms(1) l r(2) f(2) assms(2) xin]
  obtain q t ys where c: "carve (last (freep s # as)) x n s = (q, t)" "heap_list bs t ys" "allocated bs t ys q"
    "h_size (hmem t q) = n" "region (hmem t) q \<subseteq> free_bytes (hmem s) xs" "brk t = brk s"
    "free_bytes (hmem t) ys = free_bytes (hmem s) xs - region (hmem t) q" by blast
  have "q \<in> region (hmem t) q" using c(4) assms(2) by (simp add: region_def)
  then have "{last (freep s # as), x, q} \<subseteq> insert bs (free_bytes (hmem s) xs)"
    using heap_set [OF assms(1)] l xin c(5) by blast
  then have "\<forall>y. y \<notin> insert bs (free_bytes (hmem s) xs) \<longrightarrow> hmem t y = hmem s y"
    using carve_frame [OF c(1)] by blast
  then show ?thesis by (intro exI [of _ q] exI [of _ t] exI [of _ ys]) (use r(1) c in simp)
qed

section \<open>Growing the heap\<close>

lemma sint_small: "0 \<le> i \<Longrightarrow> i < 2 ^ 31 \<Longrightarrow> sint (word_of_int i :: u32) = i"
  by (simp add: sint_sbintrunc' signed_take_bit_int_eq_self)

lemma sint_units:
  assumes "unat nu * HSIZE < 2 ^ 31"
  shows "sint (nu * of_nat HSIZE :: u32) = int (unat nu * HSIZE)"
proof -
  have "nu * of_nat HSIZE = (word_of_int (int (unat nu * HSIZE)) :: u32)" by simp
  moreover have "int (unat nu * HSIZE) < 2 ^ 31" using assms by (metis of_nat_less_iff of_nat_numeral of_nat_power)
  ultimately show ?thesis using sint_small [of "int (unat nu * HSIZE)"] by simp
qed

definition core_units :: "u32 \<Rightarrow> nat" where
  "core_units n = max (unat n) 4096"

lemma morecore_spec:
  assumes "heap_list bs s xs" and "core_units n * HSIZE < 2 ^ 31"
  shows "if brk s + core_units n * HSIZE \<le> brk_max s
    then \<exists>t ys. morecore n s = Some (Some (freep t), t) \<and> heap_list bs t ys \<and> brk t = brk s + core_units n * HSIZE
      \<and> free_bytes (hmem t) ys = free_bytes (hmem s) xs \<union> {brk s..<brk t} \<and> (\<exists>y \<in> set ys. n \<le> h_size (hmem t y))
      \<and> (\<forall>x. x \<notin> insert bs (free_bytes (hmem s) xs) \<and> x < brk s \<longrightarrow> hmem t x = hmem s x)
    else morecore n s = Some (None, s)"
proof -
  note h = heap_listD [OF assms(1)]
  let ?nu = "if n < 4096 then 4096 else n"
  have nu: "unat ?nu = core_units n" by (auto simp: core_units_def word_less_nat_alt max_def)
  have si: "sint (?nu * of_nat HSIZE) = int (core_units n * HSIZE)" using sint_units [of ?nu] assms(2) nu by simp
  have pos: "0 < core_units n" by (simp add: core_units_def)
  show ?thesis
  proof (cases "brk s + core_units n * HSIZE \<le> brk_max s")
    case False
    then show ?thesis using si pos by (simp add: morecore_def u_sbrk_def Let_def HSIZE_def nat_mult_distrib)
  next
    case True
    let ?hp = "brk s" and ?s = "s\<lparr>brk := brk s + core_units n * HSIZE, hmem := set_size (brk s) ?nu (hmem s)\<rparr>"
    have out: "x < ?hp" if "x \<in> set xs" for x
    proof (cases "x = bs")
      case False
      then have "x < block_end (hmem s) x" using h(10) that by simp
      also have "\<dots> \<le> ?hp" using apart_ends [OF h(2) that] .
      finally show ?thesis .
    qed (use h(5) in simp)
    then have same: "hmem ?s x = hmem s x" if "x \<in> set xs" for x using that by (force simp: set_size_def)
    have hl: "heap_list bs ?s xs"
    proof (rule heap_listI)
      show "links (hmem ?s) xs bs" using h(1) same links_cong [of xs "hmem ?s" "hmem s" bs] by simp
      have "apart (hmem ?s) xs (brk s)" using h(2) same apart_cong [of xs "hmem ?s" "hmem s" "brk s"] by simp
      then show "apart (hmem ?s) xs (brk ?s)" by (rule apart_mono) simp
      show "h_size (hmem ?s bs) = 0" using h(8,5) by (simp add: set_size_def)
      show "xs = bs # tl xs" by (rule h(9))
      show "h_size (hmem ?s x) \<noteq> 0" if "x \<in> set xs" "x \<noteq> bs" for x using h(10) [OF that] same [OF that(1)] by simp
    qed (use h True in simp_all)
    have sz: "unat (h_size (hmem ?s ?hp)) = core_units n" using nu by (simp add: set_size_def)
    have reg: "region (hmem ?s) ?hp = {brk s..<brk ?s}" using sz by (simp add: region_def block_end_def mult.commute)
    have fb: "free_bytes (hmem ?s) xs = free_bytes (hmem s) xs" using same by (intro free_bytes_cong) simp
    have low: "free_bytes (hmem s) xs \<subseteq> {..<brk s}"
      using apart_ends [OF h(2)] by (fastforce simp: free_bytes_def region_def)
    have "allocated bs ?s xs ?hp"
      unfolding allocated_def reg fb using h(5) low out [of ?hp] sz pos by (auto simp: block_end_def mult.commute)
    from ufree_spec [OF hl this] obtain t ys y where t: "ufree (?hp + HSIZE) ?s = Some t" "heap_list bs t ys" "brk t = brk ?s"
      "free_bytes (hmem t) ys = free_bytes (hmem ?s) xs \<union> region (hmem ?s) ?hp" "y \<in> set ys"
      "region (hmem ?s) ?hp \<subseteq> region (hmem t) y" "\<forall>x. x \<notin> insert ?hp (set xs) \<longrightarrow> hmem t x = hmem ?s x" by blast
    have "core_units n * HSIZE \<le> unat (h_size (hmem t y)) * HSIZE"
      using t(6) pos unfolding reg by (auto simp: region_def block_end_def HSIZE_def)
    then have "n \<le> h_size (hmem t y)" by (simp add: HSIZE_def core_units_def word_le_nat_alt)
    moreover have "morecore n s = Some (Some (freep t), t)"
      using si pos True t(1) by (simp add: morecore_def u_sbrk_def Let_def nat_mult_distrib HSIZE_def)
    moreover have "hmem t x = hmem s x" if "x \<notin> insert bs (free_bytes (hmem s) xs)" "x < brk s" for x
    proof -
      have "x \<notin> insert ?hp (set xs)" using that heap_set [OF assms(1)] by blast
      then show ?thesis using t(7) by (simp add: set_size_def)
    qed
    ultimately show ?thesis using True t fb reg by auto
  qed
qed


section \<open>malloc\<close>

lemma nunits_for_fits: "unat nbytes \<le> HSIZE * (unat (nunits_for nbytes) - 1)" "nunits_for nbytes \<noteq> 0"
proof -
  have "unat nbytes < 2 ^ 32" using unsigned_less [of nbytes] by simp
  then have "(unat nbytes + HSIZE - 1) div HSIZE + 1 < 2 ^ 32" by (simp add: HSIZE_def)
  moreover have "unat (of_nat k :: u32) = k" if "k < 2 ^ 32" for k using that by (simp add: unat_of_nat)
  ultimately have n: "unat (nunits_for nbytes) = (unat nbytes + HSIZE - 1) div HSIZE + 1"
    unfolding nunits_for_def by blast
  then show "unat nbytes \<le> HSIZE * (unat (nunits_for nbytes) - 1)" by (simp add: HSIZE_def)
  show "nunits_for nbytes \<noteq> 0" using n by (metis Suc_eq_plus1 nat.distinct(1) unat_0)
qed

lemma malloc_none:
  assumes "heap_list bs s xs" and "\<forall>x \<in> set xs. h_size (hmem s x) < n"
  shows "malloc_loop n (freep s) (h_ptr (hmem s (freep s))) s = (case morecore n s of
          None \<Rightarrow> None
        | Some (None, t) \<Rightarrow> Some (None, t)
        | Some (Some p', t) \<Rightarrow> malloc_loop n p' (h_ptr (hmem t p')) t)"
proof -
  obtain ws where w: "links (hmem s) (freep s # ws) (freep s)" "set xs = insert (freep s) (set ws)" "freep s \<notin> set ws"
    using search_order [OF assms(1)] by blast
  have "links (hmem s) ((freep s # ws) @ [freep s]) (h_ptr (hmem s (freep s)))" unfolding links_append using w(1) by simp
  then show ?thesis using malloc_loop_miss [of s "freep s" ws "h_ptr (hmem s (freep s))" n] w assms(2) by auto
qed

text \<open>What a call gives: nothing, with the heap as it was, or a block.\<close>

definition refused :: "u32 \<Rightarrow> heap \<Rightarrow> nat list \<Rightarrow> bool" where
  "refused n s xs \<longleftrightarrow> (\<forall>x \<in> set xs. h_size (hmem s x) < n) \<and> brk_max s < brk s + core_units n * HSIZE"

definition granted :: "nat \<Rightarrow> u32 \<Rightarrow> heap \<Rightarrow> nat list \<Rightarrow> nat \<Rightarrow> heap \<Rightarrow> nat list \<Rightarrow> bool" where
  "granted bs n s xs q t ys \<longleftrightarrow> heap_list bs t ys \<and> allocated bs t ys q \<and> h_size (hmem t q) = n
     \<and> region (hmem t) q \<subseteq> free_bytes (hmem s) xs \<union> {brk s..<brk t}
     \<and> free_bytes (hmem t) ys = free_bytes (hmem s) xs \<union> {brk s..<brk t} - region (hmem t) q
     \<and> (\<forall>x. x \<notin> insert bs (free_bytes (hmem s) xs) \<and> x < brk s \<longrightarrow> hmem t x = hmem s x)"

lemma malloc_loop_spec:
  assumes "heap_list bs s xs" and "n \<noteq> 0" and "core_units n * HSIZE < 2 ^ 31"
  shows "if refused n s xs then malloc_loop n (freep s) (h_ptr (hmem s (freep s))) s = Some (None, s)
    else \<exists>q t ys. malloc_loop n (freep s) (h_ptr (hmem s (freep s))) s = Some (Some (q + HSIZE), t) \<and> granted bs n s xs q t ys"
proof (cases "\<exists>x \<in> set xs. n \<le> h_size (hmem s x)")
  case True
  then have "\<not> refused n s xs" by (auto simp: refused_def not_less)
  moreover from malloc_found [OF assms(1,2) True] obtain q t ys where
    "malloc_loop n (freep s) (h_ptr (hmem s (freep s))) s = Some (Some (q + HSIZE), t)" "granted bs n s xs q t ys"
    unfolding granted_def by force
  ultimately show ?thesis by auto
next
  case False
  then have small: "\<forall>x \<in> set xs. h_size (hmem s x) < n" by (auto simp: not_le)
  note step = malloc_none [OF assms(1) small] and core = morecore_spec [OF assms(1,3)]
  show ?thesis
  proof (cases "brk s + core_units n * HSIZE \<le> brk_max s")
    case True
    from core [unfolded if_P [OF True]] obtain t ys where t: "morecore n s = Some (Some (freep t), t)" "heap_list bs t ys"
      "brk t = brk s + core_units n * HSIZE"
      "free_bytes (hmem t) ys = free_bytes (hmem s) xs \<union> {brk s..<brk t}" "\<exists>y \<in> set ys. n \<le> h_size (hmem t y)"
      "\<And>x. x \<notin> insert bs (free_bytes (hmem s) xs) \<Longrightarrow> x < brk s \<Longrightarrow> hmem t x = hmem s x"
      by blast
    from malloc_found [OF t(2) assms(2) t(5)] obtain q u zs where u:
      "malloc_loop n (freep t) (h_ptr (hmem t (freep t))) t = Some (Some (q + HSIZE), u)" "heap_list bs u zs"
      "allocated bs u zs q" "h_size (hmem u q) = n" "region (hmem u) q \<subseteq> free_bytes (hmem t) ys" "brk u = brk t"
      "free_bytes (hmem u) zs = free_bytes (hmem t) ys - region (hmem u) q"
      "\<forall>x. x \<notin> insert bs (free_bytes (hmem t) ys) \<longrightarrow> hmem u x = hmem t x" by blast
    have "hmem u x = hmem s x" if "x \<notin> insert bs (free_bytes (hmem s) xs)" "x < brk s" for x
      using that t(4) t(6) [OF that] u(8) by auto
    then have "granted bs n s xs q u zs" using u(2-7) t(4) by (simp add: granted_def)
    moreover have "\<not> refused n s xs" using True by (simp add: refused_def)
    ultimately show ?thesis using step t(1) u(1) by auto
  next
    case False
    then show ?thesis using step core small by (auto simp: refused_def)
  qed
qed


text \<open>
  C16. Freeing a block the program holds: the search for its place ends, the list is well formed again,
  exactly the bytes of the block are added to the free memory, joined with the free neighbours, and
  no header outside the list and the block changes.
\<close>

theorem ufree_correct:
  assumes "heap_list bs s xs" and "allocated bs s xs bp"
  shows "\<exists>t ys. ufree (bp + HSIZE) s = Some t \<and> heap_list bs t ys \<and> brk t = brk s
    \<and> free_bytes (hmem t) ys = free_bytes (hmem s) xs \<union> region (hmem s) bp
    \<and> (\<exists>y \<in> set ys. region (hmem s) bp \<subseteq> region (hmem t) y)
    \<and> (\<forall>x. x \<notin> insert bp (set xs) \<longrightarrow> hmem t x = hmem s x)"
  using ufree_spec [OF assms] by blast


text \<open>A heap before the first call, and one with a free block and one held by the program.\<close>

definition heap0 :: heap where
  "heap0 = \<lparr>hmem = \<lambda>_. \<lparr>h_ptr = 0, h_size = 0\<rparr>, freep = 0, brk = 8192, brk_max = 2 ^ 27\<rparr>"

definition heap1 :: heap where
  "heap1 = \<lparr>hmem = (\<lambda>_. \<lparr>h_ptr = 0, h_size = 0\<rparr>)(4096 := \<lparr>h_ptr = 8192, h_size = 0\<rparr>,
     8192 := \<lparr>h_ptr = 4096, h_size = 2\<rparr>, 8224 := \<lparr>h_ptr = 0, h_size = 3\<rparr>), freep = 4096, brk = 8272, brk_max = 2 ^ 27\<rparr>"


theorem ufree_correct_witness:
  "\<exists>t ys. ufree (8224 + HSIZE) heap1 = Some t \<and> heap_list 4096 t ys \<and> free_bytes (hmem t) ys = {8192..<8272}"
proof -
  have "heap_list 4096 heap1 [4096, 8192]" by (simp add: heap_list_def heap1_def block_end_def HSIZE_def)
  moreover have "allocated 4096 heap1 [4096, 8192] 8224"
    by (auto simp: allocated_def heap1_def block_end_def HSIZE_def free_bytes_def region_def)
  ultimately obtain t ys where "ufree (8224 + HSIZE) heap1 = Some t" "heap_list 4096 t ys"
    "free_bytes (hmem t) ys = free_bytes (hmem heap1) [4096, 8192] \<union> region (hmem heap1) 8224"
    using ufree_correct by blast
  moreover have "free_bytes (hmem heap1) [4096, 8192] \<union> region (hmem heap1) 8224 = {8192..<8272}"
    by (auto simp: heap1_def block_end_def HSIZE_def free_bytes_def region_def)
  ultimately show ?thesis by auto
qed

text \<open>
  C40. The byte count of \<^verbatim>\<open>morecore\<close> is cut to an \<^verbatim>\<open>int\<close>: on a fresh heap a request for
  \<^verbatim>\<open>0xffffffff\<close> bytes needs 2^28 + 1 units, of which \<^verbatim>\<open>sbrk\<close> is asked for 16 bytes, so the call
  succeeds, the process has grown by 16 bytes only, and the block ends far outside of it.
\<close>

theorem malloc_truncated:
  assumes "freep s = 0" and "0 < bs" and "bs < brk s" and "brk s + 16 \<le> brk_max s"
  shows "\<exists>t. malloc bs 0xffffffff s = Some (Some (brk s + HSIZE), t) \<and> brk t = brk s + HSIZE
    \<and> block_end (hmem t) (brk s) = brk s + 2 ^ 32 + HSIZE"
proof -
  have n: "nunits_for 0xffffffff = 0x10000001" by (simp add: nunits_for_def HSIZE_def)
  define s1 where "s1 = malloc_init bs s"
  have s1: "hmem s1 bs = \<lparr>h_ptr = bs, h_size = 0\<rparr>" "freep s1 = bs" "brk s1 = brk s" "brk_max s1 = brk_max s"
    using assms(1) by (simp_all add: s1_def malloc_init_def)
  define m where "m = set_ptr bs (brk s) (set_ptr (brk s) bs (set_size (brk s) 0x10000001 (hmem s1)))"
  define s2 where "s2 = s1\<lparr>brk := brk s + 16, hmem := m, freep := bs\<rparr>"
  have "free_find (set_size (brk s) 0x10000001 (hmem s1)) (brk s) bs = Some bs"
    using assms s1 by (subst free_find.simps) (simp add: set_size_def)
  then have mc: "morecore 0x10000001 s1 = Some (Some bs, s2)"
    using assms s1 by (simp add: morecore_def u_sbrk_def HSIZE_def ufree_def free_join_def Let_def block_end_def s2_def m_def
      set_ptr_def set_size_def)
  have m: "hmem s2 bs = \<lparr>h_ptr = brk s, h_size = 0\<rparr>" "h_size (hmem s2 (brk s)) = 0x10000001"
    using assms s1 by (simp_all add: s2_def m_def set_ptr_def set_size_def)
  have "malloc bs 0xffffffff s = malloc_loop 0x10000001 bs bs s1"
    using s1 by (simp add: malloc_def n Let_def flip: s1_def)
  also have "\<dots> = malloc_loop 0x10000001 bs (brk s) s2"
    using s1 mc m by (subst malloc_loop.simps) simp
  also have "\<dots> = Some (Some (brk s + HSIZE), s2\<lparr>hmem := set_ptr bs (h_ptr (hmem s2 (brk s))) (hmem s2), freep := bs\<rparr>)"
    using m by (subst malloc_loop.simps) (simp add: carve_def Let_def)
  finally show ?thesis using m assms by (simp add: s2_def block_end_def set_ptr_def HSIZE_def)
qed

theorem malloc_truncated_witness:
  "\<exists>t. malloc 4096 0xffffffff heap0 = Some (Some 8208, t) \<and> brk t = 8208"
  using malloc_truncated [of heap0 4096] by (simp add: heap0_def HSIZE_def) blast

end
