(* ===== verification/Console.thy ===== *)
theory Console
  imports Sysfile Sched_Props Printf
begin

text \<open>
  The console: \<^verbatim>\<open>kernel/console.c\<close> on the serial port of \<^verbatim>\<open>kernel/uart.c\<close>, \<^verbatim>\<open>procdump\<close> of \<^verbatim>\<open>kernel/proc.c\<close>,
  and the reading and writing of files that may be devices (\<^verbatim>\<open>fileread\<close>, \<^verbatim>\<open>filewrite\<close>, \<^verbatim>\<open>sys_read\<close>,
  \<^verbatim>\<open>sys_write\<close>).

  The registers of the serial port are outside the memory: \<open>thr\<close> is the sequence of bytes stored in
  the transmit register, and what an interrupt finds in the status and receive registers is an
  argument of \<open>uartintr\<close>. \<^verbatim>\<open>uartputc_sync\<close> polls until the port is idle and stores its byte.

  \<^verbatim>\<open>consoleread\<close>, \<^verbatim>\<open>uartwrite\<close> and \<^verbatim>\<open>filewrite\<close> may sleep after they have done part of their work. They
  return their result or what they have done when they wait, and are called again with it when the
  process runs again.
\<close>

section \<open>Data\<close>

definition INPUT_BUF_SIZE :: nat where "INPUT_BUF_SIZE = 128"
definition CONSOLE :: nat where "CONSOLE = 1"

datatype dev_fn = Consoleread | Consolewrite

record devsw_entry =
  d_read :: "dev_fn option"
  d_write :: "dev_fn option"

record cons_state = file_state +
  cons_buf :: bytes
  cons_r :: u32
  cons_w :: u32
  cons_e :: u32
  tx_busy :: bool
  thr :: bytes
  devsw :: "devsw_entry list"

section \<open>Serial port\<close>

definition uartputc_sync :: "uchar \<Rightarrow> ('a cons_state_scheme, unit) kmon" where
  "uartputc_sync c = modk (\<lambda>s. s\<lparr>thr := thr s @ [c]\<rparr>)"

text \<open>\<^verbatim>\<open>uartwrite\<close> returns the bytes it has not sent; there are some when it waits for the port.\<close>

primrec uartwrite :: "bytes \<Rightarrow> ('a cons_state_scheme, bytes) kmon" where
  "uartwrite [] = ret []"
| "uartwrite (c # cs) =
     bindk (gets tx_busy) (\<lambda>busy.
     if busy then ret (c # cs)
     else thenk (modk (\<lambda>s. s\<lparr>thr := thr s @ [c], tx_busy := True\<rparr>)) (uartwrite cs))"

section \<open>Console\<close>

definition BACKSPACE :: int where "BACKSPACE = 0x100"

definition consputc :: "int \<Rightarrow> ('a cons_state_scheme, unit) kmon" where
  "consputc c =
     (if c = BACKSPACE then thenk (uartputc_sync 8) (thenk (uartputc_sync 32) (uartputc_sync 8))
      else uartputc_sync (of_int c))"

definition printk :: "bytes \<Rightarrow> arg list \<Rightarrow> ('a cons_state_scheme, unit) kmon" where
  "printk fmt ap =
     (case kprintf kdigits fmt ap of
        None \<Rightarrow> fault ''va_arg''
      | Some b \<Rightarrow> for_each b (\<lambda>c. consputc (uint c)))"

definition state_name :: "procstate \<Rightarrow> bytes" where
  "state_name st = str (case st of UNUSED \<Rightarrow> ''unused'' | USED \<Rightarrow> ''used'' | SLEEPING \<Rightarrow> ''sleep ''
     | RUNNABLE \<Rightarrow> ''runble'' | RUNNING \<Rightarrow> ''run   '' | ZOMBIE \<Rightarrow> ''zombie'')"

definition procdump :: "('a cons_state_scheme, unit) kmon" where
  "procdump =
     thenk (printk [10] [])
     (for_each [0..<NPROC] (\<lambda>i.
        bindk (gets (\<lambda>s. procs s ! i)) (\<lambda>p.
        if p_state p = UNUSED then ret ()
        else thenk (printk (str ''%d %s %s'') [Num (of_int (p_pid p)), Str (Some (state_name (p_state p))), Str (Some (p_name p))])
          (printk [10] []))))"

text \<open>The edit index after the line is erased, and what is sent for it.\<close>

function kill_line :: "bytes \<Rightarrow> u32 \<Rightarrow> u32 \<Rightarrow> u32" where
  "kill_line buf w e =
     (if e \<noteq> w \<and> buf ! (unat (e - 1) mod INPUT_BUF_SIZE) \<noteq> 10 then kill_line buf w (e - 1) else e)"
  by pat_completeness auto
termination
proof (relation "measure (\<lambda>(buf, w, e). unat (e - w))")
  fix buf :: bytes and w e :: u32
  assume "e \<noteq> w \<and> buf ! (unat (e - 1) mod INPUT_BUF_SIZE) \<noteq> 10"
  then have "e - w \<noteq> 0" by simp
  then have "unat (e - w - 1) < unat (e - w)" using unat_minus_one [of "e - w"] by (simp add: unat_gt_0)
  moreover have "e - 1 - w = e - w - 1" by simp
  ultimately show "((buf, w, e - 1), (buf, w, e)) \<in> measure (\<lambda>(buf, w, e). unat (e - w))"
    by (simp only: in_measure prod.case)
qed simp

declare kill_line.simps [simp del]

definition erase_line :: "('a cons_state_scheme, unit) kmon" where
  "erase_line =
     bindk (gets (\<lambda>s. (cons_e s, kill_line (cons_buf s) (cons_w s) (cons_e s)))) (\<lambda>(e, e').
     thenk (modk (\<lambda>s. s\<lparr>cons_e := e'\<rparr>)) (for_each [0..<unat (e - e')] (\<lambda>_. consputc BACKSPACE)))"

definition erase_char :: "('a cons_state_scheme, unit) kmon" where
  "erase_char =
     bindk (gets (\<lambda>s. cons_e s \<noteq> cons_w s)) (\<lambda>some.
     whenk some (thenk (modk (\<lambda>s. s\<lparr>cons_e := cons_e s - 1\<rparr>)) (consputc BACKSPACE)))"

definition store_char :: "nat \<Rightarrow> int \<Rightarrow> ('a cons_state_scheme, unit) kmon" where
  "store_char h c =
     bindk (gets (\<lambda>s. c \<noteq> 0 \<and> unat (cons_e s - cons_r s) < INPUT_BUF_SIZE)) (\<lambda>room.
     whenk room
       (let c = (if c = 13 then 10 else c) in
        thenk (consputc c)
        (thenk (modk (\<lambda>s. s\<lparr>cons_buf := (cons_buf s)[unat (cons_e s) mod INPUT_BUF_SIZE := of_int c], cons_e := cons_e s + 1\<rparr>))
        (bindk (gets (\<lambda>s. c = 10 \<or> c = 4 \<or> unat (cons_e s - cons_r s) = INPUT_BUF_SIZE)) (\<lambda>commit.
         whenk commit (thenk (modk (\<lambda>s. s\<lparr>cons_w := cons_e s\<rparr>)) (wakeup h ChanCons)))))))"

definition consoleintr :: "nat \<Rightarrow> int \<Rightarrow> ('a cons_state_scheme, unit) kmon" where
  "consoleintr h c =
     (if c = 16 then procdump
      else if c = 21 then erase_line
      else if c = 8 \<or> c = 127 then erase_char
      else store_char h c)"

text \<open>An interrupt finds the transmitter \<open>idle\<close> or not, and the bytes \<open>cs\<close> received.\<close>

definition uartintr :: "nat \<Rightarrow> bool \<Rightarrow> bytes \<Rightarrow> ('a cons_state_scheme, unit) kmon" where
  "uartintr h idle cs =
     thenk (whenk idle (thenk (modk (\<lambda>s. s\<lparr>tx_busy := False\<rparr>)) (wakeup h ChanUart)))
     (for_each cs (\<lambda>c. consoleintr h (uint c)))"

text \<open>
  \<^verbatim>\<open>consoleread\<close> with the bytes \<open>acc\<close> delivered so far: \<open>Got\<close> the bytes, \<open>Gone\<close> when the process is killed,
  \<open>Pending\<close> when it waits for input.
\<close>

datatype read_result = Got bytes | Gone | Pending bytes

primrec consoleread_loop :: "nat \<Rightarrow> u64 \<Rightarrow> nat \<Rightarrow> udst \<Rightarrow> bytes \<Rightarrow> ('a cons_state_scheme, read_result) kmon" where
  "consoleread_loop 0 kend me dst acc = ret (Got acc)"
| "consoleread_loop (Suc k) kend me dst acc =
     bindk (gets (\<lambda>s. (cons_r s = cons_w s, cons_buf s ! (unat (cons_r s) mod INPUT_BUF_SIZE)))) (\<lambda>(none, c).
     if none then bindk (killed me) (\<lambda>kl. ret (if kl \<noteq> 0 then Gone else Pending acc))
     else thenk (modk (\<lambda>s. s\<lparr>cons_r := cons_r s + 1\<rparr>))
       (if c = 4 then thenk (whenk (acc \<noteq> []) (modk (\<lambda>s. s\<lparr>cons_r := cons_r s - 1\<rparr>))) (ret (Got acc))
        else bindk (either_copyout kend me dst (length acc) [c]) (\<lambda>r.
          if r = - 1 then ret (Got acc)
          else if c = 10 then ret (Got (acc @ [c]))
          else consoleread_loop k kend me dst (acc @ [c]))))"

definition consoleread :: "u64 \<Rightarrow> nat \<Rightarrow> udst \<Rightarrow> int \<Rightarrow> bytes \<Rightarrow> ('a cons_state_scheme, read_result) kmon" where
  "consoleread kend me dst n acc = consoleread_loop (nat n - length acc) kend me dst acc"

text \<open>
  Writing goes by pieces of 32 bytes. \<open>Unsent i cs\<close> is a call that waits for the serial port with
  \<open>i\<close> bytes done before this piece and \<open>cs\<close> left of it.
\<close>

datatype fwrite_result = Written int | Unsent nat bytes

function consolewrite_loop :: "u64 \<Rightarrow> nat \<Rightarrow> usrc \<Rightarrow> nat \<Rightarrow> nat \<Rightarrow> ('a cons_state_scheme, fwrite_result) kmon" where
  "consolewrite_loop kend me src n i =
     (if i < n then
        let nn = min 32 (n - i) in
        bindk (either_copyin kend me src i nn) (\<lambda>(r, bs).
        if r = - 1 then ret (Written (int i))
        else bindk (uartwrite bs) (\<lambda>left.
          if left \<noteq> [] then ret (Unsent i left)
          else consolewrite_loop kend me src n (i + nn)))
      else ret (Written (int i)))"
  by pat_completeness auto
termination
  by (relation "measure (\<lambda>(_, _, _, n, i). n - i)") auto

declare consolewrite_loop.simps [simp del]

definition consolewrite :: "u64 \<Rightarrow> nat \<Rightarrow> usrc \<Rightarrow> int \<Rightarrow> nat \<Rightarrow> bytes \<Rightarrow> ('a cons_state_scheme, fwrite_result) kmon" where
  "consolewrite kend me src n i left =
     bindk (uartwrite left) (\<lambda>left'.
     if left' \<noteq> [] then ret (Unsent i left')
     else consolewrite_loop kend me src (nat n) (if left = [] then i else i + min 32 (nat n - i)))"

definition consoleinit :: "('a cons_state_scheme, unit) kmon" where
  "consoleinit = modk (\<lambda>s. s\<lparr>devsw := (devsw s)[CONSOLE := \<lparr>d_read = Some Consoleread, d_write = Some Consolewrite\<rparr>]\<rparr>)"

section \<open>Files\<close>

definition dev_read :: "dev_fn \<Rightarrow> u64 \<Rightarrow> nat \<Rightarrow> udst \<Rightarrow> int \<Rightarrow> bytes \<Rightarrow> ('a cons_state_scheme, read_result) kmon" where
  "dev_read fn = (case fn of Consoleread \<Rightarrow> consoleread | Consolewrite \<Rightarrow> (\<lambda>_ _ _ _ _. fault ''devsw''))"

definition dev_write :: "dev_fn \<Rightarrow> u64 \<Rightarrow> nat \<Rightarrow> usrc \<Rightarrow> int \<Rightarrow> nat \<Rightarrow> bytes \<Rightarrow> ('a cons_state_scheme, fwrite_result) kmon" where
  "dev_write fn = (case fn of Consolewrite \<Rightarrow> consolewrite | Consoleread \<Rightarrow> (\<lambda>_ _ _ _ _ _. fault ''devsw''))"

definition dev_entry :: "int \<Rightarrow> 'a cons_state_scheme \<Rightarrow> devsw_entry" where
  "dev_entry major s =
     (if major < 0 \<or> major \<ge> NDEV then \<lparr>d_read = None, d_write = None\<rparr> else devsw s ! nat major)"

text \<open>\<^verbatim>\<open>fileread\<close>: a number of bytes or -1, or the bytes of a device delivered when it waits.\<close>

datatype fread_result = Returned int | Waiting bytes

definition fileread :: "u64 \<Rightarrow> nat \<Rightarrow> nat \<Rightarrow> nat \<Rightarrow> u64 \<Rightarrow> int \<Rightarrow> bytes \<Rightarrow> ('a cons_state_scheme, fread_result) kmon" where
  "fileread kend h me f addr n acc =
     bindk (file_at f) (\<lambda>x.
     if \<not> f_readable x then ret (Returned (- 1))
     else case f_type x of
       FD_PIPE \<Rightarrow> bindk (piperead kend h me (f_pipe x) addr n) (\<lambda>r. ret (Returned r))
     | FD_DEVICE \<Rightarrow>
         bindk (gets (\<lambda>s. d_read (dev_entry (f_major x) s))) (\<lambda>d.
         case d of
           None \<Rightarrow> ret (Returned (- 1))
         | Some fn \<Rightarrow> bindk (dev_read fn kend me (UserDst addr) n acc) (\<lambda>r.
             ret (case r of Got bs \<Rightarrow> Returned (int (length bs)) | Gone \<Rightarrow> Returned (- 1) | Pending bs \<Rightarrow> Waiting bs)))
     | FD_INODE \<Rightarrow>
         thenk (ilock (f_ip x))
         (bindk (readi kend me (f_ip x) (UserDst addr) (f_off x) (of_int n)) (\<lambda>(r, _).
          thenk (whenk (r > 0) (upd_file f (\<lambda>y. y\<lparr>f_off := f_off y + of_int r\<rparr>)))
          (thenk (iunlock (f_ip x)) (ret (Returned r)))))
     | FD_NONE \<Rightarrow> panic ''fileread'')"

definition WRITE_MAX :: nat where
  "WRITE_MAX = ((MAXOPBLOCKS - 1 - 1 - 2) div 2) * BSIZE"

text \<open>The transactions of a write to an inode from byte \<open>i\<close> on; \<open>Unsent i []\<close> waits for room in the log.\<close>

function write_inode :: "u64 \<Rightarrow> nat \<Rightarrow> nat \<Rightarrow> nat \<Rightarrow> u64 \<Rightarrow> nat \<Rightarrow> nat \<Rightarrow> ('a cons_state_scheme, fwrite_result) kmon" where
  "write_inode kend me f ip addr n i =
     (if i < n then
        let n1 = min (n - i) WRITE_MAX in
        (\<lambda>s. case begin_op s of
           Inl (Asleep _) \<Rightarrow> Inr (Unsent i [], s)
         | Inl e \<Rightarrow> Inl e
         | Inr (_, s') \<Rightarrow>
             thenk (ilock ip)
             (bindk (file_at f) (\<lambda>x.
              bindk (writei kend me ip (UserSrc (addr + of_nat i)) (f_off x) (of_nat n1)) (\<lambda>r.
              thenk (whenk (r > 0) (upd_file f (\<lambda>y. y\<lparr>f_off := f_off y + of_int r\<rparr>)))
              (thenk (iunlock ip)
              (thenk end_op
              (if r \<noteq> int n1 then ret (Written (- 1))
               else write_inode kend me f ip addr n (i + n1))))))) s')
      else ret (Written (int n)))"
  by pat_completeness auto
termination
  by (relation "measure (\<lambda>(_, _, _, _, _, n, i). n - i)") (auto simp: WRITE_MAX_def MAXOPBLOCKS_def BSIZE_def)

declare write_inode.simps [simp del]

definition filewrite :: "u64 \<Rightarrow> nat \<Rightarrow> nat \<Rightarrow> nat \<Rightarrow> u64 \<Rightarrow> int \<Rightarrow> nat \<Rightarrow> bytes \<Rightarrow> ('a cons_state_scheme, fwrite_result) kmon" where
  "filewrite kend h me f addr n i left =
     bindk (file_at f) (\<lambda>x.
     if \<not> f_writable x then ret (Written (- 1))
     else case f_type x of
       FD_PIPE \<Rightarrow> bindk (pipewrite kend h me (f_pipe x) addr n i) (\<lambda>r.
         ret (case r of Wrote k \<Rightarrow> Written k | Waits j \<Rightarrow> Unsent j []))
     | FD_DEVICE \<Rightarrow>
         bindk (gets (\<lambda>s. d_write (dev_entry (f_major x) s))) (\<lambda>d.
         case d of
           None \<Rightarrow> ret (Written (- 1))
         | Some fn \<Rightarrow> dev_write fn kend me (UserSrc addr) n i left)
     | FD_INODE \<Rightarrow> if n < 0 then ret (Written (- 1)) else write_inode kend me f (f_ip x) addr (nat n) i
     | FD_NONE \<Rightarrow> panic ''filewrite'')"

definition sys_read :: "u64 \<Rightarrow> nat \<Rightarrow> nat \<Rightarrow> bytes \<Rightarrow> ('a cons_state_scheme, fread_result) kmon" where
  "sys_read kend h me acc =
     bindk (argaddr me 1) (\<lambda>p.
     bindk (argint me 2) (\<lambda>n.
     bindk (argfd me 0) (\<lambda>r.
     case r of None \<Rightarrow> ret (Returned (- 1)) | Some (_, f) \<Rightarrow> fileread kend h me f p n acc)))"

definition sys_write :: "u64 \<Rightarrow> nat \<Rightarrow> nat \<Rightarrow> nat \<Rightarrow> bytes \<Rightarrow> ('a cons_state_scheme, fwrite_result) kmon" where
  "sys_write kend h me i left =
     bindk (argaddr me 1) (\<lambda>p.
     bindk (argint me 2) (\<lambda>n.
     bindk (argfd me 0) (\<lambda>r.
     case r of None \<Rightarrow> ret (Written (- 1)) | Some (_, f) \<Rightarrow> filewrite kend h me f p n i left)))"

section \<open>The circular buffer\<close>

text \<open>The bytes between two indices. The indices wrap at \<open>2 ^ 32\<close>, a multiple of the buffer size.\<close>

definition window :: "bytes \<Rightarrow> u32 \<Rightarrow> u32 \<Rightarrow> bytes" where
  "window buf a b = map (\<lambda>i. buf ! ((unat a + i) mod INPUT_BUF_SIZE)) [0..<unat (b - a)]"

lemma length_window [simp]: "length (window buf a b) = unat (b - a)"
  by (simp add: window_def)

lemma index_Suc: "unat (x + 1 :: u32) mod INPUT_BUF_SIZE = Suc (unat x) mod INPUT_BUF_SIZE"
proof -
  have "unat (x + 1) = Suc (unat x) mod 2 ^ 32" by (simp add: unat_word_ariths)
  moreover have "Suc (unat x) mod 2 ^ 32 mod 128 = Suc (unat x) mod 128" by (rule mod_mod_cancel) simp
  ultimately show ?thesis by (simp add: INPUT_BUF_SIZE_def)
qed

lemma index_diff: "(unat (x :: u32) + unat (y - x)) mod INPUT_BUF_SIZE = unat y mod INPUT_BUF_SIZE"
proof -
  have "unat (x + (y - x)) = (unat x + unat (y - x)) mod 2 ^ 32" by (simp only: unat_word_ariths) simp
  then have "unat y = (unat x + unat (y - x)) mod 2 ^ 32" by simp
  moreover have "(unat x + unat (y - x)) mod 2 ^ 32 mod 128 = (unat x + unat (y - x)) mod 128"
    by (rule mod_mod_cancel) simp
  ultimately show ?thesis by (simp add: INPUT_BUF_SIZE_def)
qed

lemma count_up: "unat (y - x :: u32) < 128 \<Longrightarrow> unat (y + 1 - x) = Suc (unat (y - x))"
proof -
  assume a: "unat (y - x) < 128"
  have "y + 1 - x = (y - x) + 1" by simp
  moreover have "unat ((y - x) + 1) = Suc (unat (y - x))" using a by (simp add: unat_word_ariths)
  ultimately show ?thesis by (simp only:)
qed

lemma count_down: "y \<noteq> x \<Longrightarrow> unat (y - 1 - x :: u32) = unat (y - x) - 1" "y \<noteq> x \<Longrightarrow> unat (y - (x + 1) :: u32) = unat (y - x) - 1"
proof -
  assume "y \<noteq> x"
  then have "y - x \<noteq> 0" by simp
  then have "unat (y - x - 1) = unat (y - x) - 1" by (rule unat_minus_one)
  moreover have "y - 1 - x = y - x - 1" "y - (x + 1) = y - x - 1" by simp_all
  ultimately show "unat (y - 1 - x) = unat (y - x) - 1" "unat (y - (x + 1)) = unat (y - x) - 1" by (simp_all only:)
qed

text \<open>A store at \<open>e\<close> does not touch a window that starts at \<open>a\<close> and ends at or before \<open>e\<close>.\<close>

lemma window_store:
  assumes "unat (b - a) \<le> unat (e - a)" and "unat (e - a) < 128"
  shows "window (buf[unat e mod INPUT_BUF_SIZE := c]) a b = window buf a b"
proof -
  have "(unat a + i) mod INPUT_BUF_SIZE \<noteq> unat e mod INPUT_BUF_SIZE" if "i < unat (b - a)" for i
  proof
    assume "(unat a + i) mod INPUT_BUF_SIZE = unat e mod INPUT_BUF_SIZE"
    then have "(unat a + unat (e - a)) mod 128 = (unat a + i) mod 128" using index_diff [of a e] by (simp add: INPUT_BUF_SIZE_def)
    then have "128 dvd (unat a + unat (e - a)) - (unat a + i)" using that assms(1) by (subst (asm) mod_eq_dvd_iff_nat) simp_all
    then have "128 dvd unat (e - a) - i" by simp
    then show False using that assms by (auto dest: dvd_imp_le)
  qed
  then have "buf[unat e mod INPUT_BUF_SIZE := c] ! ((unat a + i) mod INPUT_BUF_SIZE) = buf ! ((unat a + i) mod INPUT_BUF_SIZE)"
    if "i < unat (b - a)" for i using that nth_list_update_neq by metis
  then show ?thesis by (simp add: window_def)
qed

lemma window_put:
  assumes "length buf = INPUT_BUF_SIZE" and "unat (e - a) < 128"
  shows "window (buf[unat e mod INPUT_BUF_SIZE := c]) a (e + 1) = window buf a e @ [c]"
proof -
  have "window (buf[unat e mod INPUT_BUF_SIZE := c]) a (e + 1)
      = window (buf[unat e mod INPUT_BUF_SIZE := c]) a e @ [buf[unat e mod INPUT_BUF_SIZE := c] ! (unat e mod INPUT_BUF_SIZE)]"
    using assms(2) index_diff [of a e] by (simp add: window_def count_up)
  then show ?thesis using assms window_store [of e a e] by (simp add: INPUT_BUF_SIZE_def)
qed

lemma window_take:
  assumes "a \<noteq> b"
  shows "window buf a b = buf ! (unat a mod INPUT_BUF_SIZE) # window buf (a + 1) b"
proof -
  have n: "unat (b - a) = Suc (unat (b - (a + 1)))"
    using count_down(2) [of b a] assms by (cases "unat (b - a)") (auto simp: unat_eq_zero)
  have "(unat (a + 1) + i) mod INPUT_BUF_SIZE = (unat a + Suc i) mod INPUT_BUF_SIZE" for i
    using mod_add_cong [OF index_Suc [of a] refl, of i] by simp
  then show ?thesis unfolding window_def n by (simp add: map_upt_Suc del: upt_Suc)
qed

lemma window_drop:
  assumes "a \<noteq> b"
  shows "window buf a b = window buf a (b - 1) @ [buf ! (unat (b - 1) mod INPUT_BUF_SIZE)]"
proof -
  have n: "unat (b - a) = Suc (unat (b - 1 - a))"
    using count_down(1) [of b a] assms by (cases "unat (b - a)") (auto simp: unat_eq_zero)
  then show ?thesis using index_diff [of a "b - 1"] by (simp add: window_def)
qed

lemma count_split: "unat (w - r) + unat (e - w) \<le> 128 \<Longrightarrow> unat (e - r :: u32) = unat (w - r) + unat (e - w)"
proof -
  assume "unat (w - r) + unat (e - w) \<le> 128"
  moreover have "unat (x + y) = unat x + unat y" if "unat x + unat y \<le> 128" for x y :: u32
    using that by (simp add: unat_word_ariths)
  ultimately have "unat ((w - r) + (e - w)) = unat (w - r) + unat (e - w)" by blast
  then show ?thesis by simp
qed

lemma window_split:
  assumes "unat (w - r) + unat (e - w) \<le> 128"
  shows "window buf r e = window buf r w @ window buf w e"
proof (rule nth_equalityI)
  fix i
  assume i: "i < length (window buf r e)"
  have "(unat w + j) mod INPUT_BUF_SIZE = (unat r + (unat (w - r) + j)) mod INPUT_BUF_SIZE" for j
    using mod_add_cong [OF index_diff [of r w] refl, of j] by (simp add: add.assoc)
  then show "window buf r e ! i = (window buf r w @ window buf w e) ! i"
    using i count_split [OF assms] by (auto simp: nth_append window_def)
qed (use count_split [OF assms] in simp)

section \<open>Line editing\<close>

text \<open>
  The console as its users see it: the bytes ready to be read, and the line being edited, which holds
  no end of line. A full buffer has no line being edited, so a reader can always make room.
\<close>

definition ready :: "'a cons_state_scheme \<Rightarrow> bytes" where
  "ready s = window (cons_buf s) (cons_r s) (cons_w s)"

definition editing :: "'a cons_state_scheme \<Rightarrow> bytes" where
  "editing s = window (cons_buf s) (cons_w s) (cons_e s)"

definition cons_ok :: "'a cons_state_scheme \<Rightarrow> bool" where
  "cons_ok s \<longleftrightarrow> length (cons_buf s) = INPUT_BUF_SIZE \<and> length (ready s) + length (editing s) \<le> INPUT_BUF_SIZE
     \<and> 10 \<notin> set (editing s) \<and> 4 \<notin> set (editing s) \<and> (length (ready s) + length (editing s) = INPUT_BUF_SIZE \<longrightarrow> editing s = [])"

definition edit_char :: "int \<Rightarrow> bytes \<times> bytes \<Rightarrow> bytes \<times> bytes" where
  "edit_char c = (\<lambda>(rd, ed).
     if c = 21 then (rd, [])
     else if c = 8 \<or> c = 127 then (rd, butlast ed)
     else if c = 0 \<or> length rd + length ed \<ge> INPUT_BUF_SIZE then (rd, ed)
     else let b = (if c = 13 then 10 else of_int c) in
       if b = 10 \<or> b = 4 \<or> Suc (length rd + length ed) = INPUT_BUF_SIZE then (rd @ ed @ [b], [])
       else (rd, ed @ [b]))"

definition echo :: "int \<Rightarrow> bytes" where
  "echo c = (if c = BACKSPACE then [8, 32, 8] else [of_int c])"

lemma consputc_thr [simp]: "wp (consputc c) s Q \<longleftrightarrow> Q () (s\<lparr>thr := thr s @ echo c\<rparr>)"
  by (simp add: consputc_def uartputc_sync_def echo_def)

lemma cons_ok_thr [simp]: "cons_ok (s\<lparr>thr := x\<rparr>) = cons_ok s" "ready (s\<lparr>thr := x\<rparr>) = ready s" "editing (s\<lparr>thr := x\<rparr>) = editing s"
  by (simp_all add: cons_ok_def ready_def editing_def)

lemma cons_ok_busy [simp]: "cons_ok (s\<lparr>tx_busy := x\<rparr>) = cons_ok s" "ready (s\<lparr>tx_busy := x\<rparr>) = ready s"
  "editing (s\<lparr>tx_busy := x\<rparr>) = editing s"
  by (simp_all add: cons_ok_def ready_def editing_def)

lemma cons_same_sched:
  assumes "same_sched s t"
  shows "cons_ok t = cons_ok s" "ready t = ready s" "editing t = editing s"
  using assms by (auto simp: same_sched_def cons_ok_def ready_def editing_def)

lemma wp_wakeup_cons:
  assumes "rq_inv s" and "\<And>t. rq_inv t \<Longrightarrow> same_sched s t \<Longrightarrow> Q () t"
  shows "wp (wakeup h c) s Q"
  using wakeup_run [OF assms(1)] by (rule wp_mono) (auto simp: woken_upto_def assms(2))

lemma rq_inv_cons [simp]:
  fixes s :: "'a cons_state_scheme"
  shows "rq_inv (s\<lparr>thr := a\<rparr>) = rq_inv s" "rq_inv (s\<lparr>tx_busy := b\<rparr>) = rq_inv s" "rq_inv (s\<lparr>cons_e := e\<rparr>) = rq_inv s"
    "rq_inv (s\<lparr>cons_w := w\<rparr>) = rq_inv s" "rq_inv (s\<lparr>cons_r := r\<rparr>) = rq_inv s" "rq_inv (s\<lparr>cons_buf := d\<rparr>) = rq_inv s"
  by (simp_all add: rq_inv_def queue_def)

lemma kill_line_all:
  assumes "10 \<notin> set (window buf w e)"
  shows "kill_line buf w e = w"
  using assms
proof (induction buf w e rule: kill_line.induct)
  case (1 buf w e)
  then show ?case using window_drop [of w e buf] by (subst kill_line.simps) (cases "e = w", auto)
qed

lemma erase_line_spec:
  assumes "cons_ok s" and "rq_inv s"
  shows "wp erase_line s (\<lambda>_ t. cons_ok t \<and> rq_inv t \<and> ready t = ready s \<and> editing t = [])"
proof -
  have k: "kill_line (cons_buf s) (cons_w s) (cons_e s) = cons_w s"
    by (rule kill_line_all) (use assms(1) in \<open>simp add: cons_ok_def editing_def\<close>)
  let ?t = "s\<lparr>cons_e := cons_w s\<rparr>" and ?I = "\<lambda>t. cons_ok t \<and> rq_inv t \<and> ready t = ready s \<and> editing t = []"
  have "editing ?t = []" "ready ?t = ready s" by (simp_all add: editing_def ready_def window_def)
  moreover from this have "cons_ok ?t" using assms(1) by (simp add: cons_ok_def)
  ultimately have t: "?I ?t" using assms(2) by simp
  have "wp (for_each xs (\<lambda>_. consputc BACKSPACE)) ?t (\<lambda>_ t. ?I t)" for xs :: "nat list"
    by (rule wp_for_each [where I = "\<lambda>_ t. ?I t"]) (use t in simp_all)
  then show ?thesis by (simp add: erase_line_def k)
qed

lemma erase_char_spec:
  assumes "cons_ok s" and "rq_inv s"
  shows "wp erase_char s (\<lambda>_ t. cons_ok t \<and> rq_inv t \<and> ready t = ready s \<and> editing t = butlast (editing s))"
proof (cases "cons_e s = cons_w s")
  case True
  then show ?thesis using assms by (simp add: erase_char_def editing_def window_def)
next
  case False
  let ?t = "s\<lparr>cons_e := cons_e s - 1\<rparr>"
  have e: "editing s = editing ?t @ [cons_buf s ! (unat (cons_e s - 1) mod INPUT_BUF_SIZE)]" "ready ?t = ready s"
    using window_drop [of "cons_w s" "cons_e s"] False by (simp_all add: editing_def ready_def)
  then have "cons_ok ?t" using assms(1) by (auto simp: cons_ok_def)
  then show ?thesis using assms(2) e False by (simp add: erase_char_def)
qed

lemma store_spec:
  fixes s :: "'a cons_state_scheme" and b
  assumes "cons_ok s" and "length (ready s) + length (editing s) < INPUT_BUF_SIZE"
  defines "t \<equiv> s\<lparr>cons_buf := (cons_buf s)[unat (cons_e s) mod INPUT_BUF_SIZE := b], cons_e := cons_e s + 1\<rparr>"
  shows "ready t = ready s" "editing t = editing s @ [b]" "length (cons_buf t) = INPUT_BUF_SIZE"
    "unat (cons_e t - cons_r t) = Suc (length (ready s) + length (editing s))"
    "ready (t\<lparr>cons_w := cons_e t\<rparr>) = ready s @ editing s @ [b]" "editing (t\<lparr>cons_w := cons_e t\<rparr>) = []"
proof -
  let ?r = "cons_r s" and ?w = "cons_w s" and ?e = "cons_e s"
  have n: "unat (?w - ?r) + unat (?e - ?w) < 128" and len: "length (cons_buf s) = INPUT_BUF_SIZE"
    using assms(1,2) by (simp_all add: cons_ok_def ready_def editing_def INPUT_BUF_SIZE_def)
  have er: "unat (?e - ?r) = unat (?w - ?r) + unat (?e - ?w)" using count_split [of ?w ?r ?e] n by simp
  show r: "ready t = ready s" using window_store [of ?w ?r ?e] n er by (simp add: t_def ready_def)
  show e: "editing t = editing s @ [b]" using window_put [OF len, of ?e ?w] n by (simp add: t_def editing_def)
  show "length (cons_buf t) = INPUT_BUF_SIZE" using len by (simp add: t_def)
  show "unat (cons_e t - cons_r t) = Suc (length (ready s) + length (editing s))"
    using count_up [of ?e ?r] er n by (simp add: t_def ready_def editing_def)
  have c: "unat (cons_w t - cons_r t) + unat (cons_e t - cons_w t) \<le> 128"
    using count_up [of ?e ?w] n by (simp add: t_def)
  show "ready (t\<lparr>cons_w := cons_e t\<rparr>) = ready s @ editing s @ [b]"
    using window_split [OF c, of "cons_buf t"] r e by (simp add: ready_def editing_def)
  show "editing (t\<lparr>cons_w := cons_e t\<rparr>) = []" by (simp add: editing_def window_def)
qed

lemma store_char_spec:
  assumes "cons_ok s" and "rq_inv s" and "0 \<le> c" and "c < 256"
    and "edit_char c (ready s, editing s) = x" and "c \<noteq> 21" "c \<noteq> 8" "c \<noteq> 127"
  shows "wp (store_char h c) s (\<lambda>_ t. cons_ok t \<and> rq_inv t \<and> (ready t, editing t) = x)"
proof (cases "c \<noteq> 0 \<and> length (ready s) + length (editing s) < INPUT_BUF_SIZE")
  case False
  have "unat (cons_e s - cons_r s) = length (ready s) + length (editing s)"
    using count_split [of "cons_w s" "cons_r s" "cons_e s"] assms(1) by (simp add: cons_ok_def ready_def editing_def INPUT_BUF_SIZE_def)
  moreover have "x = (ready s, editing s)" using assms(5-) False by (auto simp: edit_char_def)
  ultimately show ?thesis using False assms(1,2) by (auto simp: store_char_def)
next
  case True
  define b :: uchar where "b = (if c = 13 then 10 else of_int c)"
  define k where "k = (if c = 13 then 10 else c)"
  have b: "of_int k = b" by (simp add: b_def k_def)
  have "uint (of_int c :: uchar) = c mod 2 ^ 8" by (simp only: uint_word_of_int) simp
  then have "uint (of_int c :: uchar) = c" using assms(3,4) by simp
  then have key: "k = 10 \<longleftrightarrow> b = 10" "k = 4 \<longleftrightarrow> b = 4" by (auto simp: b_def k_def)
  define u where "u = s\<lparr>thr := thr s @ echo k\<rparr>"
  define t where "t = u\<lparr>cons_buf := (cons_buf u)[unat (cons_e u) mod INPUT_BUF_SIZE := b], cons_e := cons_e u + 1\<rparr>"
  have u: "cons_ok u" "ready u = ready s" "editing u = editing s" using assms(1) by (simp_all add: u_def)
  note st = store_spec [of u b, folded t_def, unfolded u(2,3), OF u(1)]
  have lt: "length (ready s) + length (editing s) < INPUT_BUF_SIZE" using True by simp
  note st = st [OF lt]
  have er: "unat (cons_e s - cons_r s) = length (ready s) + length (editing s)"
    using count_split [of "cons_w s" "cons_r s" "cons_e s"] assms(1) by (simp add: cons_ok_def ready_def editing_def INPUT_BUF_SIZE_def)
  have x: "x = (if b = 10 \<or> b = 4 \<or> Suc (length (ready s) + length (editing s)) = INPUT_BUF_SIZE
      then (ready s @ editing s @ [b], []) else (ready s, editing s @ [b]))"
    using assms(5-) True by (auto simp: edit_char_def Let_def b_def)
  have rq: "rq_inv t" "rq_inv (t\<lparr>cons_w := cons_e t\<rparr>)" using assms(2) by (simp_all add: t_def u_def)
  have "cons_ok (t\<lparr>cons_w := cons_e t\<rparr>)"
    unfolding cons_ok_def using st lt by simp
  moreover have "cons_ok t" if "\<not> (b = 10 \<or> b = 4 \<or> Suc (length (ready s) + length (editing s)) = INPUT_BUF_SIZE)"
    unfolding cons_ok_def using that st lt assms(1) by (auto simp: cons_ok_def)
  ultimately have "wp (whenk (b = 10 \<or> b = 4 \<or> unat (cons_e t - cons_r t) = INPUT_BUF_SIZE)
      (thenk (modk (\<lambda>s. s\<lparr>cons_w := cons_e s\<rparr>)) (wakeup h ChanCons))) t
      (\<lambda>_ t. cons_ok t \<and> rq_inv t \<and> (ready t, editing t) = x)"
    using rq st x by (auto simp: cons_same_sched intro!: wp_wakeup_cons)
  then show ?thesis
    unfolding store_char_def Let_def k_def [symmetric] key [symmetric] using True er by (simp add: b u_def t_def split del: if_split cong: if_cong)
qed

lemma consoleintr_spec:
  assumes "cons_ok s" and "rq_inv s" and "0 \<le> c" and "c < 256" and "c \<noteq> 16"
  shows "wp (consoleintr h c) s (\<lambda>_ t. cons_ok t \<and> rq_inv t \<and> (ready t, editing t) = edit_char c (ready s, editing s))"
proof -
  consider "c = 21" | "c = 8 \<or> c = 127" | "c \<noteq> 21" "c \<noteq> 8" "c \<noteq> 127" by blast
  then show ?thesis
  proof cases
    case 1
    then show ?thesis using erase_line_spec [OF assms(1,2)] by (simp add: consoleintr_def edit_char_def)
  next
    case 2
    then show ?thesis using erase_char_spec [OF assms(1,2)] by (auto simp: consoleintr_def edit_char_def)
  next
    case 3
    then show ?thesis using store_char_spec [OF assms(1-4) refl 3] assms(5) by (simp add: consoleintr_def)
  qed
qed

lemma keys_spec:
  fixes cs :: bytes and s :: "'a cons_state_scheme"
  assumes "cons_ok s" and "rq_inv s" and "16 \<notin> set cs"
  shows "wp (for_each cs (\<lambda>c. consoleintr h (uint c))) s
    (\<lambda>_ t. cons_ok t \<and> rq_inv t \<and> (ready t, editing t) = fold (\<lambda>c. edit_char (uint c)) cs (ready s, editing s))"
  using assms
proof (induction cs arbitrary: s)
  case Nil
  then show ?case by simp
next
  case (Cons c cs)
  have "uint c < 256" by (rule less_le_trans [OF uint_lt2p]) simp
  moreover have "uint c \<noteq> 16" using Cons.prems(3) by (auto simp: word_uint_eq_iff)
  ultimately have "wp (consoleintr h (uint c)) s
      (\<lambda>_ t. cons_ok t \<and> rq_inv t \<and> (ready t, editing t) = edit_char (uint c) (ready s, editing s))"
    by (intro consoleintr_spec) (use Cons.prems in simp_all)
  then show ?case unfolding for_each.simps wp_thenk
  proof (rule wp_mono)
    fix y and t :: "'a cons_state_scheme"
    assume t: "cons_ok t \<and> rq_inv t \<and> (ready t, editing t) = edit_char (uint c) (ready s, editing s)"
    then have "wp (for_each cs (\<lambda>c. consoleintr h (uint c))) t
      (\<lambda>_ u. cons_ok u \<and> rq_inv u \<and> (ready u, editing u) = fold (\<lambda>c. edit_char (uint c)) cs (ready t, editing t))"
      using Cons.IH [of t] Cons.prems(3) by simp
    then show "wp (for_each cs (\<lambda>c. consoleintr h (uint c))) t
      (\<lambda>_ u. cons_ok u \<and> rq_inv u \<and> (ready u, editing u) = fold (\<lambda>c. edit_char (uint c)) (c # cs) (ready s, editing s))"
      using t by simp
  qed
qed

lemma uartintr_spec:
  assumes "cons_ok s" and "rq_inv s" and "16 \<notin> set cs"
  shows "wp (uartintr h idle cs) s
    (\<lambda>_ t. cons_ok t \<and> rq_inv t \<and> (ready t, editing t) = fold (\<lambda>c. edit_char (uint c)) cs (ready s, editing s))"
proof (cases idle)
  case False
  then show ?thesis using keys_spec [OF assms] by (simp add: uartintr_def)
next
  case True
  let ?s = "s\<lparr>tx_busy := False\<rparr>"
  have "wp (for_each cs (\<lambda>c. consoleintr h (uint c))) t
      (\<lambda>_ u. cons_ok u \<and> rq_inv u \<and> (ready u, editing u) = fold (\<lambda>c. edit_char (uint c)) cs (ready s, editing s))"
    if "rq_inv t" "same_sched ?s t" for t
    using keys_spec [of t cs h] that assms cons_same_sched [OF that(2)] by simp
  then show ?thesis using True assms(2) by (simp add: uartintr_def wp_wakeup_cons)
qed


section \<open>Reading\<close>

text \<open>
  What a read of up to \<open>k\<close> more bytes takes from the bytes that are ready: at most one line. \<^verbatim>\<open>^D\<close> ends the
  read; it stays in front of the next read unless this one has delivered nothing.
\<close>

definition line_read :: "nat \<Rightarrow> bytes \<Rightarrow> bytes \<Rightarrow> read_result \<times> bytes" where
  "line_read k acc rd =
     (let p = takeWhile (\<lambda>c. c \<noteq> 10 \<and> c \<noteq> 4) rd in
      if k \<le> length p then (Got (acc @ take k rd), drop k rd)
      else case drop (length p) rd of
        [] \<Rightarrow> (Pending (acc @ rd), [])
      | c # rd' \<Rightarrow> if c = 10 then (Got (acc @ p @ [10]), rd')
                  else (Got (acc @ p), if acc @ p = [] then rd' else c # rd'))"

lemma line_read_simps [simp]:
  "line_read 0 acc rd = (Got acc, rd)"
  "line_read (Suc k) acc [] = (Pending acc, [])"
  "line_read (Suc k) acc (c # rd) = (if c = 4 then (Got acc, if acc = [] then rd else c # rd)
     else if c = 10 then (Got (acc @ [10]), rd) else line_read k (acc @ [c]) rd)"
  by (auto simp: line_read_def Let_def split: list.splits)

lemma read_loop_spec:
  assumes "cons_ok s" and "p_killed (procs s ! me) = 0"
  shows "wp (consoleread_loop k kend me KernDst acc) s
    (\<lambda>r t. (r, ready t) = line_read k acc (ready s) \<and> editing t = editing s \<and> cons_ok t)"
  using assms
proof (induction k arbitrary: s acc)
  case 0
  then show ?case by simp
next
  case (Suc k)
  show ?case
  proof (cases "cons_r s = cons_w s")
    case True
    then have "ready s = []" by (simp add: ready_def window_def)
    then show ?thesis using True Suc.prems by (simp add: killed_def)
  next
    case False
    let ?c = "cons_buf s ! (unat (cons_r s) mod INPUT_BUF_SIZE)" and ?t = "s\<lparr>cons_r := cons_r s + 1\<rparr>"
    have r: "ready s = ?c # ready ?t" "editing ?t = editing s"
      using window_take [OF False] by (simp_all add: ready_def editing_def)
    have ok: "cons_ok ?t" using Suc.prems(1) r by (auto simp: cons_ok_def)
    show ?thesis using Suc.IH [of ?t "acc @ [?c]"] Suc.prems False ok r by (simp add: either_copyout_def)
  qed
qed

text \<open>
  A read from the console takes what \<open>line_read\<close> says, at most one line and at most \<open>n\<close> bytes, from the
  bytes that are ready, never touches the line being edited and keeps the console well formed. It
  waits exactly when the ready bytes hold no end of line and are fewer than it wants.
\<close>

theorem consoleread_correct:
  assumes "cons_ok s" and "p_killed (procs s ! me) = 0"
  shows "wp (consoleread kend me KernDst n acc) s
    (\<lambda>r t. (r, ready t) = line_read (nat n - length acc) acc (ready s) \<and> editing t = editing s \<and> cons_ok t)"
  unfolding consoleread_def by (rule read_loop_spec [OF assms])

text \<open>The keys that have no meaning of their own.\<close>

definition plain :: "uchar \<Rightarrow> bool" where
  "plain c \<longleftrightarrow> c \<notin> {0, 4, 8, 10, 13, 16, 21, 127}"

lemma type_plain:
  assumes "\<forall>c \<in> set cs. plain c" and "length ed + length cs < 128"
  shows "fold (\<lambda>c. edit_char (uint c)) cs ([], ed) = ([], ed @ cs)"
  using assms
proof (induction cs arbitrary: ed)
  case (Cons c cs)
  have "uint c \<noteq> k" if "k \<in> {0, 8, 13, 21, 127}" for k using that Cons.prems(1) by (auto simp: plain_def word_uint_eq_iff)
  then have "edit_char (uint c) ([], ed) = ([], ed @ [c])"
    using Cons.prems by (auto simp: edit_char_def INPUT_BUF_SIZE_def plain_def)
  then show ?case using Cons by simp
qed simp


section \<open>Writing\<close>

text \<open>
  A write of the bytes \<open>bs\<close>: the port takes one byte per transmit interrupt. The driver below lets an
  interrupt come each time the call waits, \<open>k\<close> times at most.
\<close>

primrec drain :: "nat \<Rightarrow> nat \<Rightarrow> u64 \<Rightarrow> nat \<Rightarrow> bytes \<Rightarrow> fwrite_result \<Rightarrow> ('a cons_state_scheme, fwrite_result) kmon" where
  "drain 0 h kend me bs r = ret r"
| "drain (Suc k) h kend me bs r =
     (case r of
        Written _ \<Rightarrow> ret r
      | Unsent i left \<Rightarrow>
          thenk (uartintr h True []) (bindk (consolewrite kend me (KernSrc bs) (int (length bs)) i left) (drain k h kend me bs)))"

text \<open>\<open>p\<close> bytes are sent when the call waits or returns with \<open>r\<close>.\<close>

definition sent :: "bytes \<Rightarrow> fwrite_result \<Rightarrow> nat \<Rightarrow> bool" where
  "sent bs r p \<longleftrightarrow> (case r of
     Written k \<Rightarrow> k = int (length bs) \<and> p = length bs
   | Unsent i left \<Rightarrow> left \<noteq> [] \<and> i \<le> p \<and> p + length left = i + min 32 (length bs - i) \<and> left = slice p (length left) bs)"

lemma cw_loop_busy:
  assumes "tx_busy s" and "i \<le> length bs"
  shows "\<exists>r. consolewrite_loop kend me (KernSrc bs) (length bs) i s = Inr (r, s) \<and> sent bs r i"
proof (cases "i < length bs")
  case True
  let ?c = "slice i (min 32 (length bs - i)) bs"
  have l: "length ?c = min 32 (length bs - i)" using True by (simp add: slice_def)
  then obtain c cs where c: "?c = c # cs" using True by (cases ?c) auto
  have "consolewrite_loop kend me (KernSrc bs) (length bs) i s = Inr (Unsent i ?c, s)"
    using True assms(1) c by (subst consolewrite_loop.simps)
      (simp add: either_copyin_def bindk_def ret_def gets_def)
  then show ?thesis using l c by (auto simp: sent_def)
next
  case False
  then show ?thesis using assms(2) by (subst consolewrite_loop.simps) (simp add: ret_def sent_def)
qed

lemma slice_Cons:
  assumes "slice p (Suc k) bs = c # cs"
  shows "c = bs ! p" "p < length bs" "cs = slice (Suc p) k bs"
proof -
  show p: "p < length bs" using assms by (rule contrapos_pp) (simp add: slice_def)
  show "c = bs ! p" "cs = slice (Suc p) k bs" using assms Cons_nth_drop_Suc [OF p, symmetric] by (simp_all add: slice_def)
qed

lemma consolewrite_step:
  assumes "sent bs (Unsent i left) p" and "\<not> tx_busy s"
  shows "\<exists>r. consolewrite kend me (KernSrc bs) (int (length bs)) i left s
      = Inr (r, s\<lparr>thr := thr s @ [bs ! p], tx_busy := True\<rparr>) \<and> sent bs r (Suc p)"
proof -
  obtain c cs where l: "left = c # cs" using assms(1) by (cases left) (auto simp: sent_def)
  have w: "i \<le> p" "p + Suc (length cs) = i + min 32 (length bs - i)" "c # cs = slice p (Suc (length cs)) bs"
    using assms(1) by (simp_all add: sent_def l)
  then have c: "c = bs ! p" "cs = slice (Suc p) (length cs) bs" "p < length bs" using slice_Cons [of p "length cs" bs c cs] by metis+
  let ?t = "s\<lparr>thr := thr s @ [bs ! p], tx_busy := True\<rparr>"
  show ?thesis
  proof (cases cs)
    case Nil
    then have e: "i + min 32 (length bs - i) = Suc p" using w by simp
    obtain r where r: "consolewrite_loop kend me (KernSrc bs) (length bs) (Suc p) ?t = Inr (r, ?t)" "sent bs r (Suc p)"
      using cw_loop_busy [of ?t "Suc p" bs kend me] c(3) by auto
    then show ?thesis using assms(2) l Nil c(1) e
      by (auto simp: consolewrite_def bindk_def thenk_def ret_def gets_def modk_def)
  next
    case (Cons d ds)
    then have "cs \<noteq> []" by simp
    then have "sent bs (Unsent i cs) (Suc p)" using w(1,2) c(2) by (simp add: sent_def)
    then show ?thesis using assms(2) l Cons c(1)
      by (auto simp: consolewrite_def bindk_def thenk_def ret_def gets_def modk_def)
  qed
qed

lemma sent_pos: "sent bs (Unsent i left) p \<Longrightarrow> p < length bs"
  by (cases left) (auto simp: sent_def min_def split: if_splits)

lemma drain_spec:
  assumes "sent bs r p" and "rq_inv s" and "thr s = x @ take p bs" and "length bs - p \<le> k"
  shows "wp (drain k h kend me bs r) s (\<lambda>r t. r = Written (int (length bs)) \<and> thr t = x @ bs)"
  using assms
proof (induction k arbitrary: r p s)
  case 0
  then show ?case using sent_pos [of bs _ _ p] by (cases r) (auto simp: sent_def)
next
  case (Suc k)
  show ?case
  proof (cases r)
    case (Written n)
    then show ?thesis using Suc.prems by (simp add: sent_def)
  next
    case (Unsent i left)
    have "wp (bindk (consolewrite kend me (KernSrc bs) (int (length bs)) i left) (drain k h kend me bs)) t
        (\<lambda>r t. r = Written (int (length bs)) \<and> thr t = x @ bs)"
      if t: "rq_inv t" "same_sched (s\<lparr>tx_busy := False\<rparr>) t" for t
    proof -
      have b: "\<not> tx_busy t" "thr t = thr s" using t(2) by (auto simp: same_sched_def)
      obtain r' where r': "consolewrite kend me (KernSrc bs) (int (length bs)) i left t
          = Inr (r', t\<lparr>thr := thr t @ [bs ! p], tx_busy := True\<rparr>)" "sent bs r' (Suc p)"
        using consolewrite_step [OF Suc.prems(1) [unfolded Unsent] b(1)] by blast
      have "wp (drain k h kend me bs r') (t\<lparr>thr := thr t @ [bs ! p], tx_busy := True\<rparr>)
          (\<lambda>r t. r = Written (int (length bs)) \<and> thr t = x @ bs)"
        using Suc.prems(3,4) b(2) t(1) sent_pos [OF Suc.prems(1) [unfolded Unsent]]
        by (intro Suc.IH [OF r'(2)]) (auto simp: take_Suc_conv_app_nth)
      then show ?thesis using r'(1) by (simp add: wp_def bindk_def)
    qed
    then show ?thesis using Suc.prems(2) Unsent by (simp add: uartintr_def wp_wakeup_cons)
  qed
qed


text \<open>A console with indices about to wrap, on the two processes of the scheduler example.\<close>

definition demo_cons :: cons_state where
  "demo_cons = undefined\<lparr>procs := procs (demo_sched USED USED), rq := rq (demo_sched USED USED),
     cons_buf := replicate 128 0, cons_r := 4294967294, cons_w := 4294967294, cons_e := 4294967294, tx_busy := True, thr := []\<rparr>"

lemma demo_cons_facts:
  "cons_ok demo_cons" "rq_inv demo_cons" "ready demo_cons = []" "editing demo_cons = []" "p_killed (procs demo_cons ! 0) = 0"
proof -
  show 1: "ready demo_cons = []" "editing demo_cons = []" by (simp_all add: demo_cons_def ready_def editing_def window_def)
  then show "cons_ok demo_cons" by (simp add: cons_ok_def demo_cons_def INPUT_BUF_SIZE_def)
  show "rq_inv demo_cons" using demo_inv [of USED USED] by (simp add: rq_inv_def queue_def demo_cons_def)
  show "p_killed (procs demo_cons ! 0) = 0" by (simp add: demo_cons_def demo_sched_def demo_proc_def)
qed


theorem consoleread_correct_witness:
  "wp (consoleread 0 0 KernDst 5 []) demo_cons (\<lambda>r t. r = Pending [] \<and> ready t = [])"
  using consoleread_correct [of demo_cons 0 0 5 "[]"] demo_cons_facts by (auto simp: line_read_def elim!: wp_mono)



end
