(* ===== verification/Exec.thy ===== *)
theory Exec
  imports Sysfile Proc
begin

text \<open>
  Program loading: \<^verbatim>\<open>kernel/exec.c\<close>, the headers of \<^verbatim>\<open>kernel/elf.h\<close>, and \<^verbatim>\<open>sys_exec\<close>.

  A header is read into a kernel buffer and decoded. The program segments are read into the physical
  pages that the new page table gives. \<open>tramp\<close> is the physical address of the trampoline, \<open>me\<close> the index
  of \<^verbatim>\<open>myproc()\<close>. The strings of \<^verbatim>\<open>argv\<close> are lists of bytes; \<^verbatim>\<open>sys_exec\<close> also keeps each in a page of its own.
\<close>

section \<open>Headers\<close>

definition ELF_MAGIC :: u32 where "ELF_MAGIC = 0x464C457F"
definition ELF_PROG_LOAD :: u32 where "ELF_PROG_LOAD = 1"
definition MAXARG :: nat where "MAXARG = 32"
definition USERSTACK :: nat where "USERSTACK = 1"

record elfhdr =
  e_magic :: u32
  e_elf :: bytes
  e_type :: ushort
  e_machine :: ushort
  e_version :: u32
  e_entry :: u64
  e_phoff :: u64
  e_shoff :: u64
  e_flags :: u32
  e_ehsize :: ushort
  e_phentsize :: ushort
  e_phnum :: ushort
  e_shentsize :: ushort
  e_shnum :: ushort
  e_shstrndx :: ushort

record proghdr =
  ph_type :: u32
  ph_flags :: u32
  ph_off :: u64
  ph_vaddr :: u64
  ph_paddr :: u64
  ph_filesz :: u64
  ph_memsz :: u64
  ph_align :: u64

definition ELFHDR_SIZE :: nat where "ELFHDR_SIZE = 64"
definition PROGHDR_SIZE :: nat where "PROGHDR_SIZE = 56"

definition dec_elfhdr :: "bytes \<Rightarrow> elfhdr" where
  "dec_elfhdr b = \<lparr>e_magic = dec32 (slice 0 4 b), e_elf = slice 4 12 b, e_type = dec16 (slice 16 2 b), e_machine = dec16 (slice 18 2 b),
     e_version = dec32 (slice 20 4 b), e_entry = dec64 (slice 24 8 b), e_phoff = dec64 (slice 32 8 b), e_shoff = dec64 (slice 40 8 b),
     e_flags = dec32 (slice 48 4 b), e_ehsize = dec16 (slice 52 2 b), e_phentsize = dec16 (slice 54 2 b), e_phnum = dec16 (slice 56 2 b),
     e_shentsize = dec16 (slice 58 2 b), e_shnum = dec16 (slice 60 2 b), e_shstrndx = dec16 (slice 62 2 b)\<rparr>"

definition dec_proghdr :: "bytes \<Rightarrow> proghdr" where
  "dec_proghdr b = \<lparr>ph_type = dec32 (slice 0 4 b), ph_flags = dec32 (slice 4 4 b), ph_off = dec64 (slice 8 8 b),
     ph_vaddr = dec64 (slice 16 8 b), ph_paddr = dec64 (slice 24 8 b), ph_filesz = dec64 (slice 32 8 b),
     ph_memsz = dec64 (slice 40 8 b), ph_align = dec64 (slice 48 8 b)\<rparr>"

section \<open>Segments\<close>

definition flags2perm :: "u32 \<Rightarrow> u64" where
  "flags2perm flags =
     (let perm = (if and flags 1 \<noteq> 0 then PTE_X else 0) in if and flags 2 \<noteq> 0 then or perm PTE_W else perm)"

text \<open>The turns left of the loop of \<^verbatim>\<open>loadseg\<close>, at byte \<open>i\<close> of the segment.\<close>

primrec loadseg_loop :: "nat \<Rightarrow> u64 \<Rightarrow> nat \<Rightarrow> u64 \<Rightarrow> u64 \<Rightarrow> nat \<Rightarrow> u32 \<Rightarrow> u32 \<Rightarrow> u32 \<Rightarrow> ('a fs_state_scheme, int) kmon" where
  "loadseg_loop 0 kend me pt va ip offset sz i = ret 0"
| "loadseg_loop (Suc k) kend me pt va ip offset sz i =
     bindk (walkaddr pt (va + ucast i)) (\<lambda>pa.
     if pa = 0 then panic ''loadseg: address should exist''
     else let n = (if sz - i < of_nat PGSIZE then sz - i else of_nat PGSIZE) in
       bindk (readi kend me ip KernDst (offset + i) n) (\<lambda>(r, bs).
       thenk (modk (\<lambda>s. s\<lparr>pmem := put_bytes (unat pa) bs (pmem s)\<rparr>))
       (if r \<noteq> uint n then ret (- 1) else loadseg_loop k kend me pt va ip offset sz (i + of_nat PGSIZE))))"

definition loadseg :: "u64 \<Rightarrow> nat \<Rightarrow> u64 \<Rightarrow> u64 \<Rightarrow> nat \<Rightarrow> u32 \<Rightarrow> u32 \<Rightarrow> ('a fs_state_scheme, int) kmon" where
  "loadseg kend me pt va ip offset sz = loadseg_loop ((unat sz + PGSIZE - 1) div PGSIZE) kend me pt va ip offset sz 0"

text \<open>The loop over the program headers: \<open>Inl\<close> the size at which it gave up, \<open>Inr\<close> the size reached.\<close>

primrec load_segs :: "nat \<Rightarrow> u64 \<Rightarrow> nat \<Rightarrow> nat \<Rightarrow> u64 \<Rightarrow> u32 \<Rightarrow> u64 \<Rightarrow> ('a fs_state_scheme, u64 + u64) kmon" where
  "load_segs 0 kend me ip pt off sz = ret (Inr sz)"
| "load_segs (Suc n) kend me ip pt off sz =
     bindk (readi kend me ip KernDst off (of_nat PROGHDR_SIZE)) (\<lambda>(r, bs).
     if r \<noteq> int PROGHDR_SIZE then ret (Inl sz)
     else let ph = dec_proghdr bs in
       if ph_type ph \<noteq> ELF_PROG_LOAD then load_segs n kend me ip pt (off + of_nat PROGHDR_SIZE) sz
       else if ph_memsz ph < ph_filesz ph then ret (Inl sz)
       else if ph_vaddr ph + ph_memsz ph < ph_vaddr ph then ret (Inl sz)
       else if ph_vaddr ph mod of_nat PGSIZE \<noteq> 0 then ret (Inl sz)
       else bindk (uvmalloc kend pt sz (ph_vaddr ph + ph_memsz ph) (flags2perm (ph_flags ph))) (\<lambda>sz1.
         if sz1 = 0 then ret (Inl sz)
         else bindk (loadseg kend me pt (ph_vaddr ph) ip (ucast (ph_off ph)) (ucast (ph_filesz ph))) (\<lambda>r.
           if r < 0 then ret (Inl sz1)
           else load_segs n kend me ip pt (off + of_nat PROGHDR_SIZE) sz1)))"

section \<open>Arguments\<close>

definition align16 :: "u64 \<Rightarrow> u64" where
  "align16 sp = sp - sp mod 16"

text \<open>The strings on the new stack, and their addresses \<^verbatim>\<open>ustack\<close>.\<close>

primrec push_args :: "bytes list \<Rightarrow> u64 \<Rightarrow> nat \<Rightarrow> u64 \<Rightarrow> u64 \<Rightarrow> u64 \<Rightarrow> u64 list \<Rightarrow> ('a sched_state_scheme, (u64 \<times> u64 list) option) kmon" where
  "push_args [] kend me pt stackbase sp ustack = ret (Some (sp, ustack))"
| "push_args (w # ws) kend me pt stackbase sp ustack =
     (if length ustack \<ge> MAXARG then ret None
      else let sp = align16 (sp - of_nat (length w + 1)) in
        if sp < stackbase then ret None
        else bindk (copyout kend me pt sp (w @ [0])) (\<lambda>r.
          if r < 0 then ret None
          else push_args ws kend me pt stackbase sp (ustack @ [sp])))"

text \<open>Then the array of the addresses itself; a store past its \<^verbatim>\<open>MAXARG\<close> entries is a fault.\<close>

definition push_argv :: "bytes list \<Rightarrow> u64 \<Rightarrow> nat \<Rightarrow> u64 \<Rightarrow> u64 \<Rightarrow> u64 \<Rightarrow> ('a sched_state_scheme, u64 option) kmon" where
  "push_argv argv kend me pt stackbase sp =
     bindk (push_args argv kend me pt stackbase sp []) (\<lambda>r.
     case r of
       None \<Rightarrow> ret None
     | Some (sp, ustack) \<Rightarrow>
         if length ustack \<ge> MAXARG then fault ''ustack''
         else let sp = align16 (sp - of_nat ((length ustack + 1) * 8)) in
           if sp < stackbase then ret None
           else bindk (copyout kend me pt sp (concat (map enc64 (ustack @ [0])))) (\<lambda>r.
             ret (if r < 0 then None else Some sp)))"

section \<open>exec\<close>

definition exec_bad :: "u64 \<Rightarrow> u64 \<Rightarrow> u64 \<Rightarrow> nat option \<Rightarrow> ('a fs_state_scheme, int) kmon" where
  "exec_bad kend pt sz ip =
     thenk (whenk (pt \<noteq> 0) (proc_freepagetable kend pt sz))
     (thenk (case ip of None \<Rightarrow> ret () | Some i \<Rightarrow> thenk (iunlockput i) end_op) (ret (- 1)))"

definition set_tf :: "nat \<Rightarrow> nat \<Rightarrow> u64 \<Rightarrow> ('a sched_state_scheme, unit) kmon" where
  "set_tf me off v = modk (\<lambda>s. s\<lparr>pmem := store64 (unat (p_trapframe (procs s ! me)) + off) v (pmem s)\<rparr>)"

fun last_elem :: "bytes \<Rightarrow> bytes \<Rightarrow> bytes" where
  "last_elem l [] = l"
| "last_elem l (c # s) = (if c = 47 then last_elem s s else last_elem l s)"

definition exec_commit :: "u64 \<Rightarrow> nat \<Rightarrow> bytes \<Rightarrow> bytes list \<Rightarrow> u64 \<Rightarrow> u64 \<Rightarrow> u64 \<Rightarrow> u64 \<Rightarrow> ('a fs_state_scheme, int) kmon" where
  "exec_commit kend me path argv pt sz sp entry =
     bindk (gets (\<lambda>s. procs s ! me)) (\<lambda>p.
     thenk (set_tf me (TF_A0 + 8) sp)
     (thenk (upd_proc me (\<lambda>x. x\<lparr>p_name := copy_name (last_elem path path @ [0]) (p_name x), p_pagetable := pt, p_sz := sz\<rparr>))
     (thenk (set_tf me 24 entry)
     (thenk (set_tf me 48 sp)
     (thenk (proc_freepagetable kend (p_pagetable p) (p_sz p))
     (ret (int (length argv))))))))"

definition exec_stack :: "u64 \<Rightarrow> nat \<Rightarrow> bytes \<Rightarrow> bytes list \<Rightarrow> u64 \<Rightarrow> u64 \<Rightarrow> u64 \<Rightarrow> ('a fs_state_scheme, int) kmon" where
  "exec_stack kend me path argv pt sz entry =
     (let sz = PGROUNDUP sz; guard = of_nat ((USERSTACK + 1) * PGSIZE) in
      bindk (uvmalloc kend pt sz (sz + guard) PTE_W) (\<lambda>sz1.
      if sz1 = 0 then exec_bad kend pt sz None
      else thenk (uvmclear pt (sz1 - guard))
        (bindk (push_argv argv kend me pt (sz1 - of_nat (USERSTACK * PGSIZE)) sz1) (\<lambda>r.
         case r of
           None \<Rightarrow> exec_bad kend pt sz1 None
         | Some sp \<Rightarrow> exec_commit kend me path argv pt sz1 sp entry))))"

definition kexec :: "u64 \<Rightarrow> u64 \<Rightarrow> nat \<Rightarrow> bytes \<Rightarrow> bytes list \<Rightarrow> ('a fs_state_scheme, int) kmon" where
  "kexec kend tramp me path argv =
     thenk begin_op
     (bindk (namei kend me path) (\<lambda>r.
      case r of
        None \<Rightarrow> thenk end_op (ret (- 1))
      | Some ip \<Rightarrow>
          thenk (ilock ip)
          (bindk (readi kend me ip KernDst 0 (of_nat ELFHDR_SIZE)) (\<lambda>(r, bs).
           let elf = dec_elfhdr bs in
           if r \<noteq> int ELFHDR_SIZE then exec_bad kend 0 0 (Some ip)
           else if e_magic elf \<noteq> ELF_MAGIC then exec_bad kend 0 0 (Some ip)
           else bindk (gets (\<lambda>s. p_trapframe (procs s ! me))) (\<lambda>tf.
             bindk (proc_pagetable kend tramp tf) (\<lambda>pt.
             if pt = 0 then exec_bad kend 0 0 (Some ip)
             else bindk (load_segs (unat (e_phnum elf)) kend me ip pt (ucast (e_phoff elf)) 0) (\<lambda>r.
               case r of
                 Inl sz \<Rightarrow> exec_bad kend pt sz (Some ip)
               | Inr sz \<Rightarrow>
                   thenk (iunlockput ip)
                   (thenk end_op
                   (exec_stack kend me path argv pt sz (e_entry elf))))))))))"

section \<open>The system call\<close>

text \<open>The loop that fetches the arguments: the pages taken, and the strings unless it fails.\<close>

primrec fetch_args :: "nat \<Rightarrow> u64 \<Rightarrow> nat \<Rightarrow> u64 \<Rightarrow> nat \<Rightarrow> u64 list \<Rightarrow> bytes list \<Rightarrow> ('a sched_state_scheme, u64 list \<times> bytes list option) kmon" where
  "fetch_args 0 kend me uargv i pages ws = ret (pages, None)"
| "fetch_args (Suc k) kend me uargv i pages ws =
     bindk (fetchaddr kend me (uargv + of_nat (8 * i))) (\<lambda>r.
     case r of
       None \<Rightarrow> ret (pages, None)
     | Some uarg \<Rightarrow>
         if uarg = 0 then ret (pages, Some ws)
         else bindk kalloc (\<lambda>pg.
           if pg = 0 then ret (pages, None)
           else bindk (fetchstr me uarg PGSIZE) (\<lambda>r.
             case r of
               None \<Rightarrow> ret (pages @ [pg], None)
             | Some w \<Rightarrow> thenk (modk (\<lambda>s. s\<lparr>pmem := put_bytes (unat pg) (w @ [0]) (pmem s)\<rparr>))
                 (fetch_args k kend me uargv (Suc i) (pages @ [pg]) (ws @ [w])))))"

definition sys_exec :: "u64 \<Rightarrow> u64 \<Rightarrow> nat \<Rightarrow> ('a fs_state_scheme, int) kmon" where
  "sys_exec kend tramp me =
     bindk (argaddr me 1) (\<lambda>uargv.
     bindk (argstr me 0 MAXPATH) (\<lambda>r.
     case r of
       None \<Rightarrow> ret (- 1)
     | Some path \<Rightarrow>
         bindk (fetch_args MAXARG kend me uargv 0 [] []) (\<lambda>(pages, r).
         bindk (case r of None \<Rightarrow> ret (- 1) | Some argv \<Rightarrow> kexec kend tramp me path argv) (\<lambda>v.
         thenk (for_each pages (kfree kend)) (ret v)))))"

section \<open>The layout of the arguments\<close>

text \<open>Strings at aligned addresses from \<open>sp\<close> downwards to \<open>base\<close>, each with its NUL, without overlap.\<close>

fun placed :: "u64 \<Rightarrow> u64 \<Rightarrow> bytes list \<Rightarrow> u64 list \<Rightarrow> bool" where
  "placed base sp [] [] \<longleftrightarrow> True"
| "placed base sp (w # ws) (a # as) \<longleftrightarrow> base \<le> a \<and> a mod 16 = 0 \<and> unat a + length w + 1 \<le> unat sp \<and> placed base a ws as"
| "placed base sp _ _ \<longleftrightarrow> False"

lemma align16_props: "unat (align16 x) = unat x - unat x mod 16" "align16 x mod 16 = 0" "align16 x \<le> x"
proof -
  have m: "unat (x mod 16) = unat x mod 16" by (simp add: unat_mod)
  have "x mod 16 \<le> x" using m by (simp add: word_le_nat_alt)
  then have u: "unat (align16 x) = unat x - unat x mod 16" using m by (simp add: align16_def unat_sub)
  then show "unat (align16 x) = unat x - unat x mod 16" .
  have "unat (align16 x mod 16) = 0" using u by (simp add: unat_mod minus_mod_eq_mult_div)
  then show "align16 x mod 16 = 0" by (simp add: unat_eq_0)
  show "align16 x \<le> x" using u by (simp add: word_le_nat_alt)
qed

lemma push_below:
  assumes "length w < PGSIZE" and "of_nat PGSIZE \<le> sp" and "align16 (sp - of_nat (length w + 1)) = a"
  shows "a mod 16 = 0" "unat a + length w + 1 \<le> unat sp"
proof -
  have "unat (of_nat k :: u64) = k" if "k < 2 ^ 64" for k using that by (simp add: unat_of_nat)
  moreover have "length w + 1 < 2 ^ 64" using assms(1) by (simp add: PGSIZE_def)
  ultimately have n: "unat (of_nat (length w + 1) :: u64) = length w + 1" by blast
  have "unat (of_nat PGSIZE :: u64) = 4096" by (simp add: PGSIZE_def)
  then have "4096 \<le> unat sp" using assms(2) by (simp add: word_le_nat_alt)
  then have le: "length w + 1 \<le> unat sp" using assms(1) by (simp add: PGSIZE_def)
  then have "(of_nat (length w + 1) :: u64) \<le> sp" using n by (simp only: word_le_nat_alt)
  then have "unat (sp - of_nat (length w + 1)) = unat sp - (length w + 1)" using n by (simp only: unat_sub)
  then have "unat a \<le> unat sp - (length w + 1)" using align16_props(1) [of "sp - of_nat (length w + 1)"] assms(3) by simp
  then show "unat a + length w + 1 \<le> unat sp" using le by simp
  show "a mod 16 = 0" using align16_props(2) assms(3) by blast
qed

lemma push_args_placed:
  assumes "push_args ws kend me pt base sp us s = Inr (Some (sp', us'), t)" and "\<forall>w \<in> set ws. length w < PGSIZE"
    and "of_nat PGSIZE \<le> base" and "base \<le> sp" and "sp mod 16 = 0"
  shows "\<exists>as. us' = us @ as \<and> placed base sp ws as \<and> base \<le> sp' \<and> sp' mod 16 = 0 \<and> sp' = last (sp # as)"
  using assms
proof (induction ws arbitrary: sp us s)
  case Nil
  then show ?case by (auto simp: ret_def intro!: exI [of _ "[]"])
next
  case (Cons w ws)
  define a where "a = align16 (sp - of_nat (length w + 1))"
  have b: "base \<le> a" and "\<exists>s'. push_args ws kend me pt base a (us @ [a]) s' = Inr (Some (sp', us'), t)"
    using Cons.prems(1) unfolding push_args.simps Let_def a_def [symmetric]
    by (auto simp: ret_def bindk_def not_less split: if_splits sum.splits prod.splits)
  then obtain s' where r: "push_args ws kend me pt base a (us @ [a]) s' = Inr (Some (sp', us'), t)" by blast
  have p: "a mod 16 = 0" "unat a + length w + 1 \<le> unat sp"
    using push_below [of w sp a] Cons.prems(2-4) a_def by auto
  obtain as where "us' = (us @ [a]) @ as" "placed base a ws as" "base \<le> sp'" "sp' mod 16 = 0" "sp' = last (a # as)"
    using Cons.IH [OF r _ Cons.prems(3) b p(1)] Cons.prems(2) by (metis list.set_intros(2))
  then show ?case using b p by (intro exI [of _ "a # as"]) simp
qed

text \<open>
  The stack \<^verbatim>\<open>kexec\<close> builds: every argument string with its NUL lies between the base and the top of the
  stack, 16-byte aligned, below the one before it and without overlap, the addresses are recorded in
  order, and the stack pointer left is aligned and not below the base. The strings come from pages,
  so they are shorter than one, and the stack is above the first page.
\<close>

lemma exec_args_placed:
  assumes "push_args ws kend me pt base sp [] s = Inr (Some (sp', us), t)" and "\<forall>w \<in> set ws. length w < PGSIZE"
    and "of_nat PGSIZE \<le> base" and "base \<le> sp" and "sp mod 16 = 0"
  shows "placed base sp ws us \<and> base \<le> sp' \<and> sp' mod 16 = 0 \<and> sp' = last (sp # us)"
  using push_args_placed [OF assms] by (metis append_Nil)

text \<open>
  The arguments \<^verbatim>\<open>sys_exec\<close> passes on leave room for the final 0 in \<^verbatim>\<open>ustack\<close>: there are fewer than \<^verbatim>\<open>MAXARG\<close>.
\<close>

lemma fetch_args_fewer:
  "fetch_args k kend me u i pages ws s = Inr ((ps, Some vs), t) \<Longrightarrow> length vs < length ws + k"
proof (induction k arbitrary: i pages ws s)
  case 0
  then show ?case by (simp add: ret_def)
next
  case (Suc k)
  consider "vs = ws" | i' pages' w s' where "fetch_args k kend me u i' pages' (ws @ [w]) s' = Inr ((ps, Some vs), t)"
    using Suc.prems by (auto simp: bindk_def thenk_def modk_def ret_def split: sum.splits prod.splits option.splits if_splits)
  then show ?case
  proof cases
    case 2
    then show ?thesis using Suc.IH by fastforce
  qed simp
qed

end
