(* ===== verification/Shell.thy ===== *)
theory Shell
  imports Sysfile User_Io
begin

text \<open>
  The command language of the shell \<^verbatim>\<open>user/sh.c\<close>: the scanner, the recursive-descent parser, and the
  reading of command lines.

  The line is the list \<open>b\<close> of its bytes, with the NUL just past the end (\<open>at b i\<close>), and a pointer into it
  is an index; \<^verbatim>\<open>es\<close> is \<open>length b\<close>. A function that moves \<^verbatim>\<open>*ps\<close> returns the new index. \<^verbatim>\<open>panic\<close> leaves the
  process, and a store past the end of an argument array is a \<open>Overrun\<close>. The exec node of a simple
  command is filled while redirections are already wrapped around it; here the redirections are
  collected and wrapped at the end, which gives the same tree.

  \<^verbatim>\<open>parseline\<close> and \<^verbatim>\<open>parseexec\<close> call each other, so \<open>parseline\<close> takes the depth of calls it may use, and
  \<open>None\<close> means that it did not suffice; \<open>parsecmd\<close> gives one more than the length of the line.
\<close>

section \<open>Commands\<close>

definition MAXARGS :: nat where "MAXARGS = 10"

datatype cmd =
    EXEC "nat option list" "nat option list"
  | REDIR cmd nat nat int int
  | PIPE cmd cmd
  | LIST cmd cmd
  | BACK cmd

datatype shell_stop = Panicked string | Overrun

section \<open>Scanner\<close>

definition whitespace :: bytes where "whitespace = [32, 9, 13, 10, 11]"
definition symbols :: bytes where "symbols = [60, 124, 62, 38, 59, 40, 41]"

function skip_ws :: "bytes \<Rightarrow> nat \<Rightarrow> nat" where
  "skip_ws b s = (if s < length b \<and> strchr whitespace (at b s) \<noteq> None then skip_ws b (Suc s) else s)"
  by pat_completeness auto
termination by (relation "measure (\<lambda>(b, s). length b - s)") auto

function skip_word :: "bytes \<Rightarrow> nat \<Rightarrow> nat" where
  "skip_word b s =
     (if s < length b \<and> strchr whitespace (at b s) = None \<and> strchr symbols (at b s) = None then skip_word b (Suc s) else s)"
  by pat_completeness auto
termination by (relation "measure (\<lambda>(b, s). length b - s)") auto

declare skip_ws.simps [simp del] skip_word.simps [simp del]

text \<open>The token code, the bounds \<^verbatim>\<open>q\<close> and \<^verbatim>\<open>eq\<close> of the token, and the new \<^verbatim>\<open>*ps\<close>.\<close>

definition gettoken :: "bytes \<Rightarrow> nat \<Rightarrow> uchar \<times> nat \<times> nat \<times> nat" where
  "gettoken b i =
     (let s = skip_ws b i; c = at b s;
        (t, e) = (if c = 0 then (c, s)
          else if c = 124 \<or> c = 40 \<or> c = 41 \<or> c = 59 \<or> c = 38 \<or> c = 60 then (c, Suc s)
          else if c = 62 then (if at b (Suc s) = 62 then (43, Suc (Suc s)) else (c, Suc s))
          else (97, skip_word b s))
      in (t, s, e, skip_ws b e))"

definition after_token :: "bytes \<Rightarrow> nat \<Rightarrow> nat" where
  "after_token b i = (case gettoken b i of (_, _, _, j) \<Rightarrow> j)"

definition peek :: "bytes \<Rightarrow> nat \<Rightarrow> bytes \<Rightarrow> bool \<times> nat" where
  "peek b i toks = (let s = skip_ws b i in (at b s \<noteq> 0 \<and> strchr toks (at b s) \<noteq> None, s))"

text \<open>A word: its bytes are neither blank nor special, and it ends at one that is, or at the end.\<close>

definition special :: "uchar \<Rightarrow> bool" where
  "special c \<longleftrightarrow> c = 0 \<or> c \<in> set whitespace \<or> c \<in> set symbols"

definition word :: "bytes \<Rightarrow> nat \<Rightarrow> nat \<Rightarrow> bool" where
  "word b q e \<longleftrightarrow> q < e \<and> e \<le> length b \<and> (\<forall>i. q \<le> i \<and> i < e \<longrightarrow> \<not> special (at b i)) \<and> special (at b e)"

lemma strchr_set: "0 \<notin> set s \<Longrightarrow> strchr s c \<noteq> None \<longleftrightarrow> c \<in> set s" for s
proof (cases "c = 0")
  case True
  assume "0 \<notin> set s"
  then have "strchr s 0 = None" by (induction s) (auto simp: strchr.simps)
  then show ?thesis using True \<open>0 \<notin> set s\<close> by simp
next
  case False
  assume "0 \<notin> set s"
  then show ?thesis using strchr_None [of s c] False by simp
qed

lemma strchr_ws: "strchr whitespace c \<noteq> None \<longleftrightarrow> c \<in> set whitespace"
  by (rule strchr_set) (simp add: whitespace_def)

lemma strchr_sym: "strchr symbols c \<noteq> None \<longleftrightarrow> c \<in> set symbols"
  by (rule strchr_set) (simp add: symbols_def)

lemma skip_ws_props: "i \<le> skip_ws b i" "i \<le> length b \<Longrightarrow> skip_ws b i \<le> length b" "at b (skip_ws b i) \<notin> set whitespace"
proof -
  have "i \<le> skip_ws b i \<and> (i \<le> length b \<longrightarrow> skip_ws b i \<le> length b) \<and> at b (skip_ws b i) \<notin> set whitespace"
  proof (induction b i rule: skip_ws.induct)
    case (1 b s)
    have "at b s \<notin> set whitespace" if "\<not> s < length b" using that by (simp add: at_def whitespace_def)
    then show ?case using 1 by (subst (1 2 3) skip_ws.simps) (auto simp: strchr_ws [simplified])
  qed
  then show "i \<le> skip_ws b i" "i \<le> length b \<Longrightarrow> skip_ws b i \<le> length b" "at b (skip_ws b i) \<notin> set whitespace" by blast+
qed

lemma skip_word_props:
  "s \<le> length b \<Longrightarrow> s \<le> skip_word b s \<and> skip_word b s \<le> length b
    \<and> (\<forall>i. s \<le> i \<and> i < skip_word b s \<longrightarrow> at b i \<notin> set whitespace \<and> at b i \<notin> set symbols) \<and> special (at b (skip_word b s))"
proof (induction b s rule: skip_word.induct)
  case (1 b s)
  show ?case
  proof (cases "s < length b \<and> at b s \<notin> set whitespace \<and> at b s \<notin> set symbols")
    case True
    then have "skip_word b s = skip_word b (Suc s)" using strchr_ws [of "at b s"] strchr_sym [of "at b s"]
      by (subst skip_word.simps) auto
    moreover have "\<forall>i. s \<le> i \<and> i < skip_word b (Suc s) \<longrightarrow> at b i \<notin> set whitespace \<and> at b i \<notin> set symbols"
      using 1 True strchr_ws [of "at b s"] strchr_sym [of "at b s"] by (metis Suc_leI le_neq_implies_less)
    ultimately show ?thesis using 1 True strchr_ws [of "at b s"] strchr_sym [of "at b s"] by auto
  next
    case False
    then have "skip_word b s = s" using strchr_ws [of "at b s"] strchr_sym [of "at b s"] by (subst skip_word.simps) auto
    moreover have "special (at b s)" using False 1(2) by (auto simp: special_def at_def)
    ultimately show ?thesis using 1(2) by auto
  qed
qed

lemma at_bound: "at b i \<noteq> 0 \<Longrightarrow> i < length b"
  by (simp add: at_def split: if_splits)

lemma gettoken_word:
  assumes "i \<le> length b" and "\<not> special (at b (skip_ws b i))"
  shows "gettoken b i = (97, skip_ws b i, skip_word b (skip_ws b i), skip_ws b (skip_word b (skip_ws b i)))"
    "skip_ws b i < skip_word b (skip_ws b i)" "0 \<notin> set b \<Longrightarrow> word b (skip_ws b i) (skip_word b (skip_ws b i))"
proof -
  let ?s = "skip_ws b i"
  note w = skip_word_props [OF skip_ws_props(2) [OF assms(1)]]
  show "gettoken b i = (97, ?s, skip_word b ?s, skip_ws b (skip_word b ?s))"
    using assms(2) by (simp add: gettoken_def Let_def special_def symbols_def)
  show lt: "?s < skip_word b ?s" using w assms(2) by (metis le_neq_implies_less)
  assume z: "0 \<notin> set b"
  have "at b k \<noteq> 0" if "k < skip_word b ?s" for k
    using that w z nth_mem [of k b] by (metis at_def order_less_le_trans)
  then show "word b ?s (skip_word b ?s)" using w lt by (auto simp: word_def special_def)
qed

lemma gettoken_special:
  assumes "i \<le> length b" and "special (at b (skip_ws b i))" and "gettoken b i = (t, q, e, j)"
  shows "q = skip_ws b i" "q \<le> e" "e \<le> length b" "j = skip_ws b e" "at b q \<noteq> 0 \<Longrightarrow> q < e" "t = 0 \<longleftrightarrow> at b q = 0" "t \<noteq> 97"
proof -
  let ?s = "skip_ws b i"
  have s: "?s \<le> length b" "at b ?s \<notin> set whitespace" using skip_ws_props [where i = i and b = b] assms(1) by auto
  then have c: "at b ?s = 0 \<or> at b ?s \<in> set symbols" using assms(2) by (simp add: special_def)
  have l: "Suc ?s \<le> length b" if "at b ?s \<noteq> 0" using at_bound [OF that] by simp
  have l2: "Suc (Suc ?s) \<le> length b" if "at b (Suc ?s) = 62" using at_bound [of b "Suc ?s"] that by simp
  show "q = ?s" using assms(3) by (simp add: gettoken_def Let_def split: prod.splits)
  show "q \<le> e" "e \<le> length b" "j = skip_ws b e" "at b q \<noteq> 0 \<Longrightarrow> q < e" "t = 0 \<longleftrightarrow> at b q = 0" "t \<noteq> 97"
    using assms(3) c s(1) l l2 by (auto simp: gettoken_def Let_def symbols_def split: if_splits)
qed

lemma gettoken_props:
  assumes "gettoken b i = (t, q, e, j)" and "i \<le> length b"
  shows "i \<le> q" "q = skip_ws b i" "q \<le> e" "e \<le> j" "j \<le> length b" "at b q \<noteq> 0 \<Longrightarrow> q < e" "t = 0 \<longleftrightarrow> at b q = 0"
    "0 \<notin> set b \<Longrightarrow> t = 97 \<Longrightarrow> word b q e"
proof -
  have "i \<le> q \<and> q = skip_ws b i \<and> q \<le> e \<and> e \<le> j \<and> j \<le> length b \<and> (at b q \<noteq> 0 \<longrightarrow> q < e) \<and> (t = 0 \<longleftrightarrow> at b q = 0)
    \<and> (0 \<notin> set b \<longrightarrow> t = 97 \<longrightarrow> word b q e)"
  proof (cases "special (at b (skip_ws b i))")
    case True
    then show ?thesis using gettoken_special [OF assms(2) True assms(1)] skip_ws_props by auto
  next
    case False
    note w = gettoken_word [OF assms(2) False] and p = skip_word_props [OF skip_ws_props(2) [OF assms(2)]]
    then have "t = 97" "q = skip_ws b i" "e = skip_word b q" "j = skip_ws b e" using assms(1) by simp_all
    then show ?thesis using w(2,3) p False skip_ws_props [where i = i and b = b] skip_ws_props [where i = e and b = b] by (auto simp: special_def)
  qed
  then show "i \<le> q" "q = skip_ws b i" "q \<le> e" "e \<le> j" "j \<le> length b" "at b q \<noteq> 0 \<Longrightarrow> q < e" "t = 0 \<longleftrightarrow> at b q = 0"
    "0 \<notin> set b \<Longrightarrow> t = 97 \<Longrightarrow> word b q e" by blast+
qed

lemma after_token_props: "i \<le> length b \<Longrightarrow> i \<le> after_token b i \<and> after_token b i \<le> length b"
  using gettoken_props [of b i] by (cases "gettoken b i") (fastforce simp: after_token_def)

lemma peek_props:
  assumes "peek b i toks = (found, j)"
  shows "i \<le> j" "i \<le> length b \<Longrightarrow> j \<le> length b" "found \<Longrightarrow> j < after_token b j \<and> j < length b"
proof -
  have j: "j = skip_ws b i" "found \<longleftrightarrow> at b j \<noteq> 0 \<and> strchr toks (at b j) \<noteq> None"
    using assms(1) by (auto simp: peek_def Let_def)
  show "i \<le> j" "i \<le> length b \<Longrightarrow> j \<le> length b" using skip_ws_props [where i = i and b = b] j by auto
  assume f: found
  then have l: "j < length b" using at_bound [of b j] j by simp
  have "skip_ws b j = j" using skip_ws_props(3) [where i = i and b = b] j(1) strchr_ws [of "at b j"] by (subst skip_ws.simps) auto
  then show "j < after_token b j \<and> j < length b"
    using gettoken_props [of b j] f l j(2) by (cases "gettoken b j") (fastforce simp: after_token_def)
qed

lemma peek_token:
  assumes "peek b i toks = (True, i1)" and "gettoken b i1 = (t, q, e, i2)"
  shows "i < i2" "i2 \<le> length b" "i \<le> length b"
  using peek_props [OF assms(1)] gettoken_props(5) [OF assms(2)] assms(2) by (auto simp: after_token_def)

lemma token_le: "gettoken b i = (t, q, e, j) \<Longrightarrow> i \<le> length b \<Longrightarrow> i \<le> j \<and> j \<le> length b"
  using gettoken_props [of b i t q e j] by simp

lemma peek_one: "(True, y) = peek b i toks \<Longrightarrow> (t, q, e, i2) = gettoken b y \<Longrightarrow> i < i2 \<and> i2 \<le> length b"
  using peek_token [of b i toks y t q e i2] by simp

lemma peek_two:
  assumes "(True, y) = peek b i toks" and "(t, q, e, i2) = gettoken b y" and "(t', q', e', i3) = gettoken b i2"
  shows "length b - i3 < length b - i"
  using peek_one [OF assms(1,2)] token_le [OF assms(3) [symmetric]] by linarith

section \<open>Parser\<close>

type_synonym redir = "nat \<times> nat \<times> int \<times> int"

definition redir_of :: "uchar \<Rightarrow> nat \<Rightarrow> nat \<Rightarrow> redir" where
  "redir_of t q e =
     (if t = 60 then (q, e, O_RDONLY, 0)
      else if t = 62 then (q, e, or O_WRONLY (or O_CREATE O_TRUNC), 1)
      else (q, e, or O_WRONLY O_CREATE, 1))"

definition redircmd :: "cmd \<Rightarrow> redir \<Rightarrow> cmd" where
  "redircmd c = (\<lambda>(q, e, mode, fd). REDIR c q e mode fd)"

function parseredirs :: "bytes \<Rightarrow> nat \<Rightarrow> shell_stop + (redir list \<times> nat)" where
  "parseredirs b i =
     (case peek b i [60, 62] of (found, i1) \<Rightarrow>
      if \<not> found then Inr ([], i1)
      else case gettoken b i1 of (t, _, _, i2) \<Rightarrow>
        case gettoken b i2 of (t', q, e, i3) \<Rightarrow>
          if t' \<noteq> 97 then Inl (Panicked ''missing file for redirection'')
          else case parseredirs b i3 of
            Inl x \<Rightarrow> Inl x
          | Inr (rs, j) \<Rightarrow> Inr (redir_of t q e # rs, j))"
  by pat_completeness auto
termination
  by (relation "measure (\<lambda>(b, i). length b - i)") (simp, clarsimp, erule (2) peek_two)

declare parseredirs.simps [simp del]

definition store_arg :: "nat \<Rightarrow> nat option \<Rightarrow> nat option list \<Rightarrow> shell_stop + nat option list" where
  "store_arg i v a = (if i < length a then Inr (a[i := v]) else Inl Overrun)"

text \<open>
  The loop of \<^verbatim>\<open>parseexec\<close>: \<open>argv\<close> and \<open>eargv\<close> are the arrays of the node, \<open>rs\<close> the redirections so far.
\<close>

type_synonym args = "nat option list \<times> nat option list \<times> nat \<times> redir list"

definition add_arg :: "nat \<Rightarrow> nat \<Rightarrow> args \<Rightarrow> shell_stop + args" where
  "add_arg q e = (\<lambda>(argv, eargv, argc, rs).
     case store_arg argc (Some q) argv of
       Inl x \<Rightarrow> Inl x
     | Inr argv' \<Rightarrow> (case store_arg argc (Some e) eargv of
         Inl x \<Rightarrow> Inl x
       | Inr eargv' \<Rightarrow> if Suc argc \<ge> MAXARGS then Inl (Panicked ''too many args'') else Inr (argv', eargv', Suc argc, rs)))"

lemma parseredirs_pos: "parseredirs b i = Inr (rs, j) \<Longrightarrow> i \<le> length b \<Longrightarrow> i \<le> j \<and> j \<le> length b"
proof (induction b i arbitrary: rs rule: parseredirs.induct)
  case (1 b i)
  obtain found i1 t q e i2 t' q' e' i3 where eq: "peek b i [60, 62] = (found, i1)" "gettoken b i1 = (t, q, e, i2)"
    "gettoken b i2 = (t', q', e', i3)" by (metis surj_pair)
  show ?case
  proof (cases found)
    case False
    then show ?thesis using 1(2,3) eq peek_props [OF eq(1)] by (subst (asm) parseredirs.simps) simp
  next
    case True
    then have "peek b i [60, 62] = (True, i1)" using eq(1) by simp
    note a = peek_token [OF this eq(2)] and b = token_le [OF eq(3)]
    obtain rs' where "t' = 97" "parseredirs b i3 = Inr (rs', j)"
      using 1(2) eq True by (subst (asm) parseredirs.simps) (auto split: if_splits sum.splits)
    then show ?thesis using 1(1) [OF eq(1) [symmetric] _ eq(2) [symmetric] _ _ eq(3) [symmetric]] a b True by fastforce
  qed
qed

lemma parseargs_step:
  assumes "peek b i toks = (found, i1)" and "gettoken b i1 = (t, q, e, i2)" and "t \<noteq> 0"
    and "parseredirs b i2 = Inr (rs, i3)"
  shows "length b - i3 < length b - i" "i3 \<le> length b" "i2 \<le> length b"
proof -
  have "at b (skip_ws b i1) \<noteq> 0" using assms(2,3) by (auto simp: gettoken_def Let_def split: if_splits)
  then have i1: "i \<le> i1" "i1 \<le> length b"
    using peek_props(1) [OF assms(1)] at_bound skip_ws_props(1) [where i = i1 and b = b] by (simp, fastforce)
  note g = gettoken_props [OF assms(2) i1(2)]
  have "at b q \<noteq> 0" using g(7) assms(3) by simp
  then have "q < e" "q < length b" using g(6) at_bound by auto
  then show "length b - i3 < length b - i" "i3 \<le> length b" "i2 \<le> length b"
    using g(1-5) i1 parseredirs_pos [OF assms(4)] by linarith+
qed

function parseargs :: "bytes \<Rightarrow> nat \<Rightarrow> args \<Rightarrow> shell_stop + (args \<times> nat)" where
  "parseargs b i a =
     (case peek b i [124, 41, 38, 59] of (found, i1) \<Rightarrow>
      if found then Inr (a, i1)
      else case gettoken b i1 of (t, q, e, i2) \<Rightarrow>
        if t = 0 then Inr (a, i2)
        else if t \<noteq> 97 then Inl (Panicked ''syntax'')
        else case add_arg q e a of
          Inl x \<Rightarrow> Inl x
        | Inr (argv, eargv, argc, rs) \<Rightarrow> (case parseredirs b i2 of
            Inl x \<Rightarrow> Inl x
          | Inr (rs', i3) \<Rightarrow> parseargs b i3 (argv, eargv, argc, rs @ rs')))"
  by pat_completeness auto
termination
  by (relation "measure (\<lambda>(b, i, _). length b - i)") (simp, clarsimp, rule parseargs_step(1), (rule sym, assumption)+, simp_all)

declare parseargs.simps [simp del]

definition empty_args :: args where
  "empty_args = (replicate MAXARGS None, replicate MAXARGS None, 0, [])"

definition end_args :: "args \<Rightarrow> shell_stop + cmd" where
  "end_args = (\<lambda>(argv, eargv, argc, rs).
     case store_arg argc None argv of
       Inl x \<Rightarrow> Inl x
     | Inr argv' \<Rightarrow> (case store_arg argc None eargv of
         Inl x \<Rightarrow> Inl x
       | Inr eargv' \<Rightarrow> Inr (foldl redircmd (EXEC argv' eargv') rs)))"

type_synonym parsed = "(shell_stop + (cmd \<times> nat)) option"

definition bindp :: "parsed \<Rightarrow> (cmd \<Rightarrow> nat \<Rightarrow> parsed) \<Rightarrow> parsed" where
  "bindp r f = (case r of None \<Rightarrow> None | Some (Inl x) \<Rightarrow> Some (Inl x) | Some (Inr (c, i)) \<Rightarrow> f c i)"

text \<open>\<open>pl\<close> is \<^verbatim>\<open>parseline\<close> on the same line.\<close>

definition parseblock :: "(nat \<Rightarrow> parsed) \<Rightarrow> bytes \<Rightarrow> nat \<Rightarrow> parsed" where
  "parseblock pl b i =
     (case peek b i [40] of (found, i) \<Rightarrow>
      if \<not> found then Some (Inl (Panicked ''parseblock''))
      else bindp (pl (after_token b i)) (\<lambda>c i.
        case peek b i [41] of (found, i) \<Rightarrow>
        if \<not> found then Some (Inl (Panicked ''syntax - missing )''))
        else case parseredirs b (after_token b i) of
          Inl x \<Rightarrow> Some (Inl x)
        | Inr (rs, i) \<Rightarrow> Some (Inr (foldl redircmd c rs, i))))"

definition parseexec :: "(nat \<Rightarrow> parsed) \<Rightarrow> bytes \<Rightarrow> nat \<Rightarrow> parsed" where
  "parseexec pl b i =
     (case peek b i [40] of (found, i) \<Rightarrow>
      if found then parseblock pl b i
      else case parseredirs b i of
        Inl x \<Rightarrow> Some (Inl x)
      | Inr (rs, i) \<Rightarrow> (case empty_args of (argv, eargv, argc, _) \<Rightarrow> case parseargs b i (argv, eargv, argc, rs) of
          Inl x \<Rightarrow> Some (Inl x)
        | Inr (a, i) \<Rightarrow> (case end_args a of Inl x \<Rightarrow> Some (Inl x) | Inr c \<Rightarrow> Some (Inr (c, i)))))"

primrec parsepipe :: "nat \<Rightarrow> (nat \<Rightarrow> parsed) \<Rightarrow> bytes \<Rightarrow> nat \<Rightarrow> parsed" where
  "parsepipe 0 pl b i = None"
| "parsepipe (Suc k) pl b i =
     bindp (parseexec pl b i) (\<lambda>c i.
     case peek b i [124] of (found, i) \<Rightarrow>
     if found then bindp (parsepipe k pl b (after_token b i)) (\<lambda>r i. Some (Inr (PIPE c r, i)))
     else Some (Inr (c, i)))"

function back_loop :: "bytes \<Rightarrow> cmd \<Rightarrow> nat \<Rightarrow> cmd \<times> nat" where
  "back_loop b c i =
     (case peek b i [38] of (found, i1) \<Rightarrow> if found then back_loop b (BACK c) (after_token b i1) else (c, i1))"
  by pat_completeness auto
termination
proof (relation "measure (\<lambda>(b, c, i). length b - i)")
  fix b :: bytes and c :: cmd and i x y
  assume "(x, y) = peek b i [38]" and x
  then have "i \<le> y" "y < after_token b y" "y < length b" using peek_props [of b i "[38]" x y] by auto
  then show "((b, BACK c, after_token b y), (b, c, i)) \<in> measure (\<lambda>(b, c, i). length b - i)" by simp
qed simp

declare back_loop.simps [simp del]

primrec parseline :: "nat \<Rightarrow> bytes \<Rightarrow> nat \<Rightarrow> parsed" where
  "parseline 0 b i = None"
| "parseline (Suc k) b i =
     bindp (parsepipe (Suc (length b)) (parseline k b) b i) (\<lambda>c i.
     case back_loop b c i of (c, i) \<Rightarrow>
     case peek b i [59] of (found, i) \<Rightarrow>
     if found then bindp (parseline k b (after_token b i)) (\<lambda>r i. Some (Inr (LIST c r, i)))
     else Some (Inr (c, i)))"

text \<open>The line with a NUL behind each argument and file name. The one at the end is there already.\<close>

fun nul_args :: "nat option list \<Rightarrow> nat option list \<Rightarrow> bytes \<Rightarrow> bytes" where
  "nul_args (Some q # as) (Some e # es) b = nul_args as es (b[e := 0])"
| "nul_args _ _ b = b"

primrec nulterminate :: "cmd \<Rightarrow> bytes \<Rightarrow> bytes" where
  "nulterminate (EXEC argv eargv) b = nul_args argv eargv b"
| "nulterminate (REDIR c q e mode fd) b = (nulterminate c b)[e := 0]"
| "nulterminate (PIPE l r) b = nulterminate r (nulterminate l b)"
| "nulterminate (LIST l r) b = nulterminate r (nulterminate l b)"
| "nulterminate (BACK c) b = nulterminate c b"

definition parsecmd :: "bytes \<Rightarrow> (shell_stop + (cmd \<times> bytes)) option" where
  "parsecmd b =
     (case parseline (Suc (length b)) b 0 of
        None \<Rightarrow> None
      | Some (Inl x) \<Rightarrow> Some (Inl x)
      | Some (Inr (c, i)) \<Rightarrow>
          if snd (peek b i []) \<noteq> length b then Some (Inl (Panicked ''syntax'')) else Some (Inr (c, nulterminate c b)))"

section \<open>Reading commands\<close>

definition getcmd :: "io \<Rightarrow> bytes option \<times> io" where
  "getcmd s = (case ugets 100 (u_write 2 [36, 32] s) of (buf, t) \<Rightarrow> (if at buf 0 = 0 then None else Some buf, t))"

datatype shell_action = Blank | Chdir bytes | Run bytes

function skip_blanks :: "bytes \<Rightarrow> bytes" where
  "skip_blanks c = (if at c 0 = 32 \<or> at c 0 = 9 then skip_blanks (drop 1 c) else c)"
  by pat_completeness auto
termination by (relation "measure length") (auto intro!: at_drop_less(1))

declare skip_blanks.simps [simp del]

text \<open>What the main loop does with a line: \<^verbatim>\<open>cd\<close> is done by the shell itself, without the last byte.\<close>

definition shell_line :: "bytes \<Rightarrow> shell_action" where
  "shell_line buf =
     (let c = takeWhile (\<lambda>x. x \<noteq> 0) (skip_blanks buf) in
      if at c 0 = 10 then Blank
      else if at c 0 = 99 \<and> at c 1 = 100 \<and> at c 2 = 32 then Chdir (drop 3 (butlast c))
      else Run c)"

section \<open>What the parser returns\<close>

fun arg_pairs :: "nat option list \<Rightarrow> nat option list \<Rightarrow> (nat \<times> nat) list" where
  "arg_pairs (Some q # as) (Some e # es) = (q, e) # arg_pairs as es"
| "arg_pairs _ _ = []"

text \<open>The bounds of all words of a command.\<close>

primrec tokens :: "cmd \<Rightarrow> (nat \<times> nat) list" where
  "tokens (EXEC argv eargv) = arg_pairs argv eargv"
| "tokens (REDIR c q e mode fd) = tokens c @ [(q, e)]"
| "tokens (PIPE l r) = tokens l @ tokens r"
| "tokens (LIST l r) = tokens l @ tokens r"
| "tokens (BACK c) = tokens c"

definition words :: "bytes \<Rightarrow> (nat \<times> nat) list \<Rightarrow> bool" where
  "words b ps \<longleftrightarrow> (\<forall>(q, e) \<in> set ps. word b q e)"

definition redir_words :: "bytes \<Rightarrow> redir list \<Rightarrow> bool" where
  "redir_words b rs \<longleftrightarrow> (\<forall>(q, e, _) \<in> set rs. word b q e)"

definition args_ok :: "bytes \<Rightarrow> args \<Rightarrow> bool" where
  "args_ok b = (\<lambda>(argv, eargv, argc, rs). \<exists>ps. length ps = argc \<and> argc < MAXARGS \<and> words b ps \<and> redir_words b rs
     \<and> argv = map (Some \<circ> fst) ps @ replicate (MAXARGS - argc) None
     \<and> eargv = map (Some \<circ> snd) ps @ replicate (MAXARGS - argc) None)"

lemma tokens_redirs: "redir_words b rs \<Longrightarrow> words b (tokens c) \<Longrightarrow> words b (tokens (foldl redircmd c rs))"
proof (induction rs arbitrary: c)
  case (Cons r rs)
  obtain q e m f where r: "r = (q, e, m, f)" by (metis surj_pair)
  have "words b (tokens (REDIR c q e m f))" "redir_words b rs" using Cons.prems by (auto simp: r words_def redir_words_def)
  then show ?case using Cons.IH by (simp add: r redircmd_def)
qed simp

lemma arg_pairs_map: "arg_pairs (map (Some \<circ> fst) ps @ replicate k None) (map (Some \<circ> snd) ps @ replicate k None) = ps"
proof (induction ps)
  case Nil
  then show ?case by (cases k) auto
qed auto

lemma add_arg_ok:
  assumes "args_ok b a" and "word b q e"
  shows "case add_arg q e a of Inl x \<Rightarrow> x \<noteq> Overrun | Inr a' \<Rightarrow> args_ok b a'"
proof -
  obtain argv eargv argc rs where a: "a = (argv, eargv, argc, rs)" by (metis surj_pair)
  obtain ps where p: "length ps = argc" "argc < MAXARGS" "words b ps" "redir_words b rs"
    "argv = map (Some \<circ> fst) ps @ replicate (MAXARGS - argc) None" "eargv = map (Some \<circ> snd) ps @ replicate (MAXARGS - argc) None"
    using assms(1) by (auto simp: args_ok_def a)
  have r: "replicate (MAXARGS - argc) None = None # replicate (MAXARGS - Suc argc) None"
    using p(2) by (metis Suc_diff_Suc replicate_Suc)
  have "argv[argc := Some q] = map (Some \<circ> fst) (ps @ [(q, e)]) @ replicate (MAXARGS - Suc argc) None"
    "eargv[argc := Some e] = map (Some \<circ> snd) (ps @ [(q, e)]) @ replicate (MAXARGS - Suc argc) None"
    using p(1,5,6) by (simp_all add: r list_update_append)
  moreover have "words b (ps @ [(q, e)])" using p(3) assms(2) by (auto simp: words_def)
  moreover have "argc < length argv" "argc < length eargv" using p by simp_all
  ultimately show ?thesis using p(1,4) unfolding a
    by (auto simp: add_arg_def store_arg_def args_ok_def not_le intro!: exI [of _ "ps @ [(q, e)]"])
qed

lemma end_args_ok:
  assumes "args_ok b a"
  shows "\<exists>c. end_args a = Inr c \<and> words b (tokens c)"
proof -
  obtain argv eargv argc rs where a: "a = (argv, eargv, argc, rs)" by (metis surj_pair)
  obtain ps where p: "length ps = argc" "argc < MAXARGS" "words b ps" "redir_words b rs"
    "argv = map (Some \<circ> fst) ps @ replicate (MAXARGS - argc) None" "eargv = map (Some \<circ> snd) ps @ replicate (MAXARGS - argc) None"
    using assms(1) by (auto simp: args_ok_def a)
  have "argv[argc := None] = argv" "eargv[argc := None] = eargv"
    using p(1,2,5,6) by (auto simp: list_update_append simp flip: replicate_Suc intro!: list_update_same_conv [THEN iffD2])
  moreover have "argc < length argv" "argc < length eargv" using p by simp_all
  moreover have "words b (tokens (EXEC argv eargv))" using p(3,5,6) arg_pairs_map by simp
  ultimately show ?thesis using tokens_redirs [OF p(4)] by (simp add: a end_args_def store_arg_def)
qed

lemma parseredirs_ok:
  assumes "0 \<notin> set b" and "i \<le> length b"
  shows "case parseredirs b i of Inl x \<Rightarrow> x \<noteq> Overrun | Inr (rs, j) \<Rightarrow> i \<le> j \<and> j \<le> length b \<and> redir_words b rs"
  using assms
proof (induction b i rule: parseredirs.induct)
  case (1 b i)
  obtain found i1 t q e i2 t' q' e' i3 where eq: "peek b i [60, 62] = (found, i1)" "gettoken b i1 = (t, q, e, i2)"
    "gettoken b i2 = (t', q', e', i3)" by (metis surj_pair)
  show ?case
  proof (cases "found \<and> t' = 97")
    case False
    then show ?thesis using 1(3) eq peek_props [OF eq(1)] by (subst parseredirs.simps) (auto simp: redir_words_def)
  next
    case True
    then have f: "peek b i [60, 62] = (True, i1)" using eq(1) by simp
    have i2: "i < i2" "i2 \<le> length b" using peek_token [OF f eq(2)] by auto
    note g = gettoken_props [OF eq(3) i2(2)]
    have "word b q' e'" using g(8) True 1(2) by simp
    moreover have "case parseredirs b i3 of Inl x \<Rightarrow> x \<noteq> Overrun | Inr (rs, j) \<Rightarrow> i3 \<le> j \<and> j \<le> length b \<and> redir_words b rs"
      using 1(1) [OF eq(1) [symmetric] _ eq(2) [symmetric] refl refl eq(3) [symmetric] refl refl] True 1(2) g(5) by simp
    moreover have "parseredirs b i = (case parseredirs b i3 of Inl x \<Rightarrow> Inl x | Inr (rs, j) \<Rightarrow> Inr (redir_of t q' e' # rs, j))"
      using True f eq by (subst parseredirs.simps) simp
    ultimately show ?thesis using i2 g(1,3,4) by (auto simp: redir_words_def redir_of_def split: sum.splits)
  qed
qed

lemma parseargs_ok:
  assumes "0 \<notin> set b" and "i \<le> length b" and "args_ok b a"
  shows "case parseargs b i a of Inl x \<Rightarrow> x \<noteq> Overrun | Inr (a', j) \<Rightarrow> i \<le> j \<and> j \<le> length b \<and> args_ok b a'"
  using assms
proof (induction b i a rule: parseargs.induct)
  case (1 b i a)
  obtain found i1 t q e i2 where eq: "peek b i [124, 41, 38, 59] = (found, i1)" "gettoken b i1 = (t, q, e, i2)"
    by (metis surj_pair)
  have i1: "i \<le> i1" "i1 \<le> length b" using peek_props [OF eq(1)] 1(3) by auto
  note g = gettoken_props [OF eq(2) i1(2)]
  show ?case
  proof (cases "\<not> found \<and> t = 97")
    case False
    then show ?thesis using 1(4) eq i1 g(1,3-5) by (subst parseargs.simps) auto
  next
    case True
    then have w: "word b q e" using g(8) 1(2) by simp
    show ?thesis
    proof (cases "add_arg q e a")
      case (Inl x)
      then have "x \<noteq> Overrun" using add_arg_ok [OF 1(4) w] by simp
      then show ?thesis using True eq Inl by (subst parseargs.simps) simp
    next
      case (Inr a1)
      obtain argv eargv argc rs where a1: "a1 = (argv, eargv, argc, rs)" by (metis surj_pair)
      have ok: "args_ok b (argv, eargv, argc, rs)" using add_arg_ok [OF 1(4) w] Inr a1 by simp
      note r = parseredirs_ok [OF 1(2) g(5)]
      show ?thesis
      proof (cases "parseredirs b i2")
        case (Inl x)
        then show ?thesis using r True eq Inr a1 by (subst parseargs.simps) simp
      next
        case (Inr r2)
        obtain rs' i3 where r2: "r2 = (rs', i3)" by (metis surj_pair)
        have i3: "i2 \<le> i3" "i3 \<le> length b" "redir_words b rs'" using r Inr r2 by auto
        then have "args_ok b (argv, eargv, argc, rs @ rs')" using ok by (auto simp: args_ok_def redir_words_def)
        then have "case parseargs b i3 (argv, eargv, argc, rs @ rs') of Inl x \<Rightarrow> x \<noteq> Overrun
            | Inr (a', j) \<Rightarrow> i3 \<le> j \<and> j \<le> length b \<and> args_ok b a'"
          using 1(1) [OF eq(1) [symmetric] _ eq(2) [symmetric] refl refl _ _ \<open>add_arg q e a = Inr a1\<close> a1 [symmetric] refl refl Inr r2 [symmetric]]
            True 1(2) i3 by simp
        moreover have "parseargs b i a = parseargs b i3 (argv, eargv, argc, rs @ rs')"
          using True eq \<open>add_arg q e a = Inr a1\<close> a1 Inr r2 by (subst parseargs.simps) simp
        ultimately show ?thesis using i1 i3 g(1,3,4) by (auto split: sum.splits)
      qed
    qed
  qed
qed

text \<open>A parser does its part at \<open>i\<close>: it ends, does not overrun an array, and moves forward over words.\<close>

definition good :: "bytes \<Rightarrow> nat \<Rightarrow> parsed \<Rightarrow> bool" where
  "good b i r \<longleftrightarrow> (\<exists>x. r = Some (Inl x) \<and> x \<noteq> Overrun) \<or> (\<exists>c j. r = Some (Inr (c, j)) \<and> i \<le> j \<and> j \<le> length b \<and> words b (tokens c))"

lemma good_bindp:
  assumes "good b i r" and "\<And>c j. i \<le> j \<Longrightarrow> j \<le> length b \<Longrightarrow> words b (tokens c) \<Longrightarrow> good b i (f c j)"
  shows "good b i (bindp r f)"
  using assms(1) unfolding good_def
proof (elim disjE exE conjE)
  fix x
  assume "r = Some (Inl x)" "x \<noteq> Overrun"
  then show "(\<exists>x. bindp r f = Some (Inl x) \<and> x \<noteq> Overrun) \<or>
    (\<exists>c j. bindp r f = Some (Inr (c, j)) \<and> i \<le> j \<and> j \<le> length b \<and> words b (tokens c))" by (simp add: bindp_def)
next
  fix c j
  assume "r = Some (Inr (c, j))" "i \<le> j" "j \<le> length b" "words b (tokens c)"
  then show "(\<exists>x. bindp r f = Some (Inl x) \<and> x \<noteq> Overrun) \<or>
    (\<exists>c j. bindp r f = Some (Inr (c, j)) \<and> i \<le> j \<and> j \<le> length b \<and> words b (tokens c))"
    using assms(2) [of j c] by (simp add: bindp_def good_def)
qed

lemma good_le: "good b j r \<Longrightarrow> i \<le> j \<Longrightarrow> good b i r"
  by (force simp: good_def)

lemma good_panic [simp]: "good b i (Some (Inl (Panicked m)))"
  by (simp add: good_def)

lemma good_ret [simp]: "good b i (Some (Inr (c, j))) \<longleftrightarrow> i \<le> j \<and> j \<le> length b \<and> words b (tokens c)"
  by (simp add: good_def)

lemma words_append [simp]: "words b (ps @ qs) \<longleftrightarrow> words b ps \<and> words b qs"
  by (auto simp: words_def)

lemma parseblock_good:
  assumes "0 \<notin> set b" and "i \<le> length b" and "\<And>j. i < j \<Longrightarrow> j \<le> length b \<Longrightarrow> good b j (pl j)"
  shows "good b i (parseblock pl b i)"
proof -
  obtain found i1 where eq: "peek b i [40] = (found, i1)" by (metis surj_pair)
  note p = peek_props [OF eq]
  have "good b i (bindp (pl (after_token b i1)) (\<lambda>c i.
        case peek b i [41] of (found, i) \<Rightarrow>
        if \<not> found then Some (Inl (Panicked ''syntax - missing )''))
        else case parseredirs b (after_token b i) of
          Inl x \<Rightarrow> Some (Inl x)
        | Inr (rs, i) \<Rightarrow> Some (Inr (foldl redircmd c rs, i))))" if f: found
  proof (rule good_bindp)
    have "i < after_token b i1" "after_token b i1 \<le> length b" using p f after_token_props [of i1 b] by auto
    then show "good b i (pl (after_token b i1))" using assms(3) good_le less_imp_le by blast
    fix c j
    assume j: "i \<le> j" "j \<le> length b" "words b (tokens c)"
    obtain found2 i2 where eq2: "peek b j [41] = (found2, i2)" by (metis surj_pair)
    have i2: "j \<le> after_token b i2" "after_token b i2 \<le> length b"
      using peek_props [OF eq2] after_token_props [of i2 b] j(2) by auto
    show "good b i (case peek b j [41] of (found, i) \<Rightarrow>
        if \<not> found then Some (Inl (Panicked ''syntax - missing )''))
        else case parseredirs b (after_token b i) of
          Inl x \<Rightarrow> Some (Inl x)
        | Inr (rs, i) \<Rightarrow> Some (Inr (foldl redircmd c rs, i)))"
      using parseredirs_ok [OF assms(1) i2(2)] i2 j tokens_redirs by (auto simp: eq2 good_def split: sum.splits)
  qed
  then show ?thesis by (simp add: parseblock_def eq)
qed

lemma empty_args_ok: "redir_words b rs \<Longrightarrow> args_ok b (replicate MAXARGS None, replicate MAXARGS None, 0, rs)"
  by (auto simp: args_ok_def words_def MAXARGS_def intro!: exI [of _ "[]"])

lemma parseexec_good:
  assumes "0 \<notin> set b" and "i \<le> length b" and "\<And>j. i < j \<Longrightarrow> j \<le> length b \<Longrightarrow> good b j (pl j)"
  shows "good b i (parseexec pl b i)"
proof -
  obtain found i1 where eq: "peek b i [40] = (found, i1)" by (metis surj_pair)
  have i1: "i \<le> i1" "i1 \<le> length b" using peek_props [OF eq] assms(2) by auto
  show ?thesis
  proof (cases found)
    case True
    have "good b i1 (parseblock pl b i1)" by (rule parseblock_good [OF assms(1) i1(2)]) (use assms(3) i1 in simp)
    then show ?thesis using True eq i1 good_le by (simp add: parseexec_def)
  next
    case False
    note r = parseredirs_ok [OF assms(1) i1(2)]
    show ?thesis
    proof (cases "parseredirs b i1")
      case (Inl x)
      then show ?thesis using r False eq by (simp add: parseexec_def good_def)
    next
      case (Inr y)
      then obtain rs i2 where y: "parseredirs b i1 = Inr (rs, i2)" by (metis surj_pair)
      then have i2: "i1 \<le> i2" "i2 \<le> length b" "redir_words b rs" using r by auto
      note a = parseargs_ok [OF assms(1) i2(2) empty_args_ok [OF i2(3)]]
      then show ?thesis using False eq y i1 i2 end_args_ok [of b]
        by (fastforce simp: parseexec_def empty_args_def good_def split: sum.splits)
    qed
  qed
qed

lemma parsepipe_good:
  assumes "0 \<notin> set b" and "i \<le> length b" and "\<And>j. i < j \<Longrightarrow> j \<le> length b \<Longrightarrow> good b j (pl j)" and "length b - i < k"
  shows "good b i (parsepipe k pl b i)"
  using assms(2-)
proof (induction k arbitrary: i)
  case 0
  then show ?case by simp
next
  case (Suc k)
  show ?case unfolding parsepipe.simps
  proof (rule good_bindp [OF parseexec_good [OF assms(1) Suc.prems(1,2)]])
    fix c j
    assume j: "i \<le> j" "j \<le> length b" "words b (tokens c)"
    obtain found j1 where eq: "peek b j [124] = (found, j1)" by (metis surj_pair)
    note p = peek_props [OF eq]
    have "good b i (bindp (parsepipe k pl b (after_token b j1)) (\<lambda>r i. Some (Inr (PIPE c r, i))))" if f: found
    proof (rule good_bindp)
      have a: "i < after_token b j1" "after_token b j1 \<le> length b" using p f j after_token_props [of j1 b] by auto
      then have "good b (after_token b j1) (parsepipe k pl b (after_token b j1))"
        using Suc.prems(2,3) by (intro Suc.IH) auto
      then show "good b i (parsepipe k pl b (after_token b j1))" using a good_le less_imp_le by blast
    qed (use j in simp)
    then show "good b i (case peek b j [124] of (found, i) \<Rightarrow>
        if found then bindp (parsepipe k pl b (after_token b i)) (\<lambda>r i. Some (Inr (PIPE c r, i))) else Some (Inr (c, i)))"
      using p j by (simp add: eq)
  qed auto
qed

lemma back_loop_good:
  assumes "i \<le> length b" and "words b (tokens c)"
  shows "case back_loop b c i of (c', j) \<Rightarrow> i \<le> j \<and> j \<le> length b \<and> words b (tokens c')"
  using assms
proof (induction b c i rule: back_loop.induct)
  case (1 b c i)
  obtain found i1 where eq: "peek b i [38] = (found, i1)" by (metis surj_pair)
  note p = peek_props [OF eq] and a = after_token_props [of i1 b]
  show ?case
  proof (cases found)
    case True
    then have "case back_loop b (BACK c) (after_token b i1) of (c', j) \<Rightarrow> after_token b i1 \<le> j \<and> j \<le> length b \<and> words b (tokens c')"
      using 1(1) [OF eq [symmetric] True] 1(2,3) p a by simp
    moreover have "back_loop b c i = back_loop b (BACK c) (after_token b i1)" using True eq by (subst back_loop.simps) simp
    ultimately show ?thesis using p a 1(2) by auto
  next
    case False
    then show ?thesis using eq p 1(2,3) by (subst back_loop.simps) simp
  qed
qed

lemma parseline_good:
  assumes "0 \<notin> set b" and "i \<le> length b" and "length b - i < k"
  shows "good b i (parseline k b i)"
  using assms(2-)
proof (induction k arbitrary: i)
  case 0
  then show ?case by simp
next
  case (Suc k)
  have pl: "good b j (parseline k b j)" if "i < j" "j \<le> length b" for j using that Suc.prems by (intro Suc.IH) auto
  have "length b - i < Suc (length b)" by simp
  note pipe = parsepipe_good [OF assms(1) Suc.prems(1) pl this]
  show ?case unfolding parseline.simps
  proof (rule good_bindp [OF pipe])
    fix c j
    assume j: "i \<le> j" "j \<le> length b" "words b (tokens c)"
    obtain c1 j1 found j2 where eq: "back_loop b c j = (c1, j1)" "peek b j1 [59] = (found, j2)" by (metis surj_pair)
    have j1: "j \<le> j1" "j1 \<le> length b" "words b (tokens c1)" using back_loop_good [OF j(2,3)] eq(1) by auto
    note p = peek_props [OF eq(2)]
    have "good b i (bindp (parseline k b (after_token b j2)) (\<lambda>r i. Some (Inr (LIST c1 r, i))))" if f: found
    proof (rule good_bindp)
      have a: "i < after_token b j2" "after_token b j2 \<le> length b" using p f j j1 after_token_props [of j2 b] by auto
      then show "good b i (parseline k b (after_token b j2))" using pl good_le less_imp_le by blast
    qed (use j1 in simp)
    then show "good b i (case back_loop b c j of (c, i) \<Rightarrow> case peek b i [59] of (found, i) \<Rightarrow>
        if found then bindp (parseline k b (after_token b i)) (\<lambda>r i. Some (Inr (LIST c r, i))) else Some (Inr (c, i)))"
      using p j j1 by (simp add: eq)
  qed
qed

text \<open>
  C35. The parser ends on every command line, with the calls it may nest bounded by the length of the
  line, and never stores past the ten entries of the argument arrays.
\<close>

theorem parsecmd_total:
  assumes "0 \<notin> set b"
  shows "\<exists>r. parsecmd b = Some r \<and> r \<noteq> Inl Overrun"
  using parseline_good [OF assms, of 0 "Suc (length b)"] by (auto simp: good_def parsecmd_def)

section \<open>The words of a command\<close>

text \<open>The C string at an index.\<close>

definition cstr :: "bytes \<Rightarrow> nat \<Rightarrow> bytes" where
  "cstr b q = takeWhile (\<lambda>c. c \<noteq> 0) (drop q b)"

definition nul_at :: "nat set \<Rightarrow> bytes \<Rightarrow> bytes \<Rightarrow> bool" where
  "nul_at E b b' \<longleftrightarrow> length b' = length b \<and> (\<forall>i < length b. b' ! i = (if i \<in> E then 0 else b ! i))"

lemma nul_at_update: "nul_at E b b' \<Longrightarrow> nul_at (insert e E) b (b'[e := 0])"
  unfolding nul_at_def by (metis insert_iff length_list_update nth_list_update_eq nth_list_update_neq)

lemma nul_args_at: "nul_at E b b' \<Longrightarrow> nul_at (E \<union> snd ` set (arg_pairs as es)) b (nul_args as es b')"
proof (induction as es b' arbitrary: E rule: nul_args.induct)
  case (1 q as e es b')
  then show ?case using nul_at_update [of E b b' e] by fastforce
qed auto

lemma nulterminate_at: "nul_at E b b' \<Longrightarrow> nul_at (E \<union> snd ` set (tokens c)) b (nulterminate c b')"
proof (induction c arbitrary: E b')
  case (EXEC as es)
  then show ?case by (simp add: nul_args_at)
next
  case (REDIR c q e m f)
  then show ?case using nul_at_update [of "E \<union> snd ` set (tokens c)" b "nulterminate c b'" e] by (simp add: insert_commute)
next
  case (PIPE l r)
  then show ?case by (fastforce simp: image_Un Un_assoc)
next
  case (LIST l r)
  then show ?case by (fastforce simp: image_Un Un_assoc)
qed auto

text \<open>
  After \<^verbatim>\<open>nulterminate\<close> the pointers of the command are the words of the line: for every argument and
  file name the C string at its start is the text between its bounds, which is not empty and has no
  blank and no special character, although the NULs are stored in the one shared buffer.
\<close>

theorem parsecmd_words:
  assumes "0 \<notin> set b" and "parsecmd b = Some (Inr (c, b'))" and "(q, e) \<in> set (tokens c)"
  shows "cstr b' q = slice q (e - q) b \<and> cstr b' q \<noteq> [] \<and> (\<forall>x \<in> set (cstr b' q). \<not> special x)"
proof -
  have ok: "words b (tokens c)" and b': "b' = nulterminate c b"
    using assms(2) parseline_good [OF assms(1), of 0 "Suc (length b)"]
    by (auto simp: good_def parsecmd_def split: option.splits sum.splits if_splits)
  have w: "word b x y" if "(x, y) \<in> set (tokens c)" for x y using ok that by (auto simp: words_def)
  note qe = w [OF assms(3), unfolded word_def]
  have "nul_at {} b b" by (simp add: nul_at_def)
  from nulterminate_at [OF this, of c] have n: "nul_at (snd ` set (tokens c)) b b'" by (simp add: b')
  have keep: "b' ! i = b ! i" if "q \<le> i" "i < e" for i
  proof -
    have "i \<notin> snd ` set (tokens c)" using w that qe by (auto simp: word_def)
    then show ?thesis using n that qe by (simp add: nul_at_def)
  qed
  have len: "length b' = length b" using n by (simp add: nul_at_def)
  have t: "take (e - q) (drop q b') = slice q (e - q) b"
    using keep qe len by (intro nth_equalityI) (auto simp: slice_def)
  have ns: "\<not> special x" if mem: "x \<in> set (slice q (e - q) b)" for x
  proof -
    obtain i where i: "i < length (slice q (e - q) b)" "slice q (e - q) b ! i = x" using mem unfolding in_set_conv_nth by blast
    then have "i < e - q" "x = b ! (q + i)" using qe by (auto simp: slice_def)
    then show ?thesis using qe by (auto simp: at_def split: if_splits dest!: spec [of _ "q + i"])
  qed
  then have nz: "\<forall>x \<in> set (slice q (e - q) b). x \<noteq> 0" by (auto simp: special_def)
  have "e < length b \<Longrightarrow> b' ! e = 0" using n assms(3) by (force simp: nul_at_def)
  then have d: "takeWhile (\<lambda>c. c \<noteq> 0) (drop e b') = []" using len by (cases "e < length b") (simp_all add: takeWhile_eq_Nil_iff hd_drop_conv_nth)
  have "drop q b' = slice q (e - q) b @ drop e b'" using t qe append_take_drop_id [of "e - q" "drop q b'"] by simp
  then have "cstr b' q = slice q (e - q) b" using nz d by (simp add: cstr_def takeWhile_append2)
  moreover have "slice q (e - q) b \<noteq> []" using qe by (simp add: slice_def)
  ultimately show ?thesis using ns by simp
qed

text \<open>The line \<^verbatim>\<open>ls>f\<close>.\<close>

definition demo_line :: bytes where "demo_line = [108, 115, 62, 102]"

lemma demo_parse: "parsecmd demo_line = Some (Inr (REDIR (EXEC (Some 0 # replicate 9 None) (Some 2 # replicate 9 None)) 3 4 0x601 1,
    [108, 115, 0, 102]))"
  by code_simp

theorem parsecmd_total_witness: "\<exists>r. parsecmd demo_line = Some r \<and> r \<noteq> Inl Overrun"
  by (rule parsecmd_total) (simp add: demo_line_def)

theorem parsecmd_words_witness: "cstr [108, 115, 0, 102] 0 = [108, 115]"
proof -
  have "0 \<notin> set demo_line" by (simp add: demo_line_def)
  from parsecmd_words [OF this demo_parse, of 0 2] show ?thesis by (simp add: demo_line_def slice_def)
qed

end
