(* ===== verification/Shell_Props.thy ===== *)
theory Shell_Props
  imports Shell
begin

text \<open>
  The grammar of the shell: every command tree, printed with the parentheses it needs, is parsed back
  to itself by the scanner and the parser of \<^verbatim>\<open>user/sh.c\<close>.
\<close>

section \<open>Tokens\<close>

datatype tok = W bytes | S uchar

primrec text_of :: "tok \<Rightarrow> bytes" where
  "text_of (W w) = w"
| "text_of (S c) = (if c = 43 then [62, 62] else [c])"

primrec code_of :: "tok \<Rightarrow> uchar" where
  "code_of (W w) = 97"
| "code_of (S c) = c"

primrec tok_ok :: "tok \<Rightarrow> bool" where
  "tok_ok (W w) \<longleftrightarrow> w \<noteq> [] \<and> (\<forall>c \<in> set w. \<not> special c)"
| "tok_ok (S c) \<longleftrightarrow> c \<in> {60, 62, 43, 124, 38, 59, 40, 41}"

text \<open>Tokens are printed with a blank behind each; the index \<open>i\<close> of \<open>b\<close> is at the tokens \<open>ts\<close>, the last ones.\<close>

definition spaced :: "tok list \<Rightarrow> bytes" where
  "spaced ts = concat (map (\<lambda>t. text_of t @ [32]) ts)"

definition at_toks :: "bytes \<Rightarrow> nat \<Rightarrow> tok list \<Rightarrow> bool" where
  "at_toks b i ts \<longleftrightarrow> i \<le> length b \<and> drop i b = spaced ts \<and> (\<forall>t \<in> set ts. tok_ok t)"

definition next_pos :: "nat \<Rightarrow> tok \<Rightarrow> nat" where
  "next_pos i t = Suc (i + length (text_of t))"

lemma at_head: "drop i b = c # r \<Longrightarrow> at b i = c"
  by (metis at_Cons_0 at_drop add_0_right)

lemma first_char:
  assumes "tok_ok t"
  shows "\<exists>c r. text_of t = c # r \<and> c \<notin> set whitespace \<and> c \<noteq> 0 \<and> (c \<in> set symbols \<longleftrightarrow> (\<exists>d. t = S d)) \<and> (\<forall>d. t = S d \<longrightarrow> c = (if d = 43 then 62 else d))"
proof (cases t)
  case (W w)
  then show ?thesis using assms by (cases w) (auto simp: special_def)
next
  case (S d)
  then show ?thesis using assms by (auto simp: whitespace_def symbols_def)
qed

lemma at_toks_text:
  assumes "at_toks b i (t # ts)"
  shows "drop i b = text_of t @ 32 # spaced ts" "tok_ok t" "i < length b" "at_toks b (next_pos i t) ts"
    "slice i (length (text_of t)) b = text_of t" "drop (i + length (text_of t)) b = 32 # spaced ts"
proof -
  show d: "drop i b = text_of t @ 32 # spaced ts" and t: "tok_ok t" using assms by (simp_all add: at_toks_def spaced_def)
  have "length (drop i b) = length (text_of t) + Suc (length (spaced ts))" by (simp add: d)
  then have l: "length b = i + length (text_of t) + Suc (length (spaced ts))" by (simp; linarith)
  then show "i < length b" by simp
  show "slice i (length (text_of t)) b = text_of t" by (simp add: slice_def d)
  have "drop (i + length (text_of t)) b = drop (length (text_of t)) (drop i b)" by (simp add: add.commute)
  then show e: "drop (i + length (text_of t)) b = 32 # spaced ts" by (simp add: d)
  have "drop (next_pos i t) b = drop 1 (drop (i + length (text_of t)) b)" by (simp add: next_pos_def)
  then have "drop (next_pos i t) b = spaced ts" by (simp add: e)
  then show "at_toks b (next_pos i t) ts" using assms l by (simp add: at_toks_def next_pos_def)
qed

lemma skip_at_toks:
  assumes "at_toks b i ts"
  shows "skip_ws b i = i"
proof (cases ts)
  case Nil
  then have "at b i = 0" using assms by (simp add: at_toks_def spaced_def at_def)
  then show ?thesis using strchr_ws [of 0] by (subst skip_ws.simps) (auto simp: whitespace_def)
next
  case (Cons t ts')
  have "at_toks b i (t # ts')" using assms Cons by simp
  from first_char [OF at_toks_text(2) [OF this]] obtain c r where "text_of t = c # r" "c \<notin> set whitespace" by blast
  then have "at b i \<notin> set whitespace" using at_toks_text(1) [of b i t ts'] assms Cons at_head [of i b c] by simp
  then show ?thesis using strchr_ws [of "at b i"] by (subst skip_ws.simps) auto
qed

lemma peek_toks:
  assumes "at_toks b i ts" and "0 \<notin> set toks" and "set toks \<subseteq> set symbols"
  shows "peek b i toks = (case ts of S d # _ \<Rightarrow> (if d = 43 then 62 else d) \<in> set toks | _ \<Rightarrow> False, i)"
proof (cases ts)
  case Nil
  then have "at b i = 0" using assms by (simp add: at_toks_def spaced_def at_def)
  then show ?thesis using Nil skip_at_toks [OF assms(1)] by (simp add: peek_def)
next
  case (Cons t ts')
  obtain c r where c: "text_of t = c # r" "c \<noteq> 0" "c \<in> set symbols \<longleftrightarrow> (\<exists>d. t = S d)" "\<And>d. t = S d \<Longrightarrow> c = (if d = 43 then 62 else d)"
    using first_char [OF at_toks_text(2) [of b i t ts']] assms(1) Cons by auto
  then have "at b i = c" using at_toks_text(1) [of b i t ts'] assms Cons at_head [of i b c] by simp
  then have "peek b i toks = (c \<in> set toks, i)" using skip_at_toks [OF assms(1)] c(2) strchr_set [OF assms(2), of c] by (simp add: peek_def)
  then show ?thesis using Cons c(3,4) assms(3) by (cases t) auto
qed

lemma gettoken_toks:
  assumes "at_toks b i (t # ts)" and "0 \<notin> set b"
  shows "gettoken b i = (code_of t, i, i + length (text_of t), next_pos i t)"
proof -
  note a = at_toks_text [OF assms(1)] and s = skip_at_toks [OF assms(1)]
  let ?e = "i + length (text_of t)"
  have blank: "at b ?e = 32" using at_head [OF a(6)] .
  have "skip_ws b ?e = skip_ws b (Suc ?e)"
    using blank at_bound [of b ?e] strchr_ws [of 32] by (subst skip_ws.simps) (auto simp: whitespace_def)
  then have j: "skip_ws b ?e = next_pos i t" using skip_at_toks [OF a(4)] by (simp add: next_pos_def)
  show ?thesis
  proof (cases t)
    case (W w)
    have w: "at b (i + k) = w ! k" if "k < length w" for k
    proof -
      have "at b (i + k) = at (drop i b) k" by simp
      also have "\<dots> = w ! k" using that unfolding a(1) by (simp add: W at_def nth_append)
      finally show ?thesis .
    qed
    have ok: "w \<noteq> []" "\<forall>c \<in> set w. \<not> special c" using a(2) W by simp_all
    have k: "skip_word b (i + k) = i + length w" if "k \<le> length w" for k
      using that
    proof (induction "length w - k" arbitrary: k)
      case 0
      then have "at b (i + k) = 32" "k = length w" using blank W by simp_all
      then show ?case using strchr_ws [of 32] by (subst skip_word.simps) (auto simp: whitespace_def)
    next
      case (Suc n)
      then have kl: "k < length w" by simp
      then have "\<not> special (at b (i + k))" using w ok(2) by simp
      then have "skip_word b (i + k) = skip_word b (i + Suc k)"
        using strchr_ws [of "at b (i + k)"] strchr_sym [of "at b (i + k)"] at_bound [of b "i + k"]
        by (subst skip_word.simps) (auto simp: special_def)
      then show ?case using Suc(1) [of "Suc k"] Suc(2) kl by simp
    qed
    have "\<not> special (at b (skip_ws b i))" using w [of 0] ok s by simp
    then show ?thesis using gettoken_word(1) [of i b] a(3) s k [of 0] W j by simp
  next
    case (S d)
    have d: "d \<in> {60, 62, 43, 124, 38, 59, 40, 41}" using a(2) S by simp
    have c: "at b i = (if d = 43 then 62 else d)" "d = 43 \<Longrightarrow> at b (Suc i) = 62" "d \<noteq> 43 \<Longrightarrow> at b (Suc i) = 32"
      using a(1) S at_drop [of i b 0] at_drop [of i b 1] by (auto simp: at_def split: if_splits)
    then show ?thesis using d S s j by (auto simp: gettoken_def Let_def)
  qed
qed

lemma after_token_toks: "at_toks b i (t # ts) \<Longrightarrow> 0 \<notin> set b \<Longrightarrow> after_token b i = next_pos i t"
  by (simp add: after_token_def gettoken_toks)

lemma len_toks: "at_toks b i ts \<Longrightarrow> length b - i = length (spaced ts)"
  by (metis at_toks_def length_drop)

lemma spaced_append [simp]: "spaced (ts @ us) = spaced ts @ spaced us"
  by (simp add: spaced_def)

lemma spaced_Cons [simp]: "spaced (t # ts) = text_of t @ 32 # spaced ts"
  by (simp add: spaced_def)

section \<open>Command trees\<close>

text \<open>Commands with their words as text; a redirection carries the code of its token.\<close>

datatype ast = AExec "bytes list" | ARedir ast uchar bytes | APipe ast ast | AList ast ast | ABack ast

definition kind :: "int \<Rightarrow> int \<Rightarrow> uchar" where
  "kind mode fd = (if fd = 0 then 60 else if mode = 0x601 then 62 else 43)"

primrec abs_cmd :: "bytes \<Rightarrow> cmd \<Rightarrow> ast" where
  "abs_cmd b (EXEC argv eargv) = AExec (map (\<lambda>(q, e). slice q (e - q) b) (arg_pairs argv eargv))"
| "abs_cmd b (REDIR c q e mode fd) = ARedir (abs_cmd b c) (kind mode fd) (slice q (e - q) b)"
| "abs_cmd b (PIPE l r) = APipe (abs_cmd b l) (abs_cmd b r)"
| "abs_cmd b (LIST l r) = AList (abs_cmd b l) (abs_cmd b r)"
| "abs_cmd b (BACK c) = ABack (abs_cmd b c)"

text \<open>Printing. The level says what may stand at a place: 0 a list, 1 a background command, 2 a pipe, 3 only
  a simple or parenthesised command.\<close>

definition paren :: "bool \<Rightarrow> tok list \<Rightarrow> tok list" where
  "paren p ts = (if p then S 40 # ts @ [S 41] else ts)"

primrec toks :: "nat \<Rightarrow> ast \<Rightarrow> tok list" where
  "toks l (AExec ws) = map W ws"
| "toks l (ARedir c t w) = toks 3 c @ [S t, W w]"
| "toks l (APipe a d) = paren (2 < l) (toks 3 a @ S 124 # toks 2 d)"
| "toks l (ABack c) = paren (1 < l) (toks 1 c @ [S 38])"
| "toks l (AList a d) = paren (0 < l) (toks 1 a @ S 59 # toks 0 d)"

primrec ast_ok :: "ast \<Rightarrow> bool" where
  "ast_ok (AExec ws) \<longleftrightarrow> length ws < MAXARGS \<and> (\<forall>w \<in> set ws. tok_ok (W w))"
| "ast_ok (ARedir c t w) \<longleftrightarrow> ast_ok c \<and> t \<in> {60, 62, 43} \<and> tok_ok (W w)"
| "ast_ok (APipe a d) \<longleftrightarrow> ast_ok a \<and> ast_ok d"
| "ast_ok (AList a d) \<longleftrightarrow> ast_ok a \<and> ast_ok d"
| "ast_ok (ABack c) \<longleftrightarrow> ast_ok c"

section \<open>Redirections and arguments\<close>

definition redir_toks :: "(uchar \<times> bytes) list \<Rightarrow> tok list" where
  "redir_toks rs = concat (map (\<lambda>(t, w). [S t, W w]) rs)"

definition redirs_ok :: "(uchar \<times> bytes) list \<Rightarrow> bool" where
  "redirs_ok rs \<longleftrightarrow> (\<forall>(t, w) \<in> set rs. t \<in> {60, 62, 43})"

definition abs_redirs :: "bytes \<Rightarrow> redir list \<Rightarrow> (uchar \<times> bytes) list" where
  "abs_redirs b rs = map (\<lambda>(q, e, m, f). (kind m f, slice q (e - q) b)) rs"

definition wrap :: "ast \<Rightarrow> (uchar \<times> bytes) list \<Rightarrow> ast" where
  "wrap c rs = foldl (\<lambda>c (t, w). ARedir c t w) c rs"

lemma abs_wrap: "abs_cmd b (foldl redircmd c rs) = wrap (abs_cmd b c) (abs_redirs b rs)"
  by (induction rs arbitrary: c) (auto simp: wrap_def abs_redirs_def redircmd_def)

definition no_redir :: "tok list \<Rightarrow> bool" where
  "no_redir ts \<longleftrightarrow> (case ts of S d # _ \<Rightarrow> d \<notin> {60, 62, 43} | _ \<Rightarrow> True)"

lemma kind_redir_of: "t \<in> {60, 62, 43} \<Longrightarrow> redir_of t q e = (q, e, m, f) \<Longrightarrow> kind m f = t"
  by (auto simp: redir_of_def kind_def O_RDONLY_def O_WRONLY_def O_CREATE_def O_TRUNC_def split: if_splits)

lemma redir_of_bounds: "\<exists>m f. redir_of t q e = (q, e, m, f)"
  by (simp add: redir_of_def)

lemma parseredirs_toks:
  assumes "0 \<notin> set b" and "at_toks b i (redir_toks rs @ ts)" and "redirs_ok rs" and "no_redir ts"
  shows "\<exists>rs' j. parseredirs b i = Inr (rs', j) \<and> at_toks b j ts \<and> abs_redirs b rs' = rs"
  using assms(2,3)
proof (induction rs arbitrary: i)
  case Nil
  then have "peek b i [60, 62] = (False, i)"
    using peek_toks [of b i ts "[60, 62]"] assms(4) by (auto simp: redir_toks_def no_redir_def symbols_def split: list.splits tok.splits)
  then show ?case using Nil by (subst parseredirs.simps) (auto simp: abs_redirs_def redir_toks_def)
next
  case (Cons r rs)
  obtain t w where r: "r = (t, w)" by (cases r)
  have t: "t \<in> {60, 62, 43}" using Cons.prems(2) by (simp add: redirs_ok_def r)
  have a: "at_toks b i (S t # W w # redir_toks rs @ ts)" using Cons.prems(1) by (simp add: redir_toks_def r)
  note a1 = at_toks_text(4) [OF a] and a2 = at_toks_text(4) [OF at_toks_text(4) [OF a]]
  let ?i1 = "next_pos i (S t)" and ?i2 = "next_pos (next_pos i (S t)) (W w)"
  obtain rs' j where ih: "parseredirs b ?i2 = Inr (rs', j)" "at_toks b j ts" "abs_redirs b rs' = rs"
    using Cons.IH [OF a2] Cons.prems(2) by (auto simp: redirs_ok_def)
  have "peek b i [60, 62] = (True, i)" using peek_toks [OF a, of "[60, 62]"] t by (auto simp: symbols_def)
  then have p: "parseredirs b i = Inr (redir_of t ?i1 (?i1 + length w) # rs', j)"
    using gettoken_toks [OF a assms(1)] gettoken_toks [OF a1 assms(1)] ih(1) by (subst parseredirs.simps) simp
  obtain m f where m: "redir_of t ?i1 (?i1 + length w) = (?i1, ?i1 + length w, m, f)" using redir_of_bounds by blast
  have "abs_redirs b (redir_of t ?i1 (?i1 + length w) # rs') = r # rs"
    using ih(3) kind_redir_of [OF t m] at_toks_text(5) [OF a1] by (simp add: m abs_redirs_def r)
  then show ?case using p ih(2) by blast
qed

definition arg_state :: "(nat \<times> nat) list \<Rightarrow> redir list \<Rightarrow> args" where
  "arg_state ps rs = (map (Some \<circ> fst) ps @ replicate (MAXARGS - length ps) None,
     map (Some \<circ> snd) ps @ replicate (MAXARGS - length ps) None, length ps, rs)"

lemma add_arg_state:
  assumes "Suc (length ps) < MAXARGS"
  shows "add_arg q e (arg_state ps rs) = Inr (arg_state (ps @ [(q, e)]) rs)"
proof -
  have "replicate (MAXARGS - length ps) None = None # replicate (MAXARGS - Suc (length ps)) (None :: nat option)"
    using assms by (metis Suc_diff_Suc Suc_lessD replicate_Suc)
  then show ?thesis using assms by (simp add: arg_state_def add_arg_def store_arg_def list_update_append)
qed

lemma end_arg_state:
  assumes "length ps < MAXARGS"
  shows "\<exists>c. end_args (arg_state ps rs) = Inr (foldl redircmd c rs) \<and> abs_cmd b c = AExec (map (\<lambda>(q, e). slice q (e - q) b) ps)"
proof -
  have "replicate (MAXARGS - length ps) None = None # replicate (MAXARGS - Suc (length ps)) (None :: nat option)"
    using assms by (metis Suc_diff_Suc replicate_Suc)
  then have "end_args (arg_state ps rs) = Inr (foldl redircmd (EXEC (map (Some \<circ> fst) ps @ replicate (MAXARGS - length ps) None)
      (map (Some \<circ> snd) ps @ replicate (MAXARGS - length ps) None)) rs)"
    using assms by (simp add: arg_state_def end_args_def store_arg_def list_update_append)
  then show ?thesis using arg_pairs_map by fastforce
qed

definition follow :: "tok list \<Rightarrow> bool" where
  "follow ts \<longleftrightarrow> (case ts of [] \<Rightarrow> True | S d # _ \<Rightarrow> d \<in> {124, 41, 38, 59} | _ \<Rightarrow> False)"

lemma follow_no_redir: "follow ts \<Longrightarrow> no_redir ts"
  by (auto simp: follow_def no_redir_def split: list.splits tok.splits)

lemma redir_toks_Nil [simp]: "redir_toks [] = []"
  by (simp add: redir_toks_def)

lemma parseargs_end:
  assumes "0 \<notin> set b" and "at_toks b i ts" and "follow ts"
  shows "parseargs b i a = Inr (a, i)"
proof (cases ts)
  case Nil
  then have "peek b i [124, 41, 38, 59] = (False, i)" using peek_toks [OF assms(2), of "[124, 41, 38, 59]"] by (simp add: symbols_def)
  moreover have "at b i = 0" using assms(2) Nil by (simp add: at_toks_def spaced_def at_def)
  then have "gettoken b i = (0, i, i, i)" using skip_at_toks [OF assms(2)] by (simp add: gettoken_def)
  ultimately show ?thesis by (subst parseargs.simps) simp
next
  case (Cons t us)
  then obtain d where "t = S d" "d \<in> {124, 41, 38, 59}" using assms(3) by (auto simp: follow_def split: tok.splits)
  then have "peek b i [124, 41, 38, 59] = (True, i)" using peek_toks [OF assms(2), of "[124, 41, 38, 59]"] Cons by (auto simp: symbols_def)
  then show ?thesis by (subst parseargs.simps) simp
qed

lemma parseargs_toks:
  assumes "0 \<notin> set b" and "at_toks b i (map W ws @ redir_toks rs @ ts)" and "redirs_ok rs" and "follow ts"
    and "ws = [] \<longrightarrow> rs = []" and "length ps + length ws < MAXARGS"
  shows "\<exists>ps' rs' j. parseargs b i (arg_state ps rs0) = Inr (arg_state (ps @ ps') (rs0 @ rs'), j) \<and> at_toks b j ts
    \<and> map (\<lambda>(q, e). slice q (e - q) b) ps' = ws \<and> abs_redirs b rs' = rs"
  using assms(2,3,5,6)
proof (induction ws arbitrary: i ps rs0 rs)
  case Nil
  then show ?case using parseargs_end [OF assms(1) _ assms(4)]
    by (intro exI [of _ "[]"] exI [of _ i]) (simp add: abs_redirs_def)
next
  case (Cons w ws)
  define rs1 where "rs1 = (if ws = [] then rs else [])"
  define rs2 where "rs2 = (if ws = [] then [] else rs)"
  have split: "map W ws @ redir_toks rs @ ts = redir_toks rs1 @ map W ws @ redir_toks rs2 @ ts" "rs1 @ rs2 = rs"
    by (auto simp: rs1_def rs2_def)
  have ok: "redirs_ok rs1" "redirs_ok rs2" using Cons.prems(2) by (auto simp: rs1_def rs2_def redirs_ok_def)
  have a: "at_toks b i (W w # redir_toks rs1 @ map W ws @ redir_toks rs2 @ ts)" using Cons.prems(1) split by simp
  let ?i1 = "next_pos i (W w)" and ?p = "(i, i + length w)"
  note a1 = at_toks_text(4) [OF a]
  have "no_redir (map W ws @ redir_toks rs2 @ ts)"
    using follow_no_redir [OF assms(4)] by (cases ws) (auto simp: rs2_def no_redir_def)
  from parseredirs_toks [OF assms(1) a1 ok(1) this] obtain rs1' i2 where
    r: "parseredirs b ?i1 = Inr (rs1', i2)" "at_toks b i2 (map W ws @ redir_toks rs2 @ ts)" "abs_redirs b rs1' = rs1" by blast
  have "length (ps @ [?p]) + length ws < MAXARGS" using Cons.prems(4) by simp
  from Cons.IH [OF r(2) ok(2) _ this, of "rs0 @ rs1'"] obtain ps' rs2' j where
    ih: "parseargs b i2 (arg_state (ps @ [?p]) (rs0 @ rs1')) = Inr (arg_state ((ps @ [?p]) @ ps') ((rs0 @ rs1') @ rs2'), j)"
      "at_toks b j ts" "map (\<lambda>(q, e). slice q (e - q) b) ps' = ws" "abs_redirs b rs2' = rs2"
    by (auto simp: rs2_def)
  have "peek b i [124, 41, 38, 59] = (False, i)" using peek_toks [OF a, of "[124, 41, 38, 59]"] by (simp add: symbols_def)
  moreover have "add_arg i (i + length w) (arg_state ps rs0) = Inr (arg_state (ps @ [?p]) rs0)"
    using Cons.prems(4) by (intro add_arg_state) simp
  ultimately have "parseargs b i (arg_state ps rs0) = parseargs b i2 (arg_state (ps @ [?p]) (rs0 @ rs1'))"
    using gettoken_toks [OF a assms(1)] r(1) by (subst parseargs.simps) (simp add: arg_state_def)
  then have "parseargs b i (arg_state ps rs0) = Inr (arg_state (ps @ ?p # ps') (rs0 @ rs1' @ rs2'), j)" using ih(1) by simp
  moreover have "map (\<lambda>(q, e). slice q (e - q) b) (?p # ps') = w # ws" using ih(3) at_toks_text(5) [OF a] by simp
  moreover have "abs_redirs b (rs1' @ rs2') = rs" using r(3) ih(4) split(2) by (simp add: abs_redirs_def)
  ultimately show ?case using ih(2) by (intro exI [of _ "?p # ps'"] exI [of _ "rs1' @ rs2'"] exI [of _ j]) simp
qed

section \<open>The levels of the grammar\<close>

text \<open>Each nonterminal reads back what is printed at its level, whatever follows it may be followed by.\<close>

definition ends :: "uchar set \<Rightarrow> tok list \<Rightarrow> bool" where
  "ends D ts \<longleftrightarrow> (case ts of [] \<Rightarrow> True | S d # _ \<Rightarrow> d \<in> D | _ \<Rightarrow> False)"

definition reads3 :: "ast \<Rightarrow> bool" where
  "reads3 c \<longleftrightarrow> (\<forall>b i k rs ts. 0 \<notin> set b \<longrightarrow> at_toks b i (toks 3 c @ redir_toks rs @ ts) \<longrightarrow> redirs_ok rs \<longrightarrow> follow ts \<longrightarrow> length b - i \<le> k \<longrightarrow>
     (\<exists>c' j. parseexec (parseline k b) b i = Some (Inr (c', j)) \<and> at_toks b j ts \<and> abs_cmd b c' = wrap c rs))"

definition reads2 :: "ast \<Rightarrow> bool" where
  "reads2 c \<longleftrightarrow> (\<forall>b i k n ts. 0 \<notin> set b \<longrightarrow> at_toks b i (toks 2 c @ ts) \<longrightarrow> ends {41, 38, 59} ts \<longrightarrow> length b - i \<le> k \<longrightarrow> length b - i < n \<longrightarrow>
     (\<exists>c' j. parsepipe n (parseline k b) b i = Some (Inr (c', j)) \<and> at_toks b j ts \<and> abs_cmd b c' = c))"

definition reads1 :: "ast \<Rightarrow> bool" where
  "reads1 c \<longleftrightarrow> (\<forall>b i k n ts. 0 \<notin> set b \<longrightarrow> at_toks b i (toks 1 c @ ts) \<longrightarrow> ends {41, 38, 59} ts \<longrightarrow> length b - i \<le> k \<longrightarrow> length b - i < n \<longrightarrow>
     (\<exists>c0 j0 c' j. parsepipe n (parseline k b) b i = Some (Inr (c0, j0)) \<and> back_loop b c0 j0 = back_loop b c' j
        \<and> at_toks b j ts \<and> abs_cmd b c' = c))"

definition reads0 :: "ast \<Rightarrow> bool" where
  "reads0 c \<longleftrightarrow> (\<forall>b i k ts. 0 \<notin> set b \<longrightarrow> at_toks b i (toks 0 c @ ts) \<longrightarrow> ends {41} ts \<longrightarrow> length b - i < k \<longrightarrow>
     (\<exists>c' j. parseline k b i = Some (Inr (c', j)) \<and> at_toks b j ts \<and> abs_cmd b c' = c))"

lemma ends_peek:
  assumes "at_toks b i ts" and "ends D ts" and "set xs \<subseteq> set symbols" and "0 \<notin> set xs" and "D \<inter> set xs = {}" and "43 \<notin> D"
  shows "peek b i xs = (False, i)"
  using peek_toks [OF assms(1,4,3)] assms(2,5,6) by (auto simp: ends_def split: list.splits tok.splits)

lemma reads3_exec:
  assumes "length ws < MAXARGS"
  shows "reads3 (AExec ws)"
  unfolding reads3_def
proof (intro allI impI)
  fix b i k rs ts
  assume b: "0 \<notin> set b" and a: "at_toks b i (toks 3 (AExec ws) @ redir_toks rs @ ts)" and ok: "redirs_ok rs" and f: "follow ts"
  define rs1 where "rs1 = (if ws = [] then rs else [])"
  define rs2 where "rs2 = (if ws = [] then [] else rs)"
  have a': "at_toks b i (redir_toks rs1 @ map W ws @ redir_toks rs2 @ ts)" using a by (auto simp: rs1_def rs2_def)
  have ok': "redirs_ok rs1" "redirs_ok rs2" "rs1 @ rs2 = rs" using ok by (auto simp: rs1_def rs2_def redirs_ok_def)
  have "peek b i [40] = (False, i)" using peek_toks [OF a', of "[40]"] ok'(1) f
    by (cases rs1; cases ws) (auto simp: symbols_def redir_toks_def redirs_ok_def follow_def rs2_def split: list.splits tok.splits)
  moreover have "no_redir (map W ws @ redir_toks rs2 @ ts)"
    using follow_no_redir [OF f] by (cases ws) (auto simp: rs2_def no_redir_def)
  from parseredirs_toks [OF b a' ok'(1) this] obtain rs1' i2 where
    r: "parseredirs b i = Inr (rs1', i2)" "at_toks b i2 (map W ws @ redir_toks rs2 @ ts)" "abs_redirs b rs1' = rs1" by blast
  have none: "ws = [] \<longrightarrow> rs2 = []" by (simp add: rs2_def)
  have few: "length ([] :: (nat \<times> nat) list) + length ws < MAXARGS" using assms by simp
  obtain ps' rs2' j where
    p: "parseargs b i2 (arg_state [] rs1') = Inr (arg_state ([] @ ps') (rs1' @ rs2'), j)" "at_toks b j ts"
      "map (\<lambda>(q, e). slice q (e - q) b) ps' = ws" "abs_redirs b rs2' = rs2"
    using parseargs_toks [OF b r(2) ok'(2) f none few, of rs1'] by (elim exE conjE) (rule that)
  have "length ps' < MAXARGS" using assms arg_cong [OF p(3), of length] by simp
  from end_arg_state [OF this, of "rs1' @ rs2'" b] obtain c where
    c: "end_args (arg_state ps' (rs1' @ rs2')) = Inr (foldl redircmd c (rs1' @ rs2'))" "abs_cmd b c = AExec ws" unfolding p(3) by (elim exE conjE) (rule that)
  have "abs_redirs b (rs1' @ rs2') = rs" using r(3) p(4) ok'(3) by (simp add: abs_redirs_def)
  then have "abs_cmd b (foldl redircmd c (rs1' @ rs2')) = wrap (AExec ws) rs" by (simp only: abs_wrap c(2))
  moreover have "arg_state [] rs1' = (replicate MAXARGS None, replicate MAXARGS None, 0, rs1')" by (simp add: arg_state_def)
  ultimately show "\<exists>c' j. parseexec (parseline k b) b i = Some (Inr (c', j)) \<and> at_toks b j ts \<and> abs_cmd b c' = wrap (AExec ws) rs"
    using \<open>peek b i [40] = (False, i)\<close> r(1) p(1,2) c(1) by (simp add: parseexec_def empty_args_def)
qed

lemma reads3D:
  assumes "reads3 c" and "0 \<notin> set b" and "at_toks b i (toks 3 c @ redir_toks rs @ ts)" and "redirs_ok rs" and "follow ts" and "length b - i \<le> k"
  obtains c' j where "parseexec (parseline k b) b i = Some (Inr (c', j))" "at_toks b j ts" "abs_cmd b c' = wrap c rs"
  using assms unfolding reads3_def by blast

lemma reads2D:
  assumes "reads2 c" and "0 \<notin> set b" and "at_toks b i (toks 2 c @ ts)" and "ends {41, 38, 59} ts" and "length b - i \<le> k" and "length b - i < n"
  obtains c' j where "parsepipe n (parseline k b) b i = Some (Inr (c', j))" "at_toks b j ts" "abs_cmd b c' = c"
  using assms unfolding reads2_def by blast

lemma reads1D:
  assumes "reads1 c" and "0 \<notin> set b" and "at_toks b i (toks 1 c @ ts)" and "ends {41, 38, 59} ts" and "length b - i \<le> k" and "length b - i < n"
  obtains c0 j0 c' j where "parsepipe n (parseline k b) b i = Some (Inr (c0, j0))" "back_loop b c0 j0 = back_loop b c' j"
    "at_toks b j ts" "abs_cmd b c' = c"
  using assms unfolding reads1_def by blast

lemma reads0D:
  assumes "reads0 c" and "0 \<notin> set b" and "at_toks b i (toks 0 c @ ts)" and "ends {41} ts" and "length b - i < k"
  obtains c' j where "parseline k b i = Some (Inr (c', j))" "at_toks b j ts" "abs_cmd b c' = c"
  using assms unfolding reads0_def by blast

lemma ends_follow: "ends D ts \<Longrightarrow> D \<subseteq> {124, 41, 38, 59} \<Longrightarrow> follow ts"
  by (auto simp: ends_def follow_def split: list.splits tok.splits)

lemma wrap_Nil [simp]: "wrap c [] = c" and wrap_Cons [simp]: "wrap c ((t, w) # rs) = wrap (ARedir c t w) rs"
  by (simp_all add: wrap_def)

lemma reads3_redir:
  assumes "reads3 c" and "t \<in> {60, 62, 43}"
  shows "reads3 (ARedir c t w)"
  unfolding reads3_def
proof (intro allI impI)
  fix b i k rs ts
  assume b: "0 \<notin> set b" and a: "at_toks b i (toks 3 (ARedir c t w) @ redir_toks rs @ ts)" and ok: "redirs_ok rs" and f: "follow ts"
    and k: "length b - i \<le> k"
  have a': "at_toks b i (toks 3 c @ redir_toks ((t, w) # rs) @ ts)" using a by (simp add: redir_toks_def)
  have "redirs_ok ((t, w) # rs)" using ok assms(2) by (simp add: redirs_ok_def)
  from reads3D [OF assms(1) b a' this f k] show "\<exists>c' j. parseexec (parseline k b) b i = Some (Inr (c', j)) \<and> at_toks b j ts
      \<and> abs_cmd b c' = wrap (ARedir c t w) rs" by (metis wrap_Cons)
qed

lemma reads3_paren:
  assumes "reads0 c" and "toks 3 c = S 40 # toks 0 c @ [S 41]"
  shows "reads3 c"
  unfolding reads3_def
proof (intro allI impI)
  fix b i k rs ts
  assume b: "0 \<notin> set b" and a: "at_toks b i (toks 3 c @ redir_toks rs @ ts)" and ok: "redirs_ok rs" and f: "follow ts"
    and k: "length b - i \<le> k"
  have a0: "at_toks b i (S 40 # toks 0 c @ S 41 # redir_toks rs @ ts)" using a assms(2) by simp
  let ?i1 = "next_pos i (S 40)"
  note a1 = at_toks_text(4) [OF a0]
  have "length b - ?i1 < k" using k at_toks_text(3) [OF a0] by (simp add: next_pos_def)
  with reads0D [OF assms(1) b a1, of k] obtain c' j where
    c: "parseline k b ?i1 = Some (Inr (c', j))" "at_toks b j (S 41 # redir_toks rs @ ts)" "abs_cmd b c' = c"
    by (auto simp: ends_def)
  obtain rs' j2 where r: "parseredirs b (next_pos j (S 41)) = Inr (rs', j2)" "at_toks b j2 ts" "abs_redirs b rs' = rs"
    using parseredirs_toks [OF b at_toks_text(4) [OF c(2)] ok follow_no_redir [OF f]] by blast
  have "peek b i [40] = (True, i)" using peek_toks [OF a0, of "[40]"] by (simp add: symbols_def)
  moreover have "peek b j [41] = (True, j)" using peek_toks [OF c(2), of "[41]"] by (simp add: symbols_def)
  ultimately have "parseexec (parseline k b) b i = Some (Inr (foldl redircmd c' rs', j2))"
    using after_token_toks [OF a0 b] after_token_toks [OF c(2) b] c(1) r(1) by (simp add: parseexec_def parseblock_def bindp_def)
  then show "\<exists>c' j. parseexec (parseline k b) b i = Some (Inr (c', j)) \<and> at_toks b j ts \<and> abs_cmd b c' = wrap c rs"
    using r(2,3) c(3) abs_wrap [of b c' rs'] by simp
qed

lemma reads2_simple:
  assumes "reads3 c" and "toks 2 c = toks 3 c"
  shows "reads2 c"
  unfolding reads2_def
proof (intro allI impI)
  fix b i k n ts
  assume b: "0 \<notin> set b" and a: "at_toks b i (toks 2 c @ ts)" and f: "ends {41, 38, 59} ts" and k: "length b - i \<le> k" and n: "length b - i < n"
  have a': "at_toks b i (toks 3 c @ redir_toks [] @ ts)" using a assms(2) by simp
  obtain c' j where c: "parseexec (parseline k b) b i = Some (Inr (c', j))" "at_toks b j ts" "abs_cmd b c' = wrap c []"
    using reads3D [OF assms(1) b a' _ ends_follow [OF f] k] by (auto simp: redirs_ok_def)
  have "peek b j [124] = (False, j)" by (rule ends_peek [OF c(2) f]) (auto simp: symbols_def)
  then show "\<exists>c' j. parsepipe n (parseline k b) b i = Some (Inr (c', j)) \<and> at_toks b j ts \<and> abs_cmd b c' = c"
    using c n by (cases n) (simp_all add: bindp_def)
qed

lemma reads2_pipe:
  assumes "reads3 a" and "reads2 d"
  shows "reads2 (APipe a d)"
  unfolding reads2_def
proof (intro allI impI)
  fix b i k n ts
  assume b: "0 \<notin> set b" and t: "at_toks b i (toks 2 (APipe a d) @ ts)" and f: "ends {41, 38, 59} ts" and k: "length b - i \<le> k" and n: "length b - i < n"
  obtain m where m: "n = Suc m" using n by (cases n) auto
  have t': "at_toks b i (toks 3 a @ redir_toks [] @ S 124 # toks 2 d @ ts)" using t by (simp add: paren_def)
  obtain c j where c: "parseexec (parseline k b) b i = Some (Inr (c, j))" "at_toks b j (S 124 # toks 2 d @ ts)" "abs_cmd b c = wrap a []"
    using reads3D [OF assms(1) b t' _ _ k] by (auto simp: redirs_ok_def follow_def)
  have l: "length b - j \<le> length b - i" using len_toks [OF t'] len_toks [OF c(2)] by simp
  let ?j1 = "next_pos j (S 124)"
  have "length b - ?j1 < length b - i" using l at_toks_text(3) [OF c(2)] by (simp add: next_pos_def)
  then have "length b - ?j1 \<le> k" "length b - ?j1 < m" using k n m by simp_all
  from reads2D [OF assms(2) b at_toks_text(4) [OF c(2)] f this] obtain c2 j2 where
    c2: "parsepipe m (parseline k b) b ?j1 = Some (Inr (c2, j2))" "at_toks b j2 ts" "abs_cmd b c2 = d" by blast
  have "peek b j [124] = (True, j)" using peek_toks [OF c(2), of "[124]"] by (simp add: symbols_def)
  then have "parsepipe n (parseline k b) b i = Some (Inr (PIPE c c2, j2))"
    using c(1) c2(1) after_token_toks [OF c(2) b] by (simp add: m bindp_def)
  then show "\<exists>c' j. parsepipe n (parseline k b) b i = Some (Inr (c', j)) \<and> at_toks b j ts \<and> abs_cmd b c' = APipe a d"
    using c2(2,3) c(3) by simp
qed

lemma reads1_simple: "reads2 c \<Longrightarrow> toks 1 c = toks 2 c \<Longrightarrow> reads1 c"
  unfolding reads1_def by (metis reads2D)

lemma reads1_back:
  assumes "reads1 c"
  shows "reads1 (ABack c)"
  unfolding reads1_def
proof (intro allI impI)
  fix b i k n ts
  assume b: "0 \<notin> set b" and t: "at_toks b i (toks 1 (ABack c) @ ts)" and k: "length b - i \<le> k" and n: "length b - i < n"
  have t': "at_toks b i (toks 1 c @ S 38 # ts)" using t by (simp add: paren_def)
  have "ends {41, 38, 59} (S 38 # ts)" by (simp add: ends_def)
  from reads1D [OF assms b t' this k n] obtain c0 j0 c' j where
    c: "parsepipe n (parseline k b) b i = Some (Inr (c0, j0))" "back_loop b c0 j0 = back_loop b c' j" "at_toks b j (S 38 # ts)" "abs_cmd b c' = c"
    by blast
  have "peek b j [38] = (True, j)" using peek_toks [OF c(3), of "[38]"] by (simp add: symbols_def)
  then have "back_loop b c' j = back_loop b (BACK c') (next_pos j (S 38))"
    using after_token_toks [OF c(3) b] by (subst back_loop.simps) simp
  then show "\<exists>c0 j0 c' j. parsepipe n (parseline k b) b i = Some (Inr (c0, j0)) \<and> back_loop b c0 j0 = back_loop b c' j
      \<and> at_toks b j ts \<and> abs_cmd b c' = ABack c"
    using c at_toks_text(4) [OF c(3)] by (metis abs_cmd.simps(5))
qed

text \<open>A list level command: what the first part of \<^verbatim>\<open>parseline\<close> returns, with no \<^verbatim>\<open>&\<close> behind.\<close>

lemma reads1_line:
  assumes "reads1 c" and "0 \<notin> set b" and "at_toks b i (toks 1 c @ ts)" and "ends {41, 59} ts" and "length b - i < k"
  obtains m c0 j0 c' j where "k = Suc m" "parsepipe (Suc (length b)) (parseline m b) b i = Some (Inr (c0, j0))" "back_loop b c0 j0 = (c', j)"
    "at_toks b j ts" "abs_cmd b c' = c"
proof -
  obtain m where m: "k = Suc m" using assms(5) by (cases k) auto
  have e: "ends {41, 38, 59} ts" using assms(4) by (auto simp: ends_def split: list.splits tok.splits)
  have "length b - i \<le> m" "length b - i < Suc (length b)" using assms(5) m by simp_all
  from reads1D [OF assms(1-3) e this] obtain c0 j0 c' j where
    c: "parsepipe (Suc (length b)) (parseline m b) b i = Some (Inr (c0, j0))" "back_loop b c0 j0 = back_loop b c' j" "at_toks b j ts" "abs_cmd b c' = c"
    by blast
  have "peek b j [38] = (False, j)" by (rule ends_peek [OF c(3) assms(4)]) (auto simp: symbols_def)
  then have "back_loop b c' j = (c', j)" by (subst back_loop.simps) simp
  then show thesis using that m c by metis
qed

lemma reads0_simple:
  assumes "reads1 c" and "toks 0 c = toks 1 c"
  shows "reads0 c"
  unfolding reads0_def
proof (intro allI impI)
  fix b i k ts
  assume b: "0 \<notin> set b" and t: "at_toks b i (toks 0 c @ ts)" and f: "ends {41} ts" and k: "length b - i < k"
  have f': "ends {41, 59} ts" using f by (auto simp: ends_def split: list.splits tok.splits)
  have t': "at_toks b i (toks 1 c @ ts)" using t assms(2) by simp
  obtain m c0 j0 c' j where c: "k = Suc m" "parsepipe (Suc (length b)) (parseline m b) b i = Some (Inr (c0, j0))" "back_loop b c0 j0 = (c', j)"
    "at_toks b j ts" "abs_cmd b c' = c" using reads1_line [OF assms(1) b t' f' k] by blast
  have "peek b j [59] = (False, j)" by (rule ends_peek [OF c(4) f]) (auto simp: symbols_def)
  then have "parseline k b i = Some (Inr (c', j))" using c(1-3) by (simp add: bindp_def)
  then show "\<exists>c' j. parseline k b i = Some (Inr (c', j)) \<and> at_toks b j ts \<and> abs_cmd b c' = c" using c(4,5) by simp
qed

lemma reads0_list:
  assumes "reads1 a" and "reads0 d"
  shows "reads0 (AList a d)"
  unfolding reads0_def
proof (intro allI impI)
  fix b i k ts
  assume b: "0 \<notin> set b" and t: "at_toks b i (toks 0 (AList a d) @ ts)" and f: "ends {41} ts" and k: "length b - i < k"
  have t': "at_toks b i (toks 1 a @ S 59 # toks 0 d @ ts)" using t by (simp add: paren_def)
  have "ends {41, 59} (S 59 # toks 0 d @ ts)" by (simp add: ends_def)
  from reads1_line [OF assms(1) b t' this k] obtain m c0 j0 c' j where
    c: "k = Suc m" "parsepipe (Suc (length b)) (parseline m b) b i = Some (Inr (c0, j0))" "back_loop b c0 j0 = (c', j)"
      "at_toks b j (S 59 # toks 0 d @ ts)" "abs_cmd b c' = a" by blast
  have l: "length b - j \<le> length b - i" using len_toks [OF t'] len_toks [OF c(4)] by simp
  let ?j1 = "next_pos j (S 59)"
  have "length b - ?j1 < m" using l k c(1) at_toks_text(3) [OF c(4)] by (simp add: next_pos_def)
  from reads0D [OF assms(2) b at_toks_text(4) [OF c(4)] f this] obtain c2 j2 where
    c2: "parseline m b ?j1 = Some (Inr (c2, j2))" "at_toks b j2 ts" "abs_cmd b c2 = d" by blast
  have "peek b j [59] = (True, j)" using peek_toks [OF c(4), of "[59]"] by (simp add: symbols_def)
  then have "parseline k b i = Some (Inr (LIST c' c2, j2))"
    using c(1-3) c2(1) after_token_toks [OF c(4) b] by (simp add: bindp_def)
  then show "\<exists>c' j. parseline k b i = Some (Inr (c', j)) \<and> at_toks b j ts \<and> abs_cmd b c' = AList a d" using c2(2,3) c(5) by simp
qed

lemma reads_all: "ast_ok c \<Longrightarrow> reads3 c \<and> reads2 c \<and> reads1 c \<and> reads0 c"
proof (induction c)
  case (AExec ws)
  then have "reads3 (AExec ws)" by (simp add: reads3_exec)
  then show ?case by (simp add: reads2_simple reads1_simple reads0_simple)
next
  case (ARedir c t w)
  then have "reads3 (ARedir c t w)" by (simp add: reads3_redir)
  then show ?case by (simp add: reads2_simple reads1_simple reads0_simple)
next
  case (APipe a d)
  then have 2: "reads2 (APipe a d)" by (simp add: reads2_pipe)
  then have 1: "reads1 (APipe a d)" by (rule reads1_simple) (simp add: paren_def)
  then have 0: "reads0 (APipe a d)" by (rule reads0_simple) (simp add: paren_def)
  then have "reads3 (APipe a d)" by (rule reads3_paren) (simp add: paren_def)
  then show ?case using 2 1 0 by simp
next
  case (AList a d)
  then have 0: "reads0 (AList a d)" by (simp add: reads0_list)
  then have 3: "reads3 (AList a d)" by (rule reads3_paren) (simp add: paren_def)
  then have 2: "reads2 (AList a d)" by (rule reads2_simple) (simp add: paren_def)
  then have "reads1 (AList a d)" by (rule reads1_simple) (simp add: paren_def)
  then show ?case using 3 2 0 by simp
next
  case (ABack c)
  then have 1: "reads1 (ABack c)" by (simp add: reads1_back)
  then have 0: "reads0 (ABack c)" by (rule reads0_simple) (simp add: paren_def)
  then have 3: "reads3 (ABack c)" by (rule reads3_paren) (simp add: paren_def)
  then have "reads2 (ABack c)" by (rule reads2_simple) (simp add: paren_def)
  then show ?case using 3 1 0 by simp
qed

lemma toks_ok: "ast_ok c \<Longrightarrow> t \<in> set (toks l c) \<Longrightarrow> tok_ok t"
  by (induction c arbitrary: l) (auto simp: paren_def split: if_splits)

lemma spaced_no_nul: "\<forall>t \<in> set ts. tok_ok t \<Longrightarrow> 0 \<notin> set (spaced ts)"
proof (induction ts)
  case (Cons t ts)
  then show ?case by (cases t) (auto simp: special_def)
qed (simp add: spaced_def)

text \<open>
  C15. The shell reads back what is printed: for every command tree of simple commands with fewer than ten
  arguments, redirections, pipes, lists, background commands and parentheses where the grammar needs
  them, \<^verbatim>\<open>parsecmd\<close> accepts the printed line, and the words of the tree it returns are those of the
  command.
\<close>

theorem parse_printed:
  assumes "ast_ok c"
  shows "\<exists>c' b'. parsecmd (spaced (toks 0 c)) = Some (Inr (c', b')) \<and> abs_cmd (spaced (toks 0 c)) c' = c"
proof -
  let ?b = "spaced (toks 0 c)"
  have ok: "\<forall>t \<in> set (toks 0 c). tok_ok t" using toks_ok [OF assms] by blast
  have a: "at_toks ?b 0 (toks 0 c @ [])" using ok by (simp add: at_toks_def)
  have "ends {41} []" "length ?b - 0 < Suc (length ?b)" by (simp_all add: ends_def)
  from reads0D [OF _ spaced_no_nul [OF ok] a this] reads_all [OF assms] obtain c' j where
    c: "parseline (Suc (length ?b)) ?b 0 = Some (Inr (c', j))" "at_toks ?b j []" "abs_cmd ?b c' = c" by blast
  have "peek ?b j [] = (False, j)" using peek_toks [OF c(2), of "[]"] by simp
  moreover have "j = length ?b" using c(2) by (simp add: at_toks_def spaced_def)
  ultimately show ?thesis using c(1,3) by (simp add: parsecmd_def del: spaced_append)
qed

theorem parse_printed_witness:
  "\<exists>c' b'. parsecmd (spaced (toks 0 (AList (ABack (AExec [[97]])) (APipe (ARedir (AExec [[98], [99]]) 60 [102]) (AList (AExec [[100]]) (AExec [[101]])))))) = Some (Inr (c', b'))
    \<and> abs_cmd (spaced (toks 0 (AList (ABack (AExec [[97]])) (APipe (ARedir (AExec [[98], [99]]) 60 [102]) (AList (AExec [[100]]) (AExec [[101]])))))) c'
      = AList (ABack (AExec [[97]])) (APipe (ARedir (AExec [[98], [99]]) 60 [102]) (AList (AExec [[100]]) (AExec [[101]])))"
  by (rule parse_printed) (simp add: MAXARGS_def special_def whitespace_def symbols_def)

end
