(* ===== verification/Virtio.thy ===== *)
theory Virtio
  imports Console
begin

text \<open>
  The disk driver: \<^verbatim>\<open>kernel/virtio_disk.c\<close> and the structures of \<^verbatim>\<open>kernel/virtio.h\<close>.

  \<^item> \<open>vdisk\<close> is \<^verbatim>\<open>struct disk\<close> with the three shared areas it points to. An address handed to the
    device is the place it denotes: a request header, the data of a buffer, or a status byte.
  \<^item> \<^verbatim>\<open>virtio_disk_rw\<close> waits twice. It is cut there: \<open>rw_begin\<close> allocates and posts the request,
    or gives none when it has to wait for descriptors; \<open>rw_end\<close> is the last part, once the buffer
    is no longer marked. \<open>intr_turn\<close> is one turn of the loop of \<^verbatim>\<open>virtio_disk_intr\<close>.
  \<^item> The device is not part of the sources. It is a relation \<open>dev\<close> on the state; \<open>device_ok\<close> says that
    it only does what the virtio specification lets it do: take a posted chain, or carry out a
    request it has taken, write the status byte and announce it in the used ring, in any order.
    \<open>dev_seen\<close> and \<open>dev_work\<close> are its own state.
  \<^item> What the device registers contain is a function \<open>rd\<close>; the values stored to them are the sequence
    \<open>mmio\<close>. The channels woken are recorded in \<open>woken\<close>.
\<close>

section \<open>Data\<close>

definition NUM :: nat where "NUM = 8"
definition VRING_DESC_F_NEXT :: ushort where "VRING_DESC_F_NEXT = 1"
definition VRING_DESC_F_WRITE :: ushort where "VRING_DESC_F_WRITE = 2"
definition VIRTIO_BLK_T_IN :: u32 where "VIRTIO_BLK_T_IN = 0"
definition VIRTIO_BLK_T_OUT :: u32 where "VIRTIO_BLK_T_OUT = 1"

datatype dma = NullAddr | OpsAddr nat | DataAddr nat | StatusAddr nat

record virtq_desc =
  d_addr :: dma
  d_len :: u32
  d_flags :: ushort
  d_next :: ushort

record virtio_blk_req =
  rq_type :: u32
  rq_reserved :: u32
  rq_sector :: u64

record vinfo =
  in_b :: "nat option"
  in_status :: uchar

record vdisk =
  v_desc :: "virtq_desc list"
  v_avail_idx :: ushort
  v_avail_ring :: "ushort list"
  v_used_ring_idx :: ushort
  v_used_ring :: "u32 list"
  v_free :: "bool list"
  v_used_idx :: ushort
  v_info :: "vinfo list"
  v_ops :: "virtio_blk_req list"
  dev_seen :: ushort
  dev_work :: "nat list"

record vdisk_state = cons_state +
  vd :: vdisk
  mmio :: "(nat \<times> u32) list"

definition upd_vd :: "(vdisk \<Rightarrow> vdisk) \<Rightarrow> ('a vdisk_state_scheme, unit) kmon" where
  "upd_vd f = modk (\<lambda>s. s\<lparr>vd := f (vd s)\<rparr>)"

definition zero_desc :: virtq_desc where
  "zero_desc = \<lparr>d_addr = NullAddr, d_len = 0, d_flags = 0, d_next = 0\<rparr>"

section \<open>Descriptors\<close>

definition alloc_desc :: "('a vdisk_state_scheme, nat option) kmon" where
  "alloc_desc =
     bindk (gets (\<lambda>s. scan_first (\<lambda>f. f) (v_free (vd s)))) (\<lambda>r.
     case r of
       None \<Rightarrow> ret None
     | Some i \<Rightarrow> thenk (upd_vd (\<lambda>d. d\<lparr>v_free := (v_free d)[i := False]\<rparr>)) (ret (Some i)))"

definition free_desc :: "nat \<Rightarrow> ('a vdisk_state_scheme, unit) kmon" where
  "free_desc i =
     (if i \<ge> NUM then panic ''free_desc 1''
      else bindk (gets (\<lambda>s. v_free (vd s) ! i)) (\<lambda>f.
        if f then panic ''free_desc 2''
        else thenk (upd_vd (\<lambda>d. d\<lparr>v_desc := (v_desc d)[i := zero_desc]\<rparr>))
          (thenk (upd_vd (\<lambda>d. d\<lparr>v_free := (v_free d)[i := True]\<rparr>)) (wakeup_chan ChanDesc))))"

text \<open>
  The loop of \<^verbatim>\<open>free_chain\<close> ends because every turn makes one more of the \<open>NUM\<close> descriptors free. That the
  array has \<open>NUM\<close> entries is a test of the model, which the C type settles.
\<close>

lemma free_desc_result:
  assumes "free_desc i s = Inr (u, t)"
  shows "i < NUM" and "\<not> v_free (vd s) ! i" and "v_free (vd t) = (v_free (vd s))[i := True]"
  using assms by (auto simp: free_desc_def upd_vd_def wakeup_chan_def bindk_def thenk_def gets_def modk_def panic_def
      split: if_splits)

lemma filter_upd_less:
  "i < length xs \<Longrightarrow> \<not> xs ! i \<Longrightarrow> length (filter Not (xs[i := True])) < length (filter Not xs)"
proof (induction xs arbitrary: i)
  case (Cons x xs)
  then show ?case by (cases i) auto
qed simp

lemma free_desc_less:
  assumes "free_desc i s = Inr (u, t)" and "length (v_free (vd s)) = NUM"
  shows "length (filter Not (v_free (vd t))) < length (filter Not (v_free (vd s)))"
  using free_desc_result [OF assms(1)] assms(2) by (simp add: filter_upd_less)

function free_chain :: "nat \<Rightarrow> ('a vdisk_state_scheme, unit) kmon" where
  "free_chain i s =
     (let flag = d_flags (v_desc (vd s) ! i); nxt = unat (d_next (v_desc (vd s) ! i)) in
      case free_desc i s of
        Inl e \<Rightarrow> Inl e
      | Inr (_, t) \<Rightarrow>
          if length (v_free (vd s)) \<noteq> NUM then Inl (Fault ''free'')
          else if and flag VRING_DESC_F_NEXT \<noteq> 0 then free_chain nxt t else Inr ((), t))"
  by pat_completeness auto
termination
  by (relation "measure (\<lambda>(i, s). length (filter Not (v_free (vd s))))")
    (auto intro: free_desc_less)

declare free_chain.simps [simp del]

primrec alloc_more :: "nat \<Rightarrow> nat list \<Rightarrow> ('a vdisk_state_scheme, nat list option) kmon" where
  "alloc_more 0 idx = ret (Some idx)"
| "alloc_more (Suc n) idx =
     bindk alloc_desc (\<lambda>r.
     case r of
       None \<Rightarrow> thenk (for_each idx free_desc) (ret None)
     | Some i \<Rightarrow> alloc_more n (idx @ [i]))"

definition alloc3_desc :: "('a vdisk_state_scheme, nat list option) kmon" where
  "alloc3_desc = alloc_more 3 []"

section \<open>Requests\<close>

text \<open>The sector is computed in 32 bits and then widened.\<close>

definition sector_of :: "u32 \<Rightarrow> u64" where
  "sector_of blockno = ucast (blockno * of_nat (BSIZE div 512))"

definition set_desc :: "nat \<Rightarrow> virtq_desc \<Rightarrow> ('a vdisk_state_scheme, unit) kmon" where
  "set_desc i x = upd_vd (\<lambda>d. d\<lparr>v_desc := (v_desc d)[i := x]\<rparr>)"

definition post_request :: "nat \<Rightarrow> bool \<Rightarrow> nat \<Rightarrow> nat \<Rightarrow> nat \<Rightarrow> ('a vdisk_state_scheme, unit) kmon" where
  "post_request b write i0 i1 i2 =
     bindk (gets (\<lambda>s. sector_of (b_blockno (bufs s ! b)))) (\<lambda>sector.
     thenk (upd_vd (\<lambda>d. d\<lparr>v_ops := (v_ops d)[i0 := \<lparr>rq_type = (if write then VIRTIO_BLK_T_OUT else VIRTIO_BLK_T_IN),
       rq_reserved = 0, rq_sector = sector\<rparr>]\<rparr>))
     (thenk (set_desc i0 \<lparr>d_addr = OpsAddr i0, d_len = 16, d_flags = VRING_DESC_F_NEXT, d_next = of_nat i1\<rparr>)
     (thenk (set_desc i1 \<lparr>d_addr = DataAddr b, d_len = of_nat BSIZE,
       d_flags = or (if write then 0 else VRING_DESC_F_WRITE) VRING_DESC_F_NEXT, d_next = of_nat i2\<rparr>)
     (thenk (upd_vd (\<lambda>d. d\<lparr>v_info := (v_info d)[i0 := (v_info d ! i0)\<lparr>in_status := 0xff\<rparr>]\<rparr>))
     (thenk (set_desc i2 \<lparr>d_addr = StatusAddr i0, d_len = 1, d_flags = VRING_DESC_F_WRITE, d_next = 0\<rparr>)
     (thenk (modk (\<lambda>s. upd_buf b (\<lambda>x. x\<lparr>b_disk := True\<rparr>) s))
     (thenk (upd_vd (\<lambda>d. d\<lparr>v_info := (v_info d)[i0 := (v_info d ! i0)\<lparr>in_b := Some b\<rparr>]\<rparr>))
     (thenk (upd_vd (\<lambda>d. d\<lparr>v_avail_ring := (v_avail_ring d)[unat (v_avail_idx d) mod NUM := of_nat i0]\<rparr>))
     (thenk (upd_vd (\<lambda>d. d\<lparr>v_avail_idx := v_avail_idx d + 1\<rparr>))
     (modk (\<lambda>s. s\<lparr>mmio := mmio s @ [(0x050, 0)]\<rparr>)))))))))))"

definition rw_begin :: "nat \<Rightarrow> bool \<Rightarrow> ('a vdisk_state_scheme, nat option) kmon" where
  "rw_begin b write =
     bindk alloc3_desc (\<lambda>r.
     case r of
       None \<Rightarrow> ret None
     | Some idx \<Rightarrow> thenk (post_request b write (idx ! 0) (idx ! 1) (idx ! 2)) (ret (Some (idx ! 0))))"

text \<open>\<open>rw_end\<close> gives false when the request has not finished and the process sleeps again.\<close>

definition rw_end :: "nat \<Rightarrow> nat \<Rightarrow> ('a vdisk_state_scheme, bool) kmon" where
  "rw_end b i0 =
     bindk (gets (\<lambda>s. b_disk (bufs s ! b))) (\<lambda>busy.
     if busy then ret False
     else thenk (upd_vd (\<lambda>d. d\<lparr>v_info := (v_info d)[i0 := (v_info d ! i0)\<lparr>in_b := None\<rparr>]\<rparr>))
       (thenk (free_chain i0) (ret True)))"

definition intr_turn :: "('a vdisk_state_scheme, unit) kmon" where
  "intr_turn =
     bindk (gets (\<lambda>s. unat (v_used_ring (vd s) ! (unat (v_used_idx (vd s)) mod NUM)))) (\<lambda>id.
     if id \<ge> NUM then fault ''disk.info''
     else bindk (gets (\<lambda>s. v_info (vd s) ! id)) (\<lambda>x.
       if in_status x \<noteq> 0 then panic ''virtio_disk_intr status''
       else case in_b x of
         None \<Rightarrow> fault ''b''
       | Some b \<Rightarrow>
           thenk (modk (\<lambda>s. upd_buf b (\<lambda>x. x\<lparr>b_disk := False\<rparr>) s))
           (thenk (wakeup_chan (ChanDisk b))
           (upd_vd (\<lambda>d. d\<lparr>v_used_idx := v_used_idx d + 1\<rparr>)))))"

definition virtio_disk_intr :: "(nat \<Rightarrow> u32) \<Rightarrow> ('a vdisk_state_scheme, unit) kmon" where
  "virtio_disk_intr rd =
     thenk (modk (\<lambda>s. s\<lparr>mmio := mmio s @ [(0x064, and (rd 0x060) 3)]\<rparr>))
     (bindk (gets (\<lambda>s. unat (v_used_ring_idx (vd s) - v_used_idx (vd s)))) (\<lambda>n.
      for_each [0..<n] (\<lambda>_. intr_turn)))"

section \<open>Initialisation\<close>

definition FEATURES_OFF :: u64 where
  "FEATURES_OFF = or (push_bit 5 1) (or (push_bit 7 1) (or (push_bit 11 1) (or (push_bit 12 1)
     (or (push_bit 27 1) (or (push_bit 29 1) (push_bit 28 1))))))"

definition mmio_write :: "nat \<Rightarrow> u32 \<Rightarrow> ('a vdisk_state_scheme, unit) kmon" where
  "mmio_write r v = modk (\<lambda>s. s\<lparr>mmio := mmio s @ [(r, v)]\<rparr>)"

definition write_addr :: "nat \<Rightarrow> u64 \<Rightarrow> ('a vdisk_state_scheme, unit) kmon" where
  "write_addr r a = thenk (mmio_write r (ucast a)) (mmio_write (r + 4) (ucast (drop_bit 32 a)))"

definition virtio_disk_init :: "(nat \<Rightarrow> u32) \<Rightarrow> ('a vdisk_state_scheme, unit) kmon" where
  "virtio_disk_init rd =
     (if rd 0x000 \<noteq> 0x74726976 \<or> rd 0x004 \<noteq> 2 \<or> rd 0x008 \<noteq> 2 \<or> rd 0x00c \<noteq> 0x554d4551
      then panic ''could not find virtio disk''
      else
        thenk (for_each [0, 1, 3] (mmio_write 0x070))
        (thenk (mmio_write 0x020 (ucast (and (ucast (rd 0x010)) (not FEATURES_OFF))))
        (thenk (mmio_write 0x070 11)
        (if and (rd 0x070) 8 = 0 then panic ''virtio disk FEATURES_OK unset''
         else thenk (mmio_write 0x030 0)
           (if rd 0x044 \<noteq> 0 then panic ''virtio disk should not be ready''
            else if rd 0x034 = 0 then panic ''virtio disk has no queue 0''
            else if rd 0x034 < of_nat NUM then panic ''virtio disk max queue too short''
            else
              bindk kalloc (\<lambda>desc. bindk kalloc (\<lambda>avail. bindk kalloc (\<lambda>used.
              if desc = 0 \<or> avail = 0 \<or> used = 0 then panic ''virtio disk kalloc''
              else
                thenk (fill_page desc 0) (thenk (fill_page avail 0) (thenk (fill_page used 0)
                (thenk (upd_vd (\<lambda>d. d\<lparr>v_desc := replicate NUM zero_desc, v_avail_idx := 0, v_avail_ring := replicate NUM 0,
                   v_used_ring_idx := 0, v_used_ring := replicate NUM 0\<rparr>))
                (thenk (mmio_write 0x038 (of_nat NUM))
                (thenk (write_addr 0x080 desc) (thenk (write_addr 0x090 avail) (thenk (write_addr 0x0a0 used)
                (thenk (mmio_write 0x044 1)
                (thenk (upd_vd (\<lambda>d. d\<lparr>v_free := replicate NUM True\<rparr>))
                (mmio_write 0x070 (or (rd 0x070) 4)))))))))))))))))))"

section \<open>Driver and device together\<close>

definition ring_win :: "'a list \<Rightarrow> ushort \<Rightarrow> ushort \<Rightarrow> 'a list" where
  "ring_win rng a b = map (\<lambda>i. rng ! ((unat a + i) mod NUM)) [0..<unat (b - a)]"

text \<open>Chains posted and not taken, and chains announced and not yet looked at.\<close>

definition posted :: "vdisk \<Rightarrow> nat list" where
  "posted d = map unat (ring_win (v_avail_ring d) (dev_seen d) (v_avail_idx d))"

definition announced :: "vdisk \<Rightarrow> nat list" where
  "announced d = map unat (ring_win (v_used_ring d) (v_used_idx d) (v_used_ring_idx d))"

definition dev_takes :: "'a vdisk_state_scheme \<Rightarrow> 'a vdisk_state_scheme \<Rightarrow> bool" where
  "dev_takes s t \<longleftrightarrow> dev_seen (vd s) \<noteq> v_avail_idx (vd s)
     \<and> t = s\<lparr>vd := (vd s)\<lparr>dev_work := dev_work (vd s) @ [unat (v_avail_ring (vd s) ! (unat (dev_seen (vd s)) mod NUM))],
         dev_seen := dev_seen (vd s) + 1\<rparr>\<rparr>"

definition dev_transfer :: "nat \<Rightarrow> bool \<Rightarrow> u64 \<Rightarrow> 'a vdisk_state_scheme \<Rightarrow> 'a vdisk_state_scheme" where
  "dev_transfer b write sector s =
     (let k = ucast (sector div 2) in
      if write then s\<lparr>disk := (disk s)(k := b_data (bufs s ! b)), dtrace := dtrace s @ [(k, b_data (bufs s ! b))]\<rparr>
      else upd_buf b (\<lambda>x. x\<lparr>b_data := disk s k\<rparr>) s)"

definition dev_announce :: "nat \<Rightarrow> nat \<Rightarrow> vdisk \<Rightarrow> vdisk" where
  "dev_announce h c d = d\<lparr>v_info := (v_info d)[c := (v_info d ! c)\<lparr>in_status := 0\<rparr>],
     v_used_ring := (v_used_ring d)[unat (v_used_ring_idx d) mod NUM := of_nat h],
     v_used_ring_idx := v_used_ring_idx d + 1, dev_work := remove1 h (dev_work d)\<rparr>"

text \<open>
  A chain is a request for the device when it has a readable header, then the data, writable exactly
  for a read request, then one writable byte.
\<close>

definition dev_reads :: "vdisk \<Rightarrow> nat \<Rightarrow> nat \<Rightarrow> nat \<Rightarrow> bool \<Rightarrow> nat \<Rightarrow> bool" where
  "dev_reads d h k b write c \<longleftrightarrow>
     (let d0 = v_desc d ! h; d1 = v_desc d ! unat (d_next d0); d2 = v_desc d ! unat (d_next d1) in
      d_addr d0 = OpsAddr k \<and> d_len d0 = 16 \<and> and (d_flags d0) VRING_DESC_F_NEXT \<noteq> 0 \<and> and (d_flags d0) VRING_DESC_F_WRITE = 0
    \<and> d_addr d1 = DataAddr b \<and> d_len d1 = of_nat BSIZE \<and> and (d_flags d1) VRING_DESC_F_NEXT \<noteq> 0
    \<and> (and (d_flags d1) VRING_DESC_F_WRITE = 0 \<longleftrightarrow> write)
    \<and> d_addr d2 = StatusAddr c \<and> d_len d2 = 1 \<and> and (d_flags d2) VRING_DESC_F_NEXT = 0 \<and> and (d_flags d2) VRING_DESC_F_WRITE \<noteq> 0
    \<and> rq_type (v_ops d ! k) = (if write then VIRTIO_BLK_T_OUT else VIRTIO_BLK_T_IN))"

definition dev_finishes :: "nat \<Rightarrow> 'a vdisk_state_scheme \<Rightarrow> 'a vdisk_state_scheme \<Rightarrow> bool" where
  "dev_finishes h s t \<longleftrightarrow> h \<in> set (dev_work (vd s))
     \<and> (\<exists>k b w c. dev_reads (vd s) h k b w c
         \<and> t = dev_transfer b w (rq_sector (v_ops (vd s) ! k)) s\<lparr>vd := dev_announce h c (vd s)\<rparr>)"

definition device_ok :: "('a vdisk_state_scheme \<Rightarrow> 'a vdisk_state_scheme \<Rightarrow> bool) \<Rightarrow> bool" where
  "device_ok dev \<longleftrightarrow> (\<forall>s t. dev s t \<longrightarrow> dev_takes s t \<or> (\<exists>h. dev_finishes h s t))"

text \<open>A buffer with a request: its index is in the table of requests until \<^verbatim>\<open>virtio_disk_rw\<close> ends.\<close>

definition busy :: "vdisk \<Rightarrow> nat \<Rightarrow> bool" where
  "busy d b \<longleftrightarrow> (\<exists>h < NUM. in_b (v_info d ! h) = Some b)"

definition same_request_part :: "buf \<Rightarrow> buf \<Rightarrow> bool" where
  "same_request_part x y \<longleftrightarrow> b_blockno y = b_blockno x \<and> b_data y = b_data x \<and> b_disk y = b_disk x"

text \<open>
  The rest of the kernel keeps the driver's state and the buffers with a request as they are. A caller
  of \<^verbatim>\<open>virtio_disk_rw\<close> holds the lock of its buffer, so no request on it is under way.
\<close>

inductive vstep :: "('a vdisk_state_scheme \<Rightarrow> 'a vdisk_state_scheme \<Rightarrow> bool) \<Rightarrow> 'a vdisk_state_scheme \<Rightarrow> 'a vdisk_state_scheme \<Rightarrow> bool"
  for dev where
  Begin: "\<lbrakk>b < length (bufs s); \<not> busy (vd s) b; b_blockno (bufs s ! b) < 2 ^ 31; rw_begin b w s = Inr (r, t)\<rbrakk> \<Longrightarrow> vstep dev s t"
| End: "\<lbrakk>h < NUM; in_b (v_info (vd s) ! h) = Some b; rw_end b h s = Inr (r, t)\<rbrakk> \<Longrightarrow> vstep dev s t"
| Intr: "\<lbrakk>v_used_idx (vd s) \<noteq> v_used_ring_idx (vd s); intr_turn s = Inr (r, t)\<rbrakk> \<Longrightarrow> vstep dev s t"
| Device: "dev s t \<Longrightarrow> vstep dev s t"
| Others: "\<lbrakk>vd t = vd s; disk t = disk s; dtrace t = dtrace s; length (bufs t) = length (bufs s);
    \<forall>b. busy (vd s) b \<longrightarrow> same_request_part (bufs s ! b) (bufs t ! b)\<rbrakk> \<Longrightarrow> vstep dev s t"

end
