(* ===== verification/Virtio_Props.thy ===== *)
theory Virtio_Props
  imports Virtio
begin

text \<open>
  What the disk driver guarantees: an invariant that gives every descriptor one owner, and the
  refinement of driver and device to the atomic transfer the buffer cache is built on.
\<close>

section \<open>Rings\<close>

lemma ring_index_Suc: "unat (x + 1 :: ushort) mod NUM = Suc (unat x) mod NUM"
proof -
  have "unat (x + 1) = Suc (unat x) mod 2 ^ 16" by (simp add: unat_word_ariths)
  moreover have "Suc (unat x) mod 2 ^ 16 mod 8 = Suc (unat x) mod 8" by (rule mod_mod_cancel) simp
  ultimately show ?thesis by (simp add: NUM_def)
qed

lemma ring_index_diff: "(unat (x :: ushort) + unat (y - x)) mod NUM = unat y mod NUM"
proof -
  have "unat (x + (y - x)) = (unat x + unat (y - x)) mod 2 ^ 16" by (simp only: unat_word_ariths) simp
  then have "unat y = (unat x + unat (y - x)) mod 2 ^ 16" by simp
  moreover have "(unat x + unat (y - x)) mod 2 ^ 16 mod 8 = (unat x + unat (y - x)) mod 8" by (rule mod_mod_cancel) simp
  ultimately show ?thesis by (simp add: NUM_def)
qed

lemma length_ring_win [simp]: "length (ring_win r a b) = unat (b - a)"
  by (simp add: ring_win_def)

lemma ring_win_push:
  assumes "unat (b - a) < NUM" and "length r = NUM"
  shows "ring_win (r[unat b mod NUM := x]) a (b + 1) = ring_win r a b @ [x]"
proof -
  have "unat (b - a + 1) = Suc (unat (b - a))"
    using assms(1) by (subst unat_plus_simple [THEN iffD1]) (auto simp: NUM_def word_le_nat_alt unat_word_ariths)
  then have n: "unat (b + 1 - a) = Suc (unat (b - a))" by (simp add: algebra_simps)
  have other: "(unat a + i) mod NUM \<noteq> unat b mod NUM" if "i < unat (b - a)" for i
  proof
    assume "(unat a + i) mod NUM = unat b mod NUM"
    then have "(unat a + i) mod NUM = (unat a + unat (b - a)) mod NUM" by (simp add: ring_index_diff)
    then have "(unat a + unat (b - a) - (unat a + i)) mod NUM = 0" using that by (intro mod_eq_dvd_iff_nat [THEN iffD1, THEN dvd_imp_mod_0]) auto
    then have "(unat (b - a) - i) mod NUM = 0" by simp
    with that assms(1) show False by simp
  qed
  have "unat b mod NUM < length r" using assms(2) by (simp add: NUM_def)
  then have "r[unat b mod NUM := x] ! ((unat a + unat (b - a)) mod NUM) = x" by (simp add: ring_index_diff)
  moreover have "r[unat b mod NUM := x] ! ((unat a + i) mod NUM) = r ! ((unat a + i) mod NUM)" if "i < unat (b - a)" for i
    using other [OF that] by (metis nth_list_update_neq)
  ultimately show ?thesis by (simp add: ring_win_def n)
qed

lemma ring_win_pop:
  assumes "a \<noteq> b"
  shows "ring_win r a b = r ! (unat a mod NUM) # ring_win r (a + 1) b"
proof -
  have "b - a \<noteq> 0" using assms by simp
  then have n: "unat (b - a) = Suc (unat (b - (a + 1)))"
    using unat_minus_one [of "b - a"] by (simp add: unat_gt_0 algebra_simps)
  have "(unat (a + 1) + i) mod NUM = (unat a + Suc i) mod NUM" for i
    using ring_index_Suc [of a] by (metis add_Suc add_Suc_right mod_add_left_eq)
  then show ?thesis by (simp add: ring_win_def n upt_conv_Cons del: upt_Suc flip: map_Suc_upt)
qed

section \<open>Invariant\<close>

text \<open>
  A request: buffer, direction, and the second and third descriptor of its chain. \<open>R\<close> gives the
  requests under way by the first descriptor of the chain.
\<close>

type_synonym request = "nat \<times> bool \<times> nat \<times> nat"

fun own :: "nat \<Rightarrow> request \<Rightarrow> nat set" where
  "own h (b, w, i, j) = {h, i, j}"

fun chain_ok :: "vdisk \<Rightarrow> buf list \<Rightarrow> nat \<Rightarrow> request \<Rightarrow> bool" where
  "chain_ok d bs h (b, w, i, j) \<longleftrightarrow>
     h < NUM \<and> i < NUM \<and> j < NUM \<and> h \<noteq> i \<and> h \<noteq> j \<and> i \<noteq> j \<and> b < length bs \<and> b_blockno (bs ! b) < 2 ^ 31
   \<and> in_b (v_info d ! h) = Some b
   \<and> v_ops d ! h = \<lparr>rq_type = (if w then VIRTIO_BLK_T_OUT else VIRTIO_BLK_T_IN), rq_reserved = 0,
       rq_sector = sector_of (b_blockno (bs ! b))\<rparr>
   \<and> v_desc d ! h = \<lparr>d_addr = OpsAddr h, d_len = 16, d_flags = VRING_DESC_F_NEXT, d_next = of_nat i\<rparr>
   \<and> v_desc d ! i = \<lparr>d_addr = DataAddr b, d_len = of_nat BSIZE,
       d_flags = or (if w then 0 else VRING_DESC_F_WRITE) VRING_DESC_F_NEXT, d_next = of_nat j\<rparr>
   \<and> v_desc d ! j = \<lparr>d_addr = StatusAddr h, d_len = 1, d_flags = VRING_DESC_F_WRITE, d_next = 0\<rparr>"

definition waiting :: "vdisk \<Rightarrow> nat list" where
  "waiting d = posted d @ dev_work d @ announced d"

definition lengths_ok :: "vdisk \<Rightarrow> bool" where
  "lengths_ok d \<longleftrightarrow> length (v_desc d) = NUM \<and> length (v_free d) = NUM \<and> length (v_info d) = NUM \<and> length (v_ops d) = NUM
     \<and> length (v_avail_ring d) = NUM \<and> length (v_used_ring d) = NUM"

definition owners_ok :: "(nat \<Rightarrow> request option) \<Rightarrow> vdisk \<Rightarrow> bool" where
  "owners_ok R d \<longleftrightarrow>
     (\<forall>h h' r r'. R h = Some r \<and> R h' = Some r' \<and> h \<noteq> h' \<longrightarrow> own h r \<inter> own h' r' = {} \<and> fst r \<noteq> fst r')
   \<and> (\<forall>i < NUM. v_free d ! i \<longleftrightarrow> (\<forall>h r. R h = Some r \<longrightarrow> i \<notin> own h r))"

definition progress_ok :: "(nat \<Rightarrow> request option) \<Rightarrow> vdisk \<Rightarrow> buf list \<Rightarrow> bool" where
  "progress_ok R d bs \<longleftrightarrow> distinct (waiting d) \<and> set (waiting d) \<subseteq> dom R
   \<and> (\<forall>h r. R h = Some r \<longrightarrow> (b_disk (bs ! fst r) \<longleftrightarrow> h \<in> set (waiting d)))
   \<and> (\<forall>h \<in> set (announced d). in_status (v_info d ! h) = 0)"

definition vinv_of :: "(nat \<Rightarrow> request option) \<Rightarrow> vdisk \<Rightarrow> buf list \<Rightarrow> bool" where
  "vinv_of R d bs \<longleftrightarrow> lengths_ok d \<and> (\<forall>h r. R h = Some r \<longrightarrow> chain_ok d bs h r)
   \<and> (\<forall>h < NUM. R h = None \<longrightarrow> in_b (v_info d ! h) = None) \<and> owners_ok R d \<and> progress_ok R d bs"

definition vinv :: "'a vdisk_state_scheme \<Rightarrow> bool" where
  "vinv s \<longleftrightarrow> (\<exists>R. vinv_of R (vd s) (bufs s))"

lemma vinvD:
  assumes "vinv_of R d bs"
  shows "lengths_ok d" and "\<And>h r. R h = Some r \<Longrightarrow> chain_ok d bs h r"
    and "\<And>h. h < NUM \<Longrightarrow> R h = None \<Longrightarrow> in_b (v_info d ! h) = None" and "owners_ok R d" and "progress_ok R d bs"
  using assms by (auto simp: vinv_of_def)

lemma chain_head: "chain_ok d bs h r \<Longrightarrow> h < NUM \<and> in_b (v_info d ! h) = Some (fst r) \<and> fst r < length bs \<and> h \<in> own h r"
  by (cases r) auto

lemma request_of:
  assumes "vinv_of R d bs" and "h < NUM"
  shows "in_b (v_info d ! h) = map_option fst (R h)"
proof (cases "R h")
  case None
  with vinvD(3) [OF assms] show ?thesis by simp
next
  case (Some r)
  from chain_head [OF vinvD(2) [OF assms(1) Some]] Some show ?thesis by simp
qed

lemma request_lt: "vinv_of R d bs \<Longrightarrow> R h = Some r \<Longrightarrow> h < NUM"
  using chain_head [OF vinvD(2)] by blast

lemma busy_iff: "vinv_of R d bs \<Longrightarrow> busy d b \<longleftrightarrow> (\<exists>h r. R h = Some r \<and> fst r = b)"
  unfolding busy_def
proof (intro iffI; elim exE conjE)
  assume inv: "vinv_of R d bs"
  { fix h assume "h < NUM" "in_b (v_info d ! h) = Some b"
    with request_of [OF inv, of h] obtain r where "R h = Some r" "fst r = b" by (cases "R h") auto
    then show "\<exists>h r. R h = Some r \<and> fst r = b" by blast }
  fix h r assume R: "R h = Some r" "fst r = b"
  with request_of [OF inv request_lt [OF inv R(1)]] request_lt [OF inv R(1)]
  show "\<exists>h<NUM. in_b (v_info d ! h) = Some b" by auto
qed

lemma waiting_head:
  assumes "vinv_of R d bs" and "h \<in> set (waiting d)"
  obtains r where "R h = Some r" and "h < NUM"
proof -
  obtain r where "R h = Some r" using vinvD(5) [OF assms(1)] assms(2) by (auto simp: progress_ok_def)
  then show thesis using request_lt [OF assms(1)] by (intro that)
qed

lemma waiting_short: "vinv_of R d bs \<Longrightarrow> length (waiting d) \<le> NUM"
proof -
  assume inv: "vinv_of R d bs"
  then have "set (waiting d) \<subseteq> {..<NUM}" by (auto elim: waiting_head)
  moreover have "distinct (waiting d)" using vinvD(5) [OF inv] by (simp add: progress_ok_def)
  ultimately show ?thesis using card_mono [of "{..<NUM}" "set (waiting d)"] by (simp add: distinct_card)
qed

text \<open>A chain stays in order when its own entries, and its buffer, do.\<close>

lemma chain_ok_cong:
  assumes "chain_ok d bs h r" and "\<And>i. i \<in> own h r \<Longrightarrow> v_desc d' ! i = v_desc d ! i"
    and "v_ops d' ! h = v_ops d ! h" and "in_b (v_info d' ! h) = in_b (v_info d ! h)"
    and "length bs' = length bs" and "b_blockno (bs' ! fst r) = b_blockno (bs ! fst r)"
  shows "chain_ok d' bs' h r"
proof -
  obtain b w i j where r: "r = (b, w, i, j)" by (cases r)
  have "v_desc d' ! h = v_desc d ! h" "v_desc d' ! i = v_desc d ! i" "v_desc d' ! j = v_desc d ! j"
    using assms(2) by (simp_all add: r)
  moreover have "b_blockno (bs' ! b) = b_blockno (bs ! b)" using assms(6) by (simp add: r)
  ultimately show ?thesis using assms(1,3,4,5) unfolding r chain_ok.simps by (simp only:) simp
qed

lemma own_lt: "chain_ok d bs h r \<Longrightarrow> i \<in> own h r \<Longrightarrow> i < NUM"
  by (cases r) auto

section \<open>Descriptors\<close>

lemmas vrun_defs = bindk_def thenk_def gets_def modk_def ret_def upd_vd_def wakeup_chan_def

definition mark :: "bool \<Rightarrow> nat list \<Rightarrow> bool list \<Rightarrow> bool list" where
  "mark c is F = fold (\<lambda>i f. f[i := c]) is F"

lemma length_mark [simp]: "length (mark c is F) = length F"
  by (induction "is" arbitrary: F) (simp_all add: mark_def)

lemma nth_mark: "k < length F \<Longrightarrow> mark c is F ! k = (if k \<in> set is then c else F ! k)"
  by (induction "is" arbitrary: F) (auto simp: mark_def nth_list_update)

lemma mark_snoc: "(mark c is F)[i := c] = mark c (is @ [i]) F"
  by (simp add: mark_def)

lemma mark_Cons: "mark c (i # is) F = mark c is (F[i := c])"
  by (simp add: mark_def)

lemma mark_undo:
  assumes "\<And>i. i \<in> set is \<Longrightarrow> F ! i"
  shows "mark True is (mark False is F) = F"
  by (rule nth_equalityI) (use assms in \<open>auto simp: nth_mark\<close>)

lemma alloc_desc_run:
  "alloc_desc s = (case scan_first (\<lambda>f. f) (v_free (vd s)) of
     None \<Rightarrow> Inr (None, s)
   | Some i \<Rightarrow> Inr (Some i, s\<lparr>vd := (vd s)\<lparr>v_free := (v_free (vd s))[i := False]\<rparr>\<rparr>))"
  by (cases "scan_first (\<lambda>f. f) (v_free (vd s))") (simp_all add: alloc_desc_def vrun_defs del: scan_first_None)

lemma free_desc_run:
  assumes "i < NUM" and "\<not> v_free (vd s) ! i"
  shows "free_desc i s = Inr ((), s\<lparr>vd := (vd s)\<lparr>v_desc := (v_desc (vd s))[i := zero_desc], v_free := (v_free (vd s))[i := True]\<rparr>,
    woken := woken s @ [ChanDesc]\<rparr>)"
  using assms by (simp add: free_desc_def vrun_defs)

text \<open>Freeing a group of descriptors touches nothing but these and the list of channels woken.\<close>

lemma free_group:
  assumes "distinct is" and "length (v_free (vd s)) = NUM" and "\<And>i. i \<in> set is \<Longrightarrow> i < NUM \<and> \<not> v_free (vd s) ! i"
  shows "\<exists>D W. for_each is free_desc s =
      Inr ((), s\<lparr>vd := (vd s)\<lparr>v_desc := D, v_free := mark True is (v_free (vd s))\<rparr>, woken := W\<rparr>)
    \<and> length D = length (v_desc (vd s)) \<and> (\<forall>i. i \<notin> set is \<longrightarrow> D ! i = v_desc (vd s) ! i)"
  using assms
proof (induction "is" arbitrary: s)
  case Nil
  show ?case by (intro exI [of _ "v_desc (vd s)"] exI [of _ "woken s"]) (simp add: mark_def ret_def)
next
  case (Cons i "is")
  let ?s = "s\<lparr>vd := (vd s)\<lparr>v_desc := (v_desc (vd s))[i := zero_desc], v_free := (v_free (vd s))[i := True]\<rparr>,
    woken := woken s @ [ChanDesc]\<rparr>"
  have run: "free_desc i s = Inr ((), ?s)" using Cons.prems(3) by (intro free_desc_run) auto
  have "k < NUM \<and> \<not> v_free (vd ?s) ! k" if "k \<in> set is" for k
  proof -
    have "k \<noteq> i" "k < NUM" "\<not> v_free (vd s) ! k" using Cons.prems(1) Cons.prems(3) [of k] that by auto
    then show ?thesis by simp
  qed
  with Cons.IH [of ?s] Cons.prems(1,2) obtain D W where
    "for_each is free_desc ?s = Inr ((), ?s\<lparr>vd := (vd ?s)\<lparr>v_desc := D, v_free := mark True is (v_free (vd ?s))\<rparr>, woken := W\<rparr>)"
    "length D = length (v_desc (vd ?s))" "\<forall>i. i \<notin> set is \<longrightarrow> D ! i = v_desc (vd ?s) ! i" by auto
  then show ?case
    by (intro exI [of _ D] exI [of _ W]) (simp add: thenk_def bindk_def run mark_Cons)
qed

lemma no_free_left:
  assumes "length F = NUM" and "\<forall>x \<in> set (mark False idx F). \<not> x" and "distinct idx"
  shows "card {i. i < NUM \<and> F ! i} \<le> length idx"
proof -
  have "i \<in> set idx" if "i < NUM" "F ! i" for i
  proof (rule ccontr)
    assume "i \<notin> set idx"
    then have "mark False idx F ! i" using that assms(1) by (simp add: nth_mark)
    moreover have "mark False idx F ! i \<in> set (mark False idx F)" using that assms(1) by (intro nth_mem) simp
    ultimately show False using assms(2) by blast
  qed
  then have "{i. i < NUM \<and> F ! i} \<subseteq> set idx" by auto
  then show ?thesis using card_mono [of "set idx"] card_length [of idx] by (metis List.finite_set le_trans)
qed

definition took :: "nat list \<Rightarrow> 'a vdisk_state_scheme \<Rightarrow> 'a vdisk_state_scheme" where
  "took is s = s\<lparr>vd := (vd s)\<lparr>v_free := mark False is (v_free (vd s))\<rparr>\<rparr>"

definition gave_up :: "('a vdisk_state_scheme, nat list option) kmon \<Rightarrow> 'a vdisk_state_scheme \<Rightarrow> 'a vdisk_state_scheme \<Rightarrow> bool" where
  "gave_up f s s0 \<longleftrightarrow> (\<exists>D W. f s = Inr (None, s0\<lparr>vd := (vd s0)\<lparr>v_desc := D\<rparr>, woken := W\<rparr>)
     \<and> length D = length (v_desc (vd s0)) \<and> (\<forall>i < NUM. \<not> v_free (vd s0) ! i \<longrightarrow> D ! i = v_desc (vd s0) ! i))"

lemma alloc_none:
  assumes "length (v_free (vd s0)) = NUM" and "distinct idx" and "\<And>i. i \<in> set idx \<Longrightarrow> i < NUM \<and> v_free (vd s0) ! i"
    and "scan_first (\<lambda>f. f) (v_free (vd (took idx s0))) = None"
  shows "gave_up (alloc_more (Suc n) idx) (took idx s0) s0"
proof -
  have "i < NUM \<and> \<not> v_free (vd (took idx s0)) ! i" if "i \<in> set idx" for i
    using assms(1,3) that by (simp add: took_def nth_mark)
  with free_group [OF assms(2), of "took idx s0"] assms(1) obtain D W where
    D: "for_each idx free_desc (took idx s0) = Inr ((), (took idx s0)\<lparr>vd := (vd (took idx s0))\<lparr>v_desc := D,
        v_free := mark True idx (v_free (vd (took idx s0)))\<rparr>, woken := W\<rparr>)"
      "length D = length (v_desc (vd (took idx s0)))" "\<forall>i. i \<notin> set idx \<longrightarrow> D ! i = v_desc (vd (took idx s0)) ! i"
    by (auto simp: took_def)
  have "mark True idx (v_free (vd (took idx s0))) = v_free (vd s0)"
    using assms(3) by (simp add: took_def mark_undo)
  then have "alloc_more (Suc n) idx (took idx s0) = Inr (None, s0\<lparr>vd := (vd s0)\<lparr>v_desc := D\<rparr>, woken := W\<rparr>)"
    by (simp add: bindk_def thenk_def alloc_desc_run assms(4) D(1) ret_def del: scan_first_None) (simp add: took_def)
  moreover have "D ! i = v_desc (vd s0) ! i" if "\<not> v_free (vd s0) ! i" for i
    using D(3) that assms(3) by (auto simp: took_def)
  ultimately show ?thesis using D(2) unfolding gave_up_def by (auto simp: took_def)
qed

lemma alloc_more_spec:
  assumes "length (v_free (vd s0)) = NUM" and "distinct idx" and "\<forall>i \<in> set idx. i < NUM \<and> v_free (vd s0) ! i"
  shows "(\<exists>ns. length ns = n \<and> distinct (idx @ ns) \<and> (\<forall>i \<in> set ns. i < NUM \<and> v_free (vd s0) ! i)
        \<and> alloc_more n idx (took idx s0) = Inr (Some (idx @ ns), took (idx @ ns) s0))
    \<or> (gave_up (alloc_more n idx) (took idx s0) s0 \<and> card {i. i < NUM \<and> v_free (vd s0) ! i} < length idx + n)"
  using assms(2,3)
proof (induction n arbitrary: idx)
  case 0
  then show ?case by (simp add: ret_def)
next
  case (Suc n)
  show ?case
  proof (cases "scan_first (\<lambda>f. f) (v_free (vd (took idx s0)))")
    case None
    have "card {i. i < NUM \<and> v_free (vd s0) ! i} \<le> length idx"
      by (rule no_free_left [OF assms(1) _ Suc.prems(1)]) (use None in \<open>simp add: took_def\<close>)
    moreover have "gave_up (alloc_more (Suc n) idx) (took idx s0) s0"
      by (rule alloc_none [OF assms(1) Suc.prems(1) _ None]) (use Suc.prems(2) in blast)
    ultimately show ?thesis by simp
  next
    case (Some i)
    then have i: "i < NUM" "i \<notin> set idx" "v_free (vd s0) ! i"
      using scan_first_SomeD [OF Some] assms(1) by (auto simp: took_def nth_mark split: if_splits)
    have more: "alloc_more (Suc n) idx (took idx s0) = alloc_more n (idx @ [i]) (took (idx @ [i]) s0)"
      by (simp add: bindk_def alloc_desc_run Some) (simp add: took_def mark_snoc)
    have d: "distinct (idx @ [i])" using Suc.prems(1) i(2) by simp
    have "\<forall>k \<in> set (idx @ [i]). k < NUM \<and> v_free (vd s0) ! k" using Suc.prems(2) i by auto
    from Suc.IH [OF d this] show ?thesis
    proof (elim disjE exE conjE)
      fix ns
      assume "length ns = n" "distinct ((idx @ [i]) @ ns)" "\<forall>i \<in> set ns. i < NUM \<and> v_free (vd s0) ! i"
        "alloc_more n (idx @ [i]) (took (idx @ [i]) s0) = Inr (Some ((idx @ [i]) @ ns), took ((idx @ [i]) @ ns) s0)"
      with more i show ?thesis by (intro disjI1 exI [of _ "i # ns"]) simp
    qed (use more in \<open>simp add: gave_up_def\<close>)
  qed
qed

section \<open>Each step keeps the invariant\<close>

lemma ownersD:
  assumes "owners_ok R d"
  shows "R h = Some r \<Longrightarrow> R h' = Some r' \<Longrightarrow> h \<noteq> h' \<Longrightarrow> own h r \<inter> own h' r' = {} \<and> fst r \<noteq> fst r'"
    and "i < NUM \<Longrightarrow> v_free d ! i \<longleftrightarrow> (\<forall>h r. R h = Some r \<longrightarrow> i \<notin> own h r)"
  using assms unfolding owners_ok_def by blast+

lemma progressD:
  assumes "progress_ok R d bs"
  shows "distinct (waiting d)" and "set (waiting d) \<subseteq> dom R"
    and "R h = Some r \<Longrightarrow> b_disk (bs ! fst r) \<longleftrightarrow> h \<in> set (waiting d)"
    and "h \<in> set (announced d) \<Longrightarrow> in_status (v_info d ! h) = 0"
  using assms unfolding progress_ok_def by blast+

lemma request_add: "R i = None \<Longrightarrow> (R(i \<mapsto> x)) h = Some r \<longleftrightarrow> (h = i \<and> r = x) \<or> R h = Some r"
  by auto

lemma request_del: "(R(i := None)) h = Some r \<longleftrightarrow> h \<noteq> i \<and> R h = Some r"
  by auto

lemma all_requests_add:
  assumes "R i = None"
  shows "(\<forall>h r. (R(i \<mapsto> x)) h = Some r \<longrightarrow> P h r) \<longleftrightarrow> P i x \<and> (\<forall>h r. R h = Some r \<longrightarrow> P h r)"
  unfolding request_add [of R, OF assms] by blast

lemma all_requests_del:
  "(\<forall>h r. (R(i := None)) h = Some r \<longrightarrow> P h r) \<longleftrightarrow> (\<forall>h r. h \<noteq> i \<and> R h = Some r \<longrightarrow> P h r)"
  unfolding request_del by blast

lemma owners_ok_cong: "v_free d' = v_free d \<Longrightarrow> owners_ok R d' = owners_ok R d"
  by (simp only: owners_ok_def)

lemma progress_okI:
  assumes "distinct (waiting d)" and "set (waiting d) \<subseteq> dom R"
    and "\<And>h r. R h = Some r \<Longrightarrow> b_disk (bs ! fst r) \<longleftrightarrow> h \<in> set (waiting d)"
    and "\<And>h. h \<in> set (announced d) \<Longrightarrow> in_status (v_info d ! h) = 0"
  shows "progress_ok R d bs"
  using assms unfolding progress_ok_def by blast

lemma vinv_ofI:
  assumes "lengths_ok d" and "\<And>h r. R h = Some r \<Longrightarrow> chain_ok d bs h r"
    and "\<And>h. h < NUM \<Longrightarrow> R h = None \<Longrightarrow> in_b (v_info d ! h) = None" and "owners_ok R d" and "progress_ok R d bs"
  shows "vinv_of R d bs"
  using assms unfolding vinv_of_def by blast

lemma free_no_owner:
  assumes "vinv_of R d bs" and "i < NUM" and "v_free d ! i" and "R h = Some r"
  shows "i \<notin> own h r"
  using ownersD(2) [OF vinvD(4) [OF assms(1)] assms(2)] assms(3,4) by blast

lemma free_no_head:
  assumes "vinv_of R d bs" and "i < NUM" and "v_free d ! i"
  shows "R i = None"
proof (cases "R i")
  case (Some r)
  from free_no_owner [OF assms Some] chain_head [OF vinvD(2) [OF assms(1) Some]] show ?thesis by simp
qed

lemma inv_gave_up:
  assumes inv: "vinv_of R d bs" and "length D = length (v_desc d)"
    and D: "\<forall>i < NUM. \<not> v_free d ! i \<longrightarrow> D ! i = v_desc d ! i"
  shows "vinv_of R (d\<lparr>v_desc := D\<rparr>) bs" (is "vinv_of R ?d bs")
proof (rule vinv_ofI)
  have w: "waiting ?d = waiting d" "announced ?d = announced d" by (simp_all add: waiting_def posted_def announced_def)
  show "lengths_ok ?d" using vinvD(1) [OF inv] assms(2) by (simp add: lengths_ok_def)
  show "owners_ok R ?d" using vinvD(4) [OF inv] by (subst owners_ok_cong) simp_all
  show "progress_ok R ?d bs"
    by (rule progress_okI; simp only: w; use progressD [OF vinvD(5) [OF inv]] in simp)
  show "in_b (v_info ?d ! h) = None" if "h < NUM" "R h = None" for h
    using vinvD(3) [OF inv that] by simp
  fix h r assume r: "R h = Some r"
  show "chain_ok ?d bs h r"
  proof (rule chain_ok_cong [OF vinvD(2) [OF inv r]])
    fix i assume i: "i \<in> own h r"
    then have "i < NUM" by (rule own_lt [OF vinvD(2) [OF inv r]])
    moreover from this have "\<not> v_free d ! i" using free_no_owner [OF inv _ _ r] i by blast
    ultimately show "v_desc ?d ! i = v_desc d ! i" using D by simp
  qed simp_all
qed

text \<open>The state a new request leaves.\<close>

definition put_request :: "nat \<Rightarrow> bool \<Rightarrow> nat \<Rightarrow> nat \<Rightarrow> nat \<Rightarrow> u32 \<Rightarrow> vdisk \<Rightarrow> vdisk" where
  "put_request b w i j k blockno d = d\<lparr>
     v_ops := (v_ops d)[i := \<lparr>rq_type = (if w then VIRTIO_BLK_T_OUT else VIRTIO_BLK_T_IN), rq_reserved = 0, rq_sector = sector_of blockno\<rparr>],
     v_desc := (v_desc d)
       [i := \<lparr>d_addr = OpsAddr i, d_len = 16, d_flags = VRING_DESC_F_NEXT, d_next = of_nat j\<rparr>,
        j := \<lparr>d_addr = DataAddr b, d_len = of_nat BSIZE, d_flags = or (if w then 0 else VRING_DESC_F_WRITE) VRING_DESC_F_NEXT, d_next = of_nat k\<rparr>,
        k := \<lparr>d_addr = StatusAddr i, d_len = 1, d_flags = VRING_DESC_F_WRITE, d_next = 0\<rparr>],
     v_info := (v_info d)[i := \<lparr>in_b = Some b, in_status = 0xff\<rparr>],
     v_free := (v_free d)[i := False, j := False, k := False],
     v_avail_ring := (v_avail_ring d)[unat (v_avail_idx d) mod NUM := of_nat i],
     v_avail_idx := v_avail_idx d + 1\<rparr>"

lemma vinfo_set: "(x :: vinfo)\<lparr>in_status := a, in_b := b\<rparr> = \<lparr>in_b = b, in_status = a\<rparr>"
  by (cases x) simp

lemma post_request_run:
  assumes "lengths_ok (vd s)" and "i < NUM"
  shows "post_request b w i j k (took [i, j, k] s) = Inr ((), (upd_buf b (\<lambda>x. x\<lparr>b_disk := True\<rparr>) s)
    \<lparr>vd := put_request b w i j k (b_blockno (bufs s ! b)) (vd s), mmio := mmio s @ [(0x050, 0)]\<rparr>)"
  using assms
  by (simp add: post_request_def vrun_defs set_desc_def put_request_def took_def mark_def upd_buf_def lengths_ok_def vinfo_set)

lemma posted_put:
  assumes "vinv_of R d bs" and "length (posted d) < NUM" and "i < NUM"
  shows "posted (put_request b w i j k n d) = posted d @ [i]"
proof -
  have "unat (v_avail_idx d - dev_seen d) < NUM" using assms(2) by (simp add: posted_def)
  then have "ring_win ((v_avail_ring d)[unat (v_avail_idx d) mod NUM := of_nat i]) (dev_seen d) (v_avail_idx d + 1)
      = ring_win (v_avail_ring d) (dev_seen d) (v_avail_idx d) @ [of_nat i]"
    by (rule ring_win_push) (use vinvD(1) [OF assms(1)] in \<open>simp add: lengths_ok_def\<close>)
  moreover have "unat (of_nat i :: ushort) = i" using assms(3) by (simp add: NUM_def unat_of_nat)
  ultimately show ?thesis by (simp add: posted_def put_request_def)
qed

lemma posted_room:
  assumes "vinv_of R d bs" and "i < NUM" and "v_free d ! i"
  shows "length (posted d) < NUM" and "i \<notin> set (waiting d)"
proof -
  show i: "i \<notin> set (waiting d)" using free_no_head [OF assms] by (auto elim: waiting_head [OF assms(1)])
  have "distinct (i # waiting d)" using i vinvD(5) [OF assms(1)] by (simp add: progress_ok_def)
  moreover have "set (i # waiting d) \<subseteq> {..<NUM}" using assms(2) by (auto elim: waiting_head [OF assms(1)])
  ultimately have "length (i # waiting d) \<le> NUM"
    using card_mono [of "{..<NUM}" "set (i # waiting d)"] distinct_card [of "i # waiting d"] by simp
  then show "length (posted d) < NUM" by (simp add: waiting_def)
qed

lemma inv_begin:
  assumes inv: "vinv_of R d bs" and ijk: "distinct [i, j, k]" "\<forall>n \<in> {i, j, k}. n < NUM \<and> v_free d ! n"
    and b: "b < length bs" "\<not> busy d b" "b_blockno (bs ! b) < 2 ^ 31"
  shows "vinv_of (R(i \<mapsto> (b, w, j, k))) (put_request b w i j k (b_blockno (bs ! b)) d) (bs[b := (bs ! b)\<lparr>b_disk := True\<rparr>])"
    (is "vinv_of ?R ?d ?bs")
proof -
  have i: "i < NUM" "v_free d ! i" using ijk(2) by auto
  have len: "lengths_ok d" "lengths_ok ?d" using vinvD(1) [OF inv] by (simp_all add: lengths_ok_def put_request_def)
  have sep: "own h r \<inter> {i, j, k} = {}" "fst r \<noteq> b" "h \<noteq> i" if r: "R h = Some r" for h r
  proof -
    show "own h r \<inter> {i, j, k} = {}" using free_no_owner [OF inv _ _ r] ijk(2) by blast
    show "fst r \<noteq> b" using b(2) r busy_iff [OF inv] by blast
    show "h \<noteq> i" using free_no_head [OF inv i] r by auto
  qed
  have chains: "chain_ok ?d ?bs h r" if "?R h = Some r" for h r
  proof (cases "h = i")
    case True
    with that b ijk len(1) show ?thesis by (auto simp: put_request_def lengths_ok_def nth_list_update)
  next
    case False
    with that have r: "R h = Some r" by simp
    show ?thesis
    proof (rule chain_ok_cong [OF vinvD(2) [OF inv r]])
      show "v_desc ?d ! n = v_desc d ! n" if "n \<in> own h r" for n
      proof -
        have "n \<notin> {i, j, k}" using sep(1) [OF r] that by blast
        then show ?thesis by (simp add: put_request_def)
      qed
    qed (use False sep(2) [OF r] in \<open>simp_all add: put_request_def\<close>)
  qed
  have owners: "owners_ok ?R ?d"
    unfolding owners_ok_def
  proof (intro conjI allI impI; (elim conjE)?)
    fix h h' r r' assume "?R h = Some r" "?R h' = Some r'" "h \<noteq> h'"
    then show "own h r \<inter> own h' r' = {}" "fst r \<noteq> fst r'"
      using sep [of h r] sep [of h' r'] ownersD(1) [OF vinvD(4) [OF inv], of h r h' r']
      by (cases "h = i"; cases "h' = i"; force)+
  next
    fix n assume n: "n < NUM"
    have old: "v_free d ! n \<longleftrightarrow> (\<forall>h r. R h = Some r \<longrightarrow> n \<notin> own h r)" using ownersD(2) [OF vinvD(4) [OF inv] n] .
    have "v_free ?d ! n \<longleftrightarrow> n \<notin> {i, j, k} \<and> v_free d ! n"
      using n len(1) ijk(2) by (simp add: put_request_def lengths_ok_def nth_list_update)
    also have "\<dots> \<longleftrightarrow> (\<forall>h r. ?R h = Some r \<longrightarrow> n \<notin> own h r)"
      unfolding all_requests_add [of R, OF free_no_head [OF inv i]] own.simps using old by (simp only:)
    finally show "v_free ?d ! n \<longleftrightarrow> (\<forall>h r. ?R h = Some r \<longrightarrow> n \<notin> own h r)" .
  qed
  have w: "waiting ?d = posted d @ i # dev_work d @ announced d"
    using posted_put [OF inv posted_room(1) [OF inv i] i(1)] by (simp add: waiting_def announced_def put_request_def)
  note old = progressD [OF vinvD(5) [OF inv]] posted_room(2) [OF inv i]
  have "set (waiting ?d) = insert i (set (waiting d))" "distinct (waiting ?d)" "announced ?d = announced d"
    using old(1,5) w by (auto simp: waiting_def announced_def put_request_def)
  note w' = this
  have "progress_ok ?R ?d ?bs"
  proof (rule progress_okI)
    show "distinct (waiting ?d)" by (rule w'(2))
    show "set (waiting ?d) \<subseteq> dom ?R" using old(2) w'(1) by auto
    show "b_disk (?bs ! fst r) \<longleftrightarrow> h \<in> set (waiting ?d)" if r: "?R h = Some r" for h r
    proof (cases "h = i")
      case True
      with r b(1) w'(1) show ?thesis by auto
    next
      case False
      with r have R: "R h = Some r" by simp
      with False sep(2) [OF R] old(3) [OF R] w'(1) show ?thesis by simp
    qed
    show "in_status (v_info ?d ! h) = 0" if "h \<in> set (announced ?d)" for h
    proof -
      have "h \<in> set (announced d)" "h \<noteq> i" using that old(5) w'(3) by (auto simp: waiting_def)
      with old(4) show ?thesis by (simp add: put_request_def)
    qed
  qed
  moreover have "in_b (v_info ?d ! h) = None" if "h < NUM" "?R h = None" for h
    using that vinvD(3) [OF inv, of h] by (simp add: put_request_def split: if_splits)
  ultimately show ?thesis using len(2) chains owners by (intro vinv_ofI)
qed

subsection \<open>End of a request\<close>

definition drop_request :: "nat \<Rightarrow> nat \<Rightarrow> nat \<Rightarrow> vdisk \<Rightarrow> vdisk" where
  "drop_request h i j d = d\<lparr>v_info := (v_info d)[h := (v_info d ! h)\<lparr>in_b := None\<rparr>],
     v_desc := (v_desc d)[h := zero_desc, i := zero_desc, j := zero_desc],
     v_free := (v_free d)[h := True, i := True, j := True]\<rparr>"

lemma desc_flag_bits: "and VRING_DESC_F_NEXT VRING_DESC_F_NEXT \<noteq> 0"
  "and (or (if w then 0 else VRING_DESC_F_WRITE) VRING_DESC_F_NEXT) VRING_DESC_F_NEXT \<noteq> 0"
  "and VRING_DESC_F_WRITE VRING_DESC_F_NEXT = 0"
  "and VRING_DESC_F_NEXT VRING_DESC_F_WRITE = 0" "and VRING_DESC_F_WRITE VRING_DESC_F_WRITE \<noteq> 0"
  "and (or (if w then 0 else VRING_DESC_F_WRITE) VRING_DESC_F_NEXT) VRING_DESC_F_WRITE = 0 \<longleftrightarrow> w"
  by (simp_all add: VRING_DESC_F_NEXT_def VRING_DESC_F_WRITE_def)

lemma free_chain_step:
  assumes "i < NUM" and "\<not> v_free (vd s) ! i" and "length (v_free (vd s)) = NUM"
    and "t = s\<lparr>vd := (vd s)\<lparr>v_desc := (v_desc (vd s))[i := zero_desc], v_free := (v_free (vd s))[i := True]\<rparr>,
      woken := woken s @ [ChanDesc]\<rparr>"
  shows "free_chain i s = (if and (d_flags (v_desc (vd s) ! i)) VRING_DESC_F_NEXT \<noteq> 0
    then free_chain (unat (d_next (v_desc (vd s) ! i))) t else Inr ((), t))"
  unfolding assms(4) by (subst free_chain.simps) (simp only: free_desc_run [OF assms(1,2)] assms(3) Let_def sum.case prod.case simp_thms if_False)

lemma free_chain_run:
  assumes c: "chain_ok d bs h (b, w, i, j)" and len: "length (v_free d) = NUM"
    and used: "\<not> v_free d ! h" "\<not> v_free d ! i" "\<not> v_free d ! j"
    and vd: "v_desc (vd s) = v_desc d" "v_free (vd s) = v_free d"
  shows "\<exists>W. free_chain h s = Inr ((), s\<lparr>vd := (vd s)\<lparr>v_desc := (v_desc d)[h := zero_desc, i := zero_desc, j := zero_desc],
    v_free := (v_free d)[h := True, i := True, j := True]\<rparr>, woken := W\<rparr>)"
proof -
  have lt: "h < NUM" "i < NUM" "j < NUM" and ne: "h \<noteq> i" "h \<noteq> j" "i \<noteq> j" using c by simp_all
  have nx: "unat (of_nat i :: ushort) = i" "unat (of_nat j :: ushort) = j" using lt by (simp_all add: NUM_def unat_of_nat)
  have desc: "d_flags (v_desc d ! h) = VRING_DESC_F_NEXT" "d_next (v_desc d ! h) = of_nat i"
    "d_flags (v_desc d ! i) = or (if w then 0 else VRING_DESC_F_WRITE) VRING_DESC_F_NEXT" "d_next (v_desc d ! i) = of_nat j"
    "d_flags (v_desc d ! j) = VRING_DESC_F_WRITE" using c by simp_all
  let ?s1 = "s\<lparr>vd := (vd s)\<lparr>v_desc := (v_desc d)[h := zero_desc], v_free := (v_free d)[h := True]\<rparr>, woken := woken s @ [ChanDesc]\<rparr>"
  let ?s2 = "?s1\<lparr>vd := (vd s)\<lparr>v_desc := (v_desc d)[h := zero_desc, i := zero_desc], v_free := (v_free d)[h := True, i := True]\<rparr>,
    woken := woken s @ [ChanDesc, ChanDesc]\<rparr>"
  let ?s3 = "?s2\<lparr>vd := (vd s)\<lparr>v_desc := (v_desc d)[h := zero_desc, i := zero_desc, j := zero_desc],
    v_free := (v_free d)[h := True, i := True, j := True]\<rparr>, woken := woken s @ [ChanDesc, ChanDesc, ChanDesc]\<rparr>"
  have "free_chain h s = free_chain i ?s1"
    by (subst free_chain_step [of h s ?s1]) (simp_all only: lt used vd len desc nx desc_flag_bits, simp_all)
  also have "\<dots> = free_chain j ?s2"
    by (subst free_chain_step [of i ?s1 ?s2]) (use lt used len ne desc nx desc_flag_bits in simp_all)
  also have "\<dots> = Inr ((), ?s3)"
    by (subst free_chain_step [of j ?s2 ?s3]) (use lt used len ne desc nx desc_flag_bits in simp_all)
  finally show ?thesis by (intro exI [of _ "woken s @ [ChanDesc, ChanDesc, ChanDesc]"]) simp
qed

lemma owned_not_free:
  assumes "vinv_of R d bs" and "R h = Some r" and "i \<in> own h r"
  shows "\<not> v_free d ! i"
  using free_no_owner [OF assms(1) own_lt [OF vinvD(2) [OF assms(1,2)] assms(3)] _ assms(2)] assms(3) by blast

lemma inv_end:
  assumes inv: "vinv_of R d bs" and Rh: "R h = Some (b, w, i, j)" and fin: "\<not> b_disk (bs ! b)"
  shows "vinv_of (R(h := None)) (drop_request h i j d) bs" (is "vinv_of ?R ?d bs")
proof (rule vinv_ofI)
  have c: "chain_ok d bs h (b, w, i, j)" by (rule vinvD(2) [OF inv Rh])
  have len: "lengths_ok d" by (rule vinvD(1) [OF inv])
  have wd: "waiting ?d = waiting d" "announced ?d = announced d"
    by (simp_all add: waiting_def posted_def announced_def drop_request_def)
  note old = progressD [OF vinvD(5) [OF inv]]
  have nw: "h \<notin> set (waiting d)" using old(3) [OF Rh] fin by simp
  have sep: "own n r \<inter> {h, i, j} = {}" if "R n = Some r" "n \<noteq> h" for n r
    using ownersD(1) [OF vinvD(4) [OF inv] that(1) Rh that(2)] by simp
  show "lengths_ok ?d" using len by (simp add: lengths_ok_def drop_request_def)
  show "chain_ok ?d bs n r" if R: "?R n = Some r" for n r
  proof -
    have r: "R n = Some r" "n \<noteq> h" using R by (auto split: if_splits)
    show ?thesis
    proof (rule chain_ok_cong [OF vinvD(2) [OF inv r(1)]])
      fix k assume "k \<in> own n r"
      with sep [OF r] have "k \<notin> {h, i, j}" by blast
      then show "v_desc ?d ! k = v_desc d ! k" by (simp add: drop_request_def)
    qed (use r(2) in \<open>simp_all add: drop_request_def\<close>)
  qed
  show "in_b (v_info ?d ! n) = None" if "n < NUM" "?R n = None" for n
    using that vinvD(3) [OF inv, of n] len by (cases "n = h") (simp_all add: drop_request_def lengths_ok_def)
  show "owners_ok ?R ?d"
    unfolding owners_ok_def
  proof (intro conjI allI impI; (elim conjE)?)
    fix n n' r r' assume "?R n = Some r" "?R n' = Some r'" "n \<noteq> n'"
    then show "own n r \<inter> own n' r' = {}" "fst r \<noteq> fst r'"
      using ownersD(1) [OF vinvD(4) [OF inv], of n r n' r'] by (auto split: if_splits)
  next
    fix n assume n: "n < NUM"
    have "v_free ?d ! n \<longleftrightarrow> n \<in> {h, i, j} \<or> v_free d ! n"
      using n len c by (simp add: drop_request_def lengths_ok_def nth_list_update)
    also have "\<dots> \<longleftrightarrow> (\<forall>k r. ?R k = Some r \<longrightarrow> n \<notin> own k r)"
    proof (cases "n \<in> {h, i, j}")
      case True
      then have "n \<notin> own k r" if "?R k = Some r" for k r using sep [of k r] that by (auto split: if_splits)
      with True show ?thesis by blast
    next
      case False
      then have nh: "n \<notin> own h r" if "R h = Some r" for r using that Rh by auto
      have "(\<forall>k r. R k = Some r \<longrightarrow> n \<notin> own k r) \<longleftrightarrow> (\<forall>k r. k \<noteq> h \<and> R k = Some r \<longrightarrow> n \<notin> own k r)"
      proof (intro iffI allI impI)
        fix k r assume all: "\<forall>k r. k \<noteq> h \<and> R k = Some r \<longrightarrow> n \<notin> own k r" and "R k = Some r"
        then show "n \<notin> own k r" using nh by (cases "k = h") blast+
      qed blast
      then show ?thesis unfolding all_requests_del ownersD(2) [OF vinvD(4) [OF inv] n] using False by simp
    qed
    finally show "v_free ?d ! n \<longleftrightarrow> (\<forall>k r. ?R k = Some r \<longrightarrow> n \<notin> own k r)" .
  qed
  show "progress_ok ?R ?d bs"
  proof (rule progress_okI)
    show "distinct (waiting ?d)" using old(1) by (simp add: wd)
    show "set (waiting ?d) \<subseteq> dom ?R" using old(2) nw by (auto simp: wd)
    show "b_disk (bs ! fst r) \<longleftrightarrow> n \<in> set (waiting ?d)" if "?R n = Some r" for n r
      using that old(3) [of n r] by (auto simp: wd split: if_splits)
    show "in_status (v_info ?d ! n) = 0" if "n \<in> set (announced ?d)" for n
    proof -
      have "n \<in> set (announced d)" using that by (simp only: wd)
      moreover from this have "n \<noteq> h" using nw by (auto simp: waiting_def)
      ultimately show ?thesis using old(4) [of n] by (simp add: drop_request_def)
    qed
  qed
qed

subsection \<open>Interrupt and device\<close>

text \<open>A step that changes neither chains nor owners.\<close>

lemma inv_frame:
  assumes inv: "vinv_of R d bs" and "lengths_ok d'" and same: "v_desc d' = v_desc d" "v_ops d' = v_ops d" "v_free d' = v_free d"
    and info: "\<And>h. in_b (v_info d' ! h) = in_b (v_info d ! h)"
    and bs: "length bs' = length bs" "\<And>h r. R h = Some r \<Longrightarrow> b_blockno (bs' ! fst r) = b_blockno (bs ! fst r)"
    and prog: "progress_ok R d' bs'"
  shows "vinv_of R d' bs'"
proof (rule vinv_ofI)
  show "lengths_ok d'" by (rule assms(2))
  show "owners_ok R d'" by (rule owners_ok_cong [THEN iffD2, OF same(3) vinvD(4) [OF inv]])
  show "in_b (v_info d' ! h) = None" if "h < NUM" "R h = None" for h using vinvD(3) [OF inv that] info by simp
  show "chain_ok d' bs' h r" if r: "R h = Some r" for h r
    by (rule chain_ok_cong [OF vinvD(2) [OF inv r]]) (use same info bs(1) bs(2) [OF r] in simp_all)
qed (rule prog)

lemma announced_pop:
  assumes "v_used_idx d \<noteq> v_used_ring_idx d"
  shows "announced d = unat (v_used_ring d ! (unat (v_used_idx d) mod NUM)) # announced (d\<lparr>v_used_idx := v_used_idx d + 1\<rparr>)"
  using ring_win_pop [OF assms, of "v_used_ring d"] by (simp add: announced_def)

lemma posted_pop:
  assumes "dev_seen d \<noteq> v_avail_idx d"
  shows "posted d = unat (v_avail_ring d ! (unat (dev_seen d) mod NUM)) # posted (d\<lparr>dev_seen := dev_seen d + 1\<rparr>)"
  using ring_win_pop [OF assms, of "v_avail_ring d"] by (simp add: posted_def)

lemma inv_intr:
  assumes inv: "vinv_of R d bs" and ne: "v_used_idx d \<noteq> v_used_ring_idx d" and h: "hd (announced d) = h" and R: "R h = Some r"
  shows "vinv_of R (d\<lparr>v_used_idx := v_used_idx d + 1\<rparr>) (bs[fst r := (bs ! fst r)\<lparr>b_disk := False\<rparr>])" (is "vinv_of R ?d ?bs")
proof (rule inv_frame [OF inv])
  have w: "waiting d = posted d @ dev_work d @ h # announced ?d" "waiting ?d = posted d @ dev_work d @ announced ?d"
    using announced_pop [OF ne] h by (simp_all add: waiting_def posted_def)
  note old = progressD [OF vinvD(5) [OF inv]]
  have lt: "fst r < length bs" using chain_head [OF vinvD(2) [OF inv R]] by simp
  show "lengths_ok ?d" using vinvD(1) [OF inv] by (simp add: lengths_ok_def)
  show "b_blockno (?bs ! fst q) = b_blockno (bs ! fst q)" for q :: request
    by (cases "fst q = fst r") (simp_all add: lt)
  show "progress_ok R ?d ?bs"
  proof (rule progress_okI)
    show "distinct (waiting ?d)" using old(1) w by simp
    show "set (waiting ?d) \<subseteq> dom R" using old(2) w by auto
    show "in_status (v_info ?d ! n) = 0" if "n \<in> set (announced ?d)" for n
      using old(4) [of n] that announced_pop [OF ne] by simp
    show "b_disk (?bs ! fst q) \<longleftrightarrow> n \<in> set (waiting ?d)" if q: "R n = Some q" for n q
    proof (cases "n = h")
      case True
      with q R lt old(1) w show ?thesis by simp
    next
      case False
      then have "fst q \<noteq> fst r" using ownersD(1) [OF vinvD(4) [OF inv] q R] by simp
      with False old(3) [OF q] w show ?thesis by simp
    qed
  qed
qed simp_all

lemma inv_takes:
  assumes inv: "vinv_of R d bs" and ne: "dev_seen d \<noteq> v_avail_idx d"
  shows "vinv_of R (d\<lparr>dev_work := dev_work d @ [unat (v_avail_ring d ! (unat (dev_seen d) mod NUM))], dev_seen := dev_seen d + 1\<rparr>) bs"
    (is "vinv_of R ?d bs")
proof (rule inv_frame [OF inv])
  have w: "set (waiting ?d) = set (waiting d)" "distinct (waiting ?d) = distinct (waiting d)" "announced ?d = announced d"
    using posted_pop [OF ne] by (auto simp: waiting_def announced_def posted_def)
  note old = progressD [OF vinvD(5) [OF inv]]
  show "progress_ok R ?d bs"
    by (rule progress_okI) (use old w in simp_all)
  show "lengths_ok ?d" using vinvD(1) [OF inv] by (simp add: lengths_ok_def)
qed simp_all

lemma announced_push:
  assumes "vinv_of R d bs" and "h \<in> set (dev_work d)"
  shows "announced (dev_announce h c d) = announced d @ [h]"
proof -
  have "length (waiting d) \<le> NUM" by (rule waiting_short [OF assms(1)])
  moreover obtain n ns where "dev_work d = n # ns" using assms(2) by (cases "dev_work d") auto
  ultimately have "unat (v_used_ring_idx d - v_used_idx d) < NUM" by (simp add: waiting_def announced_def)
  then have "ring_win ((v_used_ring d)[unat (v_used_ring_idx d) mod NUM := of_nat h]) (v_used_idx d) (v_used_ring_idx d + 1)
      = ring_win (v_used_ring d) (v_used_idx d) (v_used_ring_idx d) @ [of_nat h]"
    by (rule ring_win_push) (use vinvD(1) [OF assms(1)] in \<open>simp add: lengths_ok_def\<close>)
  moreover have "h < NUM" by (rule waiting_head [OF assms(1), of h]) (use assms(2) in \<open>simp_all add: waiting_def\<close>)
  then have "unat (of_nat h :: u32) = h" by (simp add: NUM_def unat_of_nat)
  ultimately show ?thesis by (simp add: announced_def dev_announce_def)
qed

lemma inv_finishes:
  assumes inv: "vinv_of R d bs" and h: "h \<in> set (dev_work d)" and R: "R h = Some r"
    and bs: "length bs' = length bs" "\<And>n. b_blockno (bs' ! n) = b_blockno (bs ! n)" "\<And>n. b_disk (bs' ! n) = b_disk (bs ! n)"
  shows "vinv_of R (dev_announce h h d) bs'" (is "vinv_of R ?d bs'")
proof (rule inv_frame [OF inv])
  note old = progressD [OF vinvD(5) [OF inv]]
  have lt: "h < NUM" by (rule request_lt [OF inv R])
  have a: "announced ?d = announced d @ [h]" by (rule announced_push [OF inv h])
  have w: "waiting ?d = posted d @ remove1 h (dev_work d) @ announced d @ [h]"
    by (simp add: waiting_def a) (simp add: posted_def dev_announce_def)
  have dw: "distinct (dev_work d)" "h \<notin> set (posted d)" "h \<notin> set (announced d)" using old(1) h by (auto simp: waiting_def)
  have s: "set (waiting ?d) = set (waiting d)" using w h dw by (auto simp: waiting_def)
  have di: "distinct (waiting ?d)" using w old(1) dw by (auto simp: waiting_def distinct_remove1)
  show "progress_ok R ?d bs'"
  proof (rule progress_okI)
    show "distinct (waiting ?d)" by (rule di)
    show "set (waiting ?d) \<subseteq> dom R" using old(2) s by simp
    show "b_disk (bs' ! fst q) \<longleftrightarrow> n \<in> set (waiting ?d)" if "R n = Some q" for n q
      using old(3) [OF that] s bs(3) by simp
    show "in_status (v_info ?d ! n) = 0" if "n \<in> set (announced ?d)" for n
      using that old(4) [of n] a lt vinvD(1) [OF inv] by (cases "n = h") (auto simp: dev_announce_def lengths_ok_def)
  qed
  show "lengths_ok ?d" using vinvD(1) [OF inv] by (simp add: lengths_ok_def dev_announce_def)
  show "in_b (v_info ?d ! n) = in_b (v_info d ! n)" for n
    using lt vinvD(1) [OF inv] by (cases "n = h") (simp_all add: dev_announce_def lengths_ok_def)
qed (use bs in \<open>simp_all add: dev_announce_def\<close>)

section \<open>Refinement\<close>

text \<open>
  The abstract disk: what the cache sees of disk and buffers, the requests not yet carried out, and
  the buffers whose request is carried out but whose caller has not gone on yet. A transfer is the
  operation \<open>virtio_disk_rw\<close> the buffer cache is verified with, in one step.
\<close>

lemma view_upd: "map (\<lambda>x. (b_blockno x, b_data x)) (bs[b := (bs ! b)\<lparr>b_disk := v\<rparr>]) = map (\<lambda>x. (b_blockno x, b_data x)) bs"
proof (cases "b < length bs")
  case True
  then show ?thesis by (simp add: map_update list_update_same_conv)
qed (simp add: list_update_beyond)

type_synonym dview = "(u32 \<Rightarrow> block) \<times> (u32 \<times> block) list \<times> (u32 \<times> block) list"

definition disk_view :: "'a bio_state_scheme \<Rightarrow> dview" where
  "disk_view s = (disk s, dtrace s, map (\<lambda>x. (b_blockno x, b_data x)) (bufs s))"

inductive astep :: "dview \<times> (nat \<times> bool) set \<times> nat set \<Rightarrow> dview \<times> (nat \<times> bool) set \<times> nat set \<Rightarrow> bool" where
  Post: "\<lbrakk>b \<notin> fst ` out; b \<notin> fin\<rbrakk> \<Longrightarrow> astep (v, out, fin) (v, insert (b, w) out, fin)"
| Transfer: "\<lbrakk>(b, w) \<in> out; disk_view (u :: bio_state) = v; b < length (bufs u)\<rbrakk> \<Longrightarrow>
    astep (v, out, fin) (disk_view (run (virtio_disk_rw b w) u), out - {(b, w)}, insert b fin)"
| Return: "b \<in> fin \<Longrightarrow> astep (v, out, fin) (v, out, fin - {b})"
| Owner: "\<lbrakk>length bs' = length bs; \<forall>b \<in> fst ` out \<union> fin. bs' ! b = bs ! b\<rbrakk> \<Longrightarrow>
    astep ((dk, tc, bs), out, fin) ((dk, tc, bs'), out, fin)"

definition pend :: "vdisk \<Rightarrow> nat set" where
  "pend d = set (posted d @ dev_work d)"

definition abs_out :: "vdisk \<Rightarrow> (nat \<times> bool) set" where
  "abs_out d = {(b, w). \<exists>h \<in> pend d. in_b (v_info d ! h) = Some b \<and> (w \<longleftrightarrow> rq_type (v_ops d ! h) = VIRTIO_BLK_T_OUT)}"

definition abs_fin :: "vdisk \<Rightarrow> nat set" where
  "abs_fin d = {b. \<exists>h < NUM. in_b (v_info d ! h) = Some b \<and> h \<notin> pend d}"

definition abs_disk :: "'a vdisk_state_scheme \<Rightarrow> dview \<times> (nat \<times> bool) set \<times> nat set" where
  "abs_disk s = (disk_view s, abs_out (vd s), abs_fin (vd s))"

text \<open>The same sets in terms of the requests.\<close>

definition dir :: "request \<Rightarrow> nat \<times> bool" where
  "dir r = (fst r, fst (snd r))"

lemma chain_dir:
  assumes "chain_ok d bs h r"
  shows "in_b (v_info d ! h) = Some b \<and> (w \<longleftrightarrow> rq_type (v_ops d ! h) = VIRTIO_BLK_T_OUT) \<longleftrightarrow> dir r = (b, w)"
  using assms by (cases r) (auto simp: dir_def VIRTIO_BLK_T_OUT_def VIRTIO_BLK_T_IN_def)

lemma pend_request:
  assumes "vinv_of R d bs" and "h \<in> pend d"
  shows "\<exists>r. R h = Some r"
proof -
  have "h \<in> set (waiting d)" using assms(2) by (auto simp: pend_def waiting_def)
  then show ?thesis by (rule waiting_head [OF assms(1)]) blast
qed

lemma abs_out_requests:
  assumes inv: "vinv_of R d bs"
  shows "abs_out d = {p. \<exists>h \<in> pend d. \<exists>r. R h = Some r \<and> dir r = p}"
proof (rule set_eqI, unfold mem_Collect_eq abs_out_def, clarify)
  fix b w
  show "(\<exists>h\<in>pend d. in_b (v_info d ! h) = Some b \<and> (w \<longleftrightarrow> rq_type (v_ops d ! h) = VIRTIO_BLK_T_OUT))
    \<longleftrightarrow> (\<exists>h\<in>pend d. \<exists>r. R h = Some r \<and> dir r = (b, w))"
  proof (rule bex_cong [OF refl])
    fix h assume "h \<in> pend d"
    then obtain r where r: "R h = Some r" using pend_request [OF inv] by blast
    show "in_b (v_info d ! h) = Some b \<and> (w \<longleftrightarrow> rq_type (v_ops d ! h) = VIRTIO_BLK_T_OUT) \<longleftrightarrow> (\<exists>r. R h = Some r \<and> dir r = (b, w))"
      unfolding chain_dir [OF vinvD(2) [OF inv r]] r by simp
  qed
qed

lemma abs_fin_requests:
  assumes inv: "vinv_of R d bs"
  shows "abs_fin d = {b. \<exists>h r. R h = Some r \<and> fst r = b \<and> h \<notin> pend d}"
proof (rule set_eqI, unfold mem_Collect_eq abs_fin_def, rule iffI; elim exE conjE)
  fix b h assume "h < NUM" "in_b (v_info d ! h) = Some b" "h \<notin> pend d"
  with request_of [OF inv, of h] obtain r where "R h = Some r" "fst r = b" by (cases "R h") auto
  with \<open>h \<notin> pend d\<close> show "\<exists>h r. R h = Some r \<and> fst r = b \<and> h \<notin> pend d" by blast
next
  fix b h r assume "R h = Some r" "fst r = b" "h \<notin> pend d"
  with request_of [OF inv, of h] request_lt [OF inv, of h r]
  show "\<exists>h<NUM. in_b (v_info d ! h) = Some b \<and> h \<notin> pend d" by (intro exI [of _ h]) simp
qed

lemma abs_busy:
  assumes inv: "vinv_of R d bs" shows "fst ` abs_out d \<union> abs_fin d = {b. busy d b}"
proof (rule set_eqI)
  fix b
  have "b \<in> fst ` abs_out d \<longleftrightarrow> (\<exists>h \<in> pend d. \<exists>r. R h = Some r \<and> fst r = b)"
    unfolding abs_out_requests [OF inv] by (auto simp: dir_def image_iff)
  then show "b \<in> fst ` abs_out d \<union> abs_fin d \<longleftrightarrow> b \<in> {b. busy d b}"
    unfolding abs_fin_requests [OF inv] using busy_iff [OF inv, of b] by blast
qed

lemma out_add:
  assumes none: "R i = None"
  shows "{p. \<exists>h \<in> insert i H. \<exists>r. (R(i \<mapsto> x)) h = Some r \<and> f r = p} = insert (f x) {p. \<exists>h \<in> H. \<exists>r. R h = Some r \<and> f r = p}"
proof -
  have "R i \<noteq> Some r" for r using none by simp
  then show ?thesis unfolding request_add [of R, OF none] by auto
qed

lemma fin_add:
  assumes none: "R i = None"
  shows "{b. \<exists>h r. (R(i \<mapsto> x)) h = Some r \<and> f r = b \<and> h \<notin> insert i H} = {b. \<exists>h r. R h = Some r \<and> f r = b \<and> h \<notin> H}"
proof -
  have "R i \<noteq> Some r" for r using none by simp
  then show ?thesis unfolding request_add [of R, OF none] by auto metis
qed

lemma took_Nil: "took [] s = s"
  by (simp add: took_def mark_def)

lemma rw_begin_cases:
  assumes "lengths_ok (vd s)"
  obtains (Wait) D W where "rw_begin b w s = Inr (None, s\<lparr>vd := (vd s)\<lparr>v_desc := D\<rparr>, woken := W\<rparr>)"
      and "length D = length (v_desc (vd s))" and "\<forall>i < NUM. \<not> v_free (vd s) ! i \<longrightarrow> D ! i = v_desc (vd s) ! i"
      and "card {i. i < NUM \<and> v_free (vd s) ! i} < 3"
  | (Sent) i j k where "rw_begin b w s = Inr (Some i, (upd_buf b (\<lambda>x. x\<lparr>b_disk := True\<rparr>) s)
        \<lparr>vd := put_request b w i j k (b_blockno (bufs s ! b)) (vd s), mmio := mmio s @ [(0x050, 0)]\<rparr>)"
      and "distinct [i, j, k]" and "\<forall>n \<in> {i, j, k}. n < NUM \<and> v_free (vd s) ! n"
proof -
  have len: "length (v_free (vd s)) = NUM" using assms by (simp add: lengths_ok_def)
  have "(\<exists>ns. length ns = 3 \<and> distinct ns \<and> (\<forall>i \<in> set ns. i < NUM \<and> v_free (vd s) ! i) \<and> alloc_more 3 [] s = Inr (Some ns, took ns s))
    \<or> (gave_up (alloc_more 3 []) s s \<and> card {i. i < NUM \<and> v_free (vd s) ! i} < 3)"
    using alloc_more_spec [OF len, of "[]" 3] by (simp only: took_Nil append_Nil list.size distinct.simps list.set ball_empty simp_thms add_0)
  then show thesis
  proof (elim disjE exE conjE)
    fix ns assume ns: "length ns = 3" "distinct ns" "\<forall>i \<in> set ns. i < NUM \<and> v_free (vd s) ! i"
      "alloc_more 3 [] s = Inr (Some ns, took ns s)"
    then obtain i j k where "ns = [i, j, k]" by (auto simp: numeral_3_eq_3 length_Suc_conv)
    with ns post_request_run [OF assms, of i b w j k] show thesis
      by (intro Sent [of i j k]) (simp_all add: rw_begin_def alloc3_desc_def bindk_def thenk_def ret_def)
  next
    assume "gave_up (alloc_more 3 []) s s" and few: "card {i. i < NUM \<and> v_free (vd s) ! i} < 3"
    then show thesis
      unfolding gave_up_def
      by (elim exE conjE) (rule Wait, simp_all add: rw_begin_def alloc3_desc_def bindk_def ret_def)
  qed
qed

lemma step_begin:
  assumes inv: "vinv_of R (vd s) (bufs s)" and b: "b < length (bufs s)" "\<not> busy (vd s) b" "b_blockno (bufs s ! b) < 2 ^ 31"
    and run: "rw_begin b w s = Inr (r, t)"
  shows "vinv t \<and> (abs_disk t = abs_disk s \<or> astep (abs_disk s) (abs_disk t))"
  using vinvD(1) [OF inv]
proof (rule rw_begin_cases [of s b w])
  fix D W assume 1: "rw_begin b w s = Inr (None, s\<lparr>vd := (vd s)\<lparr>v_desc := D\<rparr>, woken := W\<rparr>)" (is "_ = Inr (None, ?t)")
    and D: "length D = length (v_desc (vd s))" "\<forall>i < NUM. \<not> v_free (vd s) ! i \<longrightarrow> D ! i = v_desc (vd s) ! i"
  have t: "t = ?t" using run 1 by simp
  have "vinv t" unfolding vinv_def using inv_gave_up [OF inv D] by (intro exI [of _ R]) (simp add: t)
  moreover have "abs_disk t = abs_disk s"
    by (simp add: t abs_disk_def disk_view_def abs_out_def abs_fin_def pend_def posted_def)
  ultimately show ?thesis by simp
next
  fix i j k assume 1: "rw_begin b w s = Inr (Some i, (upd_buf b (\<lambda>x. x\<lparr>b_disk := True\<rparr>) s)
        \<lparr>vd := put_request b w i j k (b_blockno (bufs s ! b)) (vd s), mmio := mmio s @ [(0x050, 0)]\<rparr>)" (is "_ = Inr (_, ?t)")
    and ijk: "distinct [i, j, k]" "\<forall>n \<in> {i, j, k}. n < NUM \<and> v_free (vd s) ! n"
  have t: "t = ?t" using run 1 by simp
  let ?d = "put_request b w i j k (b_blockno (bufs s ! b)) (vd s)" and ?R = "R(i \<mapsto> (b, w, j, k))"
  let ?bs = "(bufs s)[b := (bufs s ! b)\<lparr>b_disk := True\<rparr>]"
  have i: "i < NUM" "v_free (vd s) ! i" using ijk(2) by auto
  have inv': "vinv_of ?R ?d ?bs" by (rule inv_begin [OF inv ijk b])
  have none: "R i = None" by (rule free_no_head [OF inv i])
  have p: "pend ?d = insert i (pend (vd s))"
    using posted_put [OF inv posted_room(1) [OF inv i] i(1)] by (auto simp: pend_def put_request_def)
  have out: "abs_out ?d = insert (b, w) (abs_out (vd s))"
    unfolding abs_out_requests [OF inv'] abs_out_requests [OF inv] p out_add [of R, OF none] by (simp add: dir_def)
  have fin: "abs_fin ?d = abs_fin (vd s)"
    unfolding abs_fin_requests [OF inv'] abs_fin_requests [OF inv] p by (rule fin_add [of R, OF none])
  have "map (\<lambda>x. (b_blockno x, b_data x)) ?bs = map (\<lambda>x. (b_blockno x, b_data x)) (bufs s)"
    by (rule view_upd)
  then have "disk_view t = disk_view s" by (simp add: t disk_view_def upd_buf_def)
  moreover have "b \<notin> fst ` abs_out (vd s)" "b \<notin> abs_fin (vd s)" using abs_busy [OF inv] b(2) by auto
  ultimately have "astep (abs_disk s) (abs_disk t)"
    using out fin astep.Post [of b "abs_out (vd s)" "abs_fin (vd s)" "disk_view s" w] by (simp add: abs_disk_def t)
  moreover have "vinv t" unfolding vinv_def using inv' by (intro exI [of _ ?R]) (simp add: t upd_buf_def)
  ultimately show ?thesis by simp
qed

lemma rw_end_run:
  assumes inv: "vinv_of R (vd s) (bufs s)" and R: "R h = Some (b, w, i, j)" and fin: "\<not> b_disk (bufs s ! b)"
  shows "\<exists>W. rw_end b h s = Inr (True, s\<lparr>vd := drop_request h i j (vd s), woken := W\<rparr>)"
proof -
  let ?s = "s\<lparr>vd := (vd s)\<lparr>v_info := (v_info (vd s))[h := (v_info (vd s) ! h)\<lparr>in_b := None\<rparr>]\<rparr>\<rparr>"
  have c: "chain_ok (vd s) (bufs s) h (b, w, i, j)" by (rule vinvD(2) [OF inv R])
  have len: "length (v_free (vd s)) = NUM" using vinvD(1) [OF inv] by (simp add: lengths_ok_def)
  obtain W where "free_chain h ?s = Inr ((), ?s\<lparr>vd := (vd ?s)\<lparr>v_desc := (v_desc (vd s))[h := zero_desc, i := zero_desc, j := zero_desc],
      v_free := (v_free (vd s))[h := True, i := True, j := True]\<rparr>, woken := W\<rparr>)"
    using free_chain_run [OF c len, of ?s] owned_not_free [OF inv R] by auto
  then show ?thesis
    using fin by (intro exI [of _ W]) (simp add: rw_end_def vrun_defs drop_request_def)
qed

lemma out_del:
  assumes "h \<notin> H"
  shows "{p. \<exists>n \<in> H. \<exists>r. (R(h := None)) n = Some r \<and> f r = p} = {p. \<exists>n \<in> H. \<exists>r. R n = Some r \<and> f r = p}"
  unfolding request_del by (rule Collect_cong, rule bex_cong) (use assms in auto)

lemma fin_del:
  assumes "R h = Some x" and "h \<notin> H" and "\<And>n r. R n = Some r \<Longrightarrow> n \<noteq> h \<Longrightarrow> f r \<noteq> f x"
  shows "{b. \<exists>n r. (R(h := None)) n = Some r \<and> f r = b \<and> n \<notin> H} = {b. \<exists>n r. R n = Some r \<and> f r = b \<and> n \<notin> H} - {f x}"
proof (rule set_eqI)
  fix b
  show "b \<in> {b. \<exists>n r. (R(h := None)) n = Some r \<and> f r = b \<and> n \<notin> H}
      \<longleftrightarrow> b \<in> {b. \<exists>n r. R n = Some r \<and> f r = b \<and> n \<notin> H} - {f x}"
    unfolding request_del mem_Collect_eq Diff_iff singleton_iff using assms by (metis option.inject)
qed

lemma step_end:
  assumes inv: "vinv_of R (vd s) (bufs s)" and h: "h < NUM" "in_b (v_info (vd s) ! h) = Some b" and run: "rw_end b h s = Inr (r, t)"
  shows "vinv t \<and> (abs_disk t = abs_disk s \<or> astep (abs_disk s) (abs_disk t))"
proof (cases "b_disk (bufs s ! b)")
  case True
  with run have "t = s" by (simp add: rw_end_def vrun_defs)
  with inv show ?thesis by (auto simp: vinv_def)
next
  case False
  obtain w i j where R: "R h = Some (b, w, i, j)" using request_of [OF inv h(1)] h(2) by (cases "R h") auto
  obtain W where t: "t = s\<lparr>vd := drop_request h i j (vd s), woken := W\<rparr>" using rw_end_run [OF inv R False] run by auto
  let ?d = "drop_request h i j (vd s)"
  have inv': "vinv_of (R(h := None)) ?d (bufs s)" by (rule inv_end [OF inv R False])
  have p: "pend ?d = pend (vd s)" by (simp add: pend_def posted_def drop_request_def)
  have np: "h \<notin> pend (vd s)" using progressD(3) [OF vinvD(5) [OF inv] R] False by (auto simp: pend_def waiting_def)
  have out: "abs_out ?d = abs_out (vd s)"
    unfolding abs_out_requests [OF inv'] abs_out_requests [OF inv] p by (rule out_del [OF np])
  have fin: "abs_fin ?d = abs_fin (vd s) - {b}"
    unfolding abs_fin_requests [OF inv'] abs_fin_requests [OF inv] p
    using fin_del [of R h "(b, w, i, j)" "pend (vd s)" fst, OF R np] ownersD(1) [OF vinvD(4) [OF inv] _ R] by simp
  have "b \<in> abs_fin (vd s)" unfolding abs_fin_requests [OF inv] using R np by force
  then have "astep (abs_disk s) (abs_disk t)"
    using astep.Return [of b "abs_fin (vd s)" "disk_view s" "abs_out (vd s)"] out fin by (simp add: abs_disk_def t disk_view_def)
  moreover have "vinv t" unfolding vinv_def using inv' by (intro exI [of _ "R(h := None)"]) (simp add: t)
  ultimately show ?thesis by simp
qed

lemma intr_turn_run:
  assumes inv: "vinv_of R (vd s) (bufs s)" and ne: "v_used_idx (vd s) \<noteq> v_used_ring_idx (vd s)"
  obtains r W where "R (hd (announced (vd s))) = Some r"
    and "intr_turn s = Inr ((), s\<lparr>vd := (vd s)\<lparr>v_used_idx := v_used_idx (vd s) + 1\<rparr>,
      bufs := (bufs s)[fst r := (bufs s ! fst r)\<lparr>b_disk := False\<rparr>], woken := W\<rparr>)"
proof -
  let ?h = "unat (v_used_ring (vd s) ! (unat (v_used_idx (vd s)) mod NUM))"
  have a: "?h \<in> set (announced (vd s))" "hd (announced (vd s)) = ?h" using announced_pop [OF ne] by simp_all
  then have "?h \<in> set (waiting (vd s))" by (simp add: waiting_def)
  then obtain r where r: "R ?h = Some r" "?h < NUM" by (rule waiting_head [OF inv])
  have "in_status (v_info (vd s) ! ?h) = 0" by (rule progressD(4) [OF vinvD(5) [OF inv] a(1)])
  moreover have "in_b (v_info (vd s) ! ?h) = Some (fst r)" using request_of [OF inv r(2)] r(1) by simp
  ultimately have "intr_turn s = Inr ((), s\<lparr>vd := (vd s)\<lparr>v_used_idx := v_used_idx (vd s) + 1\<rparr>,
      bufs := (bufs s)[fst r := (bufs s ! fst r)\<lparr>b_disk := False\<rparr>], woken := woken s @ [ChanDisk (fst r)]\<rparr>)"
    using r(2) by (simp add: intr_turn_def vrun_defs upd_buf_def)
  with r(1) a(2) show thesis by (intro that) simp_all
qed

text \<open>Steps that only move a request on leave the abstract disk as it is.\<close>

lemma abs_same:
  assumes "vinv_of R (vd s) (bufs s)" and "vinv_of R (vd t) (bufs t)" and "pend (vd t) = pend (vd s)" and "disk_view t = disk_view s"
  shows "abs_disk t = abs_disk s"
  unfolding abs_disk_def abs_out_requests [OF assms(1)] abs_out_requests [OF assms(2)] abs_fin_requests [OF assms(1)]
    abs_fin_requests [OF assms(2)] assms(3,4) ..

lemma step_intr:
  assumes inv: "vinv_of R (vd s) (bufs s)" and ne: "v_used_idx (vd s) \<noteq> v_used_ring_idx (vd s)" and run: "intr_turn s = Inr (u, t)"
  shows "vinv t \<and> abs_disk t = abs_disk s"
proof -
  obtain r W where R: "R (hd (announced (vd s))) = Some r"
    and t: "t = s\<lparr>vd := (vd s)\<lparr>v_used_idx := v_used_idx (vd s) + 1\<rparr>, bufs := (bufs s)[fst r := (bufs s ! fst r)\<lparr>b_disk := False\<rparr>], woken := W\<rparr>"
    by (rule intr_turn_run [OF inv ne]) (use run in simp)
  have inv': "vinv_of R (vd t) (bufs t)" using inv_intr [OF inv ne refl R] by (simp add: t)
  have "map (\<lambda>x. (b_blockno x, b_data x)) (bufs t) = map (\<lambda>x. (b_blockno x, b_data x)) (bufs s)"
    by (simp add: t view_upd)
  then have "disk_view t = disk_view s" by (simp add: t disk_view_def)
  then have "abs_disk t = abs_disk s" by (intro abs_same [OF inv inv']) (simp_all add: t pend_def posted_def)
  then show ?thesis using inv' by (auto simp: vinv_def)
qed

lemma sector_block:
  assumes "n < 2 ^ 31"
  shows "ucast (sector_of n div 2) = n"
proof -
  have n: "unat n < 2 ^ 31" using assms by (simp add: word_less_nat_alt)
  then have "unat (n * 2) = unat n * 2" by (simp add: unat_word_ariths)
  then have "unat (sector_of n) = unat n * 2" using n by (simp add: sector_of_def BSIZE_def unsigned_ucast_eq take_bit_eq_mod)
  then have "unat (sector_of n div 2) = unat n" by (simp add: unat_div)
  then have "unat (ucast (sector_of n div 2) :: u32) = unat n" using n by (simp add: unsigned_ucast_eq take_bit_eq_mod)
  then show ?thesis by (simp only: word_unat_eq_iff)
qed

lemma reads_chain:
  assumes c: "chain_ok d bs h (b, w, i, j)" and r: "dev_reads d h k b' w' c'"
  shows "k = h \<and> b' = b \<and> w' = w \<and> c' = h"
proof -
  have nx: "unat (of_nat i :: ushort) = i" "unat (of_nat j :: ushort) = j" using c by (simp_all add: NUM_def unat_of_nat)
  show ?thesis using c r desc_flag_bits(6) [of w] by (simp add: dev_reads_def Let_def nx)
qed

lemma transfer_view:
  assumes "b < length (bufs s)" and "b_blockno (bufs s ! b) < 2 ^ 31"
  shows "disk_view (dev_transfer b w (sector_of (b_blockno (bufs s ! b))) s)
    = disk_view (run (virtio_disk_rw b w) (bio_state.truncate s))"
  using assms by (simp add: disk_view_def dev_transfer_def Let_def sector_block run_def virtio_disk_rw_def modk_def upd_buf_def
      bio_state.defs)

lemma transfer_bufs:
  assumes t_def: "t = dev_transfer b w sec s"
  shows "vd t = vd s" "length (bufs t) = length (bufs s)" "b_blockno (bufs t ! n) = b_blockno (bufs s ! n)"
    "b_disk (bufs t ! n) = b_disk (bufs s ! n)"
proof -
  have "(bufs s)[b := (bufs s ! b)\<lparr>b_data := x\<rparr>] ! n = (if n = b \<and> n < length (bufs s) then (bufs s ! b)\<lparr>b_data := x\<rparr> else bufs s ! n)" for x
    by (cases "n = b"; cases "b < length (bufs s)") (auto simp: list_update_beyond)
  then show "b_blockno (bufs t ! n) = b_blockno (bufs s ! n)" "b_disk (bufs t ! n) = b_disk (bufs s ! n)"
    by (simp_all add: t_def dev_transfer_def Let_def upd_buf_def)
qed (simp_all add: t_def dev_transfer_def Let_def upd_buf_def)

lemma out_less:
  assumes "R h = Some x" and "h \<in> H" and "\<And>n r. R n = Some r \<Longrightarrow> n \<noteq> h \<Longrightarrow> f r \<noteq> f x"
  shows "{p. \<exists>n \<in> H - {h}. \<exists>r. R n = Some r \<and> f r = p} = {p. \<exists>n \<in> H. \<exists>r. R n = Some r \<and> f r = p} - {f x}"
proof (intro set_eqI iffI)
  fix p assume "p \<in> {p. \<exists>n \<in> H - {h}. \<exists>r. R n = Some r \<and> f r = p}"
  then obtain n r where "n \<in> H" "n \<noteq> h" "R n = Some r" "f r = p" by auto
  with assms(3) show "p \<in> {p. \<exists>n \<in> H. \<exists>r. R n = Some r \<and> f r = p} - {f x}" by blast
next
  fix p assume "p \<in> {p. \<exists>n \<in> H. \<exists>r. R n = Some r \<and> f r = p} - {f x}"
  then obtain n r where "n \<in> H" "R n = Some r" "f r = p" "f r \<noteq> f x" by auto
  moreover from this have "n \<noteq> h" using assms(1) by auto
  ultimately show "p \<in> {p. \<exists>n \<in> H - {h}. \<exists>r. R n = Some r \<and> f r = p}" by blast
qed

lemma fin_more:
  assumes "R h = Some x" and "h \<in> H"
  shows "{b. \<exists>n r. R n = Some r \<and> f r = b \<and> n \<notin> H - {h}} = insert (f x) {b. \<exists>n r. R n = Some r \<and> f r = b \<and> n \<notin> H}"
proof (intro set_eqI iffI)
  fix b assume "b \<in> {b. \<exists>n r. R n = Some r \<and> f r = b \<and> n \<notin> H - {h}}"
  then obtain n r where n: "R n = Some r" "f r = b" "n \<notin> H - {h}" by auto
  show "b \<in> insert (f x) {b. \<exists>n r. R n = Some r \<and> f r = b \<and> n \<notin> H}"
    using n assms(1) by (cases "n = h") auto
next
  fix b assume "b \<in> insert (f x) {b. \<exists>n r. R n = Some r \<and> f r = b \<and> n \<notin> H}"
  then show "b \<in> {b. \<exists>n r. R n = Some r \<and> f r = b \<and> n \<notin> H - {h}}" using assms by blast
qed

lemma step_finishes:
  assumes inv: "vinv_of R (vd s) (bufs s)" and fin: "dev_finishes h s t"
  shows "vinv t \<and> astep (abs_disk s) (abs_disk t)"
proof -
  obtain k b' w' c where h: "h \<in> set (dev_work (vd s))" and rd: "dev_reads (vd s) h k b' w' c"
    and t0: "t = (dev_transfer b' w' (rq_sector (v_ops (vd s) ! k)) s)\<lparr>vd := dev_announce h c (vd s)\<rparr>"
    using fin unfolding dev_finishes_def by (elim exE conjE) (rule that)
  have hw: "h \<in> set (waiting (vd s))" "h \<in> pend (vd s)" using h by (auto simp: waiting_def pend_def)
  obtain r where "R h = Some r" using waiting_head [OF inv hw(1)] by blast
  then obtain b w i j where R: "R h = Some (b, w, i, j)" by (cases r) auto
  have c: "chain_ok (vd s) (bufs s) h (b, w, i, j)" by (rule vinvD(2) [OF inv R])
  have b: "b < length (bufs s)" "b_blockno (bufs s ! b) < 2 ^ 31" "rq_sector (v_ops (vd s) ! h) = sector_of (b_blockno (bufs s ! b))"
    using c by simp_all
  let ?d = "dev_announce h h (vd s)"
  have t: "t = (dev_transfer b w (sector_of (b_blockno (bufs s ! b))) s)\<lparr>vd := ?d\<rparr>"
    using t0 reads_chain [OF c rd] b(3) by simp
  have vt: "vd t = ?d" "length (bufs t) = length (bufs s)" "\<And>n. b_blockno (bufs t ! n) = b_blockno (bufs s ! n)"
    "\<And>n. b_disk (bufs t ! n) = b_disk (bufs s ! n)" using transfer_bufs [OF refl] by (simp_all add: t)
  have inv': "vinv_of R ?d (bufs t)" by (rule inv_finishes [OF inv h R vt(2-4)])
  have dw: "distinct (dev_work (vd s))" "h \<notin> set (posted (vd s))"
    using progressD(1) [OF vinvD(5) [OF inv]] h by (auto simp: waiting_def)
  have p: "pend ?d = pend (vd s) - {h}" using dw by (auto simp: pend_def posted_def dev_announce_def)
  have one: "fst r \<noteq> b" "dir r \<noteq> (b, w)" if "R n = Some r" "n \<noteq> h" for n r
    using ownersD(1) [OF vinvD(4) [OF inv] that(1) R that(2)] by (auto simp: dir_def)
  have out: "abs_out ?d = abs_out (vd s) - {(b, w)}"
    unfolding abs_out_requests [OF inv'] abs_out_requests [OF inv] p
    using out_less [of R h "(b, w, i, j)" "pend (vd s)" dir, OF R hw(2)] one(2) by (simp add: dir_def [of "(b, w, i, j)"])
  have fi: "abs_fin ?d = insert b (abs_fin (vd s))"
    unfolding abs_fin_requests [OF inv'] abs_fin_requests [OF inv] p
    using fin_more [of R h "(b, w, i, j)" "pend (vd s)" fst, OF R hw(2)] by simp
  have "(b, w) \<in> abs_out (vd s)" unfolding abs_out_requests [OF inv] using R hw(2) by (force simp: dir_def)
  then have "astep (disk_view s, abs_out (vd s), abs_fin (vd s))
      (disk_view (run (virtio_disk_rw b w) (bio_state.truncate s)), abs_out (vd s) - {(b, w)}, insert b (abs_fin (vd s)))"
    by (rule astep.Transfer) (use b(1) in \<open>simp_all add: disk_view_def bio_state.defs\<close>)
  then have "astep (abs_disk s) (abs_disk t)"
    using out fi transfer_view [OF b(1,2), of w] by (simp add: abs_disk_def vt(1)) (simp add: t disk_view_def)
  moreover have "vinv t" unfolding vinv_def using inv' vt(1) by (intro exI [of _ R]) simp
  ultimately show ?thesis by simp
qed

lemma step_takes:
  assumes inv: "vinv_of R (vd s) (bufs s)" and t: "dev_takes s t"
  shows "vinv t \<and> abs_disk t = abs_disk s"
proof -
  let ?d = "(vd s)\<lparr>dev_work := dev_work (vd s) @ [unat (v_avail_ring (vd s) ! (unat (dev_seen (vd s)) mod NUM))], dev_seen := dev_seen (vd s) + 1\<rparr>"
  have ne: "dev_seen (vd s) \<noteq> v_avail_idx (vd s)" and t: "t = s\<lparr>vd := ?d\<rparr>" using t by (auto simp: dev_takes_def)
  have inv': "vinv_of R (vd t) (bufs t)" using inv_takes [OF inv ne] by (simp add: t)
  have "pend ?d = pend (vd s)" using posted_pop [OF ne] by (auto simp: pend_def posted_def)
  then have "abs_disk t = abs_disk s" by (intro abs_same [OF inv inv']) (simp_all add: t disk_view_def)
  then show ?thesis using inv' by (auto simp: vinv_def)
qed

lemma step_others:
  assumes inv: "vinv_of R (vd s) (bufs s)" and vd: "vd t = vd s" and d: "disk t = disk s" "dtrace t = dtrace s"
    and len: "length (bufs t) = length (bufs s)" and same: "\<forall>b. busy (vd s) b \<longrightarrow> same_request_part (bufs s ! b) (bufs t ! b)"
  shows "vinv t \<and> astep (abs_disk s) (abs_disk t)"
proof -
  have b: "b_disk (bufs t ! fst r) = b_disk (bufs s ! fst r)" "b_blockno (bufs t ! fst r) = b_blockno (bufs s ! fst r)"
    if "R h = Some r" for h r
  proof -
    have "busy (vd s) (fst r)" using busy_iff [OF inv] that by blast
    then show "b_disk (bufs t ! fst r) = b_disk (bufs s ! fst r)" "b_blockno (bufs t ! fst r) = b_blockno (bufs s ! fst r)"
      using same by (auto simp: same_request_part_def)
  qed
  note old = progressD [OF vinvD(5) [OF inv]]
  have "progress_ok R (vd s) (bufs t)"
    by (rule progress_okI) (use old b in simp_all)
  then have "vinv_of R (vd t) (bufs t)"
    unfolding vd by (intro inv_frame [OF inv vinvD(1) [OF inv]]) (use len b(2) in simp_all)
  then have "vinv t" by (auto simp: vinv_def)
  moreover have "astep (abs_disk s) (abs_disk t)"
    unfolding abs_disk_def disk_view_def vd d
  proof (rule astep.Owner)
    show "\<forall>b \<in> fst ` abs_out (vd s) \<union> abs_fin (vd s).
        map (\<lambda>x. (b_blockno x, b_data x)) (bufs t) ! b = map (\<lambda>x. (b_blockno x, b_data x)) (bufs s) ! b"
      unfolding abs_busy [OF inv]
    proof
      fix b assume "b \<in> {b. busy (vd s) b}"
      then have "busy (vd s) b" by simp
      then obtain h r where r: "R h = Some r" "fst r = b" using busy_iff [OF inv] by blast
      have "b < length (bufs s)" using chain_head [OF vinvD(2) [OF inv r(1)]] r(2) by simp
      with len same \<open>busy (vd s) b\<close>
      show "map (\<lambda>x. (b_blockno x, b_data x)) (bufs t) ! b = map (\<lambda>x. (b_blockno x, b_data x)) (bufs s) ! b"
        by (simp add: same_request_part_def)
    qed
  qed (simp add: len)
  ultimately show ?thesis by simp
qed

lemma vstep_refines:
  assumes "device_ok dev" and "vinv s" and "vstep dev s t"
  shows "vinv t \<and> (abs_disk t = abs_disk s \<or> astep (abs_disk s) (abs_disk t))"
proof -
  obtain R where inv: "vinv_of R (vd s) (bufs s)" using assms(2) by (auto simp: vinv_def)
  from assms(3) show ?thesis
  proof cases
    case (Begin b w r)
    then show ?thesis by (rule step_begin [OF inv])
  next
    case (End h b r)
    then show ?thesis by (rule step_end [OF inv])
  next
    case (Intr r)
    with step_intr [OF inv] show ?thesis by blast
  next
    case Device
    with assms(1) have "dev_takes s t \<or> (\<exists>h. dev_finishes h s t)" by (simp add: device_ok_def)
    then show ?thesis using step_takes [OF inv, of t] step_finishes [OF inv] by blast
  next
    case Others
    with step_others [OF inv] show ?thesis by blast
  qed
qed


text \<open>
  The state after \<^verbatim>\<open>virtio_disk_init\<close>: all descriptors free, nothing posted, no request under way.
\<close>

definition vinit :: "'a vdisk_state_scheme \<Rightarrow> bool" where
  "vinit s \<longleftrightarrow> lengths_ok (vd s) \<and> list_all (\<lambda>f. f) (v_free (vd s)) \<and> v_avail_idx (vd s) = dev_seen (vd s)
     \<and> v_used_idx (vd s) = v_used_ring_idx (vd s) \<and> dev_work (vd s) = [] \<and> list_all (\<lambda>x. in_b x = None) (v_info (vd s))"

text \<open>\<^verbatim>\<open>virtio_disk_init\<close> on the zeroed \<^verbatim>\<open>disk\<close> of the kernel image and a device that has just been reset.\<close>

lemma kalloc_vd: "kalloc s = Inr (x, t) \<Longrightarrow> vd t = vd (s :: 'a vdisk_state_scheme)"
  by (auto simp: kalloc_def upd_ref_def thenk_def bindk_def gets_def modk_def ret_def fault_def Let_def split: if_splits)

lemma init_writes_vd:
  "mmio_write r v s = Inr (x, t) \<Longrightarrow> vd t = vd s"
  "write_addr r a s = Inr (x, t) \<Longrightarrow> vd t = vd s"
  "fill_page p c s = Inr (x, t) \<Longrightarrow> vd t = vd s"
  "upd_vd f s = Inr (x, t) \<Longrightarrow> vd t = f (vd s)"
  by (auto simp: mmio_write_def write_addr_def fill_page_def upd_vd_def modk_def thenk_def bindk_def)

lemma virtio_disk_init_vd:
  assumes "virtio_disk_init rd s = Inr (u, t)"
  shows "vd t = (vd s)\<lparr>v_desc := replicate NUM zero_desc, v_avail_idx := 0, v_avail_ring := replicate NUM 0,
      v_used_ring_idx := 0, v_used_ring := replicate NUM 0, v_free := replicate NUM True\<rparr>"
  using assms
  by (auto simp: virtio_disk_init_def thenk_def panic_def ret_def split: if_splits elim!: bindk_InrE
      dest!: init_writes_vd kalloc_vd)

lemma virtio_disk_init_vinit:
  assumes "virtio_disk_init rd s = Inr (u, t)" and "length (v_info (vd s)) = NUM" and "length (v_ops (vd s)) = NUM"
    and "list_all (\<lambda>x. in_b x = None) (v_info (vd s))" and "v_used_idx (vd s) = 0" and "dev_seen (vd s) = 0" and "dev_work (vd s) = []"
  shows "vinit t"
  using assms by (simp add: vinit_def virtio_disk_init_vd [OF assms(1)] lengths_ok_def list_all_iff)

lemma vinit_vinv: "vinit s \<Longrightarrow> vinv s"
  unfolding vinv_def
proof (intro exI [of _ "\<lambda>_. None"] vinv_ofI)
  assume i: "vinit s"
  then show "lengths_ok (vd s)" by (simp add: vinit_def)
  have w: "waiting (vd s) = []" "announced (vd s) = []"
    using i by (simp_all add: vinit_def waiting_def posted_def announced_def ring_win_def)
  show "progress_ok (\<lambda>_. None) (vd s) (bufs s)" by (rule progress_okI) (simp_all add: w)
  show "owners_ok (\<lambda>_. None) (vd s)" using i by (auto simp: owners_ok_def vinit_def list_all_length lengths_ok_def)
  show "in_b (v_info (vd s) ! h) = None" if "h < NUM" for h
    using i that by (auto simp: vinit_def list_all_length lengths_ok_def)
qed simp_all

lemma one_owner:
  assumes "vinv_of R d bs" and "i < NUM" and "\<not> v_free d ! i"
  shows "\<exists>!h. \<exists>r. R h = Some r \<and> i \<in> own h r"
proof -
  obtain h r where h: "R h = Some r" "i \<in> own h r" using ownersD(2) [OF vinvD(4) [OF assms(1)] assms(2)] assms(3) by blast
  show ?thesis
  proof (rule ex1I [of _ h])
    fix h' assume "\<exists>r. R h' = Some r \<and> i \<in> own h' r"
    then show "h' = h" using ownersD(1) [OF vinvD(4) [OF assms(1)] _ h(1)] h(2) by blast
  qed (use h in blast)
qed

lemma rw_begin_returns:
  assumes "lengths_ok (vd s)"
  shows "\<exists>r t. rw_begin b w s = Inr (r, t) \<and> (r = None \<longleftrightarrow> card {i. i < NUM \<and> v_free (vd s) ! i} < 3)"
  using assms
proof (rule rw_begin_cases [of s b w])
  fix i j k t assume d: "distinct [i, j, k]" "\<forall>n \<in> {i, j, k}. n < NUM \<and> v_free (vd s) ! n" and run: "rw_begin b w s = Inr (Some i, t)"
  have "card {i, j, k} \<le> card {i. i < NUM \<and> v_free (vd s) ! i}" by (rule card_mono) (use d(2) in auto)
  moreover have "card {i, j, k} = 3" using d(1) by simp
  ultimately show ?thesis using run by auto
qed blast+

text \<open>A concrete machine: an idle driver, and a device that takes whatever is posted.\<close>

definition demo_vd :: vdisk where
  "demo_vd = \<lparr>v_desc = replicate 8 zero_desc, v_avail_idx = 65535, v_avail_ring = replicate 8 0, v_used_ring_idx = 0,
     v_used_ring = replicate 8 0, v_free = replicate 8 True, v_used_idx = 0, v_info = replicate 8 \<lparr>in_b = None, in_status = 0\<rparr>,
     v_ops = replicate 8 \<lparr>rq_type = 0, rq_reserved = 0, rq_sector = 0\<rparr>, dev_seen = 65535, dev_work = []\<rparr>"

definition demo_buf :: buf where
  "demo_buf = \<lparr>b_valid = False, b_disk = False, b_dev = 1, b_blockno = 7, b_lock = initsleeplock, b_refcnt = 1, b_prev = 0,
     b_next = 0, b_data = replicate 1024 0\<rparr>"

definition demo_vstate :: vdisk_state where
  "demo_vstate = undefined\<lparr>vd := demo_vd, bufs := [demo_buf], mmio := []\<rparr>"

lemma demo_vinit: "vinit demo_vstate"
  by (simp add: vinit_def demo_vstate_def demo_vd_def lengths_ok_def NUM_def list_all_iff)

lemma device_takes_ok: "device_ok dev_takes"
  by (simp add: device_ok_def)




end
