(* ===== verification/Riscv.thy ===== *)
theory Riscv
  imports Vm
begin

text \<open>
  The processor as the kernel uses it: the registers of a hart, the accessors of \<^verbatim>\<open>kernel/riscv.h\<close>,
  the few instructions of the assembly files, and the boot code \<^verbatim>\<open>kernel/entry.S\<close> and
  \<^verbatim>\<open>kernel/start.c\<close>.

  \<^item> The memory-management unit is an argument \<open>tr\<close> of the execution: it gives the physical address
    of a virtual address under the current value of \<^verbatim>\<open>satp\<close>, or none, in which case the
    instruction traps and the execution has no result.
  \<^item> Straight-line code is a list of instructions. \<open>pc\<close> is set where control is transferred; the
    return address of a call is an argument of the instruction.
  \<^item> \<^verbatim>\<open>sstatus\<close> and \<^verbatim>\<open>sie\<close> are kept apart from \<^verbatim>\<open>mstatus\<close> and \<^verbatim>\<open>mie\<close>; the only field the code uses of
    \<^verbatim>\<open>mstatus\<close> is the previous mode, which \<^verbatim>\<open>sstatus\<close> does not show.
\<close>

section \<open>Registers\<close>

datatype reg =
    Zero | Ra | Sp | Gp | Tp | T0 | T1 | T2 | S0 | S1
  | A0 | A1 | A2 | A3 | A4 | A5 | A6 | A7
  | S2 | S3 | S4 | S5 | S6 | S7 | S8 | S9 | S10 | S11 | T3 | T4 | T5 | T6

datatype csr =
    Mhartid | Mstatus | Mepc | Mie | Medeleg | Mideleg | Menvcfg | Mcounteren | Pmpcfg0 | Pmpaddr0
  | Sstatus | Sie | Sepc | Scause | Stval | Stvec | Sscratch | Satp | Stimecmp | Time

datatype mode = UserMode | SuperMode | MachineMode

record hart =
  xregs :: "reg \<Rightarrow> u64"
  csrs :: "csr \<Rightarrow> u64"
  pc :: u64
  priv :: mode

definition rx :: "reg \<Rightarrow> hart \<Rightarrow> u64" where
  "rx r m = (if r = Zero then 0 else xregs m r)"

definition wx :: "reg \<Rightarrow> u64 \<Rightarrow> hart \<Rightarrow> hart" where
  "wx r v m = (if r = Zero then m else m\<lparr>xregs := (xregs m)(r := v)\<rparr>)"

definition csrw :: "csr \<Rightarrow> u64 \<Rightarrow> hart \<Rightarrow> hart" where
  "csrw c v m = m\<lparr>csrs := (csrs m)(c := v)\<rparr>"

subsection \<open>Accessors\<close>

definition MSTATUS_MPP_MASK :: u64 where "MSTATUS_MPP_MASK = push_bit 11 3"
definition MSTATUS_MPP_S :: u64 where "MSTATUS_MPP_S = push_bit 11 1"
definition SSTATUS_SPP :: u64 where "SSTATUS_SPP = push_bit 8 1"
definition SSTATUS_SPIE :: u64 where "SSTATUS_SPIE = push_bit 5 1"
definition SSTATUS_SIE :: u64 where "SSTATUS_SIE = push_bit 1 1"
definition SIE_SEIE :: u64 where "SIE_SEIE = push_bit 9 1"
definition SIE_STIE :: u64 where "SIE_STIE = push_bit 5 1"
definition MIE_STIE :: u64 where "MIE_STIE = push_bit 5 1"
definition SATP_SV39 :: u64 where "SATP_SV39 = push_bit 60 8"

definition MAKE_SATP :: "u64 \<Rightarrow> u64" where
  "MAKE_SATP pagetable = or SATP_SV39 (drop_bit 12 pagetable)"

definition r_mhartid :: "hart \<Rightarrow> u64" where "r_mhartid m = csrs m Mhartid"
definition r_mstatus :: "hart \<Rightarrow> u64" where "r_mstatus m = csrs m Mstatus"
definition w_mstatus :: "u64 \<Rightarrow> hart \<Rightarrow> hart" where "w_mstatus x = csrw Mstatus x"
definition w_mepc :: "u64 \<Rightarrow> hart \<Rightarrow> hart" where "w_mepc x = csrw Mepc x"
definition r_sstatus :: "hart \<Rightarrow> u64" where "r_sstatus m = csrs m Sstatus"
definition w_sstatus :: "u64 \<Rightarrow> hart \<Rightarrow> hart" where "w_sstatus x = csrw Sstatus x"
definition r_sie :: "hart \<Rightarrow> u64" where "r_sie m = csrs m Sie"
definition w_sie :: "u64 \<Rightarrow> hart \<Rightarrow> hart" where "w_sie x = csrw Sie x"
definition r_mie :: "hart \<Rightarrow> u64" where "r_mie m = csrs m Mie"
definition w_mie :: "u64 \<Rightarrow> hart \<Rightarrow> hart" where "w_mie x = csrw Mie x"
definition w_sepc :: "u64 \<Rightarrow> hart \<Rightarrow> hart" where "w_sepc x = csrw Sepc x"
definition r_sepc :: "hart \<Rightarrow> u64" where "r_sepc m = csrs m Sepc"
definition w_medeleg :: "u64 \<Rightarrow> hart \<Rightarrow> hart" where "w_medeleg x = csrw Medeleg x"
definition w_mideleg :: "u64 \<Rightarrow> hart \<Rightarrow> hart" where "w_mideleg x = csrw Mideleg x"
definition w_stvec :: "u64 \<Rightarrow> hart \<Rightarrow> hart" where "w_stvec x = csrw Stvec x"
definition w_stimecmp :: "u64 \<Rightarrow> hart \<Rightarrow> hart" where "w_stimecmp x = csrw Stimecmp x"
definition r_menvcfg :: "hart \<Rightarrow> u64" where "r_menvcfg m = csrs m Menvcfg"
definition w_menvcfg :: "u64 \<Rightarrow> hart \<Rightarrow> hart" where "w_menvcfg x = csrw Menvcfg x"
definition w_pmpcfg0 :: "u64 \<Rightarrow> hart \<Rightarrow> hart" where "w_pmpcfg0 x = csrw Pmpcfg0 x"
definition w_pmpaddr0 :: "u64 \<Rightarrow> hart \<Rightarrow> hart" where "w_pmpaddr0 x = csrw Pmpaddr0 x"
definition w_satp :: "u64 \<Rightarrow> hart \<Rightarrow> hart" where "w_satp x = csrw Satp x"
definition r_satp :: "hart \<Rightarrow> u64" where "r_satp m = csrs m Satp"
definition r_scause :: "hart \<Rightarrow> u64" where "r_scause m = csrs m Scause"
definition r_stval :: "hart \<Rightarrow> u64" where "r_stval m = csrs m Stval"
definition w_mcounteren :: "u64 \<Rightarrow> hart \<Rightarrow> hart" where "w_mcounteren x = csrw Mcounteren x"
definition r_mcounteren :: "hart \<Rightarrow> u64" where "r_mcounteren m = csrs m Mcounteren"
definition r_time :: "hart \<Rightarrow> u64" where "r_time m = csrs m Time"
definition r_tp :: "hart \<Rightarrow> u64" where "r_tp m = rx Tp m"
definition w_tp :: "u64 \<Rightarrow> hart \<Rightarrow> hart" where "w_tp x = wx Tp x"

definition intr_on :: "hart \<Rightarrow> hart" where
  "intr_on m = w_sstatus (or (r_sstatus m) SSTATUS_SIE) m"

definition intr_off :: "hart \<Rightarrow> hart" where
  "intr_off m = w_sstatus (and (r_sstatus m) (not SSTATUS_SIE)) m"

definition intr_get :: "hart \<Rightarrow> bool" where
  "intr_get m \<longleftrightarrow> and (r_sstatus m) SSTATUS_SIE \<noteq> 0"

lemmas accessor_defs = r_mhartid_def r_mstatus_def w_mstatus_def w_mepc_def r_sstatus_def w_sstatus_def r_sie_def
  w_sie_def r_mie_def w_mie_def w_sepc_def r_sepc_def w_medeleg_def w_mideleg_def w_stvec_def w_stimecmp_def
  r_menvcfg_def w_menvcfg_def w_pmpcfg0_def w_pmpaddr0_def w_satp_def r_satp_def r_scause_def r_stval_def
  w_mcounteren_def r_mcounteren_def r_time_def r_tp_def w_tp_def intr_on_def intr_off_def intr_get_def

section \<open>Instructions\<close>

datatype instr =
    Sd reg nat reg
  | Ld reg nat reg
  | Li reg u64
  | Addi reg reg u64
  | Add reg reg reg
  | Mul reg reg reg
  | Csrr reg csr
  | Csrw csr reg
  | SfenceVma
  | Jalr reg u64
  | Call u64 u64
  | Ret
  | Sret

text \<open>Return from a trap taken into supervisor and into machine mode.\<close>

definition sret :: "hart \<Rightarrow> hart" where
  "sret m = (let st = csrs m Sstatus in
     m\<lparr>pc := csrs m Sepc, priv := (if bit st 8 then SuperMode else UserMode),
       csrs := (csrs m)(Sstatus := unset_bit 8 (set_bit 5 (if bit st 5 then set_bit 1 st else unset_bit 1 st)))\<rparr>)"

definition mret :: "hart \<Rightarrow> hart" where
  "mret m = (let st = csrs m Mstatus in
     m\<lparr>pc := csrs m Mepc,
       priv := (if and st MSTATUS_MPP_MASK = MSTATUS_MPP_S then SuperMode
         else if and st MSTATUS_MPP_MASK = 0 then UserMode else MachineMode),
       csrs := (csrs m)(Mstatus := set_bit 7 (if bit st 7 then set_bit 3 (and st (not MSTATUS_MPP_MASK))
         else unset_bit 3 (and st (not MSTATUS_MPP_MASK))))\<rparr>)"

text \<open>What the processor does when a trap goes to supervisor mode.\<close>

definition take_trap :: "u64 \<Rightarrow> u64 \<Rightarrow> hart \<Rightarrow> hart" where
  "take_trap cause tval m = (let st = csrs m Sstatus in
     m\<lparr>pc := csrs m Stvec, priv := SuperMode,
       csrs := (csrs m)(Sepc := pc m, Scause := cause, Stval := tval,
         Sstatus := unset_bit 1 ((if bit st 1 then set_bit 5 else unset_bit 5)
           ((if priv m = UserMode then unset_bit 8 else set_bit 8) st)))\<rparr>)"

type_synonym mmu = "u64 \<Rightarrow> u64 \<Rightarrow> nat option"

fun step1 :: "mmu \<Rightarrow> instr \<Rightarrow> hart \<times> mem \<Rightarrow> (hart \<times> mem) option" where
  "step1 tr (Sd r off b) (m, w) =
     map_option (\<lambda>a. (m, store64 a (rx r m) w)) (tr (csrs m Satp) (rx b m + of_nat off))"
| "step1 tr (Ld r off b) (m, w) =
     map_option (\<lambda>a. (wx r (load64 w a) m, w)) (tr (csrs m Satp) (rx b m + of_nat off))"
| "step1 tr (Li r v) (m, w) = Some (wx r v m, w)"
| "step1 tr (Addi d r v) (m, w) = Some (wx d (rx r m + v) m, w)"
| "step1 tr (Add d r q) (m, w) = Some (wx d (rx r m + rx q m) m, w)"
| "step1 tr (Mul d r q) (m, w) = Some (wx d (rx r m * rx q m) m, w)"
| "step1 tr (Csrr r c) (m, w) = Some (wx r (csrs m c) m, w)"
| "step1 tr (Csrw c r) (m, w) = Some (csrw c (rx r m) m, w)"
| "step1 tr SfenceVma (m, w) = Some (m, w)"
| "step1 tr (Jalr r link) (m, w) = Some (wx Ra link (m\<lparr>pc := rx r m\<rparr>), w)"
| "step1 tr (Call target link) (m, w) = Some (wx Ra link (m\<lparr>pc := target\<rparr>), w)"
| "step1 tr Ret (m, w) = Some (m\<lparr>pc := rx Ra m\<rparr>, w)"
| "step1 tr Sret (m, w) = Some (sret m, w)"

fun steps :: "mmu \<Rightarrow> instr list \<Rightarrow> hart \<times> mem \<Rightarrow> (hart \<times> mem) option" where
  "steps tr [] s = Some s"
| "steps tr (i # is) s = Option.bind (step1 tr i s) (steps tr is)"

lemma steps_append [simp]: "steps tr (is @ js) s = Option.bind (steps tr is s) (steps tr js)"
  by (induction "is" arbitrary: s) (auto split: Option.bind_splits)

lemma rx_wx [simp]: "rx r (wx q v m) = (if r = q \<and> r \<noteq> Zero then v else rx r m)"
  by (simp add: rx_def wx_def)

lemma csrs_wx [simp]: "csrs (wx q v m) = csrs m"
  by (simp add: wx_def)

lemma csrs_csrw [simp]: "csrs (csrw c v m) = (csrs m)(c := v)"
  by (simp add: csrw_def)

lemma rx_csrw [simp]: "rx r (csrw c v m) = rx r m"
  by (simp add: rx_def csrw_def)

lemma priv_upd [simp]: "priv (wx r v m) = priv m" "priv (csrw c v m) = priv m"
  "pc (wx r v m) = pc m" "pc (csrw c v m) = pc m"
  by (simp_all add: wx_def csrw_def)

lemma rx_pc [simp]: "rx r (m\<lparr>pc := v\<rparr>) = rx r m" "rx r (sret m) = rx r m" "rx r (mret m) = rx r m"
  "rx r (take_trap c t m) = rx r m"
  by (simp_all add: rx_def sret_def mret_def take_trap_def Let_def)

lemma and_flag: "and (x :: u64) (push_bit n 1) \<noteq> 0 \<longleftrightarrow> bit x n"
  by (metis and_exp_eq_0_iff_not_bit push_bit_of_1)

lemma intr_get_bit: "intr_get m \<longleftrightarrow> bit (csrs m Sstatus) 1"
  unfolding intr_get_def SSTATUS_SIE_def r_sstatus_def by (rule and_flag)

subsection \<open>Saving and restoring a group of registers\<close>

text \<open>A table gives the offset at which each register is kept.\<close>

definition sd_all :: "reg \<Rightarrow> (reg \<times> nat) list \<Rightarrow> instr list" where
  "sd_all b tab = map (\<lambda>(r, off). Sd r off b) tab"

definition ld_all :: "reg \<Rightarrow> (reg \<times> nat) list \<Rightarrow> instr list" where
  "ld_all b tab = map (\<lambda>(r, off). Ld r off b) tab"

primrec put_regs :: "(reg \<times> nat) list \<Rightarrow> nat \<Rightarrow> (reg \<Rightarrow> u64) \<Rightarrow> mem \<Rightarrow> mem" where
  "put_regs [] a f w = w"
| "put_regs (x # tab) a f w = put_regs tab a f (store64 (a + snd x) (f (fst x)) w)"

definition slots_ok :: "(reg \<times> nat) list \<Rightarrow> bool" where
  "slots_ok tab \<longleftrightarrow> distinct (map snd tab) \<and> distinct (map fst tab) \<and> (\<forall>x \<in> set tab. 8 dvd snd x \<and> fst x \<noteq> Zero)"

lemma put_regs_other:
  assumes "\<And>x. x \<in> set tab \<Longrightarrow> b < a + snd x \<or> a + snd x + 8 \<le> b"
  shows "put_regs tab a f w b = w b"
  using assms by (induction tab arbitrary: w) auto

lemma load_put_regs_other:
  assumes "\<And>x. x \<in> set tab \<Longrightarrow> b + 8 \<le> a + snd x \<or> a + snd x + 8 \<le> b"
  shows "load64 (put_regs tab a f w) b = load64 w b"
  using assms by (induction tab arbitrary: w) (auto simp: load_store64_other)

lemma dvd8_apart: "8 dvd (m :: nat) \<Longrightarrow> 8 dvd n \<Longrightarrow> m \<noteq> n \<Longrightarrow> m + 8 \<le> n \<or> n + 8 \<le> m"
  by (auto elim!: dvdE)

lemma load_put_regs:
  assumes "slots_ok tab" and "(r, off) \<in> set tab"
  shows "load64 (put_regs tab a f w) (a + off) = f r"
  using assms
proof (induction tab arbitrary: w)
  case Nil
  then show ?case by simp
next
  case (Cons x tab)
  then have ok: "slots_ok tab" by (auto simp: slots_ok_def)
  show ?case
  proof (cases "x = (r, off)")
    case True
    have "a + off + 8 \<le> a + snd y \<or> a + snd y + 8 \<le> a + off" if "y \<in> set tab" for y
    proof -
      have "8 dvd off" "8 dvd snd y" "off \<noteq> snd y" using Cons.prems(1) True that by (auto simp: slots_ok_def)
      then show ?thesis using dvd8_apart [of off "snd y"] by auto
    qed
    then show ?thesis using True by (simp add: load_put_regs_other)
  next
    case False
    with Cons.prems have "(r, off) \<in> set tab" by auto
    with ok show ?thesis by (simp add: Cons.IH)
  qed
qed

text \<open>Storing runs through when the unit translates every address of the table.\<close>

lemma steps_sd_all:
  assumes "\<And>x. x \<in> set tab \<Longrightarrow> tr (csrs m Satp) (rx b m + of_nat (snd x)) = Some (a + snd x)"
  shows "steps tr (sd_all b tab) (m, w) = Some (m, put_regs tab a (\<lambda>r. rx r m) w)"
  using assms
proof (induction tab arbitrary: w)
  case Nil
  then show ?case by (simp add: sd_all_def)
next
  case (Cons x tab)
  have "tr (csrs m Satp) (rx b m + of_nat (snd x)) = Some (a + snd x)" by (rule Cons.prems) simp
  with Cons.IH [OF Cons.prems] show ?case by (simp add: sd_all_def split_def)
qed

primrec get_regs :: "(reg \<times> nat) list \<Rightarrow> nat \<Rightarrow> mem \<Rightarrow> hart \<Rightarrow> hart" where
  "get_regs [] a w m = m"
| "get_regs (x # tab) a w m = get_regs tab a w (wx (fst x) (load64 w (a + snd x)) m)"

lemma csrs_get_regs [simp]: "csrs (get_regs tab a w m) = csrs m" "priv (get_regs tab a w m) = priv m"
  "pc (get_regs tab a w m) = pc m"
  by (induction tab arbitrary: m) simp_all

lemma rx_get_regs_other: "r \<notin> fst ` set tab \<Longrightarrow> rx r (get_regs tab a w m) = rx r m"
  by (induction tab arbitrary: m) auto

lemma rx_get_regs:
  assumes "slots_ok tab" and "(r, off) \<in> set tab"
  shows "rx r (get_regs tab a w m) = load64 w (a + off)"
  using assms
proof (induction tab arbitrary: m)
  case Nil
  then show ?case by simp
next
  case (Cons x tab)
  then have ok: "slots_ok tab" by (auto simp: slots_ok_def)
  show ?case
  proof (cases "x = (r, off)")
    case True
    then have "r \<notin> fst ` set tab" "r \<noteq> Zero" using Cons.prems(1) by (auto simp: slots_ok_def)
    then show ?thesis using True by (simp add: rx_get_regs_other)
  next
    case False
    with Cons.prems(2) have "(r, off) \<in> set tab" by auto
    from Cons.IH [OF ok this] show ?thesis by simp
  qed
qed

lemma steps_ld_all:
  assumes "\<And>x. x \<in> set tab \<Longrightarrow> tr (csrs m Satp) (rx b m + of_nat (snd x)) = Some (a + snd x)"
    and "b \<notin> fst ` set tab"
  shows "steps tr (ld_all b tab) (m, w) = Some (get_regs tab a w m, w)"
  using assms
proof (induction tab arbitrary: m)
  case Nil
  then show ?case by (simp add: ld_all_def)
next
  case (Cons x tab)
  let ?m = "wx (fst x) (load64 w (a + snd x)) m"
  have b: "b \<noteq> fst x" "b \<notin> fst ` set tab" using Cons.prems(2) by auto
  have "tr (csrs ?m Satp) (rx b ?m + of_nat (snd y)) = Some (a + snd y)" if "y \<in> set tab" for y
    using Cons.prems(1) [of y] that b(1) by simp
  from Cons.IH [OF this b(2)]
  have "steps tr (ld_all b tab) (?m, w) = Some (get_regs tab a w ?m, w)" by simp
  moreover have "tr (csrs m Satp) (rx b m + of_nat (snd x)) = Some (a + snd x)" by (rule Cons.prems(1)) simp
  ultimately show ?case by (simp add: ld_all_def split_def)
qed

end
