(* ===== verification/Trampoline.thy ===== *)
theory Trampoline
  imports Riscv
begin

text \<open>
  The assembly of the kernel: \<^verbatim>\<open>kernel/trampoline.S\<close> (into the kernel and back), \<^verbatim>\<open>kernel/kernelvec.S\<close>
  (interrupts of the kernel itself), \<^verbatim>\<open>kernel/swtch.S\<close> (switching between kernel threads) and
  \<^verbatim>\<open>kernel/entry.S\<close>, and the machine-mode start of \<^verbatim>\<open>kernel/start.c\<close>.

  Each routine is the list of its instructions in the order of the file. The proofs go through the
  tables of register slots, which are the layouts of \<^verbatim>\<open>struct trapframe\<close>, of the frame of
  \<^verbatim>\<open>kernelvec\<close> and of \<^verbatim>\<open>struct context\<close>.
\<close>

section \<open>Code\<close>

definition TF_KERNEL_SATP :: nat where "TF_KERNEL_SATP = 0"
definition TF_KERNEL_SP :: nat where "TF_KERNEL_SP = 8"
definition TF_KERNEL_TRAP :: nat where "TF_KERNEL_TRAP = 16"
definition TF_EPC :: nat where "TF_EPC = 24"
definition TF_KERNEL_HARTID :: nat where "TF_KERNEL_HARTID = 32"

text \<open>\<open>ret_addr\<close> is the address behind the \<^verbatim>\<open>jalr\<close>, which is the label \<^verbatim>\<open>userret\<close>.\<close>

definition uservec :: "u64 \<Rightarrow> instr list" where
  "uservec ret_addr =
     [Csrw Sscratch A0,
      Li A0 TRAPFRAME,
      Sd Ra 40 A0, Sd Sp 48 A0, Sd Gp 56 A0, Sd Tp 64 A0, Sd T0 72 A0, Sd T1 80 A0, Sd T2 88 A0,
      Sd S0 96 A0, Sd S1 104 A0, Sd A1 120 A0, Sd A2 128 A0, Sd A3 136 A0, Sd A4 144 A0, Sd A5 152 A0,
      Sd A6 160 A0, Sd A7 168 A0, Sd S2 176 A0, Sd S3 184 A0, Sd S4 192 A0, Sd S5 200 A0, Sd S6 208 A0,
      Sd S7 216 A0, Sd S8 224 A0, Sd S9 232 A0, Sd S10 240 A0, Sd S11 248 A0, Sd T3 256 A0, Sd T4 264 A0,
      Sd T5 272 A0, Sd T6 280 A0,
      Csrr T0 Sscratch,
      Sd T0 112 A0,
      Ld Sp 8 A0,
      Ld Tp 32 A0,
      Ld T0 16 A0,
      Ld T1 0 A0,
      SfenceVma,
      Csrw Satp T1,
      SfenceVma,
      Jalr T0 ret_addr]"

definition userret :: "instr list" where
  "userret =
     [SfenceVma,
      Csrw Satp A0,
      SfenceVma,
      Li A0 TRAPFRAME,
      Ld Ra 40 A0, Ld Sp 48 A0, Ld Gp 56 A0, Ld Tp 64 A0, Ld T0 72 A0, Ld T1 80 A0, Ld T2 88 A0,
      Ld S0 96 A0, Ld S1 104 A0, Ld A1 120 A0, Ld A2 128 A0, Ld A3 136 A0, Ld A4 144 A0, Ld A5 152 A0,
      Ld A6 160 A0, Ld A7 168 A0, Ld S2 176 A0, Ld S3 184 A0, Ld S4 192 A0, Ld S5 200 A0, Ld S6 208 A0,
      Ld S7 216 A0, Ld S8 224 A0, Ld S9 232 A0, Ld S10 240 A0, Ld S11 248 A0, Ld T3 256 A0, Ld T4 264 A0,
      Ld T5 272 A0, Ld T6 280 A0,
      Ld A0 112 A0,
      Sret]"

text \<open>\<^verbatim>\<open>kernelvec\<close> up to the call of \<^verbatim>\<open>kerneltrap\<close>, and from its return.\<close>

definition kernelvec_in :: "u64 \<Rightarrow> u64 \<Rightarrow> instr list" where
  "kernelvec_in kerneltrap_addr ret_addr =
     [Addi Sp Sp (- 256),
      Sd Ra 0 Sp, Sd Gp 16 Sp, Sd Tp 24 Sp, Sd T0 32 Sp, Sd T1 40 Sp, Sd T2 48 Sp,
      Sd A0 72 Sp, Sd A1 80 Sp, Sd A2 88 Sp, Sd A3 96 Sp, Sd A4 104 Sp, Sd A5 112 Sp, Sd A6 120 Sp, Sd A7 128 Sp,
      Sd T3 216 Sp, Sd T4 224 Sp, Sd T5 232 Sp, Sd T6 240 Sp,
      Call kerneltrap_addr ret_addr]"

definition kernelvec_out :: "instr list" where
  "kernelvec_out =
     [Ld Ra 0 Sp, Ld Gp 16 Sp, Ld T0 32 Sp, Ld T1 40 Sp, Ld T2 48 Sp,
      Ld A0 72 Sp, Ld A1 80 Sp, Ld A2 88 Sp, Ld A3 96 Sp, Ld A4 104 Sp, Ld A5 112 Sp, Ld A6 120 Sp, Ld A7 128 Sp,
      Ld T3 216 Sp, Ld T4 224 Sp, Ld T5 232 Sp, Ld T6 240 Sp,
      Addi Sp Sp 256,
      Sret]"

definition swtch :: "instr list" where
  "swtch =
     [Sd Ra 0 A0, Sd Sp 8 A0, Sd S0 16 A0, Sd S1 24 A0, Sd S2 32 A0, Sd S3 40 A0, Sd S4 48 A0, Sd S5 56 A0,
      Sd S6 64 A0, Sd S7 72 A0, Sd S8 80 A0, Sd S9 88 A0, Sd S10 96 A0, Sd S11 104 A0,
      Ld Ra 0 A1, Ld Sp 8 A1, Ld S0 16 A1, Ld S1 24 A1, Ld S2 32 A1, Ld S3 40 A1, Ld S4 48 A1, Ld S5 56 A1,
      Ld S6 64 A1, Ld S7 72 A1, Ld S8 80 A1, Ld S9 88 A1, Ld S10 96 A1, Ld S11 104 A1,
      Ret]"

text \<open>\<open>stack0\<close> and \<open>start_addr\<close> are addresses of \<^verbatim>\<open>kernel/start.c\<close>; \<^verbatim>\<open>start\<close> does not return to \<^verbatim>\<open>spin\<close>.\<close>

definition entry :: "u64 \<Rightarrow> u64 \<Rightarrow> u64 \<Rightarrow> instr list" where
  "entry stack0 start_addr spin =
     [Li Sp stack0, Li A0 (1024 * 4), Csrr A1 Mhartid, Addi A1 A1 1, Mul A0 A0 A1, Add Sp Sp A0, Call start_addr spin]"

definition timerinit :: "hart \<Rightarrow> hart" where
  "timerinit m =
     (let m = w_mie (or (r_mie m) MIE_STIE) m;
          m = w_menvcfg (or (r_menvcfg m) (push_bit 63 1)) m;
          m = w_mcounteren (or (r_mcounteren m) 2) m
      in w_stimecmp (r_time m + 1000000) m)"

definition start :: "u64 \<Rightarrow> hart \<Rightarrow> hart" where
  "start main_addr m =
     (let x = or (and (r_mstatus m) (not MSTATUS_MPP_MASK)) MSTATUS_MPP_S;
          m = w_mstatus x m;
          m = w_mepc main_addr m;
          m = w_satp 0 m;
          m = w_medeleg 0xffff m;
          m = w_mideleg 0xffff m;
          m = w_sie (or (or (r_sie m) SIE_SEIE) SIE_STIE) m;
          m = w_pmpaddr0 0x3fffffffffffff m;
          m = w_pmpcfg0 0xf m;
          m = timerinit m;
          m = w_tp (scast (ucast (r_mhartid m) :: u32)) m
      in mret m)"

section \<open>Register slots\<close>

definition tf_tab :: "(reg \<times> nat) list" where
  "tf_tab =
     [(Ra, 40), (Sp, 48), (Gp, 56), (Tp, 64), (T0, 72), (T1, 80), (T2, 88), (S0, 96), (S1, 104), (A1, 120), (A2, 128),
      (A3, 136), (A4, 144), (A5, 152), (A6, 160), (A7, 168), (S2, 176), (S3, 184), (S4, 192), (S5, 200), (S6, 208),
      (S7, 216), (S8, 224), (S9, 232), (S10, 240), (S11, 248), (T3, 256), (T4, 264), (T5, 272), (T6, 280)]"

text \<open>The place of every register of a user program in \<^verbatim>\<open>struct trapframe\<close>.\<close>

definition tf_regs :: "(reg \<times> nat) list" where
  "tf_regs = tf_tab @ [(A0, 112)]"

definition kv_tab :: "(reg \<times> nat) list" where
  "kv_tab =
     [(Ra, 0), (Gp, 16), (T0, 32), (T1, 40), (T2, 48), (A0, 72), (A1, 80), (A2, 88), (A3, 96), (A4, 104), (A5, 112),
      (A6, 120), (A7, 128), (T3, 216), (T4, 224), (T5, 232), (T6, 240)]"

definition kv_tab_in :: "(reg \<times> nat) list" where
  "kv_tab_in =
     [(Ra, 0), (Gp, 16), (Tp, 24), (T0, 32), (T1, 40), (T2, 48), (A0, 72), (A1, 80), (A2, 88), (A3, 96), (A4, 104),
      (A5, 112), (A6, 120), (A7, 128), (T3, 216), (T4, 224), (T5, 232), (T6, 240)]"

definition ctx_tab :: "(reg \<times> nat) list" where
  "ctx_tab =
     [(Ra, 0), (Sp, 8), (S0, 16), (S1, 24), (S2, 32), (S3, 40), (S4, 48), (S5, 56), (S6, 64), (S7, 72), (S8, 80),
      (S9, 88), (S10, 96), (S11, 104)]"

lemma uservec_tab: "uservec ra = [Csrw Sscratch A0, Li A0 TRAPFRAME] @ sd_all A0 tf_tab @
   [Csrr T0 Sscratch, Sd T0 112 A0, Ld Sp 8 A0, Ld Tp 32 A0, Ld T0 16 A0, Ld T1 0 A0, SfenceVma, Csrw Satp T1, SfenceVma, Jalr T0 ra]"
  by (simp add: uservec_def sd_all_def tf_tab_def)

lemma userret_tab: "userret = [SfenceVma, Csrw Satp A0, SfenceVma, Li A0 TRAPFRAME] @ ld_all A0 tf_tab @ [Ld A0 112 A0, Sret]"
  by (simp add: userret_def ld_all_def tf_tab_def)

lemma kernelvec_tab:
  "kernelvec_in k ra = [Addi Sp Sp (- 256)] @ sd_all Sp kv_tab_in @ [Call k ra]"
  "kernelvec_out = ld_all Sp kv_tab @ [Addi Sp Sp 256, Sret]"
  by (simp_all add: kernelvec_in_def kernelvec_out_def sd_all_def ld_all_def kv_tab_in_def kv_tab_def)

lemma swtch_tab: "swtch = sd_all A0 ctx_tab @ ld_all A1 ctx_tab @ [Ret]"
  by (simp add: swtch_def sd_all_def ld_all_def ctx_tab_def)

lemma slots_tabs: "slots_ok tf_tab" "slots_ok tf_regs" "slots_ok kv_tab" "slots_ok kv_tab_in" "slots_ok ctx_tab"
  by (simp_all add: slots_ok_def tf_regs_def tf_tab_def kv_tab_def kv_tab_in_def ctx_tab_def)

lemma tab_bounds:
  "x \<in> set tf_regs \<Longrightarrow> 40 \<le> snd x \<and> snd x + 8 \<le> 288"
  "x \<in> set kv_tab_in \<Longrightarrow> snd x + 8 \<le> 256"
  "x \<in> set ctx_tab \<Longrightarrow> snd x + 8 \<le> 112"
  by (auto simp: tf_regs_def tf_tab_def kv_tab_in_def ctx_tab_def)

lemma kv_tab_sub: "set kv_tab \<subseteq> set kv_tab_in"
  by (simp add: kv_tab_def kv_tab_in_def)

lemma tf_regs_all: "r \<noteq> Zero \<Longrightarrow> \<exists>off. (r, off) \<in> set tf_regs"
  by (cases r) (auto simp: tf_regs_def tf_tab_def)

section \<open>Single routines\<close>

text \<open>The unit maps \<open>n\<close> double words at \<open>v\<close> to the physical addresses from \<open>a\<close> on.\<close>

definition maps :: "mmu \<Rightarrow> nat \<Rightarrow> u64 \<Rightarrow> u64 \<Rightarrow> nat \<Rightarrow> bool" where
  "maps tr n satp v a \<longleftrightarrow> (\<forall>k < n. tr satp (v + of_nat (8 * k)) = Some (a + 8 * k))"

definition same_on :: "nat \<Rightarrow> nat \<Rightarrow> mem \<Rightarrow> mem \<Rightarrow> bool" where
  "same_on a b w w' \<longleftrightarrow> (\<forall>x. a \<le> x \<and> x < b \<longrightarrow> w' x = w x)"

lemma mapsD: "maps tr n satp v a \<Longrightarrow> 8 dvd off \<Longrightarrow> off < 8 * n \<Longrightarrow> tr satp (v + of_nat off) = Some (a + off)"
  unfolding maps_def by (elim dvdE) simp

lemma maps_tab:
  assumes "maps tr n satp v a" and "slots_ok tab" and "\<And>x. x \<in> set tab \<Longrightarrow> snd x + 8 \<le> 8 * n" and "x \<in> set tab"
  shows "tr satp (v + of_nat (snd x)) = Some (a + snd x)"
proof (rule mapsD [OF assms(1)])
  show "8 dvd snd x" using assms(2,4) by (auto simp: slots_ok_def)
  show "snd x < 8 * n" using assms(3) [OF assms(4)] by simp
qed

lemma load_same_on: "same_on a b w w' \<Longrightarrow> a \<le> x \<Longrightarrow> x + 8 \<le> b \<Longrightarrow> load64 w' x = load64 w x"
  by (rule load64_cong) (simp add: same_on_def)

lemma put_regs_append: "put_regs (xs @ ys) a f w = put_regs ys a f (put_regs xs a f w)"
  by (induction xs arbitrary: w) simp_all

lemma put_regs_cong: "(\<And>x. x \<in> set tab \<Longrightarrow> f (fst x) = g (fst x)) \<Longrightarrow> put_regs tab a f w = put_regs tab a g w"
  by (induction tab arbitrary: w) simp_all

abbreviation saved :: "nat \<Rightarrow> hart \<Rightarrow> mem \<Rightarrow> mem" where
  "saved tf m w \<equiv> put_regs tf_regs tf (\<lambda>r. rx r m) w"

lemma tf_tab_regs: "A0 \<notin> fst ` set tf_tab" "x \<in> set tf_tab \<Longrightarrow> x \<in> set tf_regs"
  by (simp add: tf_tab_def) (simp add: tf_regs_def)

lemma uservec_run:
  assumes "maps tr 36 (csrs m Satp) TRAPFRAME tf"
  obtains m1 where "steps tr (uservec ra) (m, w) = Some (m1, saved tf m w)"
    and "rx Sp m1 = load64 w (tf + TF_KERNEL_SP)" and "rx Tp m1 = load64 w (tf + TF_KERNEL_HARTID)"
    and "pc m1 = load64 w (tf + TF_KERNEL_TRAP)" and "csrs m1 Satp = load64 w (tf + TF_KERNEL_SATP)"
    and "rx Ra m1 = ra" and "priv m1 = priv m"
    and "\<forall>c. c \<noteq> Satp \<and> c \<noteq> Sscratch \<longrightarrow> csrs m1 c = csrs m c"
proof -
  let ?m = "wx A0 TRAPFRAME (csrw Sscratch (rx A0 m) m)"
  have tr: "tr (csrs m Satp) (TRAPFRAME + of_nat off) = Some (tf + off)" if "8 dvd off" "off < 288" for off
    using mapsD [OF assms that(1)] that(2) by simp
  have "steps tr (sd_all A0 tf_tab) (?m, w) = Some (?m, put_regs tf_tab tf (\<lambda>r. rx r ?m) w)"
  proof (rule steps_sd_all)
    fix x assume "x \<in> set tf_tab"
    then show "tr (csrs ?m Satp) (rx A0 ?m + of_nat (snd x)) = Some (tf + snd x)"
      using maps_tab [OF assms slots_tabs(1), of x] tab_bounds(1) tf_tab_regs(2) by auto
  qed
  moreover have "put_regs tf_tab tf (\<lambda>r. rx r ?m) w = put_regs tf_tab tf (\<lambda>r. rx r m) w"
    by (rule put_regs_cong) (use tf_tab_regs(1) in force)
  ultimately have sd: "steps tr (sd_all A0 tf_tab) (?m, w) = Some (?m, put_regs tf_tab tf (\<lambda>r. rx r m) w)" by simp
  have ld: "load64 (saved tf m w) (tf + off) = load64 w (tf + off)" if "off < 40" "8 dvd off" for off
  proof (rule load_put_regs_other)
    fix x assume "x \<in> set tf_regs"
    then have "40 \<le> snd x" using tab_bounds(1) by blast
    moreover have "off + 8 \<le> 40" using that by (elim dvdE) auto
    ultimately show "tf + off + 8 \<le> tf + snd x \<or> tf + snd x + 8 \<le> tf + off" by simp
  qed
  have sv: "store64 (tf + 112) (rx A0 m) (put_regs tf_tab tf (\<lambda>r. rx r m) w) = saved tf m w"
    by (simp add: tf_regs_def put_regs_append)
  let ?m0 = "wx T1 (load64 w tf) (wx T0 (load64 w (tf + 16)) (wx Tp (load64 w (tf + 32)) (wx Sp (load64 w (tf + 8))
    (wx T0 (rx A0 m) ?m))))"
  have run: "steps tr (uservec ra) (m, w) =
      Some (wx Ra ra ((csrw Satp (load64 w tf) ?m0)\<lparr>pc := load64 w (tf + 16)\<rparr>), saved tf m w)"
    using tr [of 112] tr [of 8] tr [of 32] tr [of 16] tr [of 0] ld [of 8] ld [of 32] ld [of 16] ld [of 0]
    by (simp add: uservec_tab sd sv)
  show thesis
    by (rule that [OF run]) (simp_all add: TF_KERNEL_SP_def TF_KERNEL_HARTID_def TF_KERNEL_TRAP_def TF_KERNEL_SATP_def)
qed

lemma userret_run:
  assumes "maps tr 36 (rx A0 m) TRAPFRAME tf"
  obtains m1 where "steps tr userret (m, w) = Some (m1, w)"
    and "\<forall>(r, off) \<in> set tf_regs. rx r m1 = load64 w (tf + off)"
    and "csrs m1 = (csrs (sret m))(Satp := rx A0 m)" and "pc m1 = csrs m Sepc" and "priv m1 = priv (sret m)"
proof -
  let ?m = "wx A0 TRAPFRAME (csrw Satp (rx A0 m) m)"
  let ?m1 = "wx A0 (load64 w (tf + 112)) (get_regs tf_tab tf w ?m)"
  have "steps tr (ld_all A0 tf_tab) (?m, w) = Some (get_regs tf_tab tf w ?m, w)"
  proof (rule steps_ld_all)
    fix x assume "x \<in> set tf_tab"
    then show "tr (csrs ?m Satp) (rx A0 ?m + of_nat (snd x)) = Some (tf + snd x)"
      using maps_tab [OF assms slots_tabs(1), of x] tab_bounds(1) tf_tab_regs(2) by auto
  qed (rule tf_tab_regs(1))
  moreover have "tr (rx A0 m) (TRAPFRAME + 112) = Some (tf + 112)" using mapsD [OF assms, of 112] by simp
  ultimately have run: "steps tr userret (m, w) = Some (sret ?m1, w)"
    by (simp add: userret_tab rx_get_regs_other tf_tab_regs(1))
  have regs: "rx r (sret ?m1) = load64 w (tf + off)" if "(r, off) \<in> set tf_regs" for r off
  proof (cases "(r, off) \<in> set tf_tab")
    case True
    then have "r \<noteq> A0" using tf_tab_regs(1) by force
    then show ?thesis using rx_get_regs [OF slots_tabs(1) True] by simp
  next
    case False
    with that show ?thesis by (auto simp: tf_regs_def)
  qed
  show thesis
    by (rule that [OF run]) (use regs in blast, simp_all add: sret_def Let_def fun_eq_iff)
qed

section \<open>Interrupts of the kernel\<close>

text \<open>The registers a C function keeps for its caller.\<close>

definition callee_saved :: "reg list" where
  "callee_saved = [Sp, S0, S1, S2, S3, S4, S5, S6, S7, S8, S9, S10, S11]"

lemma reg_cases: "r = Zero \<or> r = Tp \<or> r \<in> set callee_saved \<or> r \<in> fst ` set kv_tab"
  by (cases r) (simp_all add: callee_saved_def kv_tab_def)

lemma callee_saved_tab: "r \<in> set callee_saved \<Longrightarrow> r \<notin> fst ` set kv_tab"
  by (auto simp: callee_saved_def kv_tab_def)

lemma kernelvec_in_run:
  assumes "maps tr 32 (csrs m Satp) (rx Sp m - 256) a"
  shows "steps tr (kernelvec_in k ra) (m, w) =
    Some (wx Ra ra ((wx Sp (rx Sp m - 256) m)\<lparr>pc := k\<rparr>), put_regs kv_tab_in a (\<lambda>r. rx r m) w)"
proof -
  let ?m = "wx Sp (rx Sp m - 256) m"
  have "steps tr (sd_all Sp kv_tab_in) (?m, w) = Some (?m, put_regs kv_tab_in a (\<lambda>r. rx r ?m) w)"
  proof (rule steps_sd_all)
    fix x assume "x \<in> set kv_tab_in"
    then show "tr (csrs ?m Satp) (rx Sp ?m + of_nat (snd x)) = Some (a + snd x)"
      using maps_tab [OF assms slots_tabs(4), of x] tab_bounds(2) by auto
  qed
  moreover have "put_regs kv_tab_in a (\<lambda>r. rx r ?m) w = put_regs kv_tab_in a (\<lambda>r. rx r m) w"
    by (rule put_regs_cong) (auto simp: kv_tab_in_def)
  ultimately show ?thesis by (simp add: kernelvec_tab)
qed

lemma kernelvec_out_run:
  assumes "maps tr 32 (csrs m Satp) (rx Sp m) a"
  shows "steps tr kernelvec_out (m, w) = Some (sret (wx Sp (rx Sp m + 256) (get_regs kv_tab a w m)), w)"
proof -
  have sp: "Sp \<notin> fst ` set kv_tab" by (simp add: kv_tab_def)
  have "steps tr (ld_all Sp kv_tab) (m, w) = Some (get_regs kv_tab a w m, w)"
  proof (rule steps_ld_all [OF _ sp])
    fix x assume "x \<in> set kv_tab"
    then show "tr (csrs m Satp) (rx Sp m + of_nat (snd x)) = Some (a + snd x)"
      using maps_tab [OF assms slots_tabs(4), of x] tab_bounds(2) kv_tab_sub by auto
  qed
  then show ?thesis by (simp add: kernelvec_tab rx_get_regs_other [OF sp])
qed

text \<open>The way back, from a state in which the frame holds the registers of \<open>m\<close>.\<close>

lemma kernelvec_back:
  assumes map: "maps tr 32 (csrs m2 Satp) (rx Sp m2) a"
    and fr: "same_on a (a + 256) (put_regs kv_tab_in a (\<lambda>r. rx r m) w) w2"
    and cs: "\<forall>r \<in> set callee_saved. r \<noteq> Sp \<longrightarrow> rx r m2 = rx r m" and sp: "rx Sp m2 = rx Sp m - 256"
  obtains m3 where "steps tr kernelvec_out (m2, w2) = Some (sret m3, w2)"
    and "\<And>r. r \<noteq> Tp \<Longrightarrow> rx r m3 = rx r m" and "rx Tp m3 = rx Tp m2" and "csrs m3 = csrs m2"
proof -
  let ?m3 = "wx Sp (rx Sp m2 + 256) (get_regs kv_tab a w2 m2)"
  have tab: "rx r ?m3 = rx r m" if r: "(r, off) \<in> set kv_tab" for r off
  proof -
    have "(r, off) \<in> set kv_tab_in" using r kv_tab_sub by blast
    then have "load64 w2 (a + off) = rx r m"
      using load_same_on [OF fr, of "a + off"] tab_bounds(2) [of "(r, off)"] load_put_regs [OF slots_tabs(4)] by simp
    moreover have "r \<noteq> Sp" using r by (auto simp: kv_tab_def)
    ultimately show ?thesis by (simp add: rx_get_regs [OF slots_tabs(3) r])
  qed
  have keep: "rx r ?m3 = rx r m" if "r \<in> set callee_saved" for r
    using cs that callee_saved_tab [OF that] by (auto simp: sp rx_get_regs_other)
  have regs: "rx r ?m3 = rx r m" if tp: "r \<noteq> Tp" for r
  proof (cases "r = Zero")
    case True
    then show ?thesis by (simp add: rx_def)
  next
    case False
    then consider "r \<in> set callee_saved" | off where "(r, off) \<in> set kv_tab" using reg_cases [of r] tp by force
    then show ?thesis
    proof cases
      case 1
      then show ?thesis by (rule keep)
    next
      case 2
      then show ?thesis by (rule tab)
    qed
  qed
  show thesis
    by (rule that [OF kernelvec_out_run [OF map] regs]) (simp_all add: rx_get_regs_other kv_tab_def)
qed


text \<open>A unit without translation, and a hart in the kernel with interrupts on.\<close>

definition bare :: mmu where
  "bare satp v = Some (unat v)"

lemma maps_bare: "unat v + 8 * n \<le> 2 ^ 64 \<Longrightarrow> maps bare n satp v (unat v)"
  unfolding maps_def bare_def
proof (intro allI impI)
  fix k assume "unat v + 8 * n \<le> 2 ^ 64" "k < n"
  then have "unat v + 8 * k < 2 ^ 64" by simp
  then have "unat (v + of_nat (8 * k)) = unat v + 8 * k" by (simp add: unat_word_ariths unat_of_nat)
  then show "Some (unat (v + of_nat (8 * k))) = Some (unat v + 8 * k)" by simp
qed

definition demo_hart :: hart where
  "demo_hart = \<lparr>xregs = (\<lambda>r. if r = Sp then 0x80010000 else if r = A1 then 0x80020200 else if r = A0 then 0x80020000 else 7),
     csrs = (\<lambda>_. 2), pc = 0x80000400, priv = SuperMode\<rparr>"


section \<open>Switching\<close>

lemma swtch_run:
  assumes old: "maps tr 14 (csrs m Satp) (rx A0 m) a" and new: "maps tr 14 (csrs m Satp) (rx A1 m) b"
  shows "steps tr swtch (m, w) =
    (let w1 = put_regs ctx_tab a (\<lambda>r. rx r m) w; m1 = get_regs ctx_tab b w1 m in Some (m1\<lparr>pc := rx Ra m1\<rparr>, w1))"
proof -
  have "steps tr (sd_all A0 ctx_tab) (m, w) = Some (m, put_regs ctx_tab a (\<lambda>r. rx r m) w)"
    by (rule steps_sd_all, rule maps_tab [OF old slots_tabs(5)]) (use tab_bounds(3) in auto)
  moreover have "steps tr (ld_all A1 ctx_tab) (m, w') = Some (get_regs ctx_tab b w' m, w')" for w'
    by (rule steps_ld_all, rule maps_tab [OF new slots_tabs(5)]) (use tab_bounds(3) in \<open>auto simp: ctx_tab_def\<close>)
  ultimately show ?thesis by (simp add: swtch_tab Let_def)
qed

lemma ctx_other:
  assumes "b + 112 \<le> a \<or> a + 112 \<le> b" and "(r, off) \<in> set ctx_tab"
  shows "load64 (put_regs ctx_tab a f w) (b + off) = load64 w (b + off)"
proof (rule load_put_regs_other)
  fix x assume "x \<in> set ctx_tab"
  then have "snd x + 8 \<le> 112" by (rule tab_bounds(3))
  moreover have "off + 8 \<le> 112" using tab_bounds(3) [OF assms(2)] by simp
  ultimately show "b + off + 8 \<le> a + snd x \<or> a + snd x + 8 \<le> b + off" using assms(1) by auto
qed

text \<open>
  C21. \<^verbatim>\<open>swtch\<close> suspends the thread that calls it and resumes another one. With the two contexts mapped
  and apart, the registers of \<^verbatim>\<open>struct context\<close> are loaded from the new context, control goes to its
  return address, and no memory outside the old context changes. When later any thread calls \<^verbatim>\<open>swtch\<close>
  with that old context as its new one, and the context was left alone, the suspended thread goes on
  behind its call with its stack pointer, return address and \<^verbatim>\<open>s\<close> registers.
\<close>

theorem swtch_resumes:
  assumes old: "maps tr 14 (csrs m Satp) (rx A0 m) a" and new: "maps tr 14 (csrs m Satp) (rx A1 m) b"
    and apart: "b + 112 \<le> a \<or> a + 112 \<le> b"
  shows "\<exists>m1 w1. steps tr swtch (m, w) = Some (m1, w1)
    \<and> (\<forall>(r, off) \<in> set ctx_tab. rx r m1 = load64 w (b + off)) \<and> pc m1 = load64 w b
    \<and> (\<forall>x. x < a \<or> a + 112 \<le> x \<longrightarrow> w1 x = w x)
    \<and> (\<forall>m2 w2 c. maps tr 14 (csrs m2 Satp) (rx A0 m2) c \<and> maps tr 14 (csrs m2 Satp) (rx A1 m2) a
         \<and> (c + 112 \<le> a \<or> a + 112 \<le> c) \<and> same_on a (a + 112) w1 w2 \<longrightarrow>
       (\<exists>m3 w3. steps tr swtch (m2, w2) = Some (m3, w3)
         \<and> (\<forall>(r, off) \<in> set ctx_tab. rx r m3 = rx r m) \<and> pc m3 = rx Ra m))"
proof -
  let ?w1 = "put_regs ctx_tab a (\<lambda>r. rx r m) w"
  have ra: "(Ra, 0) \<in> set ctx_tab" by (simp add: ctx_tab_def)
  have loaded: "rx r (get_regs ctx_tab b ?w1 m) = load64 w (b + off)" if "(r, off) \<in> set ctx_tab" for r off
    using rx_get_regs [OF slots_tabs(5) that] ctx_other [OF apart that] by simp
  have outside: "?w1 x = w x" if "x < a \<or> a + 112 \<le> x" for x
    by (rule put_regs_other) (use that tab_bounds(3) in fastforce)
  have resume: "\<exists>m3 w3. steps tr swtch (m2, w2) = Some (m3, w3)
      \<and> (\<forall>(r, off) \<in> set ctx_tab. rx r m3 = rx r m) \<and> pc m3 = rx Ra m"
    if "maps tr 14 (csrs m2 Satp) (rx A0 m2) c" "maps tr 14 (csrs m2 Satp) (rx A1 m2) a"
      and c: "a + 112 \<le> c \<or> c + 112 \<le> a" and same: "same_on a (a + 112) ?w1 w2" for m2 w2 c
  proof -
    let ?w3 = "put_regs ctx_tab c (\<lambda>r. rx r m2) w2"
    have regs: "rx r (get_regs ctx_tab a ?w3 m2) = rx r m" if r: "(r, off) \<in> set ctx_tab" for r off
      using rx_get_regs [OF slots_tabs(5) r] ctx_other [OF c r] load_same_on [OF same, of "a + off"]
        tab_bounds(3) [OF r] load_put_regs [OF slots_tabs(5) r] by simp
    show ?thesis
      unfolding swtch_run [OF that(1,2)] Let_def
      by (intro exI conjI, rule refl) (use regs regs [OF ra] in auto)
  qed
  show ?thesis
    unfolding swtch_run [OF old new] Let_def
    by (intro exI conjI, rule refl) (use loaded loaded [OF ra] outside resume in auto)
qed

theorem swtch_resumes_witness:
  "\<exists>m1 w1. steps bare swtch (demo_hart, \<lambda>_. 0) = Some (m1, w1)
    \<and> (\<forall>(r, off) \<in> set ctx_tab. rx r m1 = load64 (\<lambda>_. 0) (0x80020200 + off))"
proof -
  have "maps bare 14 (csrs demo_hart Satp) (rx A0 demo_hart) (unat (rx A0 demo_hart))"
    "maps bare 14 (csrs demo_hart Satp) (rx A1 demo_hart) (unat (rx A1 demo_hart))"
    by (rule maps_bare, simp add: demo_hart_def rx_def)+
  moreover have "unat (rx A0 demo_hart) = 0x80020000" "unat (rx A1 demo_hart) = 0x80020200"
    by (simp_all add: demo_hart_def rx_def)
  ultimately have "maps bare 14 (csrs demo_hart Satp) (rx A0 demo_hart) 0x80020000"
    "maps bare 14 (csrs demo_hart Satp) (rx A1 demo_hart) 0x80020200" by simp_all
  from swtch_resumes [OF this, of "\<lambda>_. 0"] show ?thesis by auto
qed

section \<open>Boot\<close>

text \<open>Every hart gets a stack of its own in \<^verbatim>\<open>stack0\<close>.\<close>

lemma entry_stack:
  "steps tr (entry stack0 st sp) (m, w) = Some (m', w') \<Longrightarrow> rx Sp m' = stack0 + 4096 * (csrs m Mhartid + 1) \<and> pc m' = st"
  by (auto simp: entry_def algebra_simps)

lemma mpp_of_start: "and (or (and x (not MSTATUS_MPP_MASK)) MSTATUS_MPP_S) MSTATUS_MPP_MASK = MSTATUS_MPP_S" for x
proof -
  have "and (and x (not MSTATUS_MPP_MASK)) MSTATUS_MPP_MASK = 0" by (simp add: and.assoc)
  moreover have "and MSTATUS_MPP_S MSTATUS_MPP_MASK = MSTATUS_MPP_S" by (simp add: MSTATUS_MPP_MASK_def MSTATUS_MPP_S_def)
  ultimately show ?thesis by (simp add: bit.conj_disj_distrib2)
qed

lemma start_enters_main:
  "priv (start a m) = SuperMode" "pc (start a m) = a" "rx Tp (start a m) = scast (ucast (r_mhartid m) :: u32)"
  "csrs (start a m) Satp = 0" "csrs (start a m) Stimecmp = r_time m + 1000000"
  "bit (csrs (start a m) Sie) 9" "bit (csrs (start a m) Sie) 5"
proof -
  show "rx Tp (start a m) = scast (ucast (r_mhartid m) :: u32)"
    by (simp add: start_def timerinit_def accessor_defs Let_def)
qed (simp_all add: start_def timerinit_def accessor_defs mret_def Let_def mpp_of_start SIE_SEIE_def SIE_STIE_def bit_or_iff)

end
