(* ===== verification/Trap.thy ===== *)
theory Trap
  imports Virtio_Props Exec Sysproc Trampoline
begin

text \<open>
  Traps and system calls: \<^verbatim>\<open>kernel/trap.c\<close>, the dispatcher of \<^verbatim>\<open>kernel/syscall.c\<close>, \<^verbatim>\<open>kernel/plic.c\<close>, and
  \<^verbatim>\<open>forkret\<close> and \<^verbatim>\<open>kvminithart\<close>.

  \<^item> The registers of the harts are in \<open>harts\<close>; hart \<open>h\<close> runs the code and \<^verbatim>\<open>cpuid()\<close> is \<open>h\<close>. \<open>me\<close> is the
    index of \<^verbatim>\<open>myproc()\<close>.
  \<^item> \<open>kaddrs\<close> has the addresses the linker gives: \<^verbatim>\<open>end\<close>, \<^verbatim>\<open>trampoline\<close>, \<^verbatim>\<open>forkret\<close>, \<^verbatim>\<open>kernelvec\<close>, \<^verbatim>\<open>usertrap\<close>, and the
    place of \<^verbatim>\<open>uservec\<close> in the trampoline page.
  \<^item> \<open>dev_in\<close> is what the handler of an interrupt finds in the registers of the devices; stores to the
    interrupt controller are the sequence \<open>plic\<close>.
  \<^item> A system call may wait in the middle, and a timer interrupt gives the processor away; the
    results \<open>sysret\<close> and \<open>trapret\<close> say so. A process that runs again continues with \<open>usertrap_return\<close>
    or \<open>kerneltrap_return\<close>.
\<close>

section \<open>State\<close>

record trap_state = vdisk_state +
  harts :: "hart list"
  plic :: "(u64 \<times> u32) list"
  fork_first :: bool
  kernel_pagetable :: u64

record kaddrs =
  ka_end :: u64
  ka_trampoline :: u64
  ka_forkret :: u64
  ka_kernelvec :: u64
  ka_usertrap :: u64
  ka_uservec_off :: u64

record dev_in =
  di_plic :: "u64 \<Rightarrow> u32"
  di_idle :: bool
  di_rx :: bytes
  di_virtio :: "nat \<Rightarrow> u32"

definition on_hart :: "nat \<Rightarrow> (hart \<Rightarrow> hart) \<Rightarrow> ('a trap_state_scheme, unit) kmon" where
  "on_hart h f = modk (\<lambda>s. s\<lparr>harts := (harts s)[h := f (harts s ! h)]\<rparr>)"

definition of_hart :: "nat \<Rightarrow> (hart \<Rightarrow> 'v) \<Rightarrow> ('a trap_state_scheme, 'v) kmon" where
  "of_hart h f = gets (\<lambda>s. f (harts s ! h))"

definition get_tf :: "nat \<Rightarrow> nat \<Rightarrow> ('a sched_state_scheme, u64) kmon" where
  "get_tf me off = gets (\<lambda>s. load64 (pmem s) (unat (p_trapframe (procs s ! me)) + off))"

section \<open>Interrupt controller\<close>

definition UART0_IRQ :: u32 where "UART0_IRQ = 10"
definition VIRTIO0_IRQ :: u32 where "VIRTIO0_IRQ = 1"

definition PLIC_SENABLE :: "nat \<Rightarrow> u64" where "PLIC_SENABLE hart = PLIC + 0x2080 + of_nat hart * 0x100"
definition PLIC_SPRIORITY :: "nat \<Rightarrow> u64" where "PLIC_SPRIORITY hart = PLIC + 0x201000 + of_nat hart * 0x2000"
definition PLIC_SCLAIM :: "nat \<Rightarrow> u64" where "PLIC_SCLAIM hart = PLIC + 0x201004 + of_nat hart * 0x2000"

definition plic_write :: "u64 \<Rightarrow> u32 \<Rightarrow> ('a trap_state_scheme, unit) kmon" where
  "plic_write a v = modk (\<lambda>s. s\<lparr>plic := plic s @ [(a, v)]\<rparr>)"

definition plicinit :: "('a trap_state_scheme, unit) kmon" where
  "plicinit = thenk (plic_write (PLIC + ucast UART0_IRQ * 4) 1) (plic_write (PLIC + ucast VIRTIO0_IRQ * 4) 1)"

definition plicinithart :: "nat \<Rightarrow> ('a trap_state_scheme, unit) kmon" where
  "plicinithart h =
     thenk (plic_write (PLIC_SENABLE h) (or (push_bit (unat UART0_IRQ) 1) (push_bit (unat VIRTIO0_IRQ) 1)))
     (plic_write (PLIC_SPRIORITY h) 0)"

definition plic_claim :: "nat \<Rightarrow> dev_in \<Rightarrow> u32" where
  "plic_claim h d = di_plic d (PLIC_SCLAIM h)"

definition plic_complete :: "nat \<Rightarrow> u32 \<Rightarrow> ('a trap_state_scheme, unit) kmon" where
  "plic_complete h irq = plic_write (PLIC_SCLAIM h) irq"

section \<open>Interrupts\<close>

definition trapinithart :: "kaddrs \<Rightarrow> nat \<Rightarrow> ('a trap_state_scheme, unit) kmon" where
  "trapinithart a h = on_hart h (w_stvec (ka_kernelvec a))"

definition kvminithart :: "nat \<Rightarrow> ('a trap_state_scheme, unit) kmon" where
  "kvminithart h = bindk (gets kernel_pagetable) (\<lambda>pt. on_hart h (w_satp (MAKE_SATP pt)))"

definition clockintr :: "nat \<Rightarrow> ('a trap_state_scheme, unit) kmon" where
  "clockintr h = thenk (clockintr_tick h) (on_hart h (\<lambda>m. w_stimecmp (r_time m + 1000000) m))"

definition devintr :: "nat \<Rightarrow> dev_in \<Rightarrow> ('a trap_state_scheme, int) kmon" where
  "devintr h d =
     bindk (of_hart h r_scause) (\<lambda>scause.
     if scause = 0x8000000000000009 then
       let irq = plic_claim h d in
       thenk (if irq = UART0_IRQ then uartintr h (di_idle d) (di_rx d)
              else if irq = VIRTIO0_IRQ then virtio_disk_intr (di_virtio d)
              else whenk (irq \<noteq> 0) (printk (str ''unexpected interrupt irq=%d'' @ [10]) [Num (ucast irq)]))
       (thenk (whenk (irq \<noteq> 0) (plic_complete h irq)) (ret 1))
     else if scause = 0x8000000000000005 then thenk (clockintr h) (ret 2)
     else ret 0)"

section \<open>System calls\<close>

datatype sysret = Done u64 | WaitsRead bytes | WaitsWrite nat bytes | Exited

text \<open>The table \<^verbatim>\<open>syscalls\<close>; what a call that waited has done so far is \<open>acc\<close> or \<open>(i, left)\<close>.\<close>

definition ret_int :: "('s, int) kmon \<Rightarrow> ('s, sysret) kmon" where
  "ret_int f = bindk f (\<lambda>n. ret (Done (of_int n)))"

definition ret_u64 :: "('s, u64) kmon \<Rightarrow> ('s, sysret) kmon" where
  "ret_u64 f = bindk f (\<lambda>v. ret (Done v))"

definition syscalls :: "kaddrs \<Rightarrow> bytes \<Rightarrow> nat \<Rightarrow> nat \<Rightarrow> bytes \<Rightarrow> nat \<Rightarrow> bytes \<Rightarrow> (('a trap_state_scheme, sysret) kmon) list" where
  "syscalls a pad h me acc i left =
     [ret_int (sys_fork (ka_end a) (ka_trampoline a) (ka_forkret a) me),
      thenk (sys_exit (ka_end a) h me) (ret Exited),
      ret_int (sys_wait (ka_end a) me),
      ret_int (sys_pipe (ka_end a) h me),
      bindk (sys_read (ka_end a) h me acc) (\<lambda>r. ret (case r of Returned n \<Rightarrow> Done (of_int n) | Waiting bs \<Rightarrow> WaitsRead bs)),
      ret_int (sys_kill me),
      ret_int (sys_exec (ka_end a) (ka_trampoline a) me),
      ret_int (sys_fstat pad (ka_end a) me),
      ret_int (sys_chdir (ka_end a) me),
      ret_int (sys_dup me),
      ret_int (sys_getpid me),
      ret_u64 (sys_sbrk (ka_end a) me),
      ret_int (sys_sleep me),
      ret_int (sys_pause me),
      ret_u64 sys_uptime,
      ret_int (sys_open (ka_end a) h me),
      bindk (sys_write (ka_end a) h me i left) (\<lambda>r. ret (case r of Written n \<Rightarrow> Done (of_int n) | Unsent k cs \<Rightarrow> WaitsWrite k cs)),
      ret_int (sys_mknod (ka_end a) me),
      ret_int (sys_unlink (ka_end a) me),
      ret_int (sys_link (ka_end a) me),
      ret_int (sys_mkdir (ka_end a) me),
      ret_int (sys_close (ka_end a) h me),
      ret_int (sys_trace me),
      ret_int (sys_mtx_create h me),
      ret_int (sys_mtx_lock h me),
      ret_int (sys_mtx_unlock h me),
      ret_int sys_get_num_free_pages,
      ret_int (sys_setSchedAttr (ka_end a) me),
      ret_int (sys_getSchedAttr (ka_end a) me),
      ret_int (sys_symlink (ka_end a) me)]"

definition syscall_names :: "string list" where
  "syscall_names =
     [''fork'', ''exit'', ''wait'', ''pipe'', ''read'', ''kill'', ''exec'', ''fstat'', ''chdir'', ''dup'', ''getpid'',
      ''sbrk'', ''sleep'', ''pause'', ''uptime'', ''open'', ''write'', ''mknod'', ''unlink'', ''link'', ''mkdir'', ''close'',
      ''trace'', ''mtx_create'', ''mtx_lock'', ''mtx_unlock'', ''get_num_free_pages'', ''setSchedAttr'', ''getSchedAttr'', ''symlink'']"

definition TF_A7 :: nat where "TF_A7 = 168"

definition syscall :: "kaddrs \<Rightarrow> bytes \<Rightarrow> nat \<Rightarrow> nat \<Rightarrow> bytes \<Rightarrow> nat \<Rightarrow> bytes \<Rightarrow> ('a trap_state_scheme, sysret) kmon" where
  "syscall a pad h me acc i left =
     bindk (get_tf me TF_A7) (\<lambda>a7.
     let num = sint (ucast a7 :: u32) in
     if num > 0 \<and> num \<le> int (length syscall_names) then
       bindk (syscalls a pad h me acc i left ! nat (num - 1)) (\<lambda>r.
       case r of
         Done v \<Rightarrow>
           thenk (set_tf me TF_A0 v)
           (bindk (gets (\<lambda>s. procs s ! me)) (\<lambda>p.
            thenk (whenk (and (p_trace_mask p) (push_bit (nat num) 1) \<noteq> 0)
              (printk (str ''%d: syscall %s -> %d'' @ [10])
                [Num (of_int (p_pid p)), Str (Some (str (syscall_names ! nat (num - 1)))), Num (scast (ucast v :: u32))]))
            (ret r)))
       | _ \<Rightarrow> ret r)
     else
       bindk (gets (\<lambda>s. procs s ! me)) (\<lambda>p.
       thenk (printk (str ''%d %s: unknown sys call %d'' @ [10]) [Num (of_int (p_pid p)), Str (Some (p_name p)), Num (of_int num)])
       (thenk (set_tf me TF_A0 (- 1)) (ret (Done (- 1))))))"

section \<open>Into the kernel and back\<close>

definition prepare_return :: "kaddrs \<Rightarrow> nat \<Rightarrow> nat \<Rightarrow> ('a trap_state_scheme, unit) kmon" where
  "prepare_return a h me =
     thenk (on_hart h intr_off)
     (thenk (on_hart h (w_stvec (TRAMPOLINE + ka_uservec_off a)))
     (bindk (of_hart h r_satp) (\<lambda>satp.
      thenk (set_tf me TF_KERNEL_SATP satp)
     (bindk (gets (\<lambda>s. p_kstack (procs s ! me))) (\<lambda>kstack.
      thenk (set_tf me TF_KERNEL_SP (kstack + of_nat PGSIZE))
     (thenk (set_tf me TF_KERNEL_TRAP (ka_usertrap a))
     (bindk (of_hart h r_tp) (\<lambda>tp.
      thenk (set_tf me TF_KERNEL_HARTID tp)
     (thenk (on_hart h (\<lambda>m. w_sstatus (or (and (r_sstatus m) (not SSTATUS_SPP)) SSTATUS_SPIE) m))
     (bindk (get_tf me TF_EPC) (\<lambda>epc.
      on_hart h (w_sepc epc))))))))))))"

text \<open>The end of \<^verbatim>\<open>usertrap\<close>: the result is the value for \<^verbatim>\<open>satp\<close> that \<^verbatim>\<open>userret\<close> gets.\<close>

definition usertrap_return :: "kaddrs \<Rightarrow> nat \<Rightarrow> nat \<Rightarrow> ('a trap_state_scheme, u64) kmon" where
  "usertrap_return a h me =
     thenk (prepare_return a h me) (gets (\<lambda>s. MAKE_SATP (p_pagetable (procs s ! me))))"

datatype trapret = Back u64 | Yielded | Gone_away | In_call sysret

definition fault_page :: "kaddrs \<Rightarrow> nat \<Rightarrow> u64 \<Rightarrow> u64 \<Rightarrow> ('a trap_state_scheme, unit) kmon" where
  "fault_page a me scause va =
     (if va \<ge> KERNBASE then setkilled me
      else bindk (gets (\<lambda>s. p_pagetable (procs s ! me))) (\<lambda>pt.
        bindk (if scause = 15 then cowfault (ka_end a) pt va else ret (- 1)) (\<lambda>c.
        if c = 0 then ret ()
        else bindk (vmfault (ka_end a) me pt va) (\<lambda>v. whenk (v = 0) (setkilled me)))))"

definition bad_trap :: "nat \<Rightarrow> nat \<Rightarrow> ('a trap_state_scheme, unit) kmon" where
  "bad_trap h me =
     bindk (of_hart h (\<lambda>m. m)) (\<lambda>m.
     bindk (gets (\<lambda>s. p_pid (procs s ! me))) (\<lambda>pid.
     thenk (printk (str ''usertrap(): unexpected scause 0x%lx pid=%d'' @ [10]) [Num (r_scause m), Num (of_int pid)])
     (thenk (printk (str ''            sepc=0x%lx stval=0x%lx'' @ [10]) [Num (r_sepc m), Num (r_stval m)])
     (setkilled me))))"

text \<open>After the handling of the trap: \<^verbatim>\<open>which_dev\<close> says whether to give the processor away.\<close>

definition usertrap_end :: "kaddrs \<Rightarrow> nat \<Rightarrow> nat \<Rightarrow> int \<Rightarrow> ('a trap_state_scheme, trapret) kmon" where
  "usertrap_end a h me which_dev =
     bindk (killed me) (\<lambda>k.
     if k \<noteq> 0 then thenk (kexit (ka_end a) h me (- 1)) (ret Gone_away)
     else if which_dev = 2 then thenk (yield h me) (ret Yielded)
     else bindk (usertrap_return a h me) (\<lambda>satp. ret (Back satp)))"

definition usertrap :: "kaddrs \<Rightarrow> bytes \<Rightarrow> nat \<Rightarrow> nat \<Rightarrow> dev_in \<Rightarrow> ('a trap_state_scheme, trapret) kmon" where
  "usertrap a pad h me d =
     bindk (of_hart h r_sstatus) (\<lambda>st.
     if and st SSTATUS_SPP \<noteq> 0 then panic ''usertrap: not from user mode''
     else thenk (on_hart h (w_stvec (ka_kernelvec a)))
       (bindk (of_hart h r_sepc) (\<lambda>sepc.
        thenk (set_tf me TF_EPC sepc)
       (bindk (of_hart h r_scause) (\<lambda>scause.
        if scause = 8 then
          bindk (killed me) (\<lambda>k.
          if k \<noteq> 0 then thenk (kexit (ka_end a) h me (- 1)) (ret Gone_away)
          else bindk (get_tf me TF_EPC) (\<lambda>epc.
            thenk (set_tf me TF_EPC (epc + 4))
            (thenk (on_hart h intr_on)
            (bindk (syscall a pad h me [] 0 []) (\<lambda>r.
             case r of Done _ \<Rightarrow> usertrap_end a h me 0 | _ \<Rightarrow> ret (In_call r))))))
        else bindk (devintr h d) (\<lambda>which_dev.
          if which_dev \<noteq> 0 then usertrap_end a h me which_dev
          else if scause = 15 \<or> scause = 13 \<or> scause = 12 then
            bindk (of_hart h r_stval) (\<lambda>va. thenk (fault_page a me scause va) (usertrap_end a h me 0))
          else thenk (bad_trap h me) (usertrap_end a h me 0)))))))"

definition kerneltrap_return :: "nat \<Rightarrow> u64 \<Rightarrow> u64 \<Rightarrow> ('a trap_state_scheme, unit) kmon" where
  "kerneltrap_return h sepc sstatus = thenk (on_hart h (w_sepc sepc)) (on_hart h (w_sstatus sstatus))"

text \<open>\<^verbatim>\<open>kerneltrap\<close>: none when it is through, or the two local variables when it gave the processor away.\<close>

definition kerneltrap :: "nat \<Rightarrow> dev_in \<Rightarrow> ('a trap_state_scheme, (u64 \<times> u64) option) kmon" where
  "kerneltrap h d =
     bindk (of_hart h (\<lambda>m. m)) (\<lambda>m.
     if and (r_sstatus m) SSTATUS_SPP = 0 then panic ''kerneltrap: not from supervisor mode''
     else if intr_get m then panic ''kerneltrap: interrupts enabled''
     else bindk (devintr h d) (\<lambda>which_dev.
       if which_dev = 0 then
         thenk (printk (str ''scause=0x%lx sepc=0x%lx stval=0x%lx'' @ [10]) [Num (r_scause m), Num (r_sepc m), Num (r_stval m)])
         (panic ''kerneltrap'')
       else bindk (gets (\<lambda>s. myproc h s)) (\<lambda>me.
         case me of
           Some p \<Rightarrow> if which_dev = 2 then thenk (yield h p) (ret (Some (r_sepc m, r_sstatus m)))
             else thenk (kerneltrap_return h (r_sepc m) (r_sstatus m)) (ret None)
         | None \<Rightarrow> thenk (kerneltrap_return h (r_sepc m) (r_sstatus m)) (ret None))))"

definition forkret :: "kaddrs \<Rightarrow> nat \<Rightarrow> nat \<Rightarrow> ('a trap_state_scheme, u64) kmon" where
  "forkret a h me =
     bindk (gets fork_first) (\<lambda>first.
     thenk (whenk first
       (thenk (fsinit ROOTDEV)
       (thenk (modk (\<lambda>s. s\<lparr>fork_first := False\<rparr>))
       (bindk (kexec (ka_end a) (ka_trampoline a) me (str ''/init'') [str ''/init'']) (\<lambda>argc.
        thenk (set_tf me TF_A0 (of_int argc))
        (whenk (argc = - 1) (panic ''exec'')))))))
     (usertrap_return a h me))"

text \<open>A trap of a user program as a whole: the processor and \<^verbatim>\<open>uservec\<close>, then \<^verbatim>\<open>usertrap\<close>, then \<^verbatim>\<open>userret\<close>.\<close>

definition run_asm :: "mmu \<Rightarrow> nat \<Rightarrow> instr list \<Rightarrow> ('a trap_state_scheme, unit) kmon" where
  "run_asm tr h code s =
     (case steps tr code (harts s ! h, pmem s) of
        None \<Rightarrow> Inl (Fault ''trap'')
      | Some (m, w) \<Rightarrow> Inr ((), s\<lparr>harts := (harts s)[h := m], pmem := w\<rparr>))"

definition user_trap :: "mmu \<Rightarrow> kaddrs \<Rightarrow> bytes \<Rightarrow> nat \<Rightarrow> nat \<Rightarrow> dev_in \<Rightarrow> u64 \<Rightarrow> u64 \<Rightarrow> u64 \<Rightarrow> ('a trap_state_scheme, trapret) kmon" where
  "user_trap tr a pad h me d userret_addr cause tval =
     thenk (on_hart h (take_trap cause tval))
     (thenk (run_asm tr h (uservec userret_addr))
     (bindk (usertrap a pad h me d) (\<lambda>r.
      case r of
        Back satp \<Rightarrow> thenk (on_hart h (wx A0 satp)) (thenk (run_asm tr h userret) (ret r))
      | _ \<Rightarrow> ret r)))"

end
