(* ===== verification/Trap_Props.thy ===== *)
theory Trap_Props
  imports Trap
begin

text \<open>
  Traps from end to end: the processor, the assembly, the C handlers and the devices composed. A disk
  interrupt is invisible to the program it interrupts, and a system call changes nothing of it but the
  result register and the program counter.
\<close>

section \<open>The interrupt handler of the disk\<close>

text \<open>The loop over the used ring returns, looks at every entry, and touches only driver and buffers.\<close>

lemma intr_loop:
  assumes "vinv s" and "length xs = unat (v_used_ring_idx (vd s) - v_used_idx (vd s))"
  shows "\<exists>V B W. for_each xs (\<lambda>_. intr_turn) s = Inr ((), s\<lparr>vd := V, bufs := B, woken := W\<rparr>)
    \<and> vinv (s\<lparr>vd := V, bufs := B, woken := W\<rparr>) \<and> v_used_idx V = v_used_ring_idx V
    \<and> abs_disk (s\<lparr>vd := V, bufs := B, woken := W\<rparr>) = abs_disk s"
  using assms
proof (induction xs arbitrary: s)
  case Nil
  then have "v_used_ring_idx (vd s) - v_used_idx (vd s) = 0" by (metis list.size(3) unat_eq_zero)
  with Nil show ?case
    by (intro exI [of _ "vd s"] exI [of _ "bufs s"] exI [of _ "woken s"]) (simp add: ret_def)
next
  case (Cons x xs)
  obtain R where inv: "vinv_of R (vd s) (bufs s)" using Cons.prems(1) by (auto simp: vinv_def)
  have ne: "v_used_idx (vd s) \<noteq> v_used_ring_idx (vd s)" using Cons.prems(2) by auto
  obtain r W where "R (hd (announced (vd s))) = Some r" and run: "intr_turn s = Inr ((), s\<lparr>vd := (vd s)\<lparr>v_used_idx := v_used_idx (vd s) + 1\<rparr>,
      bufs := (bufs s)[fst r := (bufs s ! fst r)\<lparr>b_disk := False\<rparr>], woken := W\<rparr>)" (is "_ = Inr ((), ?s)")
    by (rule intr_turn_run [OF inv ne])
  have s: "vinv ?s" "abs_disk ?s = abs_disk s" using step_intr [OF inv ne run] by auto
  have "v_used_ring_idx (vd s) - v_used_idx (vd s) \<noteq> 0" using ne by simp
  then have "unat (v_used_ring_idx (vd s) - (v_used_idx (vd s) + 1)) = unat (v_used_ring_idx (vd s) - v_used_idx (vd s)) - 1"
    using unat_minus_one [of "v_used_ring_idx (vd s) - v_used_idx (vd s)"] by (simp add: algebra_simps)
  then have "length xs = unat (v_used_ring_idx (vd ?s) - v_used_idx (vd ?s))" using Cons.prems(2) by simp
  from Cons.IH [OF s(1) this] obtain V B W' where
    "for_each xs (\<lambda>_. intr_turn) ?s = Inr ((), ?s\<lparr>vd := V, bufs := B, woken := W'\<rparr>)" "vinv (?s\<lparr>vd := V, bufs := B, woken := W'\<rparr>)"
    "v_used_idx V = v_used_ring_idx V" "abs_disk (?s\<lparr>vd := V, bufs := B, woken := W'\<rparr>) = abs_disk ?s" by (elim exE conjE) (rule that)
  then show ?case
    using s(2) by (intro exI [of _ V] exI [of _ B] exI [of _ W']) (simp add: thenk_def bindk_def run)
qed

lemma disk_intr_run:
  assumes "vinv s"
  obtains V B W where "virtio_disk_intr rd s = Inr ((), s\<lparr>vd := V, bufs := B, woken := W, mmio := mmio s @ [(0x064, and (rd 0x060) 3)]\<rparr>)"
    and "v_used_idx V = v_used_ring_idx V"
    and "vinv (s\<lparr>vd := V, bufs := B, woken := W, mmio := mmio s @ [(0x064, and (rd 0x060) 3)]\<rparr>)"
proof -
  let ?s = "s\<lparr>mmio := mmio s @ [(0x064, and (rd 0x060) 3)]\<rparr>"
  have "vinv ?s" using assms by (simp add: vinv_def)
  with intr_loop [of ?s "[0..<unat (v_used_ring_idx (vd s) - v_used_idx (vd s))]"] obtain V B W where
    r: "for_each [0..<unat (v_used_ring_idx (vd s) - v_used_idx (vd s))] (\<lambda>_. intr_turn) ?s = Inr ((), ?s\<lparr>vd := V, bufs := B, woken := W\<rparr>)"
      "vinv (?s\<lparr>vd := V, bufs := B, woken := W\<rparr>)" "v_used_idx V = v_used_ring_idx V"
    by auto
  show thesis
    by (rule that [where V = V and B = B and W = W]) (use r in \<open>simp_all add: virtio_disk_intr_def thenk_def bindk_def modk_def gets_def vinv_def\<close>)
qed

section \<open>Into the kernel\<close>

lemmas trun_defs = thenk_def bindk_def on_hart_def of_hart_def modk_def gets_def ret_def set_tf_def get_tf_def

lemma trap_user:
  assumes "priv m = UserMode"
  shows "csrs (take_trap c t m) Satp = csrs m Satp" "csrs (take_trap c t m) Sepc = pc m" "csrs (take_trap c t m) Scause = c"
    "and (csrs (take_trap c t m) Sstatus) SSTATUS_SPP = 0"
proof -
  have "\<not> bit (csrs (take_trap c t m) Sstatus) 8"
    using assms by (simp add: take_trap_def Let_def bit_unset_bit_iff bit_set_bit_iff)
  then show "and (csrs (take_trap c t m) Sstatus) SSTATUS_SPP = 0" unfolding SSTATUS_SPP_def using and_flag by blast
qed (simp_all add: take_trap_def Let_def)

lemma enter_kernel:
  assumes h: "h < length (harts s)" and m: "harts s ! h = m" "priv m = UserMode"
    and map: "maps tr 36 (csrs m Satp) TRAPFRAME tf"
  obtains m1 where "thenk (on_hart h (take_trap c t)) (run_asm tr h (uservec ra)) s =
      Inr ((), s\<lparr>harts := (harts s)[h := m1], pmem := saved tf m (pmem s)\<rparr>)"
    and "csrs m1 Sepc = pc m" and "csrs m1 Scause = c" and "and (csrs m1 Sstatus) SSTATUS_SPP = 0"
proof -
  let ?t = "take_trap c t m"
  have "maps tr 36 (csrs ?t Satp) TRAPFRAME tf" using map trap_user(1) [OF m(2)] by simp
  then obtain m1 where m1: "steps tr (uservec ra) (?t, pmem s) = Some (m1, saved tf ?t (pmem s))"
    "rx Sp m1 = load64 (pmem s) (tf + TF_KERNEL_SP)" "rx Tp m1 = load64 (pmem s) (tf + TF_KERNEL_HARTID)"
    "pc m1 = load64 (pmem s) (tf + TF_KERNEL_TRAP)" "csrs m1 Satp = load64 (pmem s) (tf + TF_KERNEL_SATP)"
    "rx Ra m1 = ra" "priv m1 = priv ?t"
    "\<forall>c. c \<noteq> Satp \<and> c \<noteq> Sscratch \<longrightarrow> csrs m1 c = csrs ?t c"
    by (rule uservec_run [where ra = ra and w = "pmem s"])
  have "thenk (on_hart h (take_trap c t)) (run_asm tr h (uservec ra)) s =
      Inr ((), s\<lparr>harts := (harts s)[h := m1], pmem := saved tf m (pmem s)\<rparr>)"
    using m1(1) h by (simp add: trun_defs run_asm_def m)
  then show thesis by (rule that) (simp_all add: m1(8) trap_user [OF m(2)])
qed

section \<open>Back to the program\<close>

definition tf_kernel :: "kaddrs \<Rightarrow> hart \<Rightarrow> u64 \<Rightarrow> nat \<Rightarrow> mem \<Rightarrow> mem" where
  "tf_kernel a m kstack tf w = store64 (tf + TF_KERNEL_HARTID) (rx Tp m) (store64 (tf + TF_KERNEL_TRAP) (ka_usertrap a)
     (store64 (tf + TF_KERNEL_SP) (kstack + of_nat PGSIZE) (store64 (tf + TF_KERNEL_SATP) (csrs m Satp) w)))"

lemmas tf_offsets = TF_KERNEL_HARTID_def TF_KERNEL_TRAP_def TF_KERNEL_SP_def TF_KERNEL_SATP_def TF_EPC_def

lemma tf_kernel_keeps: "8 dvd off \<Longrightarrow> off = TF_EPC \<or> 40 \<le> off \<Longrightarrow> load64 (tf_kernel a m k tf w) (tf + off) = load64 w (tf + off)"
  unfolding tf_kernel_def tf_offsets by (auto simp: load_store64_other)

definition user_csrs :: "kaddrs \<Rightarrow> u64 \<Rightarrow> hart \<Rightarrow> hart" where
  "user_csrs a epc m = w_sepc epc (w_sstatus (or (and (r_sstatus (intr_off m)) (not SSTATUS_SPP)) SSTATUS_SPIE)
     (w_stvec (TRAMPOLINE + ka_uservec_off a) (intr_off m)))"

lemma usertrap_return_run:
  assumes h: "h < length (harts s)" and tf: "unat (p_trapframe (procs s ! me)) = tf"
  shows "usertrap_return a h me s = Inr (MAKE_SATP (p_pagetable (procs s ! me)),
    s\<lparr>harts := (harts s)[h := user_csrs a (load64 (pmem s) (tf + TF_EPC)) (harts s ! h)],
      pmem := tf_kernel a (harts s ! h) (p_kstack (procs s ! me)) tf (pmem s)\<rparr>)"
proof -
  let ?m = "harts s ! h"
  have ep: "load64 (tf_kernel a ?m (p_kstack (procs s ! me)) tf (pmem s)) (tf + TF_EPC) = load64 (pmem s) (tf + TF_EPC)"
    by (rule tf_kernel_keeps) (simp_all add: TF_EPC_def)
  have x: "csrs (w_stvec v (intr_off ?m)) Satp = csrs ?m Satp" "rx Tp (w_stvec v (intr_off ?m)) = rx Tp ?m" for v
    by (simp_all add: w_stvec_def intr_off_def w_sstatus_def)
  show ?thesis
    using h ep by (simp add: usertrap_return_def prepare_return_def trun_defs tf user_csrs_def r_satp_def r_tp_def x
        flip: tf_kernel_def) (simp add: tf_kernel_def w_stvec_def r_sstatus_def)
qed

lemma user_csrs_facts:
  "csrs (user_csrs a e m) Sepc = e" "\<not> bit (csrs (user_csrs a e m) Sstatus) 8" "bit (csrs (user_csrs a e m) Sstatus) 5"
  "csrs (user_csrs a e m) Stvec = TRAMPOLINE + ka_uservec_off a"
  by (simp_all add: user_csrs_def accessor_defs SSTATUS_SPP_def SSTATUS_SPIE_def bit_or_iff bit_and_iff bit_not_iff)

lemma leave_kernel:
  assumes h: "h < length (harts s)" and m: "harts s ! h = user_csrs a e m0"
    and map: "maps tr 36 satp TRAPFRAME tf"
  obtains m3 where "thenk (on_hart h (wx A0 satp)) (run_asm tr h userret) s = Inr ((), s\<lparr>harts := (harts s)[h := m3]\<rparr>)"
    and "\<forall>(r, off) \<in> set tf_regs. rx r m3 = load64 (pmem s) (tf + off)"
    and "pc m3 = e" and "priv m3 = UserMode" and "csrs m3 Satp = satp" and "intr_get m3"
    and "csrs m3 Stvec = TRAMPOLINE + ka_uservec_off a"
proof -
  let ?m = "wx A0 satp (user_csrs a e m0)"
  have "maps tr 36 (rx A0 ?m) TRAPFRAME tf" using map by simp
  then obtain m3 where m3: "steps tr userret (?m, pmem s) = Some (m3, pmem s)"
    "\<forall>(r, off) \<in> set tf_regs. rx r m3 = load64 (pmem s) (tf + off)"
    "csrs m3 = (csrs (sret ?m))(Satp := rx A0 ?m)" "pc m3 = csrs ?m Sepc" "priv m3 = priv (sret ?m)"
    by (rule userret_run [where w = "pmem s"])
  have "thenk (on_hart h (wx A0 satp)) (run_asm tr h userret) s = Inr ((), s\<lparr>harts := (harts s)[h := m3]\<rparr>)"
    using m3(1) h by (simp add: trun_defs run_asm_def m)
  then show thesis
    by (rule that) (use m3 user_csrs_facts [of a e m0] in \<open>simp_all add: sret_def Let_def intr_get_bit bit_unset_bit_iff bit_set_bit_iff\<close>)
qed

section \<open>A disk interrupt\<close>

lemma usertrap_disk_run:
  assumes h: "h < length (harts s)" and spp: "and (csrs (harts s ! h) Sstatus) SSTATUS_SPP = 0"
    and cause: "csrs (harts s ! h) Scause = 0x8000000000000009" and irq: "plic_claim h d = VIRTIO0_IRQ"
    and inv: "vinv s" and alive: "p_killed (procs s ! me) = 0" and tf: "unat (p_trapframe (procs s ! me)) = tf"
  obtains V B W M where "v_used_idx V = v_used_ring_idx V"
    and "usertrap a pad h me d s = bindk (usertrap_return a h me) (\<lambda>satp. ret (Back satp))
      (s\<lparr>harts := (harts s)[h := w_stvec (ka_kernelvec a) (harts s ! h)],
        pmem := store64 (tf + TF_EPC) (csrs (harts s ! h) Sepc) (pmem s),
        vd := V, bufs := B, woken := W, mmio := M, plic := plic s @ [(PLIC_SCLAIM h, 1)]\<rparr>)"
proof -
  let ?s = "s\<lparr>harts := (harts s)[h := w_stvec (ka_kernelvec a) (harts s ! h)],
    pmem := store64 (tf + TF_EPC) (csrs (harts s ! h) Sepc) (pmem s)\<rparr>"
  have "vinv ?s" using inv by (simp add: vinv_def)
  then obtain V B W where r: "virtio_disk_intr (di_virtio d) ?s =
      Inr ((), ?s\<lparr>vd := V, bufs := B, woken := W, mmio := mmio ?s @ [(0x064, and (di_virtio d 0x060) 3)]\<rparr>)"
    "v_used_idx V = v_used_ring_idx V"
    "vinv (?s\<lparr>vd := V, bufs := B, woken := W, mmio := mmio ?s @ [(0x064, and (di_virtio d 0x060) 3)]\<rparr>)"
    by (rule disk_intr_run)
  have "devintr h d ?s = Inr (1, ?s\<lparr>vd := V, bufs := B, woken := W, mmio := mmio s @ [(0x064, and (di_virtio d 0x060) 3)],
      plic := plic s @ [(PLIC_SCLAIM h, 1)]\<rparr>)"
    using h cause irq r(1) by (simp add: devintr_def trun_defs whenk_def Let_def plic_complete_def plic_write_def r_scause_def w_stvec_def
        VIRTIO0_IRQ_def UART0_IRQ_def)
  then have "usertrap a pad h me d s = usertrap_end a h me 1 (?s\<lparr>vd := V, bufs := B, woken := W,
      mmio := mmio s @ [(0x064, and (di_virtio d 0x060) 3)], plic := plic s @ [(PLIC_SCLAIM h, 1)]\<rparr>)"
    using h spp cause tf by (simp add: usertrap_def trun_defs r_sstatus_def r_sepc_def r_scause_def w_stvec_def)
  also have "\<dots> = bindk (usertrap_return a h me) (\<lambda>satp. ret (Back satp)) (?s\<lparr>vd := V, bufs := B, woken := W,
      mmio := mmio s @ [(0x064, and (di_virtio d 0x060) 3)], plic := plic s @ [(PLIC_SCLAIM h, 1)]\<rparr>)"
    using alive by (simp add: usertrap_end_def killed_def bindk_def [of "gets _"] gets_def)
  finally show thesis by (rule that [OF r(2)])
qed

lemma run_seq:
  "f s = Inr (x, t) \<Longrightarrow> bindk f g s = g x t"
  "c s = Inr (u, t) \<Longrightarrow> thenk c k s = k t"
  by (simp_all add: bindk_def thenk_def)

lemma user_trap_split:
  assumes en: "thenk (on_hart h (take_trap c t)) (run_asm tr h (uservec ra)) s = Inr ((), s1)"
    and ut: "usertrap a pad h me d s1 = Inr (Back satp, s2)"
    and le: "thenk (on_hart h (wx A0 satp)) (run_asm tr h userret) s2 = Inr ((), s3)"
  shows "user_trap tr a pad h me d ra c t s = Inr (Back satp, s3)"
proof -
  have eq: "user_trap tr a pad h me d ra c t = thenk (thenk (on_hart h (take_trap c t)) (run_asm tr h (uservec ra)))
      (bindk (usertrap a pad h me d) (\<lambda>r. case r of
        Back satp \<Rightarrow> thenk (thenk (on_hart h (wx A0 satp)) (run_asm tr h userret)) (ret r) | _ \<Rightarrow> ret r))"
    by (simp add: user_trap_def thenk_def bindk_assoc cong: trapret.case_cong)
  have "user_trap tr a pad h me d ra c t s = thenk (thenk (on_hart h (wx A0 satp)) (run_asm tr h userret)) (ret (Back satp)) s2"
    unfolding eq by (subst run_seq(2), rule en, subst run_seq(1), rule ut, simp)
  also have "\<dots> = Inr (Back satp, s3)" by (subst run_seq(2), rule le) (simp add: ret_def)
  finally show ?thesis .
qed

lemma saved_regs: "(r, off) \<in> set tf_regs \<Longrightarrow> load64 (saved tf m w) (tf + off) = rx r m"
  by (rule load_put_regs [OF slots_tabs(2)])

lemma tf_off: "(r, off) \<in> set tf_regs \<Longrightarrow> 8 dvd off \<and> 40 \<le> off \<and> off + 8 \<le> 288"
  using slots_tabs(2) tab_bounds(1) [of "(r, off)"] by (auto simp: slots_ok_def)

lemma saved_outside: "x < tf \<or> tf + 288 \<le> x \<Longrightarrow> saved tf m w x = w x"
  by (rule put_regs_other) (use tab_bounds(1) in fastforce)

lemma tf_kernel_outside: "x < tf \<or> tf + 288 \<le> x \<Longrightarrow> tf_kernel a m k tf w x = w x"
  by (auto simp: tf_kernel_def tf_offsets store64_def)

lemma epc_apart: "40 \<le> off \<Longrightarrow> load64 (store64 (tf + TF_EPC) v w) (tf + off) = load64 w (tf + off)"
  by (rule load_store64_other) (simp add: TF_EPC_def)

text \<open>From the end of a trap back to the user program, which gets what the trapframe has.\<close>

lemma back_to_user:
  assumes h: "h < length (harts s)" and tf: "unat (p_trapframe (procs s ! me)) = tf"
    and pt: "satp = MAKE_SATP (p_pagetable (procs s ! me))" and map: "maps tr 36 satp TRAPFRAME tf"
  obtains s3 t where "usertrap_return a h me s = Inr (satp, s3)"
    and "thenk (on_hart h (wx A0 satp)) (run_asm tr h userret) s3 = Inr ((), t)"
    and "\<forall>(r, off) \<in> set tf_regs. rx r (harts t ! h) = load64 (pmem s) (tf + off)"
    and "pc (harts t ! h) = load64 (pmem s) (tf + TF_EPC)" and "priv (harts t ! h) = UserMode"
    and "csrs (harts t ! h) Satp = satp" and "procs t = procs s" and "vd t = vd s" and "plic t = plic s"
    and "\<forall>x. x < tf \<or> tf + 288 \<le> x \<longrightarrow> pmem t x = pmem s x"
proof -
  let ?s3 = "s\<lparr>harts := (harts s)[h := user_csrs a (load64 (pmem s) (tf + TF_EPC)) (harts s ! h)],
      pmem := tf_kernel a (harts s ! h) (p_kstack (procs s ! me)) tf (pmem s)\<rparr>"
  have ret: "usertrap_return a h me s = Inr (satp, ?s3)" unfolding pt by (rule usertrap_return_run [OF h tf])
  obtain m3 where leave: "thenk (on_hart h (wx A0 satp)) (run_asm tr h userret) ?s3 = Inr ((), ?s3\<lparr>harts := (harts ?s3)[h := m3]\<rparr>)"
    and regs: "\<forall>(r, off) \<in> set tf_regs. rx r m3 = load64 (pmem ?s3) (tf + off)"
    and m3: "pc m3 = load64 (pmem s) (tf + TF_EPC)" "priv m3 = UserMode" "csrs m3 Satp = satp"
    and "intr_get m3" "csrs m3 Stvec = TRAMPOLINE + ka_uservec_off a"
    by (rule leave_kernel [of h ?s3 a "load64 (pmem s) (tf + TF_EPC)" "harts s ! h", OF _ _ map]) (simp_all add: h)
  have "rx r m3 = load64 (pmem s) (tf + off)" if r: "(r, off) \<in> set tf_regs" for r off
  proof -
    have "rx r m3 = load64 (pmem ?s3) (tf + off)" using regs r by blast
    then show ?thesis using tf_off [OF r] by (simp add: tf_kernel_keeps)
  qed
  then show thesis
    by (intro that [OF ret leave]) (use h m3 in \<open>auto simp: tf_kernel_outside\<close>)
qed

text \<open>What a user program has in its registers, once the trapframe holds them again.\<close>

lemma regs_back:
  assumes regs: "\<forall>(r, off) \<in> set tf_regs. rx r m3 = load64 w (tf + off)"
    and w: "\<forall>(r, off) \<in> set tf_regs. load64 w (tf + off) = (if r = A0 then v else load64 (saved tf m w0) (tf + off))"
  shows "rx r m3 = (if r = A0 then v else rx r m)"
proof (cases "r = Zero")
  case False
  then obtain off where r: "(r, off) \<in> set tf_regs" using tf_regs_all by blast
  then have "rx r m3 = (if r = A0 then v else load64 (saved tf m w0) (tf + off))" using regs w by fastforce
  then show ?thesis using saved_regs [OF r, of tf m w0] by simp
qed (simp add: rx_def)


section \<open>A system call\<close>

lemma a0_apart: "(r, off) \<in> set tf_regs \<Longrightarrow> r \<noteq> A0 \<Longrightarrow> off + 8 \<le> TF_A0 \<or> TF_A0 + 8 \<le> off"
  by (auto simp: tf_regs_def tf_tab_def TF_A0_def)

lemma a0_slot: "(A0, off) \<in> set tf_regs \<Longrightarrow> off = TF_A0"
  by (auto simp: tf_regs_def tf_tab_def TF_A0_def)

lemma usertrap_getpid_run:
  assumes h: "h < length (harts s)" and spp: "and (csrs (harts s ! h) Sstatus) SSTATUS_SPP = 0"
    and cause: "csrs (harts s ! h) Scause = 8" and num: "load64 (pmem s) (tf + TF_A7) = 11"
    and alive: "p_killed (procs s ! me) = 0" and tf: "unat (p_trapframe (procs s ! me)) = tf"
    and trace: "and (p_trace_mask (procs s ! me)) (push_bit 11 1) = 0"
  obtains m2 where "usertrap a pad h me d s = bindk (usertrap_return a h me) (\<lambda>satp. ret (Back satp))
      (s\<lparr>harts := (harts s)[h := m2], pmem := store64 (tf + TF_A0) (of_int (p_pid (procs s ! me)))
          (store64 (tf + TF_EPC) (csrs (harts s ! h) Sepc + 4) (store64 (tf + TF_EPC) (csrs (harts s ! h) Sepc) (pmem s)))\<rparr>)"
proof -
  let ?m = "intr_on (w_stvec (ka_kernelvec a) (harts s ! h))"
  let ?s = "s\<lparr>pmem := store64 (tf + TF_EPC) (csrs (harts s ! h) Sepc + 4)
      (store64 (tf + TF_EPC) (csrs (harts s ! h) Sepc) (pmem s)), harts := (harts s)[h := ?m]\<rparr>"
  let ?t = "?s\<lparr>pmem := store64 (tf + TF_A0) (of_int (p_pid (procs s ! me))) (pmem ?s)\<rparr>"
  have "load64 (pmem ?s) (tf + TF_A7) = 11" using num by (simp add: epc_apart TF_A7_def)
  then have call: "syscall a pad h me [] 0 [] ?s = Inr (Done (of_int (p_pid (procs s ! me))), ?t)"
    using tf trace by (simp add: syscall_def trun_defs syscalls_def syscall_names_def ret_int_def sys_getpid_def whenk_def)
  have "usertrap a pad h me d s = bindk (syscall a pad h me [] 0 [])
      (\<lambda>r. case r of Done _ \<Rightarrow> usertrap_end a h me 0 | _ \<Rightarrow> ret (In_call r)) ?s"
    using h spp cause tf alive
    by (simp add: usertrap_def trun_defs killed_def r_sstatus_def r_sepc_def r_scause_def w_stvec_def)
  also have "\<dots> = usertrap_end a h me 0 ?t" using call by (simp add: bindk_def)
  also have "\<dots> = bindk (usertrap_return a h me) (\<lambda>satp. ret (Back satp)) ?t"
    using alive by (simp add: usertrap_end_def killed_def bindk_def [of "gets _"] gets_def)
  finally show thesis by (intro that [of ?m]) simp
qed

text \<open>
  C12. The system call \<^verbatim>\<open>getpid\<close>, from the \<^verbatim>\<open>ecall\<close> instruction of the user program back to the
  instruction after it: a0 has the process's id, every other register keeps its value, the program
  goes on four bytes further in user mode on its own page table, the process table is unchanged and no
  memory outside the trapframe is touched.
\<close>

theorem getpid_trap:
  assumes h: "h < length (harts s)" and m: "harts s ! h = m" "priv m = UserMode" and num: "rx A7 m = 11"
    and tf: "unat (p_trapframe (procs s ! me)) = tf" and pt: "csrs m Satp = MAKE_SATP (p_pagetable (procs s ! me))"
    and map: "maps tr 36 (csrs m Satp) TRAPFRAME tf"
    and alive: "p_killed (procs s ! me) = 0" and trace: "and (p_trace_mask (procs s ! me)) (push_bit 11 1) = 0"
  shows "\<exists>t. user_trap tr a pad h me d ra 8 tv s = Inr (Back (csrs m Satp), t)
    \<and> (\<forall>r. rx r (harts t ! h) = (if r = A0 then of_int (p_pid (procs s ! me)) else rx r m))
    \<and> pc (harts t ! h) = pc m + 4 \<and> priv (harts t ! h) = UserMode
    \<and> csrs (harts t ! h) Satp = csrs m Satp \<and> procs t = procs s
    \<and> (\<forall>x. x < tf \<or> tf + 288 \<le> x \<longrightarrow> pmem t x = pmem s x)"
proof -
  let ?pid = "of_int (p_pid (procs s ! me))"
  obtain m1 where enter: "thenk (on_hart h (take_trap 8 tv)) (run_asm tr h (uservec ra)) s =
      Inr ((), s\<lparr>harts := (harts s)[h := m1], pmem := saved tf m (pmem s)\<rparr>)" (is "_ = Inr ((), ?s1)")
    and m1: "csrs m1 Sepc = pc m" "csrs m1 Scause = 8" "and (csrs m1 Sstatus) SSTATUS_SPP = 0"
    by (rule enter_kernel [OF h m map])
  have "(A7, TF_A7) \<in> set tf_regs" by (simp add: tf_regs_def tf_tab_def TF_A7_def)
  then have a7: "load64 (saved tf m (pmem s)) (tf + TF_A7) = 11" using saved_regs num by fastforce
  obtain m2 where ut: "usertrap a pad h me d ?s1 = bindk (usertrap_return a h me) (\<lambda>satp. ret (Back satp))
      (?s1\<lparr>harts := (harts ?s1)[h := m2], pmem := store64 (tf + TF_A0) (of_int (p_pid (procs ?s1 ! me)))
          (store64 (tf + TF_EPC) (csrs (harts ?s1 ! h) Sepc + 4) (store64 (tf + TF_EPC) (csrs (harts ?s1 ! h) Sepc) (pmem ?s1)))\<rparr>)"
    (is "_ = bindk _ _ ?s2")
    by (rule usertrap_getpid_run [of h ?s1 tf me a pad d]) (use h m1 a7 alive tf trace in simp_all)
  let ?w = "store64 (tf + TF_A0) ?pid (store64 (tf + TF_EPC) (pc m + 4) (store64 (tf + TF_EPC) (pc m) (saved tf m (pmem s))))"
  have p2: "pmem ?s2 = ?w" using h by (simp add: m1)
  obtain s3 t where ret: "usertrap_return a h me ?s2 = Inr (csrs m Satp, s3)"
    and leave: "thenk (on_hart h (wx A0 (csrs m Satp))) (run_asm tr h userret) s3 = Inr ((), t)"
    and regs: "\<forall>(r, off) \<in> set tf_regs. rx r (harts t ! h) = load64 (pmem ?s2) (tf + off)"
    and t: "pc (harts t ! h) = load64 (pmem ?s2) (tf + TF_EPC)" "priv (harts t ! h) = UserMode"
      "csrs (harts t ! h) Satp = csrs m Satp" "procs t = procs ?s2" "vd t = vd ?s2" "plic t = plic ?s2"
    and out: "\<forall>x. x < tf \<or> tf + 288 \<le> x \<longrightarrow> pmem t x = pmem ?s2 x"
    by (rule back_to_user [of h ?s2 me tf "csrs m Satp" tr a]) (simp_all add: h tf pt map [unfolded pt])
  have ut: "usertrap a pad h me d ?s1 = Inr (Back (csrs m Satp), s3)" unfolding ut using ret by (simp add: bindk_def ret_def)
  have "\<forall>(r, off) \<in> set tf_regs. load64 ?w (tf + off) = (if r = A0 then ?pid else load64 (saved tf m (pmem s)) (tf + off))"
    using tf_off a0_apart a0_slot by (fastforce simp: epc_apart load_store64_other)
  then have "\<forall>r. rx r (harts t ! h) = (if r = A0 then ?pid else rx r m)"
    using regs_back [OF regs [unfolded p2]] by blast
  moreover have "\<forall>x. x < tf \<or> tf + 288 \<le> x \<longrightarrow> pmem t x = pmem s x"
    using out p2 by (auto simp: saved_outside TF_EPC_def TF_A0_def)
  moreover have "load64 ?w (tf + TF_EPC) = pc m + 4" by (simp add: load_store64_other TF_EPC_def TF_A0_def)
  ultimately show ?thesis
    using user_trap_split [OF enter ut leave] t h m1 by simp
qed

section \<open>A process on a machine\<close>

definition user_hart :: hart where
  "user_hart = \<lparr>xregs = (\<lambda>r. if r = A7 then 11 else 5), csrs = (\<lambda>_. MAKE_SATP 0x87000000), pc = 0x1000, priv = UserMode\<rparr>"

definition demo_trap :: trap_state where
  "demo_trap = undefined\<lparr>procs := [undefined\<lparr>p_pid := 3, p_killed := 0, p_trace_mask := 0, p_pagetable := 0x87000000,
     p_trapframe := TRAPFRAME\<rparr>], pmem := (\<lambda>_. 0), bufs := [demo_buf], vd := demo_vd, mmio := [], harts := [user_hart], plic := []\<rparr>"

lemma demo_trap_inv: "vinv demo_trap"
  by (rule vinit_vinv) (simp add: vinit_def demo_trap_def demo_vd_def lengths_ok_def NUM_def list_all_iff)

lemma demo_trap_maps: "maps bare 36 (csrs user_hart Satp) TRAPFRAME (unat TRAPFRAME)"
  by (rule maps_bare) (simp add: TRAPFRAME_def TRAMPOLINE_def MAXVA_def PGSIZE_def)

definition demo_dev :: dev_in where
  "demo_dev = \<lparr>di_plic = (\<lambda>_. 1), di_idle = True, di_rx = [], di_virtio = (\<lambda>_. 1)\<rparr>"

lemma demo_trap_ok:
  "0 < length (harts demo_trap)" "harts demo_trap ! 0 = user_hart" "priv user_hart = UserMode" "rx A7 user_hart = 11"
  "unat (p_trapframe (procs demo_trap ! 0)) = unat TRAPFRAME"
  "csrs user_hart Satp = MAKE_SATP (p_pagetable (procs demo_trap ! 0))" "p_killed (procs demo_trap ! 0) = 0"
  "and (p_trace_mask (procs demo_trap ! 0)) (push_bit 11 1) = 0" "p_pid (procs demo_trap ! 0) = 3"
  "plic_claim 0 demo_dev = VIRTIO0_IRQ" "pc user_hart = 0x1000"
  by (simp_all add: demo_trap_def user_hart_def rx_def plic_claim_def demo_dev_def VIRTIO0_IRQ_def)


theorem getpid_trap_witness:
  "\<exists>t. user_trap bare undefined [] 0 0 demo_dev 0x80003000 8 0 demo_trap
      = Inr (Back (csrs user_hart Satp), t) \<and> pc (harts t ! 0) = 0x1004 \<and> rx A0 (harts t ! 0) = 3"
proof -
  obtain t where "user_trap bare undefined [] 0 0 demo_dev 0x80003000 8 0 demo_trap
      = Inr (Back (csrs user_hart Satp), t)" "pc (harts t ! 0) = pc user_hart + 4"
    "rx A0 (harts t ! 0) = (if A0 = A0 then of_int (p_pid (procs demo_trap ! 0)) else rx A0 user_hart)"
    using getpid_trap [OF demo_trap_ok(1-6) demo_trap_maps demo_trap_ok(7,8)] by blast
  then show ?thesis using demo_trap_ok by simp
qed

end
