(* ===== verification/Mkfs.thy ===== *)
theory Mkfs
  imports Fs_Blocks User_Io
begin

text \<open>
  The image builder \<^verbatim>\<open>mkfs/mkfs.c\<close>.

  \<^item> The image file is the list \<open>img\<close> of its blocks. \<^verbatim>\<open>wsect\<close> behind the end extends the file, \<^verbatim>\<open>rsect\<close>
    there ends the program. The byte offset of a sector is computed in 32 bits.
  \<^item> \<^verbatim>\<open>xint\<close> and \<^verbatim>\<open>xshort\<close> are the little-endian encodings of the on-disk structures.
  \<^item> \<^verbatim>\<open>assert\<close> and \<^verbatim>\<open>die\<close> end the program; they are panics. Messages are left out.
  \<^item> A file named on the command line is its name and the pieces \<^verbatim>\<open>read\<close> gives of it.

  Appending to a file puts the bytes behind those it has, in every block of the file, direct or
  indirect, and touches no block of another file; the bitmap marks exactly the blocks handed out.
\<close>

section \<open>Image\<close>

definition FSSIZE :: nat where "FSSIZE = 2000"
definition NINODES :: nat where "NINODES = 200"
definition nbitmap :: nat where "nbitmap = FSSIZE div BPB + 1"
definition ninodeblocks :: nat where "ninodeblocks = NINODES div IPB + 1"
definition nlog :: nat where "nlog = LOGBLOCKS + 1"
definition nmeta :: nat where "nmeta = 2 + nlog + ninodeblocks + nbitmap"
definition nblocks :: nat where "nblocks = FSSIZE - nmeta"

definition mkfs_sb :: superblock where
  "mkfs_sb = \<lparr>sb_magic = FSMAGIC, sb_size = of_nat FSSIZE, sb_nblocks = of_nat nblocks, sb_ninodes = of_nat NINODES,
     sb_nlog = of_nat nlog, sb_logstart = 2, sb_inodestart = of_nat (2 + nlog), sb_bmapstart = of_nat (2 + nlog + ninodeblocks)\<rparr>"

record mk_state =
  img :: "block list"
  freeinode :: u32
  freeblock :: u32

definition sect_pos :: "u32 \<Rightarrow> nat" where
  "sect_pos sec = unat (sec * of_nat BSIZE) div BSIZE"

definition wsect :: "u32 \<Rightarrow> block \<Rightarrow> (mk_state, unit) kmon" where
  "wsect sec buf = modk (\<lambda>s. let im = img s; i = sect_pos sec in
     s\<lparr>img := if i < length im then im[i := buf] else im @ replicate (i - length im) (replicate BSIZE 0) @ [buf]\<rparr>)"

definition rsect :: "u32 \<Rightarrow> (mk_state, block) kmon" where
  "rsect sec =
     bindk (gets img) (\<lambda>im.
     if sect_pos sec < length im then ret (im ! sect_pos sec) else panic ''read'')"

definition winode :: "u32 \<Rightarrow> dinode \<Rightarrow> (mk_state, unit) kmon" where
  "winode inum ip =
     (let bn = IBLOCK inum mkfs_sb in
      bindk (rsect bn) (\<lambda>buf. wsect bn (put_rec enc_dinode 64 (unat inum mod IPB) ip buf)))"

definition rinode :: "u32 \<Rightarrow> (mk_state, dinode) kmon" where
  "rinode inum =
     bindk (rsect (IBLOCK inum mkfs_sb)) (\<lambda>buf. ret (get_rec dec_dinode 64 (unat inum mod IPB) buf))"

definition zero_dinode :: dinode where
  "zero_dinode = \<lparr>di_type = 0, di_major = 0, di_minor = 0, di_nlink = 0, di_size = 0, di_addrs = replicate (NDIRECT + 1) 0\<rparr>"

definition mkfs_ialloc :: "ushort \<Rightarrow> (mk_state, u32) kmon" where
  "mkfs_ialloc type =
     bindk (gets freeinode) (\<lambda>inum.
     thenk (modk (\<lambda>s. s\<lparr>freeinode := inum + 1\<rparr>))
     (thenk (winode inum (zero_dinode\<lparr>di_type := type, di_nlink := 1, di_size := 0\<rparr>))
     (ret inum)))"

definition mkfs_balloc :: "int \<Rightarrow> (mk_state, unit) kmon" where
  "mkfs_balloc n =
     (if \<not> n < int BPB then panic ''assert''
      else wsect (sb_bmapstart mkfs_sb) (fold bm_set [0..<nat n] (replicate BSIZE 0)))"

section \<open>Files\<close>

text \<open>\<^verbatim>\<open>freeblock++\<close>\<close>

definition next_block :: "(mk_state, u32) kmon" where
  "next_block = bindk (gets freeblock) (\<lambda>b. thenk (modk (\<lambda>s. s\<lparr>freeblock := b + 1\<rparr>)) (ret b))"

definition set_addr :: "nat \<Rightarrow> u32 \<Rightarrow> dinode \<Rightarrow> dinode" where
  "set_addr i b din = din\<lparr>di_addrs := (di_addrs din)[i := b]\<rparr>"

definition have_addr :: "nat \<Rightarrow> dinode \<Rightarrow> (mk_state, dinode) kmon" where
  "have_addr i din =
     (if di_addrs din ! i = 0 then bindk next_block (\<lambda>b. ret (set_addr i b din)) else ret din)"

definition have_entry :: "u32 \<Rightarrow> nat \<Rightarrow> (mk_state, u32) kmon" where
  "have_entry ib i =
     bindk (rsect ib) (\<lambda>indirect.
     if get_rec dec32 4 i indirect = 0
     then bindk next_block (\<lambda>b. thenk (wsect ib (put_rec enc32 4 i b indirect)) (ret b))
     else ret (get_rec dec32 4 i indirect))"

definition append_block :: "nat \<Rightarrow> dinode \<Rightarrow> (mk_state, u32 \<times> dinode) kmon" where
  "append_block fbn din =
     (if fbn < NDIRECT then bindk (have_addr fbn din) (\<lambda>din. ret (di_addrs din ! fbn, din))
      else bindk (have_addr NDIRECT din) (\<lambda>din.
        bindk (have_entry (di_addrs din ! NDIRECT) (fbn - NDIRECT)) (\<lambda>x. ret (x, din))))"

function append_loop :: "u32 \<Rightarrow> bytes \<Rightarrow> dinode \<Rightarrow> (mk_state, u32 \<times> dinode) kmon" where
  "append_loop off p din =
     (if p = [] then ret (off, din)
      else let fbn = unat off div BSIZE; n1 = min (length p) ((fbn + 1) * BSIZE - unat off) in
        if \<not> fbn < MAXFILE then panic ''assert''
        else bindk (append_block fbn din) (\<lambda>(x, din).
          bindk (rsect x) (\<lambda>buf.
          thenk (wsect x (splice (unat off - fbn * BSIZE) (take n1 p) buf))
          (append_loop (off + of_nat n1) (drop n1 p) din))))"
  by pat_completeness auto
termination
  by (relation "measure (\<lambda>(off, p, din). length p)")
    (auto simp: BSIZE_def min_def less_diff_conv2 dividend_less_times_div [simplified mult.commute])

declare append_loop.simps [simp del]

definition iappend :: "u32 \<Rightarrow> bytes \<Rightarrow> (mk_state, unit) kmon" where
  "iappend inum p =
     bindk (rinode inum) (\<lambda>din.
     bindk (append_loop (di_size din) p din) (\<lambda>(off, din).
     winode inum (din\<lparr>di_size := off\<rparr>)))"

section \<open>The whole image\<close>

definition entry_for :: "u32 \<Rightarrow> bytes \<Rightarrow> bytes" where
  "entry_for inum name = enc_dirent \<lparr>de_inum = ucast inum, de_name = take DIRSIZ (name @ replicate DIRSIZ 0)\<rparr>"

definition shortname :: "bytes \<Rightarrow> bytes" where
  "shortname arg = (if take 5 arg = str ''user/'' then drop 5 arg else arg)"

definition add_file :: "u32 \<Rightarrow> bytes \<times> bytes list \<Rightarrow> (mk_state, unit) kmon" where
  "add_file rootino f =
     (case f of (arg, pieces) \<Rightarrow>
      let short = shortname arg in
      if 47 \<in> set short then panic ''assert''
      else
        let name = (if take 1 short = [95] then drop 1 short else short) in
        if \<not> length name \<le> DIRSIZ then panic ''assert''
        else bindk (mkfs_ialloc T_FILE) (\<lambda>inum.
          thenk (iappend rootino (entry_for inum name))
          (for_each pieces (iappend inum))))"

definition fix_size :: "u32 \<Rightarrow> (mk_state, unit) kmon" where
  "fix_size rootino =
     bindk (rinode rootino) (\<lambda>din. winode rootino (din\<lparr>di_size := (di_size din div of_nat BSIZE + 1) * of_nat BSIZE\<rparr>))"

definition mkfs :: "(bytes \<times> bytes list) list \<Rightarrow> (mk_state, unit) kmon" where
  "mkfs files =
     thenk (modk (\<lambda>_. \<lparr>img = [], freeinode = 1, freeblock = of_nat nmeta\<rparr>))
     (thenk (for_each [0..<FSSIZE] (\<lambda>i. wsect (of_nat i) (replicate BSIZE 0)))
     (thenk (wsect 1 (splice 0 (enc_superblock mkfs_sb) (replicate BSIZE 0)))
     (bindk (mkfs_ialloc T_DIR) (\<lambda>rootino.
      if rootino \<noteq> ROOTINO then panic ''assert''
      else
        thenk (iappend rootino (entry_for rootino (str ''.'')))
        (thenk (iappend rootino (entry_for rootino (str ''..'')))
        (thenk (for_each files (add_file rootino))
        (thenk (fix_size rootino)
        (bindk (gets freeblock) (\<lambda>b. mkfs_balloc (sint b))))))))))"

section \<open>Sectors\<close>

definition image_ok :: "block list \<Rightarrow> bool" where
  "image_ok im \<longleftrightarrow> length im = FSSIZE \<and> (\<forall>b \<in> set im. length b = BSIZE)"

lemma sect_pos: "unat x < FSSIZE \<Longrightarrow> sect_pos x = unat x"
  by (simp add: sect_pos_def FSSIZE_def BSIZE_def unat_word_ariths)

lemma rsect_run: "image_ok (img s) \<Longrightarrow> unat x < FSSIZE \<Longrightarrow> wp (rsect x) s Q = Q (img s ! unat x) s"
  by (simp add: rsect_def sect_pos image_ok_def)

lemma wsect_run:
  "image_ok (img s) \<Longrightarrow> unat x < FSSIZE \<Longrightarrow> wp (wsect x b) s Q = Q () (s\<lparr>img := (img s)[unat x := b]\<rparr>)"
  by (simp add: wsect_def sect_pos image_ok_def Let_def)

lemma image_ok_nth: "image_ok im \<Longrightarrow> i < FSSIZE \<Longrightarrow> length (im ! i) = BSIZE"
  by (simp add: image_ok_def)

lemma image_ok_upd: "image_ok im \<Longrightarrow> length b = BSIZE \<Longrightarrow> image_ok (im[i := b])"
  by (auto simp: image_ok_def dest!: set_update_subset_insert [THEN subsetD])

lemmas sect_wp = rsect_run wsect_run

section \<open>The blocks of a file\<close>

definition addr_of :: "block list \<Rightarrow> dinode \<Rightarrow> nat \<Rightarrow> u32" where
  "addr_of im din k =
     (if k < NDIRECT then di_addrs din ! k
      else if di_addrs din ! NDIRECT = 0 then 0
      else get_rec dec32 4 (k - NDIRECT) (im ! unat (di_addrs din ! NDIRECT)))"

text \<open>Blocks \<open>\<ge> fb\<close> have not been handed out and are zero; those of the file are distinct.\<close>

definition blocks_ok :: "block list \<Rightarrow> dinode \<Rightarrow> nat \<Rightarrow> bool" where
  "blocks_ok im din fb \<longleftrightarrow> length (di_addrs din) = NDIRECT + 1
     \<and> (let ib = di_addrs din ! NDIRECT in
        (ib \<noteq> 0 \<longrightarrow> nmeta \<le> unat ib \<and> unat ib < fb)
        \<and> (\<forall>k < MAXFILE. addr_of im din k \<noteq> 0 \<longrightarrow> nmeta \<le> unat (addr_of im din k) \<and> unat (addr_of im din k) < fb
             \<and> addr_of im din k \<noteq> ib)
        \<and> inj_on (addr_of im din) {k. k < MAXFILE \<and> addr_of im din k \<noteq> 0})"

definition fresh_ok :: "block list \<Rightarrow> nat \<Rightarrow> bool" where
  "fresh_ok im fb \<longleftrightarrow> nmeta \<le> fb \<and> (\<forall>b < FSSIZE. fb \<le> b \<longrightarrow> im ! b = replicate BSIZE 0)"

definition blocks_of :: "block list \<Rightarrow> dinode \<Rightarrow> nat set" where
  "blocks_of im din = unat ` (insert (di_addrs din ! NDIRECT) (addr_of im din ` {..<MAXFILE}) - {0})"

definition byte_of :: "block list \<Rightarrow> dinode \<Rightarrow> nat \<Rightarrow> uchar" where
  "byte_of im din i = im ! unat (addr_of im din (i div BSIZE)) ! (i mod BSIZE)"

definition mk_inv :: "mk_state \<Rightarrow> dinode \<Rightarrow> bool" where
  "mk_inv s din \<longleftrightarrow> image_ok (img s) \<and> blocks_ok (img s) din (unat (freeblock s)) \<and> fresh_ok (img s) (unat (freeblock s))"

text \<open>
  The file in \<open>t\<close> has the places it has in \<open>s\<close> and maybe more, the same bytes below \<open>n\<close>, and nothing else
  that was in use has changed.
\<close>

definition extends :: "nat \<Rightarrow> mk_state \<Rightarrow> dinode \<Rightarrow> mk_state \<Rightarrow> dinode \<Rightarrow> bool" where
  "extends n s din t din' \<longleftrightarrow>
     unat (freeblock s) \<le> unat (freeblock t) \<and> freeinode t = freeinode s
     \<and> (\<forall>k < MAXFILE. addr_of (img s) din k \<noteq> 0 \<longrightarrow> addr_of (img t) din' k = addr_of (img s) din k)
     \<and> (\<forall>i < n. i div BSIZE < MAXFILE \<longrightarrow> addr_of (img s) din (i div BSIZE) \<noteq> 0 \<longrightarrow> byte_of (img t) din' i = byte_of (img s) din i)
     \<and> (\<forall>b < unat (freeblock s). b \<notin> blocks_of (img s) din \<longrightarrow> img t ! b = img s ! b)
     \<and> (\<forall>b \<in> blocks_of (img t) din'. b \<in> blocks_of (img s) din \<or> unat (freeblock s) \<le> b)"

lemma extends_refl: "extends n s din s din"
  by (simp add: extends_def)

lemma extends_trans:
  assumes 1: "extends n s din t din'" and 2: "extends m t din' u din''" and "n \<le> m"
  shows "extends n s din u din''"
  unfolding extends_def
proof (intro conjI allI ballI impI)
  show "unat (freeblock s) \<le> unat (freeblock u)" "freeinode u = freeinode s" using 1 2 by (auto simp: extends_def)
  fix k assume "k < MAXFILE" "addr_of (img s) din k \<noteq> 0"
  then show "addr_of (img u) din'' k = addr_of (img s) din k" using 1 2 by (simp add: extends_def)
next
  fix i assume i: "i < n" "i div BSIZE < MAXFILE" "addr_of (img s) din (i div BSIZE) \<noteq> 0"
  then have "byte_of (img t) din' i = byte_of (img s) din i" "addr_of (img t) din' (i div BSIZE) \<noteq> 0"
    using 1 by (simp_all add: extends_def)
  then show "byte_of (img u) din'' i = byte_of (img s) din i" using 2 i \<open>n \<le> m\<close> by (simp add: extends_def)
next
  fix b assume b: "b < unat (freeblock s)" "b \<notin> blocks_of (img s) din"
  then have "img t ! b = img s ! b" "b \<notin> blocks_of (img t) din'" "b < unat (freeblock t)"
    using 1 by (auto simp: extends_def)
  then show "img u ! b = img s ! b" using 2 by (simp add: extends_def)
next
  fix b assume "b \<in> blocks_of (img u) din''"
  then show "b \<in> blocks_of (img s) din \<or> unat (freeblock s) \<le> b" using 1 2 unfolding extends_def by (meson order_trans)
qed

lemma next_block_run: "wp next_block s Q = Q (freeblock s) (s\<lparr>freeblock := freeblock s + 1\<rparr>)"
  by (simp add: next_block_def)

lemma zero_entry: "get_rec dec32 4 i (replicate n 0) = 0"
  by (simp add: get_rec_def slice_def dec32_def)

text \<open>One more block \<open>b\<close> of a file, the next that is free.\<close>

lemma one_more:
  assumes inv: "mk_inv s din" and t: "image_ok (img t)" "freeblock t = freeblock s + 1" "freeinode t = freeinode s"
    and room: "unat (freeblock s) < FSSIZE" and fbn: "addr_of (img s) din fbn = 0"
    and len: "length (di_addrs din') = NDIRECT + 1" and ib: "di_addrs din' ! NDIRECT = di_addrs din ! NDIRECT"
    and addr: "\<forall>k < MAXFILE. addr_of (img t) din' k = (if k = fbn then freeblock s else addr_of (img s) din k)"
    and same: "\<forall>b < FSSIZE. img t ! b = img s ! b \<or> (b = unat (di_addrs din ! NDIRECT) \<and> di_addrs din ! NDIRECT \<noteq> 0)"
  shows "mk_inv t din'" and "extends n s din t din'"
proof -
  let ?fb = "unat (freeblock s)" and ?ib = "di_addrs din ! NDIRECT"
  have fb: "unat (freeblock t) = ?fb + 1" using room by (simp add: t unat_word_ariths FSSIZE_def)
  have ok: "?ib \<noteq> 0 \<Longrightarrow> nmeta \<le> unat ?ib \<and> unat ?ib < ?fb"
    "\<And>k. k < MAXFILE \<Longrightarrow> addr_of (img s) din k \<noteq> 0 \<Longrightarrow> nmeta \<le> unat (addr_of (img s) din k) \<and> unat (addr_of (img s) din k) < ?fb
       \<and> addr_of (img s) din k \<noteq> ?ib"
    "inj_on (addr_of (img s) din) {k. k < MAXFILE \<and> addr_of (img s) din k \<noteq> 0}" "nmeta \<le> ?fb"
    using inv by (auto simp: mk_inv_def blocks_ok_def fresh_ok_def Let_def)
  have nib: "freeblock s \<noteq> ?ib" using ok(1,4) by (cases "?ib = 0") (auto simp: nmeta_def)
  have nad: "k < MAXFILE \<Longrightarrow> addr_of (img s) din k \<noteq> freeblock s" for k
    using ok(2) [of k] ok(4) by (cases "addr_of (img s) din k = 0") (auto simp: nmeta_def)
  have "inj_on (addr_of (img t) din') {k. k < MAXFILE \<and> addr_of (img t) din' k \<noteq> 0}"
    using ok(3) nad addr by (auto simp: inj_on_def split: if_splits) metis+
  then have "blocks_ok (img t) din' (?fb + 1)"
    unfolding blocks_ok_def Let_def ib using ok nib len addr by auto (metis less_SucI)+
  moreover have "fresh_ok (img t) (?fb + 1)"
    using inv same ok(1) by (force simp: mk_inv_def fresh_ok_def)
  ultimately show "mk_inv t din'" using t(1) by (simp add: mk_inv_def fb)
  have keep: "img t ! unat (addr_of (img s) din k) = img s ! unat (addr_of (img s) din k)"
    if "k < MAXFILE" "addr_of (img s) din k \<noteq> 0" for k
    using same ok(2) [OF that] room by (metis order_less_trans word_unat_eq_iff)
  have "b \<in> blocks_of (img s) din \<or> ?fb \<le> b" if "b \<in> blocks_of (img t) din'" for b
    using that addr by (auto simp: blocks_of_def ib split: if_splits)
  moreover have "unat ?ib \<in> blocks_of (img s) din" if "?ib \<noteq> 0" using that by (simp add: blocks_of_def)
  ultimately show "extends n s din t din'"
    unfolding extends_def
  proof (intro conjI allI ballI impI)
    show "unat (freeblock s) \<le> unat (freeblock t)" "freeinode t = freeinode s" using fb t by simp_all
    show addr': "addr_of (img t) din' k = addr_of (img s) din k" if "k < MAXFILE" "addr_of (img s) din k \<noteq> 0" for k
      using addr that fbn by auto
    show "byte_of (img t) din' i = byte_of (img s) din i" if "i div BSIZE < MAXFILE" "addr_of (img s) din (i div BSIZE) \<noteq> 0" for i
      using keep [OF that] addr' [OF that] by (simp add: byte_of_def)
    show "img t ! b = img s ! b" if "b < ?fb" "b \<notin> blocks_of (img s) din" for b
      using same [rule_format, of b] that room \<open>?ib \<noteq> 0 \<Longrightarrow> unat ?ib \<in> blocks_of (img s) din\<close> by auto
  qed blast
qed

lemma addr_upd_direct:
  assumes "i < NDIRECT" and "length (di_addrs din) = NDIRECT + 1"
  shows "addr_of im (set_addr i b din) k = (if k = i then b else addr_of im din k)"
  using assms by (auto simp: addr_of_def set_addr_def nth_list_update)

lemma invD:
  assumes "mk_inv s din"
  shows "image_ok (img s)" and "length (di_addrs din) = NDIRECT + 1" and "fresh_ok (img s) (unat (freeblock s))"
    and "di_addrs din ! NDIRECT \<noteq> 0 \<Longrightarrow> nmeta \<le> unat (di_addrs din ! NDIRECT) \<and> unat (di_addrs din ! NDIRECT) < unat (freeblock s)"
    and "k < MAXFILE \<Longrightarrow> addr_of (img s) din k \<noteq> 0 \<Longrightarrow> nmeta \<le> unat (addr_of (img s) din k)
      \<and> unat (addr_of (img s) din k) < unat (freeblock s) \<and> addr_of (img s) din k \<noteq> di_addrs din ! NDIRECT"
    and "inj_on (addr_of (img s) din) {k. k < MAXFILE \<and> addr_of (img s) din k \<noteq> 0}"
  using assms by (auto simp: mk_inv_def blocks_ok_def Let_def)

lemma freeblock_pos: "mk_inv s din \<Longrightarrow> freeblock s \<noteq> 0"
  by (auto simp: mk_inv_def fresh_ok_def nmeta_def)

lemma addr_not_free: "mk_inv s din \<Longrightarrow> k < MAXFILE \<Longrightarrow> addr_of (img s) din k \<noteq> freeblock s"
  using invD(5) [of s din k] freeblock_pos [of s din] by (cases "addr_of (img s) din k = 0") auto

text \<open>The indirect block itself: it is zero, so the file has no further places yet.\<close>

lemma new_indirect:
  assumes inv: "mk_inv s din" and room: "unat (freeblock s) < FSSIZE" and zero: "di_addrs din ! NDIRECT = 0"
  shows "mk_inv (s\<lparr>freeblock := freeblock s + 1\<rparr>) (set_addr NDIRECT (freeblock s) din)"
    and "extends n s din (s\<lparr>freeblock := freeblock s + 1\<rparr>) (set_addr NDIRECT (freeblock s) din)"
proof -
  let ?d = "set_addr NDIRECT (freeblock s) din" and ?fb = "unat (freeblock s)"
  have fb: "unat (freeblock s + 1) = ?fb + 1" using room by (simp add: unat_word_ariths FSSIZE_def)
  have ib: "di_addrs ?d ! NDIRECT = freeblock s" "length (di_addrs ?d) = NDIRECT + 1"
    using invD(2) [OF inv] by (simp_all add: set_addr_def)
  have "img s ! ?fb = replicate BSIZE 0" using invD(3) [OF inv] room by (simp add: fresh_ok_def)
  then have addr: "addr_of (img s) ?d k = addr_of (img s) din k" for k
    using invD(2) [OF inv] zero by (simp add: addr_of_def set_addr_def zero_entry)
  have nm: "nmeta \<le> ?fb" using invD(3) [OF inv] by (simp add: fresh_ok_def)
  have "blocks_ok (img s) ?d (?fb + 1)"
    unfolding blocks_ok_def Let_def ib addr using invD [OF inv] addr_not_free [OF inv] nm by (auto simp: less_Suc_eq)
  moreover have "fresh_ok (img s) (?fb + 1)" using invD(3) [OF inv] by (simp add: fresh_ok_def)
  ultimately show "mk_inv (s\<lparr>freeblock := freeblock s + 1\<rparr>) ?d" using invD(1) [OF inv] by (simp add: mk_inv_def fb)
  have "blocks_of (img s) ?d \<subseteq> insert ?fb (blocks_of (img s) din)" unfolding blocks_of_def ib addr by auto
  then show "extends n s din (s\<lparr>freeblock := freeblock s + 1\<rparr>) ?d"
    by (auto simp: extends_def addr byte_of_def fb)
qed

lemma have_addr_direct:
  assumes inv: "mk_inv s din" and room: "unat (freeblock s) < FSSIZE" and i: "i < NDIRECT"
  shows "wp (have_addr i din) s (\<lambda>d t. mk_inv t d \<and> extends n s din t d \<and> di_addrs d ! i \<noteq> 0 \<and> unat (freeblock t) \<le> unat (freeblock s) + 1)"
proof (cases "di_addrs din ! i = 0")
  case True
  let ?t = "s\<lparr>freeblock := freeblock s + 1\<rparr>" and ?d = "set_addr i (freeblock s) din"
  have a: "addr_of (img s) din i = 0" using True i by (simp add: addr_of_def)
  have ib: "di_addrs ?d ! NDIRECT = di_addrs din ! NDIRECT" "length (di_addrs ?d) = NDIRECT + 1" "di_addrs ?d ! i = freeblock s"
    using i invD(2) [OF inv] by (simp_all add: set_addr_def)
  have addr: "\<forall>k < MAXFILE. addr_of (img ?t) ?d k = (if k = i then freeblock s else addr_of (img s) din k)"
    using addr_upd_direct [OF i invD(2) [OF inv]] by simp
  have "mk_inv ?t ?d" "extends n s din ?t ?d"
    by (rule one_more [OF inv _ _ _ room a ib(2,1) addr]; simp add: invD(1) [OF inv])+
  moreover have "unat (freeblock s + 1) = unat (freeblock s) + 1" using room by (simp add: unat_word_ariths FSSIZE_def)
  ultimately show ?thesis using True ib freeblock_pos [OF inv] by (simp add: have_addr_def next_block_run)
qed (simp add: have_addr_def inv extends_refl)

lemma have_addr_indirect:
  assumes inv: "mk_inv s din" and room: "unat (freeblock s) < FSSIZE"
  shows "wp (have_addr NDIRECT din) s (\<lambda>d t. mk_inv t d \<and> extends n s din t d \<and> di_addrs d ! NDIRECT \<noteq> 0
    \<and> unat (freeblock t) \<le> unat (freeblock s) + 1)"
proof (cases "di_addrs din ! NDIRECT = 0")
  case True
  have "unat (freeblock s + 1) = unat (freeblock s) + 1" using room by (simp add: unat_word_ariths FSSIZE_def)
  moreover have "di_addrs (set_addr NDIRECT (freeblock s) din) ! NDIRECT = freeblock s" using invD(2) [OF inv] by (simp add: set_addr_def)
  ultimately show ?thesis
    using True new_indirect [OF inv room True] freeblock_pos [OF inv] by (simp add: have_addr_def next_block_run)
qed (simp add: have_addr_def inv extends_refl)

lemma addr_upd_entry:
  assumes ok: "image_ok im" and ib: "di_addrs din ! NDIRECT \<noteq> 0" "unat (di_addrs din ! NDIRECT) < FSSIZE" and i: "i < NINDIRECT"
    and k: "k < MAXFILE"
  shows "addr_of (im[unat (di_addrs din ! NDIRECT) := put_rec enc32 4 i b (im ! unat (di_addrs din ! NDIRECT))]) din k =
    (if k = NDIRECT + i then b else addr_of im din k)"
proof -
  let ?buf = "im ! unat (di_addrs din ! NDIRECT)"
  have len: "length ?buf = BSIZE" "unat (di_addrs din ! NDIRECT) < length im"
    using image_ok_nth [OF ok ib(2)] ok ib(2) by (simp_all add: image_ok_def)
  have "get_rec dec32 4 j (put_rec enc32 4 i b ?buf) = (if j = i then b else get_rec dec32 4 j ?buf)" if "j < NINDIRECT" for j
    using c32.get_put [where x = b and i = i and j = j and bs = ?buf] that i len by (simp add: NINDIRECT_def BSIZE_def)
  then show ?thesis using k len ib(1) by (auto simp: addr_of_def MAXFILE_def)
qed

lemma have_entry_run:
  assumes inv: "mk_inv s din" and room: "unat (freeblock s) < FSSIZE" and ib: "di_addrs din ! NDIRECT \<noteq> 0" and i: "i < NINDIRECT"
  shows "wp (have_entry (di_addrs din ! NDIRECT) i) s (\<lambda>x t. mk_inv t din \<and> extends n s din t din \<and> x \<noteq> 0
    \<and> x = addr_of (img t) din (NDIRECT + i) \<and> unat (freeblock t) \<le> unat (freeblock s) + 1)"
proof -
  let ?ib = "di_addrs din ! NDIRECT"
  let ?buf = "img s ! unat ?ib"
  have lt: "unat ?ib < FSSIZE" using invD(4) [OF inv ib] room by simp
  note ok = invD(1) [OF inv]
  have a: "addr_of (img s) din (NDIRECT + i) = get_rec dec32 4 i ?buf" using ib by (simp add: addr_of_def)
  show ?thesis
  proof (cases "get_rec dec32 4 i ?buf = 0")
    case True
    let ?t = "s\<lparr>freeblock := freeblock s + 1, img := (img s)[unat ?ib := put_rec enc32 4 i (freeblock s) ?buf]\<rparr>"
    have lb: "length (put_rec enc32 4 i (freeblock s) ?buf) = BSIZE"
      using c32.length_put [where x = "freeblock s" and i = i and bs = ?buf] image_ok_nth [OF ok lt] i by (simp add: NINDIRECT_def BSIZE_def)
    have addr: "\<forall>k < MAXFILE. addr_of (img ?t) din k = (if k = NDIRECT + i then freeblock s else addr_of (img s) din k)"
      using addr_upd_entry [OF ok ib lt i] by simp
    have same: "\<forall>b < FSSIZE. img ?t ! b = img s ! b \<or> (b = unat ?ib \<and> ?ib \<noteq> 0)"
      using ib by (auto simp: nth_list_update_neq)
    have okt: "image_ok (img ?t)" using image_ok_upd [OF ok lb] by simp
    have "mk_inv ?t din" "extends n s din ?t din"
      using one_more [OF inv okt _ _ room a [unfolded True] invD(2) [OF inv] refl addr same] by simp_all
    moreover have "unat (freeblock s + 1) = unat (freeblock s) + 1" using room by (simp add: unat_word_ariths FSSIZE_def)
    moreover have "addr_of (img ?t) din (NDIRECT + i) = freeblock s" using addr i by (simp add: MAXFILE_def)
    ultimately show ?thesis
      using True freeblock_pos [OF inv] ok lt by (simp add: have_entry_def sect_wp next_block_run)
  next
    case False
    then show ?thesis using ok lt inv a by (simp add: have_entry_def sect_wp extends_refl)
  qed
qed

lemma append_block_run:
  assumes inv: "mk_inv s din" and room: "unat (freeblock s) + 2 \<le> FSSIZE" and fbn: "fbn < MAXFILE"
  shows "wp (append_block fbn din) s (\<lambda>(x, d) t. mk_inv t d \<and> extends n s din t d \<and> x \<noteq> 0 \<and> x = addr_of (img t) d fbn
    \<and> unat (freeblock t) \<le> unat (freeblock s) + 2)"
proof (cases "fbn < NDIRECT")
  case True
  have "wp (have_addr fbn din) s (\<lambda>d t. mk_inv t d \<and> extends n s din t d \<and> di_addrs d ! fbn \<noteq> 0 \<and> unat (freeblock t) \<le> unat (freeblock s) + 1)"
    using room by (intro have_addr_direct inv True) simp
  then show ?thesis using True by (auto simp: append_block_def addr_of_def elim!: wp_mono)
next
  case False
  have "wp (have_addr NDIRECT din) s (\<lambda>d t. mk_inv t d \<and> extends n s din t d \<and> di_addrs d ! NDIRECT \<noteq> 0 \<and> unat (freeblock t) \<le> unat (freeblock s) + 1)"
    using room by (intro have_addr_indirect inv) simp
  then show ?thesis
  proof (rule wpE)
    fix d t assume run: "have_addr NDIRECT din s = Inr (d, t)" and *: "mk_inv t d \<and> extends n s din t d
        \<and> di_addrs d ! NDIRECT \<noteq> 0 \<and> unat (freeblock t) \<le> unat (freeblock s) + 1"
    have "wp (have_entry (di_addrs d ! NDIRECT) (fbn - NDIRECT)) t (\<lambda>x u. mk_inv u d \<and> extends n t d u d \<and> x \<noteq> 0
        \<and> x = addr_of (img u) d (NDIRECT + (fbn - NDIRECT)) \<and> unat (freeblock u) \<le> unat (freeblock t) + 1)"
      by (rule have_entry_run) (use * room fbn False in \<open>simp_all add: MAXFILE_def\<close>)
    then obtain x u where "have_entry (di_addrs d ! NDIRECT) (fbn - NDIRECT) t = Inr (x, u)" "mk_inv u d" "extends n t d u d"
      "x \<noteq> 0" "x = addr_of (img u) d (NDIRECT + (fbn - NDIRECT))" "unat (freeblock u) \<le> unat (freeblock t) + 1"
      by (auto elim: wpE)
    then show ?thesis
      using run * False extends_trans [of n s din t d n u d] by (simp add: append_block_def wp_def bindk_def ret_def)
  qed
qed

text \<open>Writing into a block the file has.\<close>

lemma write_bytes:
  fixes s din x r q
  defines "t \<equiv> s\<lparr>img := (img s)[unat x := splice r q (img s ! unat x)]\<rparr>"
  assumes inv: "mk_inv s din" and fbn: "fbn < MAXFILE" and x: "x = addr_of (img s) din fbn" "x \<noteq> 0"
    and room: "unat (freeblock s) \<le> FSSIZE" and fit: "r + length q \<le> BSIZE"
  shows "mk_inv t din" and "extends (fbn * BSIZE + r) s din t din"
    and "\<forall>j < length q. byte_of (img t) din (fbn * BSIZE + r + j) = q ! j" and "addr_of (img t) din fbn \<noteq> 0"
proof -
  note bx = invD(5) [OF inv fbn, folded x(1), OF x(2)]
  have xl: "unat x < FSSIZE" "unat x < length (img s)" using bx room invD(1) [OF inv] by (simp_all add: image_ok_def)
  have len: "length (img s ! unat x) = BSIZE" by (rule image_ok_nth [OF invD(1) [OF inv] xl(1)])
  have "unat (di_addrs din ! NDIRECT) \<noteq> unat x" using bx by (metis word_unat_eq_iff)
  then have addr: "addr_of (img t) din k = addr_of (img s) din k" for k
    by (simp add: addr_of_def t_def)
  have ne: "img t ! b = img s ! b" if "b \<noteq> unat x" for b using that by (simp add: t_def)
  have at: "img t ! unat x = splice r q (img s ! unat x)" using xl by (simp add: t_def)
  have "unat x < unat (freeblock s)" "freeblock t = freeblock s" "freeinode t = freeinode s" using bx by (simp_all add: t_def)
  then have "fresh_ok (img t) (unat (freeblock t))" using invD(3) [OF inv] ne by (auto simp: fresh_ok_def)
  moreover have "image_ok (img t)" unfolding t_def using image_ok_upd [OF invD(1) [OF inv]] len fit by simp
  moreover have "addr_of (img t) din = addr_of (img s) din" using addr by blast
  ultimately show "mk_inv t din" using inv \<open>freeblock t = freeblock s\<close> by (simp add: mk_inv_def blocks_ok_def)
  have "byte_of (img t) din i = byte_of (img s) din i"
    if i: "i < fbn * BSIZE + r" "i div BSIZE < MAXFILE" "addr_of (img s) din (i div BSIZE) \<noteq> 0" for i
  proof (cases "i div BSIZE = fbn")
    case True
    then have "i = fbn * BSIZE + i mod BSIZE" by (metis div_mult_mod_eq)
    then have "i mod BSIZE < r" using i(1) by linarith
    then show ?thesis using True x len fit by (simp add: byte_of_def addr at [unfolded x(1)] nth_splice)
  next
    case False
    then have "addr_of (img s) din (i div BSIZE) \<noteq> x" using invD(6) [OF inv] i fbn x by (auto simp: inj_on_def)
    then show ?thesis by (simp add: byte_of_def addr ne word_unat_eq_iff)
  qed
  moreover have "unat x \<in> blocks_of (img s) din" using fbn x by (auto simp: blocks_of_def)
  moreover have "blocks_of (img t) din = blocks_of (img s) din" by (simp add: blocks_of_def addr)
  ultimately show "extends (fbn * BSIZE + r) s din t din"
    unfolding extends_def \<open>freeblock t = _\<close> \<open>freeinode t = _\<close> addr
  proof (intro conjI allI ballI impI)
    show "img t ! b = img s ! b" if "b \<notin> blocks_of (img s) din" for b
      by (rule ne) (use that \<open>unat x \<in> blocks_of (img s) din\<close> in blast)
  qed simp_all
  show "addr_of (img t) din fbn \<noteq> 0" using x by (simp add: addr)
  show "\<forall>j < length q. byte_of (img t) din (fbn * BSIZE + r + j) = q ! j"
  proof (intro allI impI)
    fix j assume j: "j < length q"
    then have "(fbn * BSIZE + r + j) div BSIZE = fbn" "(fbn * BSIZE + r + j) mod BSIZE = r + j"
      using fit BSIZE_pos by (simp_all add: add.assoc)
    then show "byte_of (img t) din (fbn * BSIZE + r + j) = q ! j"
      using x at len fit j by (simp add: byte_of_def addr nth_splice)
  qed
qed

text \<open>The turns of the loop of \<^verbatim>\<open>iappend\<close>.\<close>

definition turns :: "nat \<Rightarrow> nat \<Rightarrow> nat" where
  "turns off n = (if n = 0 then 0 else (off mod BSIZE + n + (BSIZE - 1)) div BSIZE)"

lemma turns_step:
  assumes "0 < n" and "n1 = min n ((off div BSIZE + 1) * BSIZE - off)"
  shows "turns (off + n1) (n - n1) + 1 \<le> turns off n" and "off mod BSIZE + n1 \<le> BSIZE" and "0 < n1"
proof -
  let ?r = "off mod BSIZE"
  have "off = off div BSIZE * BSIZE + ?r" by simp
  then have r: "(off div BSIZE + 1) * BSIZE - off = BSIZE - ?r" "?r < BSIZE"
    unfolding add_mult_distrib using BSIZE_pos by (linarith, simp)
  have m: "n1 = min n (BSIZE - ?r)" using assms(2) r(1) by simp
  then show b: "?r + n1 \<le> BSIZE" "0 < n1" using assms(1) r(2) by linarith+
  show "turns (off + n1) (n - n1) + 1 \<le> turns off n"
  proof (cases "n1 = n")
    case True
    have "BSIZE \<le> ?r + n + (BSIZE - 1)" using assms(1) by simp
    then have "0 < (?r + n + (BSIZE - 1)) div BSIZE" using BSIZE_pos by (simp add: div_greater_zero_iff)
    then show ?thesis using assms(1) True by (simp add: turns_def Suc_le_eq)
  next
    case False
    then have n1: "n1 = BSIZE - ?r" "n1 < n" using m by linarith+
    let ?k = "n - n1 + (BSIZE - 1)"
    have "(off + n1) mod BSIZE = 0" using r(2) n1(1) by (metis add.commute le_add_diff_inverse2 less_imp_le mod_add_right_eq mod_self)
    moreover have "n - n1 \<noteq> 0" using n1(2) by simp
    ultimately have "turns (off + n1) (n - n1) = ?k div BSIZE" unfolding turns_def by (metis add_0)
    moreover have "turns off n = (BSIZE + ?k) div BSIZE"
    proof -
      have "?r + n + (BSIZE - 1) = BSIZE + ?k" using n1 r(2) by linarith
      then show ?thesis using assms(1) unfolding turns_def by (metis not_less_zero)
    qed
    moreover have "(BSIZE + ?k) div BSIZE = ?k div BSIZE + 1" using BSIZE_pos by (simp add: div_add_self1)
    ultimately show ?thesis by simp
  qed
qed

lemma append_loop_run:
  assumes "mk_inv s din" and "unat off + length p \<le> MAXFILE * BSIZE" and "unat (freeblock s) + 2 * turns (unat off) (length p) \<le> FSSIZE"
  shows "wp (append_loop off p din) s (\<lambda>(off', d) t. unat off' = unat off + length p \<and> mk_inv t d \<and> extends (unat off) s din t d
    \<and> (\<forall>i < length p. addr_of (img t) d ((unat off + i) div BSIZE) \<noteq> 0 \<and> byte_of (img t) d (unat off + i) = p ! i))"
  using assms
proof (induction "length p" arbitrary: off p din s rule: less_induct)
  case less
  show ?case
  proof (cases "p = []")
    case True
    then show ?thesis using less.prems(1) by (simp add: append_loop.simps extends_refl)
  next
    case False
    let ?o = "unat off" and ?n = "length p"
    define fbn n1 r where d: "fbn = ?o div BSIZE" "n1 = min ?n ((?o div BSIZE + 1) * BSIZE - ?o)" "r = ?o mod BSIZE"
    have o: "?o = fbn * BSIZE + r" by (simp add: d)
    have n: "0 < ?n" using False by simp
    note st = turns_step [OF n d(2)]
    have "?o < MAXFILE * BSIZE" using less.prems(2) n by linarith
    then have fbn: "fbn < MAXFILE" using BSIZE_pos by (simp add: d div_less_iff_less_mult)
    have n1: "n1 \<le> ?n" by (simp add: d)
    have on: "unat (off + of_nat n1) = ?o + n1"
      using less.prems(2) n1 by (simp add: unat_word_ariths unat_of_nat MAXFILE_def NDIRECT_def NINDIRECT_def BSIZE_def)
    have "wp (append_block fbn din) s (\<lambda>(x, d) t. mk_inv t d \<and> extends ?o s din t d \<and> x \<noteq> 0 \<and> x = addr_of (img t) d fbn
        \<and> unat (freeblock t) \<le> unat (freeblock s) + 2)"
      by (rule append_block_run [OF less.prems(1) _ fbn]) (use less.prems(3) st(1) in linarith)
    then obtain x d1 t where ab: "append_block fbn din s = Inr ((x, d1), t)" and t: "mk_inv t d1" "extends ?o s din t d1"
      "x \<noteq> 0" "x = addr_of (img t) d1 fbn" "unat (freeblock t) \<le> unat (freeblock s) + 2"
      by (auto elim: wpE)
    have room: "unat (freeblock t) \<le> FSSIZE" using t(5) less.prems(3) st(1) by linarith
    have fit: "r + length (take n1 p) \<le> BSIZE" using st(2) n1 by (simp add: d(3))
    let ?u = "t\<lparr>img := (img t)[unat x := splice r (take n1 p) (img t ! unat x)]\<rparr>"
    note u = write_bytes [OF t(1) fbn t(4,3) room fit]
    have "unat x < FSSIZE" using invD(5) [OF t(1) fbn] t room by simp
    then have io: "wp (rsect x) t Q = Q (img t ! unat x) t" "wp (wsect x b) t R = R () (t\<lparr>img := (img t)[unat x := b]\<rparr>)" for Q R b
      using sect_wp invD(1) [OF t(1)] by blast+
    have "wp (append_loop (off + of_nat n1) (drop n1 p) d1) ?u (\<lambda>(off', d) v. unat off' = ?o + n1 + (?n - n1) \<and> mk_inv v d
        \<and> extends (?o + n1) ?u d1 v d
        \<and> (\<forall>i < ?n - n1. addr_of (img v) d ((?o + n1 + i) div BSIZE) \<noteq> 0 \<and> byte_of (img v) d (?o + n1 + i) = drop n1 p ! i))"
      using less.hyps [of "drop n1 p" ?u d1 "off + of_nat n1"] u(1) st n1 n less.prems t(5) by (simp add: on)
    then have "wp (append_loop (off + of_nat n1) (drop n1 p) d1) ?u (\<lambda>(off', d) v. unat off' = ?o + ?n \<and> mk_inv v d \<and> extends ?o s din v d
        \<and> (\<forall>i < ?n. addr_of (img v) d ((?o + i) div BSIZE) \<noteq> 0 \<and> byte_of (img v) d (?o + i) = p ! i))"
    proof (rule wp_mono)
      fix y v assume "(case y of (off', d) \<Rightarrow> \<lambda>v. unat off' = ?o + n1 + (?n - n1) \<and> mk_inv v d \<and> extends (?o + n1) ?u d1 v d
        \<and> (\<forall>i < ?n - n1. addr_of (img v) d ((?o + n1 + i) div BSIZE) \<noteq> 0 \<and> byte_of (img v) d (?o + n1 + i) = drop n1 p ! i)) v"
      then obtain o' d where y: "y = (o', d)" "unat o' = ?o + n1 + (?n - n1)" "mk_inv v d" and ex: "extends (?o + n1) ?u d1 v d"
        and rest: "\<And>i. i < ?n - n1 \<Longrightarrow> addr_of (img v) d ((?o + n1 + i) div BSIZE) \<noteq> 0 \<and> byte_of (img v) d (?o + n1 + i) = drop n1 p ! i"
        by (cases y) blast
      have "extends ?o s din v d"
        by (rule extends_trans [OF extends_trans [OF t(2) u(2) [folded o] order_refl] ex]) simp
      moreover have "addr_of (img v) d ((?o + i) div BSIZE) \<noteq> 0 \<and> byte_of (img v) d (?o + i) = p ! i" if i: "i < ?n" for i
      proof (cases "i < n1")
        case True
        then have "r + i < BSIZE" using st(2) by (simp add: d(3))
        then have dv: "(?o + i) div BSIZE = fbn" unfolding o by (simp add: add.assoc)
        have "addr_of (img v) d fbn = addr_of (img ?u) d1 fbn" "byte_of (img v) d (?o + i) = byte_of (img ?u) d1 (?o + i)"
          using ex fbn u(4) True dv unfolding extends_def by auto
        then show ?thesis using u(3,4) True n1 dv o by (simp add: add.assoc)
      next
        case False
        then show ?thesis using rest [of "i - n1"] i n1 by simp
      qed
      ultimately show "(case y of (off', d) \<Rightarrow> \<lambda>v. unat off' = ?o + ?n \<and> mk_inv v d \<and> extends ?o s din v d
          \<and> (\<forall>i < ?n. addr_of (img v) d ((?o + i) div BSIZE) \<noteq> 0 \<and> byte_of (img v) d (?o + i) = p ! i)) v"
        using y n1 by simp
    qed
    then have step: "wp (bindk (rsect x) (\<lambda>buf. thenk (wsect x (splice r (take n1 p) buf)) (append_loop (off + of_nat n1) (drop n1 p) d1))) t
        (\<lambda>(off', d) v. unat off' = ?o + ?n \<and> mk_inv v d \<and> extends ?o s din v d
        \<and> (\<forall>i < ?n. addr_of (img v) d ((?o + i) div BSIZE) \<noteq> 0 \<and> byte_of (img v) d (?o + i) = p ! i))"
      by (simp add: io)
    have "append_loop off p din = bindk (append_block fbn din) (\<lambda>(x, din). bindk (rsect x) (\<lambda>buf.
        thenk (wsect x (splice r (take n1 p) buf)) (append_loop (off + of_nat n1) (drop n1 p) din)))"
      using False fbn by (subst append_loop.simps) (simp add: Let_def d minus_div_mult_eq_mod)
    then show ?thesis using step ab by (simp only: wp_def bindk_def [of "append_block fbn din"]) simp
  qed
qed

section \<open>Appending to a file of the image\<close>

definition inode_of :: "block list \<Rightarrow> nat \<Rightarrow> dinode" where
  "inode_of im i = get_rec dec_dinode 64 (i mod IPB) (im ! (2 + nlog + i div IPB))"

definition file_bytes :: "block list \<Rightarrow> dinode \<Rightarrow> bytes" where
  "file_bytes im din = map (byte_of im din) [0..<unat (di_size din)]"

lemmas mk_consts = nmeta_def nlog_def ninodeblocks_def nbitmap_def NINODES_def IPB_def BPB_def FSSIZE_def BSIZE_def LOGBLOCKS_def MAXOPBLOCKS_def

lemma inode_block:
  assumes "unat inum < NINODES"
  shows "unat (IBLOCK inum mkfs_sb) = 2 + nlog + unat inum div IPB" and "2 + nlog + unat inum div IPB < nmeta"
  using assms by (simp_all add: IBLOCK_def mkfs_sb_def mk_consts unat_word_ariths unat_div)

lemma inode_io:
  assumes ok: "image_ok (img s)" and i: "unat inum < NINODES"
  shows "wp (rinode inum) s Q = Q (inode_of (img s) (unat inum)) s"
    and "wp (winode inum ip) s R = R () (s\<lparr>img := (img s)[2 + nlog + unat inum div IPB :=
      put_rec enc_dinode 64 (unat inum mod IPB) ip (img s ! (2 + nlog + unat inum div IPB))]\<rparr>)"
proof -
  have b: "unat (IBLOCK inum mkfs_sb) < FSSIZE" using inode_block [OF i] by (simp add: mk_consts)
  show "wp (rinode inum) s Q = Q (inode_of (img s) (unat inum)) s"
    by (simp add: rinode_def rsect_run [OF ok b] inode_block [OF i] inode_of_def)
  show "wp (winode inum ip) s R = R () (s\<lparr>img := (img s)[2 + nlog + unat inum div IPB :=
      put_rec enc_dinode 64 (unat inum mod IPB) ip (img s ! (2 + nlog + unat inum div IPB))]\<rparr>)"
    by (simp add: winode_def Let_def rsect_run [OF ok b] wsect_run [OF ok b] inode_block(1) [OF i])
qed

lemma inode_put:
  assumes ok: "image_ok im" and ip: "dinode_ok ip" and i: "i < NINODES" and j: "j < NINODES"
  shows "inode_of (im[2 + nlog + i div IPB := put_rec enc_dinode 64 (i mod IPB) ip (im ! (2 + nlog + i div IPB))]) j =
    (if j = i then ip else inode_of im j)"
    and "length (put_rec enc_dinode 64 (i mod IPB) ip (im ! (2 + nlog + i div IPB))) = BSIZE"
proof -
  let ?b = "2 + nlog + i div IPB"
  have lt: "?b < FSSIZE" using i by (simp add: mk_consts)
  note len = image_ok_nth [OF ok lt]
  have sl: "Suc (k mod IPB) * 64 \<le> BSIZE" for k by (simp add: IPB_def BSIZE_def)
  show "length (put_rec enc_dinode 64 (i mod IPB) ip (im ! ?b)) = BSIZE"
    using cdi.length_put [OF ip] len sl by simp
  have gp: "get_rec dec_dinode 64 (j mod IPB) (put_rec enc_dinode 64 (i mod IPB) ip (im ! ?b)) =
      (if j mod IPB = i mod IPB then ip else get_rec dec_dinode 64 (j mod IPB) (im ! ?b))"
    by (rule cdi.get_put [OF ip]) (use len sl in simp_all)
  have "j = i \<longleftrightarrow> j div IPB = i div IPB \<and> j mod IPB = i mod IPB" by (metis div_mult_mod_eq)
  then show "inode_of (im[?b := put_rec enc_dinode 64 (i mod IPB) ip (im ! ?b)]) j = (if j = i then ip else inode_of im j)"
    using gp lt ok by (cases "j div IPB = i div IPB") (auto simp: inode_of_def image_ok_def)
qed

text \<open>Writing a block in front of the data blocks, and giving the inode another size.\<close>

lemma meta_write:
  assumes inv: "mk_inv s din" and b: "b < nmeta" "length buf = BSIZE" and t: "t = s\<lparr>img := (img s)[b := buf]\<rparr>" and d: "d = din\<lparr>di_size := z\<rparr>"
  shows "mk_inv t d" and "addr_of (img t) d = addr_of (img s) din"
    and "k div BSIZE < MAXFILE \<Longrightarrow> addr_of (img s) din (k div BSIZE) \<noteq> 0 \<Longrightarrow> byte_of (img t) d k = byte_of (img s) din k"
proof -
  have "addr_of (img t) d k = addr_of (img s) din k" for k
    using invD(4) [OF inv] b by (auto simp: addr_of_def t d)
  then show addr: "addr_of (img t) d = addr_of (img s) din" by blast
  have "fresh_ok (img t) (unat (freeblock t))" using invD(3) [OF inv] b by (auto simp: fresh_ok_def t)
  moreover have "image_ok (img t)" unfolding t using image_ok_upd [OF invD(1) [OF inv] b(2)] by simp
  ultimately show "mk_inv t d" using inv addr by (simp add: mk_inv_def blocks_ok_def t d)
  show "byte_of (img t) d k = byte_of (img s) din k" if "k div BSIZE < MAXFILE" "addr_of (img s) din (k div BSIZE) \<noteq> 0"
    using invD(5) [OF inv that] b by (simp add: byte_of_def addr) (simp add: t)
qed

lemma meta_kept:
  assumes inv: "mk_inv s din" and ex: "extends n s din t d" and b: "b < nmeta"
  shows "img t ! b = img s ! b"
proof -
  have "b \<notin> blocks_of (img s) din"
    using invD(4,5) [OF inv] b by (fastforce simp: blocks_of_def)
  moreover have "b < unat (freeblock s)" using invD(3) [OF inv] b by (simp add: fresh_ok_def)
  ultimately show ?thesis using ex by (simp add: extends_def)
qed

lemma inodes_kept:
  assumes "mk_inv s din" and "extends n s din t d" and "j < NINODES"
  shows "inode_of (img t) j = inode_of (img s) j"
proof -
  have "2 + nlog + j div IPB < nmeta" using assms(3) by (simp add: mk_consts)
  then show ?thesis using meta_kept [OF assms(1,2)] by (simp add: inode_of_def)
qed

text \<open>
  C24. Appending to a file of the image. For an inode whose blocks are in order, with room in the file and
  on the image: the call returns, the file has its old bytes followed by the new ones, every other
  inode is unchanged, and so is every block handed out before that is neither a block of this file nor
  in front of the data blocks. The file's blocks stay in order, so the next call can rely on them.
\<close>

theorem iappend_correct:
  assumes i: "unat inum < NINODES" and din: "din = inode_of (img s) (unat inum)" and inv: "mk_inv s din"
    and has: "\<forall>k < unat (di_size din). addr_of (img s) din (k div BSIZE) \<noteq> 0"
    and fits: "unat (di_size din) + length p \<le> MAXFILE * BSIZE"
    and room: "unat (freeblock s) + 2 * turns (unat (di_size din)) (length p) \<le> FSSIZE"
  shows "\<exists>t d. iappend inum p s = Inr ((), t) \<and> d = inode_of (img t) (unat inum) \<and> mk_inv t d
    \<and> file_bytes (img t) d = file_bytes (img s) din @ p
    \<and> (\<forall>k < unat (di_size d). addr_of (img t) d (k div BSIZE) \<noteq> 0)
    \<and> (\<forall>j < NINODES. j \<noteq> unat inum \<longrightarrow> inode_of (img t) j = inode_of (img s) j)
    \<and> (\<forall>b < unat (freeblock s). nmeta \<le> b \<longrightarrow> b \<notin> blocks_of (img s) din \<longrightarrow> img t ! b = img s ! b)"
proof -
  let ?z = "unat (di_size din)" and ?b = "2 + nlog + unat inum div IPB"
  obtain o' d1 u where run: "append_loop (di_size din) p din s = Inr ((o', d1), u)" and z: "unat o' = ?z + length p"
    and u: "mk_inv u d1" "extends ?z s din u d1"
    and new: "\<forall>k < length p. addr_of (img u) d1 ((?z + k) div BSIZE) \<noteq> 0 \<and> byte_of (img u) d1 (?z + k) = p ! k"
    using append_loop_run [OF inv fits room] by (auto elim!: wpE)
  define d t where d: "d = d1\<lparr>di_size := o'\<rparr>" and t: "t = u\<lparr>img := (img u)[?b := put_rec enc_dinode 64 (unat inum mod IPB) d (img u ! ?b)]\<rparr>"
  have ok: "image_ok (img u)" "dinode_ok d" using invD(1,2) [OF u(1)] by (simp_all add: d dinode_ok_def)
  have b: "?b < nmeta" by (rule inode_block(2) [OF i])
  note put = inode_put [OF ok i]
  note w = meta_write [OF u(1) b put(2) [OF i] t d]
  have ret: "iappend inum p s = Inr ((), t)"
  proof -
    have "wp (iappend inum p) s (\<lambda>_ v. v = t)"
      using run by (simp add: iappend_def inode_io [OF invD(1) [OF inv] i] din [symmetric] wp_def [of "append_loop _ _ _"]
          inode_io [OF ok(1) i] t d)
    then show ?thesis by (auto elim!: wpE)
  qed
  have dt: "d = inode_of (img t) (unat inum)" using put(1) [OF i] by (simp add: t)
  have inside: "k div BSIZE < MAXFILE" if "k < ?z + length p" for k
    using that fits BSIZE_pos by (simp add: div_less_iff_less_mult)
  have all: "addr_of (img u) d1 (k div BSIZE) \<noteq> 0 \<and> byte_of (img u) d1 k = (file_bytes (img s) din @ p) ! k" if k: "k < ?z + length p" for k
  proof (cases "k < ?z")
    case True
    then show ?thesis using u(2) has inside [OF k] by (simp add: extends_def file_bytes_def nth_append)
  next
    case False
    then show ?thesis using new [rule_format, of "k - ?z"] k by (simp add: file_bytes_def nth_append)
  qed
  have "file_bytes (img t) d = file_bytes (img s) din @ p"
    by (rule nth_equalityI) (use all w(3) inside z in \<open>simp_all add: file_bytes_def d\<close>)
  moreover have "\<forall>k < unat (di_size d). addr_of (img t) d (k div BSIZE) \<noteq> 0" using all z by (simp add: w(2)) (simp add: d)
  moreover have "inode_of (img t) j = inode_of (img s) j" if "j < NINODES" "j \<noteq> unat inum" for j
    using put(1) [OF that(1)] that inodes_kept [OF inv u(2) that(1)] by (simp add: t)
  moreover have "img t ! x = img s ! x" if "x < unat (freeblock s)" "nmeta \<le> x" "x \<notin> blocks_of (img s) din" for x
    using u(2) that b by (simp add: extends_def t)
  ultimately show ?thesis using ret dt w(1) by blast
qed

definition blank :: mk_state where
  "blank = \<lparr>img = replicate FSSIZE (replicate BSIZE 0), freeinode = 2, freeblock = of_nat nmeta\<rparr>"

lemma blank_inode:
  assumes "i < NINODES"
  shows "inode_of (img blank) i = zero_dinode"
proof -
  have "img blank ! (2 + nlog + i div IPB) = replicate BSIZE 0" using assms by (simp add: blank_def mk_consts)
  then have "inode_of (img blank) i = dec_dinode (slice (i mod IPB * 64) 64 (replicate BSIZE 0))" by (simp add: inode_of_def get_rec_def)
  moreover have "dec_arr dec32 4 (NDIRECT + 1) (replicate n 0) = replicate (NDIRECT + 1) 0" for n
    by (rule nth_equalityI) (simp_all add: dec_arr_def zero_entry del: upt_Suc replicate_Suc)
  moreover have "dec32 (replicate n 0) = 0" for n by (simp add: dec32_def)
  ultimately show ?thesis
    by (simp add: dec_dinode_def slice_def dec16_def zero_dinode_def)
qed

lemma blank_inv: "mk_inv blank zero_dinode"
proof -
  have z: "di_addrs zero_dinode ! k = 0" if "k \<le> NDIRECT" for k
    using that by (simp add: zero_dinode_def del: replicate_Suc)
  then have "addr_of (img blank) zero_dinode k = 0" for k by (simp add: addr_of_def)
  moreover have "unat (of_nat nmeta :: u32) = nmeta" by (simp add: mk_consts)
  ultimately show ?thesis
    by (simp add: mk_inv_def image_ok_def blocks_ok_def fresh_ok_def Let_def inj_on_def z) (simp add: blank_def zero_dinode_def)
qed

theorem iappend_correct_witness:
  "\<exists>t. iappend 1 [104, 105] blank = Inr ((), t) \<and> file_bytes (img t) (inode_of (img t) 1) = [104, 105]"
proof -
  have d: "zero_dinode = inode_of (img blank) (unat (1 :: u32))" by (subst blank_inode) (simp_all add: NINODES_def)
  have "file_bytes (img blank) zero_dinode = []" by (simp add: file_bytes_def zero_dinode_def)
  moreover have "\<exists>t d. iappend 1 [104, 105] blank = Inr ((), t) \<and> d = inode_of (img t) (unat (1 :: u32)) \<and> mk_inv t d
    \<and> file_bytes (img t) d = file_bytes (img blank) zero_dinode @ [104, 105]
    \<and> (\<forall>k < unat (di_size d). addr_of (img t) d (k div BSIZE) \<noteq> 0)
    \<and> (\<forall>j < NINODES. j \<noteq> unat (1 :: u32) \<longrightarrow> inode_of (img t) j = inode_of (img blank) j)
    \<and> (\<forall>b < unat (freeblock blank). nmeta \<le> b \<longrightarrow> b \<notin> blocks_of (img blank) zero_dinode \<longrightarrow> img t ! b = img blank ! b)"
    by (rule iappend_correct [OF _ d blank_inv])
      (simp_all add: zero_dinode_def turns_def blank_def mk_consts MAXFILE_def NDIRECT_def NINDIRECT_def)
  ultimately show ?thesis by auto
qed

section \<open>The bitmap\<close>

lemma bm_sets_bits:
  assumes "n \<le> BPB" and "j < BPB"
  shows "length (fold bm_set [0..<n] (replicate BSIZE 0)) = BSIZE \<and> (bm_bit (fold bm_set [0..<n] (replicate BSIZE 0)) j \<longleftrightarrow> j < n)"
  using assms(1)
proof (induction n)
  case 0
  have "j div 8 < BSIZE" using assms(2) by (simp add: BPB_def BSIZE_def)
  then show ?case by (simp add: bm_bit_def)
next
  case (Suc n)
  then show ?case using assms(2) by (auto simp: bm_bit_set BPB_def less_Suc_eq) (simp_all add: bm_set_def)
qed

text \<open>\<^verbatim>\<open>balloc\<close> marks exactly the blocks below its argument as used.\<close>

lemma mkfs_balloc_run:
  assumes ok: "image_ok (img s)" and n: "n < BPB"
  shows "wp (mkfs_balloc (int n)) s (\<lambda>_ t. image_ok (img t) \<and> freeblock t = freeblock s
    \<and> (\<forall>b < BPB. bm_bit (img t ! unat (sb_bmapstart mkfs_sb)) b \<longleftrightarrow> b < n)
    \<and> (\<forall>b. b \<noteq> unat (sb_bmapstart mkfs_sb) \<longrightarrow> img t ! b = img s ! b))"
proof -
  have bm: "unat (sb_bmapstart mkfs_sb) < FSSIZE" by (simp add: mkfs_sb_def mk_consts)
  have len: "length (fold bm_set [0..<n] (replicate BSIZE 0)) = BSIZE" using bm_sets_bits [of n 0] n by simp
  have "unat (sb_bmapstart mkfs_sb) < length (img s)" using bm ok by (simp add: image_ok_def)
  then show ?thesis
    using n bm_sets_bits image_ok_upd [OF ok len] by (simp add: mkfs_balloc_def wsect_run [OF ok bm])
qed

end
