(* ===== verification/Spec2Isabelle.thy ===== *)
theory Spec2Isabelle
  imports Codec Cstring Block_Cache Log_Props Kalloc Sched_Props Vm_Props Fs_Blocks Proc_Props Sysproc
    Grep Uthread Spinlock Umalloc Console Exec Shell_Props Trap_Props Mkfs
begin

text \<open>
  Verification of the xv6 kernel under \<^verbatim>\<open>src/xv6-L8\<close>: xv6 for RISC-V with an earliest-deadline-first
  scheduler, copy-on-write \<^verbatim>\<open>fork\<close>, mutexes and symbolic links.

  \<^bold>\<open>Parts and how they interact.\<close> \<^verbatim>\<open>kernel/kalloc.c\<close> hands out physical pages with reference counts;
  \<^verbatim>\<open>kernel/vm.c\<close> builds page tables in those pages and copies between kernel and user memory;
  \<^verbatim>\<open>kernel/proc.c\<close> keeps the process table, the ready queue and the life of processes.
  \<^verbatim>\<open>kernel/sleeplock.c\<close>, \<^verbatim>\<open>kernel/bio.c\<close>, \<^verbatim>\<open>kernel/log.c\<close> and \<^verbatim>\<open>kernel/fs.c\<close> are the layers of the file
  system, \<^verbatim>\<open>kernel/file.c\<close>, \<^verbatim>\<open>kernel/pipe.c\<close> and \<^verbatim>\<open>kernel/console.c\<close> the open files on top of them,
  \<^verbatim>\<open>kernel/exec.c\<close> the loader, and
  \<^verbatim>\<open>kernel/sysfile.c\<close>, \<^verbatim>\<open>kernel/sysproc.c\<close> and \<^verbatim>\<open>kernel/syscall.c\<close> the system calls. A user program enters the kernel
  through \<^verbatim>\<open>kernel/trampoline.S\<close> and \<^verbatim>\<open>kernel/trap.c\<close>, the disk is driven by \<^verbatim>\<open>kernel/virtio_disk.c\<close>, and
  \<^verbatim>\<open>kernel/kernelvec.S\<close>, \<^verbatim>\<open>kernel/swtch.S\<close> and \<^verbatim>\<open>kernel/start.c\<close> are the machine's side of switching and starting.

  \<^bold>\<open>Theories.\<close> Every operation is a definition with the name of its C function.
  \<^item> \<open>Kernel_Prelude\<close>: machine types, the computation type \<open>kmon\<close> (a C function returns a value and a
    new state, or stops by \<^verbatim>\<open>panic\<close>, by a \<^verbatim>\<open>sleep\<close> only another process can end, or by an access
    outside an array), \<open>wp\<close> and its rules, invariance rules (\<open>keeps_intros\<close>), list lemmas.
  \<^item> \<open>Codec\<close>, \<open>Fs_Layout\<close>: little-endian layouts and the on-disk structures of \<^verbatim>\<open>kernel/fs.h\<close>; the
    interface \<open>codec\<close> with one interpretation per structure.
  \<^item> \<open>Cstring\<close>: \<^verbatim>\<open>kernel/string.c\<close>; overlap-safe copying, \<^verbatim>\<open>strlen\<close> returns exactly on terminated strings.
  \<^item> \<open>Kalloc\<close>: \<^verbatim>\<open>kernel/kalloc.c\<close>; the free list is threaded through memory. Initialisation, allocation,
    freeing at the last reference, counting.
  \<^item> \<open>Sched\<close>, \<open>Edf\<close>, \<open>Sched_Props\<close>: process table, ready queue, scheduler, sleep and wakeup, kill and
    mutexes of \<^verbatim>\<open>kernel/proc.c\<close>. The array loops of the ready queue are stable insertion and removal
    in a sorted list; the scheduler picks a process no other candidate precedes.
  \<^item> \<open>Vm\<close>, \<open>Vm_Props\<close>: \<^verbatim>\<open>kernel/vm.c\<close> and the page-table parts of \<^verbatim>\<open>kernel/proc.c\<close>; translation after
    mapping, what \<^verbatim>\<open>cowfault\<close> grants, the layout of \<^verbatim>\<open>struct sched_attr\<close>.
  \<^item> \<open>Sleeplock\<close>, \<open>Dll\<close>, \<open>Bio\<close>, \<open>Block_Cache\<close>: \<^verbatim>\<open>kernel/sleeplock.c\<close> and \<^verbatim>\<open>kernel/bio.c\<close>, with the
    least-recently-used list as linked nodes, and the interfaces \<open>block_reader\<close> and \<open>block_cache\<close> the
    upper layers are proved against.
  \<^item> \<open>Log\<close>, \<open>Log_Crash\<close>, \<open>Journal\<close>, \<open>Log_Props\<close>: \<^verbatim>\<open>kernel/log.c\<close>; commit, recovery after a crash at
    any disk write, log space under any interleaving of operations, the interface \<open>journal\<close>.
  \<^item> \<open>Sysproc\<close>: the system calls on processes and mutexes, with their arguments from the trapframe.
  \<^item> \<open>Fs\<close>, \<open>Fs_Dir\<close>, \<open>File\<close>, \<open>Sysfile\<close>, \<open>Fs_Props\<close>, \<open>Fs_Blocks\<close>: \<^verbatim>\<open>kernel/fs.c\<close>, \<^verbatim>\<open>kernel/file.c\<close>, \<^verbatim>\<open>kernel/pipe.c\<close>,
    \<^verbatim>\<open>kernel/sysfile.c\<close>; block allocation against the interface \<open>journal\<close>,
    the block bitmap, the inode table, path splitting, pipes as bounded queues.
  \<^item> \<open>Spinlock\<close>: \<^verbatim>\<open>kernel/spinlock.c\<close> at the grain of its atomic steps, with a step relation that
    interleaves the harts; mutual exclusion, and the deadlock of two lock orders of the kernel.
  \<^item> \<open>User_Io\<close>, \<open>Printf\<close>: \<^verbatim>\<open>user/ulib.c\<close>, \<^verbatim>\<open>user/printf.c\<close> and the formatting of \<^verbatim>\<open>kernel/printf.c\<close>. User
    programs read from files that give their bytes in pieces of any size; the digits of a number fit
    their buffer and are read back by \<^verbatim>\<open>atoi\<close>, and both \<^verbatim>\<open>printf\<close> print the same text.
  \<^item> \<open>Grep\<close>: \<^verbatim>\<open>user/grep.c\<close>; the matcher against the language of its patterns, the input loop against
    the list of matching lines.
  \<^item> \<open>Uthread\<close>: \<^verbatim>\<open>user/uthread.c\<close>; the scheduler of user threads reaches every runnable thread.
  \<^item> \<open>Console\<close>: \<^verbatim>\<open>kernel/console.c\<close>, the data path of \<^verbatim>\<open>kernel/uart.c\<close>, \<^verbatim>\<open>procdump\<close>, and reading and writing of
    files of every kind. The circular input buffer against a line editor, reads against the lines
    that are ready, writes against the bytes sent; \<^verbatim>\<open>fileread\<close> and \<^verbatim>\<open>filewrite\<close> return where they wait.
  \<^item> \<open>Exec\<close>: \<^verbatim>\<open>kernel/exec.c\<close>, \<^verbatim>\<open>kernel/elf.h\<close> and \<^verbatim>\<open>sys_exec\<close>; where the argument strings lie on the new stack.
  \<^item> \<open>Shell\<close>, \<open>Shell_Props\<close>: scanner, parser and line reading of \<^verbatim>\<open>user/sh.c\<close>; the parser ends, stays
    inside its arrays, leaves C strings behind, and reads back every printed command tree.
  \<^item> \<open>Umalloc\<close>: \<^verbatim>\<open>user/umalloc.c\<close>; the circular list of free blocks against the set of free bytes.
  \<^item> \<open>Proc\<close>, \<open>Proc_Props\<close>: \<^verbatim>\<open>allocproc\<close>, \<^verbatim>\<open>freeproc\<close>, \<^verbatim>\<open>kfork\<close>, \<^verbatim>\<open>kexit\<close>, \<^verbatim>\<open>kwait\<close> of \<^verbatim>\<open>kernel/proc.c\<close>.
  \<^item> \<open>Riscv\<close>, \<open>Trampoline\<close>: registers, modes, traps and the instructions the kernel's assembly uses, the accessors
    of \<^verbatim>\<open>kernel/riscv.h\<close>, and \<^verbatim>\<open>trampoline.S\<close>, \<^verbatim>\<open>kernelvec.S\<close>, \<^verbatim>\<open>swtch.S\<close>, \<^verbatim>\<open>entry.S\<close> and \<^verbatim>\<open>start.c\<close>. A trap inside the kernel gives
    all registers back, a saved context is resumed where it was left, \<^verbatim>\<open>start\<close> enters \<^verbatim>\<open>main\<close> in supervisor mode.
  \<^item> \<open>Virtio\<close>, \<open>Virtio_Props\<close>: \<^verbatim>\<open>kernel/virtio_disk.c\<close>. The device is a relation with the rules of the virtio
    specification as hypotheses; the three-descriptor chains and the two rings implement requests that
    are started, carried out and ended, and the driver never panics.
  \<^item> \<open>Trap\<close>, \<open>Trap_Props\<close>: \<^verbatim>\<open>kernel/trap.c\<close>, the dispatcher of \<^verbatim>\<open>kernel/syscall.c\<close>, \<^verbatim>\<open>kernel/plic.c\<close> and \<^verbatim>\<open>forkret\<close>. A disk interrupt
    is invisible to the user program, and \<^verbatim>\<open>getpid\<close> is followed from the \<^verbatim>\<open>ecall\<close> instruction to the one after it.
  \<^item> \<open>Mkfs\<close>: \<^verbatim>\<open>mkfs/mkfs.c\<close> on the image as a list of blocks; appending to a file through direct and indirect
    blocks, and the bitmap of the blocks handed out.

  \<^bold>\<open>State.\<close> One record per component, each extending the one below: \<open>thread\<close>, \<open>kmem_state\<close>,
  \<open>sched_state\<close>, \<open>disk_state\<close>, \<open>bio_state\<close>, \<open>log_state\<close>, \<open>fs_state\<close>, \<open>file_state\<close>, \<open>cons_state\<close>,
  \<open>vdisk_state\<close>, \<open>trap_state\<close>. Tables are lists,
  pointers into them are indices, counters of C type \<^verbatim>\<open>int\<close> are \<open>int\<close> and unsigned fields are words of
  their width. A section between \<^verbatim>\<open>acquire\<close> and \<^verbatim>\<open>release\<close> of a spin lock is atomic, which the
  mutual exclusion of \<open>Spinlock\<close> justifies; where the code gives
  a lock up in the middle and that matters (\<^verbatim>\<open>yield\<close>, \<^verbatim>\<open>sleep\<close>) the operation is cut into steps.
  Addresses from the linker script and the value of \<^verbatim>\<open>myproc()\<close> are arguments. The sleep locks and
  the log record the channels they wake in \<open>woken\<close>; pipes, mutexes and processes call \<open>wakeup\<close>.

  \<^bold>\<open>Loops and bounds.\<close> Loops over a table are \<open>for_each\<close>; loops over a range of pages, bitmap blocks or
  directory entries run a number of times fixed before the first turn; copies recurse on the bytes
  left; \<^verbatim>\<open>freewalk\<close> recurses along the three levels of a page table. Loops that may not end (\<^verbatim>\<open>strlen\<close>,
  the walks of the free lists) are partial functions, and their theorems state that they return. The
  parser of the shell takes the depth of its recursion as an argument; one more than the length of the
  line is enough, because every nested call starts behind the token that led to it.

  \<^bold>\<open>Hardware.\<close> Registers of a hart are a record; address translation is a parameter, and the theorems
  that need it assume that the pages in question are mapped, which the kernel's page tables arrange. What
  a handler reads from device registers is an argument, what it writes is a recorded sequence. The
  buffer cache is proved over a disk that is an array of blocks with a trace of writes; the driver is
  proved to carry out such reads and writes one by one.

  \<^bold>\<open>Not modelled.\<close> \<^verbatim>\<open>kernel/main.c\<close> (the order of the calls at start), the registers \<^verbatim>\<open>uartinit\<close> sets, the
  loop at the end of \<^verbatim>\<open>panic\<close>, \<^verbatim>\<open>runcmd\<close> of the shell and the small user programs, because they only call what is modelled;
  instruction timing and the memory barriers, which have no effect in a model with one memory. The test
  programs call the system from outside.
\<close>

end
